(* ===== verification/Py_Float.thy ===== *)
theory Py_Float
  imports Complex_Main "HOL-Library.Log_Nat"
begin

text \<open>
  Python's \<open>float\<close>: IEEE 754 binary64 with round-half-even, as far as the control core uses it.
  A finite float is the rational number it denotes (the sign of zero is not represented: no
  comparison of the modelled code can see it), and every arithmetic operation computes the exact
  rational result and rounds it once with \<open>fl\<close>. The lemmas show that rounding is monotone and
  leaves representable numbers alone, which is what the conservative interval checks of the
  safety policy rest on.
\<close>

section \<open>Rounding a positive rational to binary64\<close>

datatype pyfloat = Fin rat | PosInf | NegInf | NaN

text \<open>\<open>ilog2 x\<close> is the exponent of the leading binary digit of a positive \<open>x\<close>.\<close>

definition ilog2 :: "rat \<Rightarrow> int" where
  "ilog2 x = (case quotient_of x of (a, b) \<Rightarrow>
     let k = bitlen a - bitlen b in if 2 powi k \<le> x then k else k - 1)"

definition round_half_even :: "rat \<Rightarrow> int" where
  "round_half_even q = (let n = \<lfloor>q\<rfloor>; r = q - of_int n in
     if r < 1/2 then n else if 1/2 < r then n + 1 else if even n then n else n + 1)"

text \<open>The exponent of the unit in the last place: 53 significant bits, subnormals below.\<close>

definition fexp :: "rat \<Rightarrow> int" where
  "fexp x = max (ilog2 x - 52) (-1074)"

definition flmag :: "rat \<Rightarrow> rat" where
  "flmag x = (if x = 0 then 0 else of_int (round_half_even (x / 2 powi fexp x)) * 2 powi fexp x)"

definition fl :: "rat \<Rightarrow> pyfloat" where
  "fl x = (let m = flmag \<bar>x\<bar> in
     if 2 ^ 1024 \<le> m then (if x < 0 then NegInf else PosInf)
     else Fin (if x < 0 then - m else m))"

subsection \<open>Arithmetic and comparison\<close>

fun isfinite :: "pyfloat \<Rightarrow> bool" where
  "isfinite (Fin _) = True"
| "isfinite _ = False"

fun fneg :: "pyfloat \<Rightarrow> pyfloat" where
  "fneg (Fin x) = Fin (- x)"
| "fneg PosInf = NegInf"
| "fneg NegInf = PosInf"
| "fneg NaN = NaN"

fun fadd :: "pyfloat \<Rightarrow> pyfloat \<Rightarrow> pyfloat" where
  "fadd NaN _ = NaN"
| "fadd _ NaN = NaN"
| "fadd (Fin x) (Fin y) = fl (x + y)"
| "fadd PosInf NegInf = NaN"
| "fadd NegInf PosInf = NaN"
| "fadd PosInf _ = PosInf"
| "fadd _ PosInf = PosInf"
| "fadd NegInf _ = NegInf"
| "fadd _ NegInf = NegInf"

definition fsub :: "pyfloat \<Rightarrow> pyfloat \<Rightarrow> pyfloat" where
  "fsub a b = fadd a (fneg b)"

fun fabs :: "pyfloat \<Rightarrow> pyfloat" where
  "fabs (Fin x) = Fin \<bar>x\<bar>"
| "fabs PosInf = PosInf"
| "fabs NegInf = PosInf"
| "fabs NaN = NaN"

text \<open>The sign of an operand of a product, as \<open>-1\<close>, \<open>0\<close> or \<open>1\<close>.\<close>

fun fsgn :: "pyfloat \<Rightarrow> rat" where
  "fsgn (Fin x) = sgn x"
| "fsgn PosInf = 1"
| "fsgn NegInf = - 1"
| "fsgn NaN = 0"

fun fmul :: "pyfloat \<Rightarrow> pyfloat \<Rightarrow> pyfloat" where
  "fmul NaN _ = NaN"
| "fmul _ NaN = NaN"
| "fmul (Fin x) (Fin y) = fl (x * y)"
| "fmul a b = (let s = fsgn a * fsgn b in
     if s = 0 then NaN else if 0 < s then PosInf else NegInf)"

text \<open>Division by anything but a zero, on which Python raises.\<close>

fun fdiv :: "pyfloat \<Rightarrow> pyfloat \<Rightarrow> pyfloat" where
  "fdiv NaN _ = NaN"
| "fdiv _ NaN = NaN"
| "fdiv (Fin x) (Fin y) = fl (x / y)"
| "fdiv (Fin _) _ = Fin 0"
| "fdiv a (Fin y) = (if 0 < fsgn a * sgn y then PosInf else NegInf)"
| "fdiv _ _ = NaN"

text \<open>Comparisons: every comparison with a NaN is false.\<close>

fun fle :: "pyfloat \<Rightarrow> pyfloat \<Rightarrow> bool" where
  "fle NaN _ = False"
| "fle _ NaN = False"
| "fle (Fin x) (Fin y) = (x \<le> y)"
| "fle NegInf _ = True"
| "fle _ PosInf = True"
| "fle _ _ = False"

fun flt :: "pyfloat \<Rightarrow> pyfloat \<Rightarrow> bool" where
  "flt NaN _ = False"
| "flt _ NaN = False"
| "flt (Fin x) (Fin y) = (x < y)"
| "flt NegInf NegInf = False"
| "flt NegInf _ = True"
| "flt PosInf _ = False"
| "flt _ PosInf = True"
| "flt _ NegInf = False"

subsection \<open>Six significant digits\<close>

text \<open>
  The number that the text of \<open>f"{x:.6g}"\<close> denotes: two values have the same text exactly when
  they have the same \<open>fmt6\<close> (but for the sign of zero).
\<close>

definition ilog10 :: "rat \<Rightarrow> int" where
  "ilog10 x = (case quotient_of x of (a, b) \<Rightarrow>
     let k = int (floorlog 10 (nat a)) - int (floorlog 10 (nat b))
     in if 10 powi k \<le> x then k else k - 1)"

definition sig6 :: "rat \<Rightarrow> rat" where
  "sig6 x = (if x = 0 then 0 else
     let e = ilog10 \<bar>x\<bar> - 5 in
     sgn x * of_int (round_half_even (\<bar>x\<bar> / 10 powi e)) * 10 powi e)"

fun fmt6 :: "pyfloat \<Rightarrow> pyfloat" where
  "fmt6 (Fin x) = Fin (sig6 x)"
| "fmt6 PosInf = PosInf"
| "fmt6 NegInf = NegInf"
| "fmt6 NaN = NaN"

section \<open>Rounding is monotone\<close>

lemma ilog2_bounds:
  assumes "0 < x"
  shows "2 powi ilog2 x \<le> x" and "x < 2 powi (ilog2 x + 1)"
proof -
  obtain a b where ab: "quotient_of x = (a, b)" by (cases "quotient_of x")
  then have b: "0 < b" and x: "x = of_int a / of_int b"
    by (auto simp: quotient_of_denom_pos quotient_of_div)
  with assms have a: "0 < a" by (simp add: zero_less_divide_iff)
  define la lb where "la = bitlen a" and "lb = bitlen b"
  have "2 ^ nat (la - 1) \<le> a" "a < 2 ^ nat la" "2 ^ nat (lb - 1) \<le> b" "b < 2 ^ nat lb"
    using bitlen_bounds [OF a] bitlen_bounds [OF b] by (auto simp: la_def lb_def)
  then have "(of_int (2 ^ nat (la - 1)) :: rat) \<le> of_int a" "(of_int a :: rat) < of_int (2 ^ nat la)"
    "(of_int (2 ^ nat (lb - 1)) :: rat) \<le> of_int b" "(of_int b :: rat) < of_int (2 ^ nat lb)"
    by (simp_all only: of_int_le_iff of_int_less_iff)
  moreover have "1 \<le> la" "1 \<le> lb"
    using a b by (auto simp: la_def lb_def bitlen_def floorlog_def)
  ultimately have bnd: "2 powi (la - 1) \<le> (of_int a :: rat)" "(of_int a :: rat) < 2 powi la"
    "2 powi (lb - 1) \<le> (of_int b :: rat)" "(of_int b :: rat) < 2 powi lb"
    by (simp_all add: power_int_def)
  have up: "x < 2 powi (la - lb + 1)"
  proof -
    have "x < 2 powi la / 2 powi (lb - 1)"
      unfolding x using bnd a b by (intro frac_less) auto
    then show ?thesis by (simp add: power_int_diff field_simps power_int_add)
  qed
  have lo: "2 powi (la - lb - 1) \<le> x"
  proof -
    have "2 powi (la - 1) / 2 powi lb \<le> x"
      unfolding x using bnd a b by (intro frac_le) auto
    then show ?thesis by (simp add: power_int_diff field_simps power_int_add)
  qed
  show "2 powi ilog2 x \<le> x" and "x < 2 powi (ilog2 x + 1)"
    using lo up by (auto simp: ilog2_def ab la_def lb_def Let_def)
qed

lemma ilog2_mono:
  assumes "0 < x" "x \<le> y"
  shows "ilog2 x \<le> ilog2 y"
proof (rule ccontr)
  assume "\<not> ilog2 x \<le> ilog2 y"
  then have "2 powi (ilog2 y + 1) \<le> (2 powi ilog2 x :: rat)"
    by (intro power_int_increasing) auto
  with ilog2_bounds [of x] ilog2_bounds [of y] assms show False by force
qed

lemma fexp_mono: "0 < x \<Longrightarrow> x \<le> y \<Longrightarrow> fexp x \<le> fexp y"
  by (auto simp: fexp_def dest: ilog2_mono)

lemma round_half_even_bounds: "\<lfloor>q\<rfloor> \<le> round_half_even q" "round_half_even q \<le> \<lfloor>q\<rfloor> + 1"
  by (auto simp: round_half_even_def Let_def)

lemma round_half_even_of_int [simp]: "round_half_even (of_int n) = n"
  by (simp add: round_half_even_def)

lemma round_half_even_numeral [simp]: "round_half_even (numeral n) = numeral n"
  using round_half_even_of_int [of "numeral n"] by simp

lemma round_half_even_mono: "p \<le> q \<Longrightarrow> round_half_even p \<le> round_half_even q"
proof -
  assume pq: "p \<le> q"
  then have "\<lfloor>p\<rfloor> \<le> \<lfloor>q\<rfloor>" by (rule floor_mono)
  then consider "\<lfloor>p\<rfloor> = \<lfloor>q\<rfloor>" | "\<lfloor>p\<rfloor> + 1 \<le> \<lfloor>q\<rfloor>" by linarith
  then show ?thesis
  proof cases
    case 1
    with pq show ?thesis by (auto simp: round_half_even_def Let_def)
  next
    case 2
    with round_half_even_bounds [of p] round_half_even_bounds [of q] show ?thesis by linarith
  qed
qed

lemma flmag_mono_pos:
  assumes "0 < x" "x \<le> y"
  shows "flmag x \<le> flmag y"
proof -
  let ?e = "fexp x" and ?f = "fexp y"
  from assms have y: "0 < y" by simp
  have ef: "?e \<le> ?f" using assms by (rule fexp_mono)
  show ?thesis
  proof (cases "?e = ?f")
    case True
    have "x / 2 powi ?f \<le> y / 2 powi ?f" using assms by (intro divide_right_mono) auto
    then have "round_half_even (x / 2 powi ?f) \<le> round_half_even (y / 2 powi ?f)"
      by (rule round_half_even_mono)
    with assms y True show ?thesis by (simp add: flmag_def)
  next
    case False
    with ef have lt: "?e + 1 \<le> ?f" by simp
    have fy: "?f = ilog2 y - 52" using lt by (auto simp: fexp_def max_def split: if_splits)
    have "x < 2 powi (?e + 53)"
    proof -
      have "x < 2 powi (ilog2 x + 1)" using assms ilog2_bounds by blast
      also have "\<dots> \<le> 2 powi (?e + 53)" by (intro power_int_increasing) (auto simp: fexp_def)
      finally show ?thesis .
    qed
    then have "x / 2 powi ?e \<le> of_int (2 ^ 53)"
      by (simp add: power_int_add field_simps)
    then have "round_half_even (x / 2 powi ?e) \<le> 2 ^ 53"
      using round_half_even_mono [of _ "of_int (2 ^ 53)"] by simp
    then have "(of_int (round_half_even (x / 2 powi ?e)) :: rat) \<le> of_int (2 ^ 53)"
      by (simp only: of_int_le_iff)
    then have a: "flmag x \<le> 2 powi (?e + 53)"
      using assms by (simp add: flmag_def power_int_add mult_right_mono)
    have "2 powi (?f + 52) \<le> y" using ilog2_bounds [OF y] by (simp add: fy)
    then have "of_int (2 ^ 52) \<le> y / 2 powi ?f"
      by (simp add: power_int_add field_simps)
    then have "2 ^ 52 \<le> round_half_even (y / 2 powi ?f)"
      using round_half_even_mono [of "of_int (2 ^ 52)"] by simp
    then have "(of_int (2 ^ 52) :: rat) \<le> of_int (round_half_even (y / 2 powi ?f))"
      by (simp only: of_int_le_iff)
    then have b: "2 powi (?f + 52) \<le> flmag y"
      using y by (simp add: flmag_def power_int_add mult_right_mono)
    have "(2 :: rat) powi (?e + 53) \<le> 2 powi (?f + 52)"
      using lt by (intro power_int_increasing) auto
    with a b show ?thesis by linarith
  qed
qed

lemma flmag_nonneg: "0 \<le> x \<Longrightarrow> 0 \<le> flmag x"
  using round_half_even_mono [of 0 "x / 2 powi fexp x"] round_half_even_of_int [of 0]
  by (simp add: flmag_def)

lemma flmag_mono: "0 \<le> x \<Longrightarrow> x \<le> y \<Longrightarrow> flmag x \<le> flmag y"
  using flmag_mono_pos [of x y] flmag_nonneg [of y] by (cases "x = 0") (auto simp: flmag_def)

lemma fl_mono:
  assumes "x \<le> y"
  shows "fle (fl x) (fl y)"
proof -
  consider "0 \<le> x" "0 \<le> y" | "x < 0" "0 \<le> y" | "x < 0" "y < 0" using assms by linarith
  then show ?thesis
  proof cases
    case 1
    with assms flmag_mono [of x y] show ?thesis by (auto simp: fl_def Let_def)
  next
    case 2
    with flmag_nonneg [of "- x"] flmag_nonneg [of y] show ?thesis
      by (auto simp: fl_def Let_def)
  next
    case 3
    with assms flmag_mono [of "- y" "- x"] show ?thesis by (auto simp: fl_def Let_def)
  qed
qed

text \<open>Evaluation of a small rational, without comparing it with \<open>2 ^ 1024\<close>.\<close>

lemma fl_smallI:
  assumes "flmag \<bar>x\<bar> = m" "m \<le> 1000000000"
  shows "fl x = Fin (if x < 0 then - m else m)"
proof -
  have "(2 :: rat) ^ 30 \<le> 2 ^ 1024" by (rule power_increasing) simp_all
  with assms have "\<not> 2 ^ 1024 \<le> m" by simp
  with assms(1) show ?thesis by (simp add: fl_def)
qed

lemma fl_not_NaN [simp]: "fl x \<noteq> NaN" "NaN \<noteq> fl x"
  by (auto simp: fl_def Let_def)

lemma fle_trans: "fle a b \<Longrightarrow> fle b c \<Longrightarrow> fle a c"
  by (cases a; cases b; cases c) auto

lemma flt_not_fle: "a \<noteq> NaN \<Longrightarrow> b \<noteq> NaN \<Longrightarrow> flt a b \<longleftrightarrow> \<not> fle b a"
  by (cases a; cases b) auto

text \<open>A rational is a binary64 number when rounding leaves it alone.\<close>

definition is_f64 :: "rat \<Rightarrow> bool" where
  "is_f64 r \<longleftrightarrow> fl r = Fin r"

lemma fl_ge_f64: "is_f64 r \<Longrightarrow> r \<le> x \<Longrightarrow> fle (Fin r) (fl x)"
  using fl_mono [of r x] by (simp add: is_f64_def)

lemma fl_le_f64: "is_f64 r \<Longrightarrow> x \<le> r \<Longrightarrow> fle (fl x) (Fin r)"
  using fl_mono [of x r] by (simp add: is_f64_def)

text \<open>Powers of two are exact, so everything from \<open>2 ^ 1024\<close> on overflows.\<close>

lemma ilog2_power: "ilog2 (2 ^ k) = int k"
proof -
  have p: "(2 :: rat) ^ k = 2 powi int k" by simp
  from ilog2_bounds [of "2 ^ k"] have "(2 :: rat) powi ilog2 (2 ^ k) \<le> 2 powi int k" "(2 :: rat) powi int k < 2 powi (ilog2 (2 ^ k) + 1)"
    by (simp_all only: p) simp_all
  then have "ilog2 (2 ^ k) \<le> int k" "int k < ilog2 (2 ^ k) + 1"
    using power_int_strict_increasing [of "int k" "ilog2 (2 ^ k)" "2 :: rat"]
      power_int_increasing [of "ilog2 (2 ^ k) + 1" "int k" "2 :: rat"] by (force simp: not_le, force simp: not_less)
  then show ?thesis by simp
qed

lemma flmag_power:
  assumes "52 \<le> k"
  shows "flmag (2 ^ k) = 2 ^ k"
proof -
  have e: "fexp (2 ^ k) = int (k - 52)" using assms by (simp add: fexp_def ilog2_power)
  have k: "(2 :: rat) ^ k = of_int (2 ^ 52) * 2 ^ (k - 52)" using assms by (simp only: of_int_power of_int_numeral power_add [symmetric]) simp
  have "flmag (2 ^ k) = of_int (round_half_even (2 ^ k / 2 ^ (k - 52))) * 2 ^ (k - 52)" by (simp add: flmag_def e)
  also have "(2 :: rat) ^ k / 2 ^ (k - 52) = of_int (2 ^ 52)" by (subst k) (rule nonzero_mult_div_cancel_right, simp)
  finally show ?thesis by (simp only: round_half_even_of_int k [symmetric])
qed

lemma fl_overflow: "2 ^ 1024 \<le> x \<Longrightarrow> fl x = PosInf"
proof -
  assume "2 ^ 1024 \<le> x"
  moreover have "(0 :: rat) < 2 ^ 1024" by simp
  ultimately have x: "0 < x" "flmag (2 ^ 1024) \<le> flmag x"
    by (linarith, intro flmag_mono) simp_all
  then have "2 ^ 1024 \<le> flmag x" using flmag_power [of 1024] by simp
  with x(1) show ?thesis by (simp add: fl_def)
qed

end
