(* ===== verification/Bench_Prelude.thy ===== *)
theory Bench_Prelude
  imports Py_Float "HOL-Library.Sublist" "HOL-Library.Char_ord" "HOL-Library.List_Lexorder"
begin

text \<open>
  What every component shares: Python values as the documents, inputs and device results carry
  them, exceptions as the left summand of a sum, the "append what is not there yet" loop, and the
  generic lemmas on lists and results that carry the component proofs.
\<close>

named_theorems frame_simps \<open>which fields of a state an operation leaves alone\<close>
named_theorems inv_intros \<open>operations preserve the invariant of their component\<close>

section \<open>Exceptions and results\<close>

text \<open>
  An exception is the class and the message where the code looks at them. \<open>PluginRaised\<close> is
  any exception a plugin's own code raises; \<open>Refused\<close> is an \<open>AdmissionRejected\<close> with its text.
\<close>

datatype exn =
    OverflowError
  | IndexError
  | ValueError string
  | KeyError string
  | TypeError string
  | RuntimeError string
  | IntegrityError
  | OperationalError
  | Conflict string
  | LeaseNotActive
  | PluginRaised string string
  | Refused string

fun bind_res :: "'e + 'a \<Rightarrow> ('a \<Rightarrow> 'e + 'b) \<Rightarrow> 'e + 'b" where
  "bind_res (Inl e) f = Inl e"
| "bind_res (Inr x) f = f x"

text \<open>A loop whose body only raises or continues: the first failing element decides.\<close>

fun check_each :: "('a \<Rightarrow> 'e + unit) \<Rightarrow> 'a list \<Rightarrow> 'e + unit" where
  "check_each f [] = Inr ()"
| "check_each f (x # xs) = bind_res (f x) (\<lambda>_. check_each f xs)"

definition guard_res :: "bool \<Rightarrow> 'e \<Rightarrow> 'e + unit" where
  "guard_res ok e = (if ok then Inr () else Inl e)"

lemma bind_res_Inr_iff [simp]: "bind_res r f = Inr y \<longleftrightarrow> (\<exists>x. r = Inr x \<and> f x = Inr y)"
  by (cases r) auto

lemma check_each_Inr_iff: "check_each f xs = Inr () \<longleftrightarrow> (\<forall>x \<in> set xs. f x = Inr ())"
  by (induction xs) auto

lemma bind_res_assoc: "bind_res (bind_res r f) g = bind_res r (\<lambda>x. bind_res (f x) g)"
  by (cases r) auto

lemma check_each_member: "check_each f xs = Inr () \<Longrightarrow> x \<in> set xs \<Longrightarrow> f x = Inr ()"
  by (simp add: check_each_Inr_iff)

lemma bind_unit_Inr: "bind_res r (\<lambda>_. k) = Inr () \<longleftrightarrow> r = Inr () \<and> k = Inr ()"
  for r :: "'e + unit"
  by (cases r) auto

lemma check_each_append:
  "check_each f (xs @ ys) = bind_res (check_each f xs) (\<lambda>_. check_each f ys)"
  by (induction xs) (simp_all add: bind_res_assoc)

lemma guard_res_Inr_iff [simp]: "guard_res ok e = Inr () \<longleftrightarrow> ok"
  by (simp add: guard_res_def)

lemma guard_res_Inl_iff [simp]: "guard_res ok e = Inl e' \<longleftrightarrow> \<not> ok \<and> e' = e"
  by (auto simp: guard_res_def)

section \<open>Appending what is not there yet\<close>

text \<open>
  \<^verbatim>\<open>
  for reason in new:
      if reason not in acc: acc.append(reason)
  \<close>
\<close>

fun add_new :: "'a list \<Rightarrow> 'a list \<Rightarrow> 'a list" where
  "add_new acc [] = acc"
| "add_new acc (x # xs) = add_new (if x \<in> set acc then acc else acc @ [x]) xs"

lemma set_add_new [simp]: "set (add_new acc xs) = set acc \<union> set xs"
  by (induction acc xs rule: add_new.induct) auto

lemma distinct_add_new [simp]: "distinct (add_new acc xs) \<longleftrightarrow> distinct acc"
  by (induction acc xs rule: add_new.induct) auto

lemma prefix_add_new: "prefix acc (add_new acc xs)"
  by (induction acc xs rule: add_new.induct) (auto intro: prefix_order.trans simp: prefix_def)

lemma add_new_absorb [simp]: "set xs \<subseteq> set acc \<Longrightarrow> add_new acc xs = acc"
  by (induction acc xs rule: add_new.induct) auto

lemma add_new_append: "add_new acc (xs @ ys) = add_new (add_new acc xs) ys"
  by (induction acc xs rule: add_new.induct) auto

section \<open>Python values\<close>

text \<open>
  A JSON value, with \<open>JInt\<close> and \<open>JFloat\<close> apart as Python keeps them, objects as association
  lists in insertion order (their keys are distinct), and \<open>JOther\<close> for an object of a class that
  is not JSON (named by its type).
\<close>

datatype pyval =
    JNull
  | JBool bool
  | JInt int
  | JFloat pyfloat
  | JStr string
  | JList "pyval list"
  | JObj "(string \<times> pyval) list"
  | JOther string

type_synonym obj = "(string \<times> pyval) list"

text \<open>\<open>d.get(k)\<close>; a missing key reads as \<open>None\<close>, which is also what a null member reads as.\<close>

definition obj_get :: "obj \<Rightarrow> string \<Rightarrow> pyval" where
  "obj_get d k = (case map_of d k of None \<Rightarrow> JNull | Some v \<Rightarrow> v)"

text \<open>The number a value denotes; ints compare with floats exactly, as Python's do.\<close>

fun num_val :: "pyval \<Rightarrow> pyfloat option" where
  "num_val (JInt i) = Some (Fin (of_int i))"
| "num_val (JFloat f) = Some f"
| "num_val _ = None"

text \<open>\<open>float(x)\<close> of an int rounds, and raises \<open>OverflowError\<close> beyond the largest double.\<close>

definition float_of_int :: "int \<Rightarrow> exn + pyfloat" where
  "float_of_int i = (case fl (of_int i) of Fin r \<Rightarrow> Inr (Fin r) | _ \<Rightarrow> Inl OverflowError)"

lemma float_of_int_overflow: "2 ^ 1024 \<le> i \<Longrightarrow> float_of_int i = Inl OverflowError"
proof -
  assume "2 ^ 1024 \<le> i"
  then have "of_int (2 ^ 1024) \<le> (of_int i :: rat)" by (rule of_int_le_iff [THEN iffD2])
  then have "2 ^ 1024 \<le> (of_int i :: rat)" by simp
  from fl_overflow [OF this] show ?thesis by (simp add: float_of_int_def)
qed

fun py_float :: "pyval \<Rightarrow> exn + pyfloat" where
  "py_float (JInt i) = float_of_int i"
| "py_float (JFloat f) = Inr f"
| "py_float _ = Inl (TypeError ''float'')"

text \<open>
  A value through \<open>json.dumps(v, sort_keys=True)\<close> and back: members in key order, and
  \<open>TypeError\<close> for what is no JSON value.
\<close>

primrec is_json :: "pyval \<Rightarrow> bool" where
  "is_json JNull = True"
| "is_json (JBool b) = True"
| "is_json (JInt i) = True"
| "is_json (JFloat f) = True"
| "is_json (JStr s) = True"
| "is_json (JList vs) = list_all id (map is_json vs)"
| "is_json (JObj kvs) = list_all snd (map (map_prod id is_json) kvs)"
| "is_json (JOther t) = False"

primrec sort_members :: "pyval \<Rightarrow> pyval" where
  "sort_members JNull = JNull"
| "sort_members (JBool b) = JBool b"
| "sort_members (JInt i) = JInt i"
| "sort_members (JFloat f) = JFloat f"
| "sort_members (JStr s) = JStr s"
| "sort_members (JList vs) = JList (map sort_members vs)"
| "sort_members (JObj kvs) = JObj (sort_key fst (map (map_prod id sort_members) kvs))"
| "sort_members (JOther t) = JOther t"

definition json_column :: "pyval \<Rightarrow> exn + pyval" where
  "json_column v = (if is_json v then Inr (sort_members v) else Inl (TypeError ''json''))"

section \<open>Small printers\<close>

text \<open>\<open>str(n)\<close> of a natural number, as the f-strings that build identifiers use it.\<close>

definition digit_char :: "nat \<Rightarrow> char" where
  "digit_char d = ''0123456789'' ! d"

fun show_nat :: "nat \<Rightarrow> string" where
  "show_nat n = (if n < 10 then [digit_char n] else show_nat (n div 10) @ [digit_char (n mod 10)])"

declare show_nat.simps [simp del]

lemma less_10_cases:
  fixes n :: nat
  assumes "n < 10"
  obtains "n = 0" | "n = 1" | "n = 2" | "n = 3" | "n = 4"
    | "n = 5" | "n = 6" | "n = 7" | "n = 8" | "n = 9"
  using assms by atomize_elim arith

lemma digit_char_inj: "a < 10 \<Longrightarrow> b < 10 \<Longrightarrow> digit_char a = digit_char b \<longleftrightarrow> a = b"
  by (erule less_10_cases; erule less_10_cases) (simp_all add: digit_char_def)

lemma digit_char_not_dot: "d < 10 \<Longrightarrow> digit_char d \<noteq> CHR ''.''"
  by (erule less_10_cases) (simp_all add: digit_char_def)

lemma show_nat_small: "n < 10 \<Longrightarrow> show_nat n = [digit_char n]"
  by (subst show_nat.simps) simp

lemma show_nat_large: "\<not> n < 10 \<Longrightarrow> show_nat n = show_nat (n div 10) @ [digit_char (n mod 10)]"
  by (subst show_nat.simps) simp

lemma show_nat_no_dot: "CHR ''.'' \<notin> set (show_nat n)"
proof (induction n rule: show_nat.induct)
  case (1 n)
  then show ?case
    by (subst show_nat.simps) (auto simp: digit_char_not_dot [symmetric] digit_char_not_dot)
qed

lemma show_nat_nonempty [simp]: "show_nat n \<noteq> []" "[] \<noteq> show_nat n"
  by (subst show_nat.simps, simp)+

lemma show_nat_inj: "show_nat m = show_nat n \<longleftrightarrow> m = n"
proof (induction m arbitrary: n rule: show_nat.induct)
  case (1 m)
  show ?case
  proof (cases "m < 10")
    case True
    then show ?thesis
      by (subst (1 2) show_nat.simps) (auto simp: digit_char_inj)
  next
    case False
    then show ?thesis
    proof (cases "n < 10")
      case True
      with False show ?thesis by (subst (1 2) show_nat.simps) auto
    next
      case n: False
      have "show_nat m = show_nat n \<longleftrightarrow>
          show_nat (m div 10) = show_nat (n div 10) \<and> m mod 10 = n mod 10"
        using False n by (subst (1 2) show_nat.simps) (simp add: digit_char_inj)
      also have "\<dots> \<longleftrightarrow> m div 10 = n div 10 \<and> m mod 10 = n mod 10"
        using "1.IH" False by simp
      also have "\<dots> \<longleftrightarrow> m = n" by (metis div_mult_mod_eq)
      finally show ?thesis .
    qed
  qed
qed

section \<open>List lemmas\<close>

lemma find_Some_set: "List.find P xs = Some x \<Longrightarrow> x \<in> set xs \<and> P x"
  by (auto simp: find_Some_iff)

text \<open>\<open>LIMIT n OFFSET m\<close>: SQLite reads a negative limit as none and a negative offset as 0.\<close>

definition sql_limit :: "int \<Rightarrow> 'a list \<Rightarrow> 'a list" where
  "sql_limit n xs = (if n < 0 then xs else take (nat n) xs)"

definition sql_offset :: "int \<Rightarrow> 'a list \<Rightarrow> 'a list" where
  "sql_offset m xs = drop (nat m) xs"

lemma sort_key_sorted_id: "sorted (map f xs) \<Longrightarrow> sort_key f xs = xs"
  by (rule sort_key_id_if_sorted)

lemma map_of_filter_key: "map_of (filter (\<lambda>p. fst p = k) xs) k = map_of xs k"
  by (induction xs) auto

lemma map_of_sort_key: "map_of (sort_key fst xs) k = map_of xs k"
  by (metis map_of_filter_key sort_key_stable)

lemma take_then_take_after: "take n xs @ take m (drop n xs) = take (n + m) xs"
  by (simp add: take_add)

section \<open>Sequence authorities\<close>

text \<open>\<open>int(row[0] or 0)\<close> over \<open>SELECT MAX(sequence)\<close>.\<close>

definition max_seq :: "nat list \<Rightarrow> nat" where
  "max_seq ns = foldr max ns 0"

text \<open>An unbroken run of numbers, none of them 0.\<close>

definition contiguous :: "nat list \<Rightarrow> bool" where
  "contiguous ns \<longleftrightarrow> (\<exists>a b. 1 \<le> a \<and> ns = [a..<b])"

lemma max_seq_Nil [simp]: "max_seq [] = 0"
  by (simp add: max_seq_def)

lemma max_seq_snoc [simp]: "max_seq (xs @ [x]) = max (max_seq xs) x"
  by (induction xs) (auto simp: max_seq_def)

lemma max_seq_upt_le: "max_seq [a..<b] \<le> b"
proof (induction b)
  case (Suc b)
  then show ?case by (cases "a \<le> b") simp_all
qed simp

lemma max_seq_upt: "a < b \<Longrightarrow> max_seq [a..<b] = b - 1"
  using max_seq_upt_le [of a "b - 1"] by (cases b) (simp_all add: max_absorb2)

lemma contiguous_Nil [simp]: "contiguous []"
  unfolding contiguous_def by (rule exI [of _ 1], rule exI [of _ 1]) simp

lemma contiguous_issue: "contiguous ns \<Longrightarrow> contiguous (ns @ [Suc (max_seq ns)])"
  unfolding contiguous_def
proof (elim exE conjE)
  fix a b assume ab: "1 \<le> a" "ns = [a..<b]"
  show "\<exists>a b. 1 \<le> a \<and> ns @ [Suc (max_seq ns)] = [a..<b]"
  proof (cases "a < b")
    case True
    with ab have "ns @ [Suc (max_seq ns)] = [a..<Suc b]" by (simp add: max_seq_upt)
    with ab show ?thesis by blast
  next
    case False
    with ab have "ns @ [Suc (max_seq ns)] = [1..<2]" by (simp add: numeral_2_eq_2)
    then show ?thesis by (intro exI [of _ 1] exI [of _ 2]) simp
  qed
qed

text \<open>\<open>1, 2, ..., n\<close>.\<close>

definition gap_free :: "nat list \<Rightarrow> bool" where
  "gap_free ns \<longleftrightarrow> ns = [Suc 0..<Suc (length ns)]"

lemma gap_free_Nil [simp]: "gap_free []"
  by (simp add: gap_free_def)

lemma gap_free_max: "gap_free ns \<Longrightarrow> max_seq ns = length ns"
  using max_seq_upt [of "Suc 0" "Suc (length ns)"] unfolding gap_free_def
  by (cases "ns = []") (simp_all del: upt_Suc)

lemma gap_free_issue: "gap_free ns \<Longrightarrow> gap_free (ns @ [Suc (max_seq ns)])"
  unfolding gap_free_def using gap_free_max [of ns] by (simp add: gap_free_def)

lemma gap_free_contiguous: "gap_free ns \<Longrightarrow> contiguous ns"
  unfolding gap_free_def contiguous_def by (metis One_nat_def order_refl)

lemma filter_ge_upt: "filter (\<lambda>n. c \<le> n) [a..<b] = [max a c..<b]"
  by (induction b) (auto simp: max_def)

lemma contiguous_filter_ge: "contiguous ns \<Longrightarrow> contiguous (filter (\<lambda>n. c \<le> n) ns)"
  unfolding contiguous_def
proof (elim exE conjE)
  fix a b assume "1 \<le> a" "ns = [a..<b]"
  then show "\<exists>a b. 1 \<le> a \<and> filter (\<lambda>n. c \<le> n) ns = [a..<b]"
    by (intro exI [of _ "max a c"] exI [of _ b]) (simp add: filter_ge_upt)
qed

lemma contiguous_sorted: "contiguous ns \<Longrightarrow> sorted ns \<and> distinct ns"
  by (auto simp: contiguous_def)

text \<open>
  What a table promises that numbers its rows per key (the leases of a bench, the events of a
  stream): each issue takes the next number of its key and touches no other key.
\<close>

locale seq_authority =
  fixes seqs :: "'s \<Rightarrow> 'k \<Rightarrow> nat list" and issue :: "'k \<Rightarrow> 'x \<Rightarrow> 's \<Rightarrow> ('e + 'r) \<times> 's"
    and number :: "'r \<Rightarrow> nat"
  assumes issue_number: "issue k x s = (Inr r, s') \<Longrightarrow> number r = Suc (max_seq (seqs s k))"
    and issue_seqs: "issue k x s = (Inr r, s') \<Longrightarrow> seqs s' k = seqs s k @ [number r]"
    and issue_other: "issue k x s = (Inr r, s') \<Longrightarrow> j \<noteq> k \<Longrightarrow> seqs s' j = seqs s j"
    and issue_raises: "issue k x s = (Inl e, s') \<Longrightarrow> s' = s"
begin

lemma issue_contiguous:
  assumes "contiguous (seqs s j)"
  shows "contiguous (seqs (snd (issue k x s)) j)"
proof (cases "issue k x s")
  case (Pair r s')
  show ?thesis
  proof (cases r)
    case (Inl e)
    with Pair issue_raises assms show ?thesis by fastforce
  next
    case (Inr n)
    with Pair have i: "issue k x s = (Inr n, s')" by simp
    show ?thesis
      using contiguous_issue [of "seqs s k"] assms
      by (cases "j = k") (simp_all add: i issue_seqs [OF i] issue_number [OF i] issue_other [OF i])
  qed
qed

lemma issue_gap_free:
  assumes "gap_free (seqs s j)"
  shows "gap_free (seqs (snd (issue k x s)) j)"
proof (cases "issue k x s")
  case (Pair r s')
  show ?thesis
  proof (cases r)
    case (Inl e)
    with Pair issue_raises assms show ?thesis by fastforce
  next
    case (Inr n)
    with Pair have i: "issue k x s = (Inr n, s')" by simp
    show ?thesis
      using gap_free_issue [of "seqs s k"] assms
      by (cases "j = k") (simp_all add: i issue_seqs [OF i] issue_number [OF i] issue_other [OF i])
  qed
qed

lemma issue_fresh:
  assumes i: "issue k x s = (Inr r, s')" and "contiguous (seqs s k)"
  shows "\<forall>m \<in> set (seqs s k). m < number r"
proof -
  obtain a b where ab: "seqs s k = [a..<b]" using assms(2) by (auto simp: contiguous_def)
  show ?thesis
  proof (cases "a < b")
    case True
    with ab issue_number [OF i] show ?thesis by (auto simp: max_seq_upt)
  next
    case False
    with ab show ?thesis by simp
  qed
qed

end

end
