(* ===== verification/Py_Text.thy ===== *)
theory Py_Text
  imports Bench_Prelude
begin

text \<open>
  The string and time functions of Python's library that the control core uses: \<open>str.split\<close>
  with a separator, \<open>str.replace\<close>, \<open>datetime.fromisoformat\<close> on the extended calendar form
  \<open>YYYY-MM-DD[THH[:MM[:SS[.f+]]][Z|+-HH[:MM[:SS]]]]\<close> (the \<open>date-time\<close> form every schema of the
  repository asks for; the basic and week-date forms are not read), \<open>datetime + timedelta\<close> with
  its range check, and \<open>datetime.isoformat\<close>. Text is a list of bytes (UTF-8).
\<close>

section \<open>Strings\<close>

fun split_on :: "char \<Rightarrow> string \<Rightarrow> string list" where
  "split_on c [] = [[]]"
| "split_on c (x # xs) =
     (if x = c then [] # split_on c xs
      else (case split_on c xs of [] \<Rightarrow> [[x]] | w # ws \<Rightarrow> (x # w) # ws))"

lemma split_on_nonempty [simp]: "split_on c s \<noteq> []"
  by (induction s) (auto split: list.splits)

lemma split_on_no_sep: "c \<notin> set s \<Longrightarrow> split_on c s = [s]"
  by (induction s) auto

lemma split_on_append_sep: "c \<notin> set w \<Longrightarrow> split_on c (w @ c # s) = w # split_on c s"
  by (induction w) auto

text \<open>\<open>sep.join(xs)\<close>.\<close>

fun py_join :: "string \<Rightarrow> string list \<Rightarrow> string" where
  "py_join sep [] = []"
| "py_join sep [x] = x"
| "py_join sep (x # xs) = x @ sep @ py_join sep xs"

function replace_all :: "string \<Rightarrow> string \<Rightarrow> string \<Rightarrow> string" where
  "replace_all pat rep s =
     (if pat = [] then s
      else (case s of [] \<Rightarrow> []
            | x # xs \<Rightarrow> if prefix pat s then rep @ replace_all pat rep (drop (length pat) s)
                        else x # replace_all pat rep xs))"
  by pat_completeness auto
termination
  by (relation "measure (\<lambda>(pat, rep, s). length s)") auto

declare replace_all.simps [simp del]

lemma replace_all_Nil [simp]: "replace_all pat rep [] = []"
  by (subst replace_all.simps) simp

lemma replace_all_skip: "pat \<noteq> [] \<Longrightarrow> \<not> prefix pat (x # xs) \<Longrightarrow>
    replace_all pat rep (x # xs) = x # replace_all pat rep xs"
  by (subst replace_all.simps) simp

lemma replace_all_hit: "pat \<noteq> [] \<Longrightarrow>
    replace_all pat rep (pat @ xs) = rep @ replace_all pat rep xs"
  by (subst replace_all.simps) (cases pat, auto)

fun digit_val :: "char \<Rightarrow> nat option" where
  "digit_val c = (let n = of_char c in if 48 \<le> n \<and> n \<le> 57 then Some (n - 48) else None)"

fun digits_val :: "nat \<Rightarrow> string \<Rightarrow> nat option" where
  "digits_val acc [] = Some acc"
| "digits_val acc (c # cs) =
     (case digit_val c of None \<Rightarrow> None | Some d \<Rightarrow> digits_val (10 * acc + d) cs)"

text \<open>A number written with exactly \<open>k\<close> digits.\<close>

definition fixed_num :: "nat \<Rightarrow> string \<Rightarrow> int option" where
  "fixed_num k s = (if length s = k then map_option int (digits_val 0 s) else None)"

text \<open>
  \<open>int(s)\<close> of a decimal text: blanks around it, a sign, single underscores between digits.
\<close>

definition is_blank :: "char \<Rightarrow> bool" where
  "is_blank c = (let n = of_char c :: nat in n = 32 \<or> (9 \<le> n \<and> n \<le> 13) \<or> (28 \<le> n \<and> n \<le> 31))"

definition strip :: "string \<Rightarrow> string" where
  "strip s = rev (dropWhile is_blank (rev (dropWhile is_blank s)))"

fun digits_us :: "nat \<Rightarrow> bool \<Rightarrow> string \<Rightarrow> nat option" where
  "digits_us acc after_digit [] = (if after_digit then Some acc else None)"
| "digits_us acc after_digit (c # cs) =
     (if c = CHR ''_'' then (if after_digit then digits_us acc False cs else None)
      else case digit_val c of None \<Rightarrow> None | Some d \<Rightarrow> digits_us (10 * acc + d) True cs)"

definition py_int :: "string \<Rightarrow> exn + int" where
  "py_int s = (let t = strip s; r = (if t \<noteq> [] \<and> hd t = CHR ''-'' then map_option (\<lambda>n. - int n) (digits_us 0 False (tl t))
       else if t \<noteq> [] \<and> hd t = CHR ''+'' then map_option int (digits_us 0 False (tl t))
       else map_option int (digits_us 0 False t))
     in case r of None \<Rightarrow> Inl (ValueError ''int'') | Some i \<Rightarrow> Inr i)"

lemma digit_char_facts: "d < 10 \<Longrightarrow>
    digit_val (digit_char d) = Some d \<and> digit_char d \<noteq> CHR ''_'' \<and> digit_char d \<noteq> CHR ''-'' \<and>
    digit_char d \<noteq> CHR ''+'' \<and> \<not> is_blank (digit_char d)"
  by (erule less_10_cases) (simp_all add: digit_char_def is_blank_def)

lemma digits_us_show_nat: "digits_us 0 b (show_nat n @ ys) = digits_us n True ys"
proof (induction n arbitrary: b ys rule: show_nat.induct)
  case (1 n)
  show ?case
  proof (cases "n < 10")
    case True
    then show ?thesis by (simp add: show_nat_small digit_char_facts del: digit_val.simps)
  next
    case False
    have "n mod 10 < 10" by simp
    with False "1.IH" [of b "digit_char (n mod 10) # ys"] show ?thesis
      by (simp add: show_nat_large digit_char_facts del: digit_val.simps)
  qed
qed

lemma show_nat_chars: "c \<in> set (show_nat n) \<Longrightarrow> \<exists>d < 10. c = digit_char d"
proof (induction n rule: show_nat.induct)
  case (1 n)
  show ?case
  proof (cases "n < 10")
    case True
    with 1 show ?thesis by (auto simp: show_nat_small)
  next
    case False
    with 1 show ?thesis by (auto simp: show_nat_large) (metis mod_less_divisor zero_less_numeral)
  qed
qed

lemma digit_char_plain: "d < 10 \<Longrightarrow> digit_char d \<noteq> CHR ''~'' \<and> digit_char d \<noteq> CHR ''/''"
  by (erule less_10_cases) (simp_all add: digit_char_def)

lemma digit_char_zero: "d < 10 \<Longrightarrow> digit_char d = CHR ''0'' \<Longrightarrow> d = 0"
  by (erule less_10_cases) (simp_all add: digit_char_def)

lemma digits_val_append: "digits_val acc (xs @ ys) =
    (case digits_val acc xs of None \<Rightarrow> None | Some n \<Rightarrow> digits_val n ys)"
  by (induction acc xs rule: digits_val.induct) (auto split: option.splits)

lemma digits_val_show_nat: "digits_val 0 (show_nat n) = Some n"
proof (induction n rule: show_nat.induct)
  case (1 n)
  show ?case
  proof (cases "n < 10")
    case True
    then show ?thesis by (simp add: show_nat_small digit_char_facts del: digit_val.simps)
  next
    case False
    have "n mod 10 < 10" by simp
    with False 1 show ?thesis
      by (simp add: show_nat_large digits_val_append digit_char_facts del: digit_val.simps)
  qed
qed

lemma show_nat_hd_zero: "hd (show_nat n) = CHR ''0'' \<Longrightarrow> n = 0"
proof (induction n rule: show_nat.induct)
  case (1 n)
  show ?case
  proof (cases "n < 10")
    case True
    with "1.prems" show ?thesis by (simp add: show_nat_small digit_char_zero)
  next
    case False
    with "1.prems" have "hd (show_nat (n div 10)) = CHR ''0''" by (simp add: show_nat_large)
    with "1.IH" [OF False] have "n div 10 = 0" by blast
    with False show ?thesis by simp
  qed
qed

lemma show_nat_no_leading_zero: "\<not> (1 < length (show_nat n) \<and> hd (show_nat n) = CHR ''0'')"
  using show_nat_hd_zero [of n] by (auto simp: show_nat_small)

lemma dropWhile_none: "\<forall>x \<in> set xs. \<not> P x \<Longrightarrow> dropWhile P xs = xs"
  by (cases xs) auto

lemma strip_show_nat: "strip (show_nat n) = show_nat n"
proof -
  have "\<forall>c \<in> set (show_nat n). \<not> is_blank c" using show_nat_chars digit_char_facts by blast
  then show ?thesis by (simp add: strip_def dropWhile_none)
qed

lemma py_int_show_nat: "py_int (show_nat n) = Inr (int n)"
proof -
  have "hd (show_nat n) \<in> set (show_nat n)" by simp
  then obtain d where "d < 10" "hd (show_nat n) = digit_char d" using show_nat_chars by blast
  then show ?thesis
    using digits_us_show_nat [of False n "[]"]
    by (simp add: py_int_def strip_show_nat digit_char_facts)
qed

section \<open>The calendar\<close>

definition leap :: "int \<Rightarrow> bool" where
  "leap y \<longleftrightarrow> y mod 4 = 0 \<and> (y mod 100 \<noteq> 0 \<or> y mod 400 = 0)"

definition days_in_month :: "int \<Rightarrow> int \<Rightarrow> int" where
  "days_in_month y m = (if m = 2 then (if leap y then 29 else 28)
     else if m = 4 \<or> m = 6 \<or> m = 9 \<or> m = 11 then 30 else 31)"

text \<open>Days since 1970-01-01 of a proleptic Gregorian date, and back.\<close>

definition days_from_civil :: "int \<Rightarrow> int \<Rightarrow> int \<Rightarrow> int" where
  "days_from_civil y m d =
     (let y' = if m \<le> 2 then y - 1 else y; era = y' div 400; yoe = y' mod 400;
          doy = (153 * (if m > 2 then m - 3 else m + 9) + 2) div 5 + d - 1;
          doe = yoe * 365 + yoe div 4 - yoe div 100 + doy
      in era * 146097 + doe - 719468)"

definition civil_from_days :: "int \<Rightarrow> int \<times> int \<times> int" where
  "civil_from_days z =
     (let z' = z + 719468; era = z' div 146097; doe = z' mod 146097;
          yoe = (doe - doe div 1460 + doe div 36524 - doe div 146096) div 365;
          doy = doe - (365 * yoe + yoe div 4 - yoe div 100);
          mp = (5 * doy + 2) div 153; d = doy - (153 * mp + 2) div 5 + 1;
          m = if mp < 10 then mp + 3 else mp - 9
      in (if m \<le> 2 then yoe + era * 400 + 1 else yoe + era * 400, m, d))"

text \<open>
  A \<open>datetime\<close>: the local reading in microseconds since 1970-01-01T00:00 of its own clock, and
  its offset from UTC in microseconds (\<open>None\<close> for a naive one).
\<close>

record moment =
  local_us :: int
  utc_offset :: "int option"

definition us_per_day :: int where "us_per_day = 86400000000"
definition min_us :: int where "min_us = days_from_civil 1 1 1 * us_per_day"
definition max_us :: int where "max_us = (days_from_civil 9999 12 31 + 1) * us_per_day - 1"

section \<open>fromisoformat\<close>

definition parse_frac :: "string \<Rightarrow> int option" where
  "parse_frac s = (if s = [] then None else
     map_option (\<lambda>n. int n) (case digits_val 0 s of None \<Rightarrow> None
       | Some _ \<Rightarrow> digits_val 0 (take 6 (s @ replicate 6 (CHR ''0'')))))"

definition parse_sec :: "string \<Rightarrow> int option" where
  "parse_sec s =
     (case fixed_num 2 (take 2 s) of None \<Rightarrow> None
      | Some n \<Rightarrow> if 59 < n then None else
          (case drop 2 s of [] \<Rightarrow> Some (n * 1000000)
           | c # f \<Rightarrow> if c = CHR ''.'' \<or> c = CHR '','' then
                map_option (\<lambda>us. n * 1000000 + us) (parse_frac f) else None))"

definition parse_hm :: "string \<Rightarrow> string \<Rightarrow> int option" where
  "parse_hm h m =
     (case (fixed_num 2 h, fixed_num 2 m) of
        (Some a, Some b) \<Rightarrow> if a < 24 \<and> b < 60 then Some ((a * 60 + b) * 60000000) else None
      | _ \<Rightarrow> None)"

definition parse_clock :: "string \<Rightarrow> int option" where
  "parse_clock s =
     (case split_on (CHR '':'') s of
        [h] \<Rightarrow> parse_hm h ''00''
      | [h, m] \<Rightarrow> parse_hm h m
      | [h, m, x] \<Rightarrow> (case (parse_hm h m, parse_sec x) of
          (Some a, Some b) \<Rightarrow> Some (a + b) | _ \<Rightarrow> None)
      | _ \<Rightarrow> None)"

definition is_tz :: "char \<Rightarrow> bool" where
  "is_tz c \<longleftrightarrow> c = CHR ''+'' \<or> c = CHR ''-'' \<or> c = CHR ''Z''"

definition parse_tz :: "string \<Rightarrow> int option option" where
  "parse_tz s = (case s of [] \<Rightarrow> Some None
     | c # r \<Rightarrow> if c = CHR ''Z'' then (if r = [] then Some (Some 0) else None)
        else map_option (\<lambda>us. Some (if c = CHR ''-'' then - us else us)) (parse_clock r))"

definition parse_day :: "string \<Rightarrow> int option" where
  "parse_day s =
     (case split_on (CHR ''-'') s of
        [y, m, d] \<Rightarrow> (case (fixed_num 4 y, fixed_num 2 m, fixed_num 2 d) of
            (Some yy, Some mm, Some dd) \<Rightarrow>
              if 1 \<le> yy \<and> 1 \<le> mm \<and> mm \<le> 12 \<and> 1 \<le> dd \<and> dd \<le> days_in_month yy mm
              then Some (days_from_civil yy mm dd * us_per_day) else None
          | _ \<Rightarrow> None)
      | _ \<Rightarrow> None)"

definition fromisoformat :: "string \<Rightarrow> moment option" where
  "fromisoformat s =
     (case parse_day (take 10 s) of None \<Rightarrow> None
      | Some day \<Rightarrow>
         (case drop 10 s of [] \<Rightarrow> Some \<lparr>local_us = day, utc_offset = None\<rparr>
          | _ # t \<Rightarrow>
              (case (parse_clock (takeWhile (\<lambda>c. \<not> is_tz c) t), parse_tz (dropWhile (\<lambda>c. \<not> is_tz c) t)) of
                 (Some us, Some off) \<Rightarrow> Some \<lparr>local_us = day + us, utc_offset = off\<rparr>
               | _ \<Rightarrow> None)))"

text \<open>\<open>text.replace("Z", "+00:00")\<close> before parsing.\<close>

definition fromiso_z :: "string \<Rightarrow> moment option" where
  "fromiso_z s = fromisoformat (replace_all ''Z'' ''+00:00'' s)"

text \<open>The instant of an aware moment; a naive one is taken as UTC where the code says so.\<close>

definition instant :: "moment \<Rightarrow> int" where
  "instant t = local_us t - (case utc_offset t of None \<Rightarrow> 0 | Some off \<Rightarrow> off)"

definition as_utc :: "moment \<Rightarrow> moment" where
  "as_utc t = (case utc_offset t of None \<Rightarrow> t\<lparr>utc_offset := Some 0\<rparr> | Some _ \<Rightarrow> t)"

lemma instant_as_utc [simp]: "instant (as_utc t) = instant t"
  by (simp add: as_utc_def instant_def split: option.splits)

text \<open>\<open>moment + timedelta\<close>: \<open>OverflowError\<close> outside the years 1 to 9999.\<close>

definition plus_us :: "moment \<Rightarrow> int \<Rightarrow> exn + moment" where
  "plus_us t us = (let l = local_us t + us in
     if min_us \<le> l \<and> l \<le> max_us then Inr (t\<lparr>local_us := l\<rparr>) else Inl OverflowError)"

lemma instant_plus_us: "plus_us t us = Inr t' \<Longrightarrow> instant t' = instant t + us"
  by (auto simp: plus_us_def instant_def Let_def split: if_splits)

text \<open>\<open>(a - b).total_seconds() * 1000.0\<close> in floating point.\<close>

definition elapsed_ms :: "int \<Rightarrow> pyfloat" where
  "elapsed_ms us = fmul (fl (of_int us / 1000000)) (Fin 1000)"

section \<open>isoformat\<close>

definition pad_num :: "nat \<Rightarrow> int \<Rightarrow> string" where
  "pad_num k n = (let s = show_nat (nat n) in replicate (k - length s) (CHR ''0'') @ s)"

definition show_clock :: "int \<Rightarrow> bool \<Rightarrow> string" where
  "show_clock us always_sec =
     (let s = us div 1000000; f = us mod 1000000 in
      pad_num 2 (s div 3600) @ '':'' @ pad_num 2 (s div 60 mod 60) @
      (if always_sec \<or> s mod 60 \<noteq> 0 \<or> f \<noteq> 0 then '':'' @ pad_num 2 (s mod 60) else []) @
      (if f \<noteq> 0 then ''.'' @ pad_num 6 f else []))"

definition isoformat :: "moment \<Rightarrow> string" where
  "isoformat t =
     (let (y, m, d) = civil_from_days (local_us t div us_per_day) in
      pad_num 4 y @ ''-'' @ pad_num 2 m @ ''-'' @ pad_num 2 d @ ''T'' @
      show_clock (local_us t mod us_per_day) True @
      (case utc_offset t of None \<Rightarrow> []
       | Some off \<Rightarrow> (if off < 0 then ''-'' else ''+'') @ show_clock \<bar>off\<bar> False))"

text \<open>\<open>.isoformat().replace("+00:00", "Z")\<close>.\<close>

definition isoformat_z :: "moment \<Rightarrow> string" where
  "isoformat_z t = replace_all ''+00:00'' ''Z'' (isoformat t)"

lemma fromiso_example:
  "fromiso_z ''2026-09-11T00:00:00Z'' = Some \<lparr>local_us = 1789084800000000, utc_offset = Some 0\<rparr>"
  by code_simp

lemma fromiso_bad_day: "fromiso_z ''2026-02-29T00:00:00Z'' = None"
  by code_simp

end
