(* ===== verification/Corpus.thy ===== *)
theory Corpus
  imports Bench_Prelude Py_Text
begin

text \<open>
  The vendored contract corpus as the control core reads it: digest-verified resolution of one file of one
  version (\<open>_versioned_schema_path\<close> of \<open>control/documents.py\<close>) and the run-record validators
  (\<open>control/coordinator.py\<close>). A corpus is what its files hold while the gateway runs; it does not change, so the
  validator cache cannot be observed. Reading, hashing and decoding a file, compiling a schema
  (a third-party package) and the classification of a version against the dependency policy are its fields.
\<close>

record corpus =
  cp_name :: string
  cp_is_file :: "string \<Rightarrow> bool"
  cp_sha :: "string \<Rightarrow> exn + string"
  cp_rows :: "exn + (string \<times> string option) list"
  cp_json :: "string \<Rightarrow> exn + pyval"
  cp_compile :: "pyval \<Rightarrow> pyval \<Rightarrow> bool"
  cp_status :: "string \<Rightarrow> exn + string"

text \<open>\<open>_corpus_row_pin\<close>: the digest of the first row of that path.\<close>

definition corpus_row_pin :: "(string \<times> string option) list \<Rightarrow> string \<Rightarrow> string option" where
  "corpus_row_pin rows rel = (case map_of rows rel of None \<Rightarrow> None | Some sha \<Rightarrow> sha)"

definition versioned_schema_path :: "corpus \<Rightarrow> string \<Rightarrow> string \<Rightarrow> string \<Rightarrow> exn + string" where
  "versioned_schema_path C standard version name =
     (let rel = standard @ ''/'' @ version @ ''/'' @ name in
      if \<not> cp_is_file C rel then
        Inl (Refused (''version_unknown: '' @ standard @ '' '' @ version @ '' retains no '' @ name @ '' under '' @ rel))
      else bind_res (cp_sha C rel) (\<lambda>digest. bind_res (cp_rows C) (\<lambda>rows.
        case corpus_row_pin rows rel of
          None \<Rightarrow> Inl (Refused (''corpus_file_unpinned: '' @ rel @
            '' (a machine file inside a version directory must carry a corpus row)''))
        | Some pin \<Rightarrow>
            if digest \<noteq> pin then Inl (Refused (''corpus_pin_mismatch: standards/'' @ rel @ '': corpus pin '' @ pin @
              '' does not match the on-disk bytes ('' @ digest @ '')''))
            else Inr rel)))"

text \<open>\<open>d.get(k, {})\<close>.\<close>

fun get_dict :: "string \<Rightarrow> pyval \<Rightarrow> exn + pyval" where
  "get_dict k (JObj kvs) = Inr (case map_of kvs k of None \<Rightarrow> JObj [] | Some v \<Rightarrow> v)"
| "get_dict k _ = Inl (TypeError ''no attribute get'')"

text \<open>\<open>_record_validator\<close> and \<open>_record_validator_for_version\<close>: the same steps for the composition and for a version.\<close>

definition record_validator :: "corpus \<Rightarrow> string \<Rightarrow> exn + (pyval \<Rightarrow> bool) \<times> string" where
  "record_validator C version =
     bind_res (versioned_schema_path C ''execution'' version ''run-record.schema.json'') (\<lambda>path.
     bind_res (cp_json C path) (\<lambda>schema.
     bind_res (get_dict ''properties'' schema) (\<lambda>props.
     bind_res (get_dict ''contract_version'' props) (\<lambda>member.
     bind_res (get_dict ''const'' member) (\<lambda>const. case const of
         JStr c \<Rightarrow> if c = [] then Inl (ValueError ''no contract_version const'') else Inr (cp_compile C schema, c)
       | _ \<Rightarrow> Inl (ValueError ''no contract_version const''))))))"

text \<open>\<open>VERSION_PATTERN.fullmatch\<close>: three runs of digits.\<close>

definition is_release :: "string \<Rightarrow> bool" where
  "is_release s = (case split_on (CHR ''.'') s of
      [a, b, c] \<Rightarrow> list_all (\<lambda>p. p \<noteq> [] \<and> digits_val 0 p \<noteq> None) [a, b, c] | _ \<Rightarrow> False)"

text \<open>\<open>_is_carried_execution_dialect\<close>: a version this gateway could really have run.\<close>

definition is_carried :: "corpus \<Rightarrow> string \<Rightarrow> bool" where
  "is_carried C version = (version = cp_name C \<or> (case cp_status C version of
      Inl _ \<Rightarrow> False | Inr status \<Rightarrow> status \<in> {''served'', ''yanked'', ''dev'', ''rc''}))"

text \<open>A resolved file has a row, and its bytes are the pinned ones.\<close>

lemma resolved_file:
  assumes "versioned_schema_path C standard version name = Inr rel"
  shows "cp_is_file C rel \<and> (\<exists>rows pin. cp_rows C = Inr rows \<and> corpus_row_pin rows rel = Some pin \<and> cp_sha C rel = Inr pin)"
  using assms by (auto simp: versioned_schema_path_def Let_def split: if_splits option.splits)

lemma validated_version:
  assumes "record_validator C version = Inr (valid, const)"
  obtains path where "versioned_schema_path C ''execution'' version ''run-record.schema.json'' = Inr path" "const \<noteq> []"
proof -
  obtain path schema v where p: "versioned_schema_path C ''execution'' version ''run-record.schema.json'' = Inr path"
      and v: "(case v of JStr c \<Rightarrow> if c = [] then Inl (ValueError ''no contract_version const'') else Inr (cp_compile C schema, c)
        | _ \<Rightarrow> Inl (ValueError ''no contract_version const'')) = Inr (valid, const)"
    using assms by (auto simp: record_validator_def)
  from v have "const \<noteq> []" by (cases v) (auto split: if_splits)
  with p show ?thesis by (rule that)
qed

end
