(* ===== verification/Host.thy ===== *)
theory Host
  imports Py_Text
begin

text \<open>
  The host-side vocabulary of one dispatch (\<open>host/types.py\<close>, \<open>host/plugin.py\<close>) and the time ports
  (\<open>control/clocking.py\<close>). Device plugins are code outside the gateway: a \<open>world\<close> packages what
  the engine can do to the outside (read a clock, wait, read the wall clock, dispatch one request),
  and every engine definition takes it as an argument. The locale \<open>timed_world\<close> states the only
  law the engine relies on (the monotonic clock never runs backwards and a wait really waits); it
  is interpreted on \<open>TestClock\<close>, the clock the repository ships for deterministic runs.
\<close>

section \<open>Enumerations\<close>

datatype quality = QValid | QStale | QInvalid

datatype reading_source = SrcDevice | SrcCache | SrcCommissioned

datatype assurance = AsDispatched | AsAcknowledged | AsReadback | AsPhysical

datatype error_code =
    INVALID_ARGUMENT | UNSUPPORTED | IDENTITY_MISMATCH | DEVICE_REJECTED | TRANSPORT_ERROR
  | TIMEOUT | PROTOCOL_ERROR | RESOURCE_LIMIT | CANCELLED | INTERNAL_ERROR

datatype dispatch_state = NotDispatched | Dispatched | DispatchUnknown

datatype op_verb =
    IDENTIFY | READ | WRITE | SELF_TEST | GET_ERRORS | CAPTURE | STREAM_SUBSCRIBE
  | STREAM_UNSUBSCRIBE | RESET | INVOKE

datatype op_status = StOk | StError | StUnknown | StCancelled

fun quality_text :: "quality \<Rightarrow> string" where
  "quality_text QValid = ''valid''"
| "quality_text QStale = ''stale''"
| "quality_text QInvalid = ''invalid''"

fun source_text :: "reading_source \<Rightarrow> string" where
  "source_text SrcDevice = ''device''"
| "source_text SrcCache = ''cache''"
| "source_text SrcCommissioned = ''commissioned''"

fun assurance_text :: "assurance \<Rightarrow> string" where
  "assurance_text AsDispatched = ''dispatched''"
| "assurance_text AsAcknowledged = ''acknowledged''"
| "assurance_text AsReadback = ''readback''"
| "assurance_text AsPhysical = ''physical''"

section \<open>Readings, receipts, requests and results\<close>

record reading =
  rd_parameter :: string
  rd_value :: pyval
  rd_unit :: pyval
  rd_observed_at :: string
  rd_age_ms :: int
  rd_quality :: quality
  rd_source :: reading_source

definition mk_reading :: "reading \<Rightarrow> exn + reading" where
  "mk_reading r =
     (if rd_parameter r = [] then Inl (ValueError ''reading requires a parameter'')
      else if rd_age_ms r < 0 then Inl (ValueError ''age_ms must be >= 0'')
      else Inr r)"

record write_receipt =
  wr_parameter :: string
  wr_requested :: pyval
  wr_effective :: pyval
  wr_assurance :: assurance
  wr_verification :: "reading option"

record op_error =
  er_code :: error_code
  er_message :: string
  er_state :: dispatch_state

text \<open>What a result's \<open>data\<close> can be: nothing, a typed payload, or a plain Python value.\<close>

datatype op_data = NoData | Raw pyval | AReading reading | AReceipt write_receipt

record op_request =
  q_id :: string
  q_verb :: op_verb
  q_args :: obj

record op_result =
  r_id :: string
  r_verb :: op_verb
  r_status :: op_status
  r_data :: op_data
  r_error :: "op_error option"

definition mk_op_error :: "error_code \<Rightarrow> string \<Rightarrow> dispatch_state \<Rightarrow> exn + op_error" where
  "mk_op_error c m d =
     (if m = [] then Inl (ValueError ''error requires a message'')
      else Inr \<lparr>er_code = c, er_message = m, er_state = d\<rparr>)"

text \<open>\<open>OperationResult.__post_init__\<close>: the schema's conditionals.\<close>

definition mk_result :: "op_result \<Rightarrow> exn + op_result" where
  "mk_result r =
     (if r_status r = StOk then
        (if r_data r = NoData then Inl (ValueError ''ok result requires data'')
         else if r_error r \<noteq> None then Inl (ValueError ''ok result must not carry an error'')
         else Inr r)
      else
        (case r_error r of
           None \<Rightarrow> Inl (ValueError ''result requires an error'')
         | Some e \<Rightarrow>
             (if r_data r \<noteq> NoData then Inl (ValueError ''result must not carry data'')
              else if r_status r = StUnknown \<and> er_state e = NotDispatched
                then Inl (ValueError ''unknown status cannot claim not_dispatched'')
              else Inr r)))"

definition result_ok :: "string \<Rightarrow> op_verb \<Rightarrow> op_data \<Rightarrow> exn + op_result" where
  "result_ok i v d =
     mk_result \<lparr>r_id = i, r_verb = v, r_status = StOk, r_data = d, r_error = None\<rparr>"

definition result_failure ::
    "string \<Rightarrow> op_verb \<Rightarrow> error_code \<Rightarrow> string \<Rightarrow> dispatch_state \<Rightarrow> exn + op_result" where
  "result_failure i v c m d =
     bind_res (mk_op_error c m d) (\<lambda>e.
       mk_result \<lparr>r_id = i, r_verb = v, r_status = StError, r_data = NoData, r_error = Some e\<rparr>)"

definition result_indeterminate ::
    "string \<Rightarrow> op_verb \<Rightarrow> error_code \<Rightarrow> string \<Rightarrow> exn + op_result" where
  "result_indeterminate i v c m =
     bind_res (mk_op_error c m DispatchUnknown) (\<lambda>e.
       mk_result \<lparr>r_id = i, r_verb = v, r_status = StUnknown, r_data = NoData, r_error = Some e\<rparr>)"

definition request_read :: "string \<Rightarrow> string \<Rightarrow> op_request" where
  "request_read i p = \<lparr>q_id = i, q_verb = READ, q_args = [(''parameter'', JStr p)]\<rparr>"

definition request_write :: "string \<Rightarrow> string \<Rightarrow> pyval \<Rightarrow> op_request" where
  "request_write i p v =
     \<lparr>q_id = i, q_verb = WRITE, q_args = [(''parameter'', JStr p), (''value'', v)]\<rparr>"

text \<open>What a constructed result satisfies.\<close>

definition wf_result :: "op_result \<Rightarrow> bool" where
  "wf_result r \<longleftrightarrow>
     (r_status r = StOk \<longleftrightarrow> r_error r = None) \<and> (r_status r = StOk \<longleftrightarrow> r_data r \<noteq> NoData) \<and>
     (r_status r = StUnknown \<longrightarrow> (\<forall>e. r_error r = Some e \<longrightarrow> er_state e \<noteq> NotDispatched))"

lemma mk_result_Inr_iff: "mk_result r = Inr r' \<longleftrightarrow> r' = r \<and> wf_result r"
  by (auto simp: mk_result_def wf_result_def split: option.splits)

lemma wf_result_failure: "result_failure i v c m d = Inr r \<Longrightarrow> wf_result r \<and> r_status r = StError"
  by (auto simp: result_failure_def mk_op_error_def mk_result_Inr_iff split: if_splits)

section \<open>The world the engine acts on\<close>

text \<open>
  \<open>w_has d\<close>: a plugin is bound for device \<open>d\<close>. \<open>w_dispatch d q dl w\<close> dispatches request \<open>q\<close> to
  device \<open>d\<close> with deadline \<open>dl\<close>: the plugin's code runs, time may pass, and it returns a result or
  raises. A clock reading may itself take time. A wait of the gateway's own clocks may raise, because the
  run monitor looks at the bench while it waits.
\<close>

record 'w world =
  w_has :: "string \<Rightarrow> bool"
  w_now :: "'w \<Rightarrow> 'w \<times> int"
  w_wait :: "int \<Rightarrow> 'w \<Rightarrow> 'w \<times> exn option"
  w_wall :: "'w \<Rightarrow> 'w \<times> string"
  w_dispatch :: "string \<Rightarrow> op_request \<Rightarrow> int \<Rightarrow> 'w \<Rightarrow> 'w \<times> (exn + op_result)"

locale timed_world =
  fixes W :: "'w world" and time :: "'w \<Rightarrow> int"
  assumes now_le: "w_now W w = (w', t) \<Longrightarrow> time w \<le> t \<and> t \<le> time w'"
    and wait_adv: "0 \<le> d \<Longrightarrow> w_wait W d w = (w', None) \<Longrightarrow> time w + d \<le> time w'"
    and wait_mono: "0 \<le> d \<Longrightarrow> time w \<le> time (fst (w_wait W d w))"
    and wall_mono: "time w \<le> time (fst (w_wall W w))"
    and dispatch_mono: "time w \<le> time (fst (w_dispatch W dev q dl w))"
begin

lemma now_mono: "w_now W w = (w', t) \<Longrightarrow> time w \<le> time w'"
  using now_le by fastforce

end

section \<open>TestClock\<close>

record test_clock =
  tc_start_ns :: int
  tc_wall_start :: string
  tc_elapsed_ns :: int
  tc_waits :: "int list"

definition tc_init :: test_clock where
  "tc_init = \<lparr>tc_start_ns = 1000000000, tc_wall_start = ''2026-09-11T00:00:00Z'',
     tc_elapsed_ns = 0, tc_waits = []\<rparr>"

definition tc_now_ns :: "test_clock \<Rightarrow> int" where
  "tc_now_ns c = tc_start_ns c + tc_elapsed_ns c"

definition tc_advance :: "int \<Rightarrow> test_clock \<Rightarrow> test_clock" where
  "tc_advance d c = c\<lparr>tc_elapsed_ns := tc_elapsed_ns c + d\<rparr>"

definition tc_wait_ns :: "int \<Rightarrow> test_clock \<Rightarrow> test_clock" where
  "tc_wait_ns d c = (tc_advance d c)\<lparr>tc_waits := tc_waits c @ [d]\<rparr>"

definition tc_now_iso :: "test_clock \<Rightarrow> exn + string" where
  "tc_now_iso c =
     (case fromiso_z (tc_wall_start c) of
        None \<Rightarrow> Inl (ValueError ''Invalid isoformat string'')
      | Some base \<Rightarrow>
          bind_res (plus_us (as_utc base) (tc_elapsed_ns c div 1000)) (\<lambda>stamp.
            Inr (isoformat_z stamp)))"

text \<open>
  A simulated bench: \<open>TestClock\<close> beside a deterministic plugin table. The plugin's step
  \<open>P dev q dl s\<close> gives its next state, the nanoseconds the dispatch takes, and its answer.
\<close>

definition sim_world ::
    "(string \<Rightarrow> bool) \<Rightarrow> (string \<Rightarrow> op_request \<Rightarrow> int \<Rightarrow> 's \<Rightarrow> 's \<times> nat \<times> (exn + op_result)) \<Rightarrow>
     (test_clock \<times> 's) world" where
  "sim_world has P =
     \<lparr>w_has = has,
      w_now = (\<lambda>w. (w, tc_now_ns (fst w))),
      w_wait = (\<lambda>d w. ((tc_wait_ns d (fst w), snd w), None)),
      w_wall = (\<lambda>w. (w, case tc_now_iso (fst w) of Inl _ \<Rightarrow> [] | Inr s \<Rightarrow> s)),
      w_dispatch = (\<lambda>dev q dl w.
         case P dev q dl (snd w) of
           (s', took, res) \<Rightarrow> ((tc_advance (int took) (fst w), s'), res))\<rparr>"

abbreviation sim_time :: "test_clock \<times> 's \<Rightarrow> int" where
  "sim_time w \<equiv> tc_now_ns (fst w)"

interpretation sim: timed_world "sim_world has P" sim_time for has P
  by unfold_locales
    (auto simp: sim_world_def tc_now_ns_def tc_wait_ns_def tc_advance_def split: prod.splits)

end
