(* ===== verification/Policy.thy ===== *)
theory Policy
  imports Host
begin

text \<open>
  \<open>control/policy.py\<close>: the deny-by-default gate \<open>check_allowed\<close> and the continuous conditions
  \<open>evaluate_conditions\<close>. The JSON Schema validator is a third-party package and is the parameter
  \<open>validate\<close>: it maps a schema and a payload to the first validation error, to none, or to an
  exception. A rule is the JSON object the policy document holds.
\<close>

section \<open>The allow rules\<close>

text \<open>
  A rule id is its index in \<open>allow_rules\<close>. The constructors of \<open>deny_reason\<close> are the raise sites
  of \<open>check_allowed\<close>, in their order; the kind stands for the prefix (\<open>input_constraint:\<close>,
  \<open>capture_constraint:\<close> or \<open>value_constraint:\<close>) the message starts with.
\<close>

datatype deny_reason =
    NoMatchingRule string string string
  | PayloadNotObject string string string
  | NoEvaluableSchema string nat
  | SchemaCannotEvaluate string nat exn
  | ConstraintViolated string "(nat \<times> string) list"

record policy_denied =
  pd_reason :: deny_reason
  pd_rule_ids :: "nat list"

type_synonym validator = "pyval \<Rightarrow> pyval \<Rightarrow> exn + string option"

definition target_key :: "string \<Rightarrow> string" where
  "target_key kind = (if kind = ''invoke'' then ''action_id''
     else if kind = ''capture'' then ''format'' else ''parameter'')"

definition constraints_key :: "string \<Rightarrow> string" where
  "constraints_key kind = (if kind = ''invoke'' then ''input_constraints''
     else if kind = ''capture'' then ''capture_constraints'' else ''value_constraints'')"

definition rule_matches :: "string \<Rightarrow> string \<Rightarrow> string \<Rightarrow> obj \<Rightarrow> bool" where
  "rule_matches device kind target rule \<longleftrightarrow>
     obj_get rule ''device_id'' = JStr device \<and> obj_get rule ''kind'' = JStr kind \<and>
     obj_get rule (target_key kind) = JStr target"

definition matching_rules :: "obj list \<Rightarrow> string \<Rightarrow> string \<Rightarrow> string \<Rightarrow> (nat \<times> obj) list" where
  "matching_rules rules device kind target =
     filter (\<lambda>(i, rule). rule_matches device kind target rule) (enumerate 0 rules)"

fun is_object :: "pyval \<Rightarrow> bool" where
  "is_object (JObj _) = True"
| "is_object _ = False"

text \<open>\<open>if not constraints\<close>: Python's truth value.\<close>

fun falsy :: "pyval \<Rightarrow> bool" where
  "falsy JNull = True"
| "falsy (JBool b) = (\<not> b)"
| "falsy (JInt i) = (i = 0)"
| "falsy (JFloat f) = (f = Fin 0)"
| "falsy (JStr s) = (s = [])"
| "falsy (JList xs) = (xs = [])"
| "falsy (JObj d) = (d = [])"
| "falsy (JOther _) = False"

text \<open>
  The loop over the matching rules. It collects the vacuous-constraint warnings and the failures;
  a missing or unevaluable schema raises at once.
\<close>

fun scan_rules :: "validator \<Rightarrow> string \<Rightarrow> pyval \<Rightarrow> nat list \<Rightarrow> (nat \<times> string) list \<Rightarrow>
    (nat \<times> obj) list \<Rightarrow> nat list \<times> (policy_denied + (nat \<times> string) list)" where
  "scan_rules validate kind payload warned failures [] = (warned, Inr failures)"
| "scan_rules validate kind payload warned failures ((i, rule) # rest) =
     (case map_of rule (constraints_key kind) of
        None \<Rightarrow> (warned, Inl \<lparr>pd_reason = NoEvaluableSchema kind i, pd_rule_ids = [i]\<rparr>)
      | Some constraints \<Rightarrow>
          (let warned' = (if falsy constraints then warned @ [i] else warned) in
           case validate constraints payload of
             Inl e \<Rightarrow> (warned', Inl \<lparr>pd_reason = SchemaCannotEvaluate kind i e, pd_rule_ids = [i]\<rparr>)
           | Inr None \<Rightarrow> scan_rules validate kind payload warned' failures rest
           | Inr (Some msg) \<Rightarrow>
               scan_rules validate kind payload warned' (failures @ [(i, msg)]) rest))"

definition check_allowed :: "validator \<Rightarrow> obj list \<Rightarrow> string \<Rightarrow> string \<Rightarrow> string \<Rightarrow> pyval \<Rightarrow>
    nat list \<times> (policy_denied + unit)" where
  "check_allowed validate allow_rules device kind target payload =
     (let matching = matching_rules allow_rules device kind target in
      if matching = [] then
        ([], Inl \<lparr>pd_reason = NoMatchingRule kind target device, pd_rule_ids = []\<rparr>)
      else if (kind = ''invoke'' \<or> kind = ''capture'') \<and> \<not> is_object payload then
        ([], Inl \<lparr>pd_reason = PayloadNotObject kind target device,
                  pd_rule_ids = map fst matching\<rparr>)
      else
        (case scan_rules validate kind payload [] [] matching of
           (warned, Inl denied) \<Rightarrow> (warned, Inl denied)
         | (warned, Inr failures) \<Rightarrow>
             (warned, if failures = [] then Inr ()
                else Inl \<lparr>pd_reason = ConstraintViolated kind failures,
                          pd_rule_ids = map fst failures\<rparr>)))"

definition allowed :: "validator \<Rightarrow> obj list \<Rightarrow> string \<Rightarrow> string \<Rightarrow> string \<Rightarrow> pyval \<Rightarrow> bool" where
  "allowed validate rules device kind target payload \<longleftrightarrow>
     snd (check_allowed validate rules device kind target payload) = Inr ()"

subsection \<open>When an action is allowed\<close>

text \<open>One rule, taken alone, lets the payload through.\<close>

definition rule_permits :: "validator \<Rightarrow> string \<Rightarrow> pyval \<Rightarrow> obj \<Rightarrow> bool" where
  "rule_permits validate kind payload rule \<longleftrightarrow>
     (case map_of rule (constraints_key kind) of None \<Rightarrow> False
      | Some c \<Rightarrow> validate c payload = Inr None)"

lemma rule_permits_iff:
  "rule_permits validate k p rule \<longleftrightarrow>
     (\<exists>c. map_of rule (constraints_key k) = Some c \<and> validate c p = Inr None)"
  by (simp add: rule_permits_def split: option.splits)

lemma snd_matching_rules:
  "snd ` set (matching_rules rules d k t) = {rule \<in> set rules. rule_matches d k t rule}"
proof -
  have "snd ` set (enumerate 0 rules) = set (map snd (enumerate 0 rules))"
    by (simp only: set_map)
  also have "\<dots> = set rules" by (simp only: map_snd_enumerate)
  finally have rules: "snd ` set (enumerate 0 rules) = set rules" .
  have "snd ` {x \<in> set (enumerate 0 rules). case x of (i, rule) \<Rightarrow> rule_matches d k t rule} =
      {rule \<in> snd ` set (enumerate 0 rules). rule_matches d k t rule}"
    by (auto simp: image_iff)
  then show ?thesis by (simp only: matching_rules_def set_filter rules)
qed

lemma scan_rules_grows:
  "snd (scan_rules v k p w fs ms) = Inr gs \<Longrightarrow> \<exists>hs. gs = fs @ hs"
  by (induction v k p w fs ms rule: scan_rules.induct)
    (force split: option.splits sum.splits simp: Let_def)+

lemma scan_rules_clean:
  "snd (scan_rules v k p w [] ms) = Inr [] \<longleftrightarrow> (\<forall>rule \<in> snd ` set ms. rule_permits v k p rule)"
proof (induction ms arbitrary: w)
  case Nil
  then show ?case by simp
next
  case (Cons m ms)
  obtain i rule where m: "m = (i, rule)" by (cases m)
  show ?case
    using Cons.IH scan_rules_grows [of v k p _ "[_]" ms "[]"]
    by (auto simp: m rule_permits_def Let_def split: option.splits sum.splits)
qed

lemma allowed_iff_permits:
  "allowed validate rules d k t p \<longleftrightarrow>
     (\<exists>rule \<in> set rules. rule_matches d k t rule) \<and>
     (k = ''invoke'' \<or> k = ''capture'' \<longrightarrow> is_object p) \<and>
     (\<forall>rule \<in> set rules. rule_matches d k t rule \<longrightarrow> rule_permits validate k p rule)"
proof (cases "matching_rules rules d k t = []")
  case True
  then have "{rule \<in> set rules. rule_matches d k t rule} = {}"
    by (simp add: snd_matching_rules [symmetric])
  with True show ?thesis by (auto simp: allowed_def check_allowed_def)
next
  case False
  let ?m = "matching_rules rules d k t"
  from False have ne: "\<exists>rule \<in> set rules. rule_matches d k t rule"
    using snd_matching_rules [of rules d k t] by (auto simp: neq_Nil_conv)
  have clean: "snd (scan_rules validate k p [] [] ?m) = Inr [] \<longleftrightarrow>
      (\<forall>rule \<in> set rules. rule_matches d k t rule \<longrightarrow> rule_permits validate k p rule)"
    unfolding scan_rules_clean snd_matching_rules by blast
  obtain w r where wr: "scan_rules validate k p [] [] ?m = (w, r)"
    by (cases "scan_rules validate k p [] [] ?m")
  from False have "allowed validate rules d k t p \<longleftrightarrow>
      (k = ''invoke'' \<or> k = ''capture'' \<longrightarrow> is_object p) \<and> r = Inr []"
    by (cases r) (simp_all add: allowed_def check_allowed_def Let_def wr)
  with ne clean wr show ?thesis by simp
qed

section \<open>Continuous conditions\<close>

record signal_value =
  sv_signal_id :: string
  sv_value :: pyfloat
  sv_unit :: string
  sv_age_ms :: int
  sv_valid :: bool
  sv_absolute_error :: "pyfloat option"

type_synonym snapshot = "string \<Rightarrow> signal_value option"

text \<open>Bounds are JSON numbers, held by their exact value (an int may be no binary64 number).\<close>

datatype condition =
    Numeric string string string pyfloat pyfloat
  | BooleanCond string string bool
  | AbsoluteProduct string "string list" string pyfloat int
  | OtherKind string string

datatype violation_reason =
    SignalMissing string
  | SignalInvalid string
  | UnitMismatch string string
  | UnknownError
  | NonfiniteValue string
  | IntervalEscape pyfloat pyfloat pyfloat pyfloat
  | BooleanMismatch string pyfloat bool
  | FactorUnitMismatch string string
  | BoundExceeded pyfloat pyfloat
  | SkewExceeded int int

datatype violation = Violation (v_condition: string) (v_reason: violation_reason)

definition known_error :: "pyfloat option \<Rightarrow> bool" where
  "known_error e = (case e of None \<Rightarrow> False | Some x \<Rightarrow> isfinite x \<and> \<not> flt x (Fin 0))"

definition numeric_violation ::
    "string \<Rightarrow> string \<Rightarrow> string \<Rightarrow> pyfloat \<Rightarrow> pyfloat \<Rightarrow> snapshot \<Rightarrow> violation list" where
  "numeric_violation cid sig unit minimum maximum snap =
     (case snap sig of
        None \<Rightarrow> [Violation cid (SignalMissing sig)]
      | Some s \<Rightarrow>
          if \<not> sv_valid s then [Violation cid (SignalInvalid sig)]
          else if sv_unit s \<noteq> unit then [Violation cid (UnitMismatch unit (sv_unit s))]
          else if \<not> known_error (sv_absolute_error s) then [Violation cid UnknownError]
          else if \<not> isfinite (sv_value s) then [Violation cid (NonfiniteValue sig)]
          else
            (let e = the (sv_absolute_error s);
                 low = fsub (sv_value s) e; high = fadd (sv_value s) e in
             if flt low minimum \<or> flt maximum high then
               [Violation cid (IntervalEscape (fmt6 low) (fmt6 high) (fmt6 minimum) (fmt6 maximum))]
             else []))"

definition boolean_violation :: "string \<Rightarrow> string \<Rightarrow> bool \<Rightarrow> snapshot \<Rightarrow> violation list" where
  "boolean_violation cid sig expected snap =
     (case snap sig of
        None \<Rightarrow> [Violation cid (SignalMissing sig)]
      | Some s \<Rightarrow>
          if \<not> sv_valid s then [Violation cid (SignalInvalid sig)]
          else if (sv_value s \<noteq> Fin 0) \<noteq> expected then
            [Violation cid (BooleanMismatch sig (fmt6 (sv_value s)) expected)]
          else [])"

text \<open>The loop over the two factors: the first defective one ends the condition.\<close>

fun product_factors :: "string \<Rightarrow> snapshot \<Rightarrow> string list \<Rightarrow> violation + signal_value list" where
  "product_factors cid snap [] = Inr []"
| "product_factors cid snap (sig # sigs) =
     (case snap sig of
        None \<Rightarrow> Inl (Violation cid (SignalMissing sig))
      | Some s \<Rightarrow>
          if \<not> sv_valid s then Inl (Violation cid (SignalInvalid sig))
          else if \<not> known_error (sv_absolute_error s) then Inl (Violation cid UnknownError)
          else if \<not> isfinite (sv_value s) then Inl (Violation cid (NonfiniteValue sig))
          else bind_res (product_factors cid snap sigs) (\<lambda>ss. Inr (s # ss)))"

definition factor_bound :: "signal_value \<Rightarrow> pyfloat" where
  "factor_bound s = fadd (fabs (sv_value s)) (the (sv_absolute_error s))"

definition product_violation ::
    "string \<Rightarrow> string list \<Rightarrow> string \<Rightarrow> pyfloat \<Rightarrow> int \<Rightarrow> snapshot \<Rightarrow> exn + violation list" where
  "product_violation cid sigs unit maximum max_skew snap =
     (case product_factors cid snap sigs of
        Inl v \<Rightarrow> Inr [v]
      | Inr (s1 # s2 # rest) \<Rightarrow>
          if unit = ''W'' \<and> set (map sv_unit (s1 # s2 # rest)) \<noteq> {''V'', ''A''} then
            Inr [Violation cid (FactorUnitMismatch (sv_unit s1) (sv_unit s2))]
          else
            (let bound = fmul (factor_bound s1) (factor_bound s2);
                 skew = \<bar>sv_age_ms s1 - sv_age_ms s2\<bar> in
             Inr ((if flt maximum bound
                   then [Violation cid (BoundExceeded (fmt6 bound) (fmt6 maximum))] else []) @
                  (if max_skew < skew then [Violation cid (SkewExceeded skew max_skew)] else [])))
      | Inr _ \<Rightarrow> Inl IndexError)"

fun check_condition :: "condition \<Rightarrow> snapshot \<Rightarrow> exn + violation list" where
  "check_condition (Numeric cid sig unit lo hi) snap = Inr (numeric_violation cid sig unit lo hi snap)"
| "check_condition (BooleanCond cid sig expected) snap = Inr (boolean_violation cid sig expected snap)"
| "check_condition (AbsoluteProduct cid sigs unit hi skew) snap =
     product_violation cid sigs unit hi skew snap"
| "check_condition (OtherKind cid kind) snap = Inl (ValueError (''unknown condition kind '' @ kind))"

fun evaluate_conditions :: "condition list \<Rightarrow> snapshot \<Rightarrow> exn + violation list" where
  "evaluate_conditions [] snap = Inr []"
| "evaluate_conditions (c # cs) snap =
     bind_res (check_condition c snap) (\<lambda>v.
       bind_res (evaluate_conditions cs snap) (\<lambda>vs. Inr (v @ vs)))"

lemma evaluate_conditions_clear_iff:
  "evaluate_conditions cs snap = Inr [] \<longleftrightarrow> (\<forall>c \<in> set cs. check_condition c snap = Inr [])"
  by (induction cs) auto

subsection \<open>What a clear condition guarantees\<close>

lemma numeric_clear_dest:
  assumes "numeric_violation cid sig unit lo hi snap = []"
  obtains s v e where "snap sig = Some s" "sv_valid s" "sv_unit s = unit"
    "sv_value s = Fin v" "sv_absolute_error s = Some (Fin e)" "0 \<le> e"
    "\<not> flt (fl (v - e)) lo" "\<not> flt hi (fl (v + e))"
proof -
  from assms obtain s where s: "snap sig = Some s" by (auto simp: numeric_violation_def split: option.splits)
  with assms have c: "sv_valid s" "sv_unit s = unit" "known_error (sv_absolute_error s)"
      "isfinite (sv_value s)"
      "\<not> flt (fsub (sv_value s) (the (sv_absolute_error s))) lo"
      "\<not> flt hi (fadd (sv_value s) (the (sv_absolute_error s)))"
    by (auto simp: numeric_violation_def Let_def split: if_splits)
  from c(4) obtain v where v: "sv_value s = Fin v" by (cases "sv_value s") auto
  from c(3) obtain e where e: "sv_absolute_error s = Some (Fin e)" "0 \<le> e"
    by (cases "sv_absolute_error s") (auto simp: known_error_def elim!: isfinite.elims)
  from c v e s show ?thesis by (intro that [of s v e]) (auto simp: fsub_def)
qed

lemma numeric_clearI:
  assumes "snap sig = Some s" "sv_valid s" "sv_unit s = unit"
    "sv_value s = Fin v" "sv_absolute_error s = Some (Fin e)" "0 \<le> e"
    "\<not> flt (fl (v - e)) lo" "\<not> flt hi (fl (v + e))"
  shows "numeric_violation cid sig unit lo hi snap = []"
  using assms by (simp add: numeric_violation_def known_error_def fsub_def)

lemma product_factors_dest:
  "product_factors cid snap sigs = Inr ss \<Longrightarrow> s \<in> set ss \<Longrightarrow>
     \<exists>v e. sv_value s = Fin v \<and> sv_absolute_error s = Some (Fin e) \<and> 0 \<le> e \<and> sv_valid s"
proof (induction cid snap sigs arbitrary: ss rule: product_factors.induct)
  case (2 cid snap sig sigs)
  then show ?case
    by (auto split: option.splits if_splits simp: known_error_def
        elim!: isfinite.elims)
qed simp

lemma fle_fin_dest: "is_f64 r \<Longrightarrow> fle (Fin r) (fl a) \<Longrightarrow> fl a = PosInf \<or> (\<exists>b. fl a = Fin b \<and> r \<le> b)"
  by (cases "fl a") auto

lemma fmul_inf:
  "0 \<le> a \<Longrightarrow> fmul (Fin a) PosInf = (if a = 0 then NaN else PosInf)"
  "0 \<le> a \<Longrightarrow> fmul PosInf (Fin a) = (if a = 0 then NaN else PosInf)"
  "fmul PosInf PosInf = PosInf"
  by (simp_all add: Let_def)

text \<open>
  The arithmetic of the product bound: the two sums may round up or overflow. An infinite factor
  times a zero one is a NaN, which no comparison reports, but then the other value is zero.
\<close>

lemma product_bound:
  assumes "\<not> flt hi (fmul (fl (\<bar>v1\<bar> + e1)) (fl (\<bar>v2\<bar> + e2)))" "hi \<noteq> NaN" "fle (Fin 0) hi"
    and xy: "is_f64 \<bar>x\<bar>" "is_f64 \<bar>y\<bar>" "\<bar>x - v1\<bar> \<le> e1" "\<bar>y - v2\<bar> \<le> e2"
  shows "fle (fl \<bar>x * y\<bar>) hi"
proof -
  have x: "\<bar>x\<bar> \<le> \<bar>v1\<bar> + e1" and y: "\<bar>y\<bar> \<le> \<bar>v2\<bar> + e2" using xy by linarith+
  have fx: "fl (\<bar>v1\<bar> + e1) = PosInf \<or> (\<exists>a. fl (\<bar>v1\<bar> + e1) = Fin a \<and> \<bar>x\<bar> \<le> a)"
    using fle_fin_dest [OF xy(1)] fl_ge_f64 [OF xy(1) x] by blast
  have fy: "fl (\<bar>v2\<bar> + e2) = PosInf \<or> (\<exists>b. fl (\<bar>v2\<bar> + e2) = Fin b \<and> \<bar>y\<bar> \<le> b)"
    using fle_fin_dest [OF xy(2)] fl_ge_f64 [OF xy(2) y] by blast
  have zero: "fl 0 = Fin 0" by (simp add: fl_def flmag_def)
  consider (fin) a b where "fl (\<bar>v1\<bar> + e1) = Fin a" "\<bar>x\<bar> \<le> a" "fl (\<bar>v2\<bar> + e2) = Fin b" "\<bar>y\<bar> \<le> b"
    | (inf) "fmul (fl (\<bar>v1\<bar> + e1)) (fl (\<bar>v2\<bar> + e2)) = PosInf"
    | (null) "x * y = 0"
  proof -
    from fx fy consider "fl (\<bar>v1\<bar> + e1) = PosInf" "fl (\<bar>v2\<bar> + e2) = PosInf"
      | b where "fl (\<bar>v1\<bar> + e1) = PosInf" "fl (\<bar>v2\<bar> + e2) = Fin b" "\<bar>y\<bar> \<le> b"
      | a where "fl (\<bar>v1\<bar> + e1) = Fin a" "\<bar>x\<bar> \<le> a" "fl (\<bar>v2\<bar> + e2) = PosInf"
      | a b where "fl (\<bar>v1\<bar> + e1) = Fin a" "\<bar>x\<bar> \<le> a" "fl (\<bar>v2\<bar> + e2) = Fin b" "\<bar>y\<bar> \<le> b"
      by blast
    then show thesis
    proof cases
      case 1
      then show thesis using that(2) by (simp add: fmul_inf)
    next
      case (2 b)
      then have "0 \<le> b" by linarith
      with 2 show thesis using that(2,3) by (cases "b = 0") (auto simp: fmul_inf)
    next
      case (3 a)
      then have "0 \<le> a" by linarith
      with 3 show thesis using that(2,3) by (cases "a = 0") (auto simp: fmul_inf)
    next
      case (4 a b)
      then show thesis using that(1) by blast
    qed
  qed
  then show ?thesis
  proof cases
    case fin
    then have "\<bar>x * y\<bar> \<le> a * b" by (simp add: abs_mult mult_mono)
    then have "fle (fl \<bar>x * y\<bar>) (fl (a * b))" by (rule fl_mono)
    moreover have "fle (fl (a * b)) hi" using assms(1,2) fin by (simp add: flt_not_fle)
    ultimately show ?thesis by (rule fle_trans)
  next
    case inf
    with assms(1,2) have "hi = PosInf" by (cases hi) auto
    then show ?thesis by (cases "fl \<bar>x * y\<bar>") auto
  next
    case null
    with assms(3) show ?thesis by (simp only: null abs_zero zero)
  qed
qed

section \<open>Properties\<close>

text \<open>
  Claim C1. Deny by default, and nothing else: an action is allowed exactly when some rule matches
  its device, kind and target, the payload of an invoke or a capture is an object, and every
  matching rule carries a constraint schema that the validator can evaluate and the payload passes.
\<close>

theorem check_allowed_deny_by_default:
  "snd (check_allowed validate rules d k t p) = Inr () \<longleftrightarrow>
     (\<exists>rule \<in> set rules. rule_matches d k t rule) \<and>
     (k = ''invoke'' \<or> k = ''capture'' \<longrightarrow> is_object p) \<and>
     (\<forall>rule \<in> set rules. rule_matches d k t rule \<longrightarrow>
        (\<exists>c. map_of rule (constraints_key k) = Some c \<and> validate c p = Inr None))"
  using allowed_iff_permits [of validate rules d k t p]
  by (simp add: allowed_def rule_permits_iff)

text \<open>A policy of two write rules on one output, and a validator that admits values up to 5.\<close>

definition demo_rules :: "obj list" where
  "demo_rules =
     [[(''device_id'', JStr ''psu''), (''kind'', JStr ''write''), (''parameter'', JStr ''volts''),
       (''value_constraints'', JObj [(''maximum'', JInt 5)])],
      [(''device_id'', JStr ''psu''), (''kind'', JStr ''write''), (''parameter'', JStr ''volts''),
       (''value_constraints'', JObj [])]]"

definition demo_validator :: validator where
  "demo_validator c p = (case (c, p) of
     (JObj [(_, JInt hi)], JInt v) \<Rightarrow> if v \<le> hi then Inr None else Inr (Some ''too large'')
   | _ \<Rightarrow> Inr None)"

theorem check_allowed_deny_by_default_witness:
  "snd (check_allowed demo_validator demo_rules ''psu'' ''write'' ''volts'' (JInt 3)) = Inr () \<and>
   snd (check_allowed demo_validator demo_rules ''psu'' ''write'' ''volts'' (JInt 9)) \<noteq> Inr ()"
  unfolding check_allowed_deny_by_default
  by (simp add: demo_rules_def demo_validator_def rule_matches_def target_key_def
      constraints_key_def obj_get_def)

text \<open>
  No order-dependent overrides: the verdict depends on the set of rules only. Listing the
  rules in another order, or a rule twice, changes no verdict; and a rule that matches and does not
  permit the payload denies it wherever it stands, whatever the other rules allow.
\<close>

theorem check_allowed_order_irrelevant:
  assumes "set rules = set rules'"
  shows "(allowed validate rules d k t p \<longleftrightarrow> allowed validate rules' d k t p) \<and>
    (\<forall>rule \<in> set rules. rule_matches d k t rule \<and> \<not> rule_permits validate k p rule \<longrightarrow>
      \<not> allowed validate rules' d k t p)"
  using assms by (auto simp: allowed_iff_permits)

theorem check_allowed_order_irrelevant_witness:
  "allowed demo_validator demo_rules ''psu'' ''write'' ''volts'' (JInt 3) \<longleftrightarrow>
   allowed demo_validator (rev demo_rules) ''psu'' ''write'' ''volts'' (JInt 3)"
  using check_allowed_order_irrelevant [of demo_rules "rev demo_rules" demo_validator "''psu''" "''write''"
    "''volts''" "JInt 3"] by simp

text \<open>
  A clear numeric condition bounds the whole error interval: the signal is present,
  valid, in the stated unit and of known error, and every true value the stated error admits is,
  read as a binary64 number, inside the bounds.
\<close>

theorem numeric_condition_conservative:
  assumes "lo \<noteq> NaN" "hi \<noteq> NaN"
    and "evaluate_conditions cs snap = Inr []" "Numeric cid sig unit lo hi \<in> set cs"
  shows "\<exists>s v e. snap sig = Some s \<and> sv_valid s \<and> sv_unit s = unit \<and> sv_value s = Fin v \<and>
    sv_absolute_error s = Some (Fin e) \<and> 0 \<le> e \<and>
    (\<forall>x. v - e \<le> x \<and> x \<le> v + e \<longrightarrow> fle lo (fl x) \<and> fle (fl x) hi)"
proof -
  have "numeric_violation cid sig unit lo hi snap = []"
    using assms(3,4) by (force simp: evaluate_conditions_clear_iff)
  then obtain s v e where s: "snap sig = Some s" "sv_valid s" "sv_unit s = unit"
      "sv_value s = Fin v" "sv_absolute_error s = Some (Fin e)" "0 \<le> e"
    and b: "\<not> flt (fl (v - e)) lo" "\<not> flt hi (fl (v + e))"
    by (rule numeric_clear_dest)
  from assms(1,2) b have "fle lo (fl (v - e))" "fle (fl (v + e)) hi"
    by (simp_all add: flt_not_fle)
  then have "fle lo (fl x) \<and> fle (fl x) hi" if "v - e \<le> x" "x \<le> v + e" for x
    using that fl_mono fle_trans by blast
  with s show ?thesis by blast
qed

definition demo_snapshot :: snapshot where
  "demo_snapshot = [''vout'' \<mapsto> \<lparr>sv_signal_id = ''vout'', sv_value = Fin 3, sv_unit = ''V'',
     sv_age_ms = 5, sv_valid = True, sv_absolute_error = Some (Fin (1/4))\<rparr>]"

theorem numeric_condition_conservative_witness:
  "fle (Fin 2) (fl (13/4)) \<and> fle (fl (13/4)) (Fin 4)"
proof -
  let ?c = "Numeric ''c'' ''vout'' ''V'' (Fin 2) (Fin 4)"
  have "flmag (11/4) = 11/4" "flmag (13/4) = 13/4" by code_simp+
  then have f: "fl (11/4) = Fin (11/4)" "fl (13/4) = Fin (13/4)" by (simp_all add: fl_smallI)
  have "evaluate_conditions [?c] demo_snapshot = Inr []"
    by (simp add: numeric_violation_def demo_snapshot_def known_error_def fsub_def f)
  then show ?thesis
    using numeric_condition_conservative [of "Fin 2" "Fin 4" "[?c]" demo_snapshot "''c''" "''vout''" "''V''"]
    by (fastforce simp: demo_snapshot_def)
qed

text \<open>
  No false alarm: an error interval that fits exactly inside binary64 bounds, on a valid
  signal in the stated unit, is never reported.
\<close>

theorem numeric_condition_complete:
  assumes "is_f64 a" "is_f64 b" "snap sig = Some s" "sv_valid s" "sv_unit s = unit"
    "sv_value s = Fin v" "sv_absolute_error s = Some (Fin e)" "0 \<le> e" "a \<le> v - e" "v + e \<le> b"
  shows "check_condition (Numeric cid sig unit (Fin a) (Fin b)) snap = Inr []"
  using assms fl_ge_f64 [of a "v - e"] fl_le_f64 [of b "v + e"]
  by (auto intro!: numeric_clearI simp: flt_not_fle)

lemma numeric_condition_complete_witness:
  "check_condition (Numeric ''c'' ''vout'' ''V'' (Fin 2) (Fin 4)) demo_snapshot = Inr []"
proof -
  have "flmag 2 = 2" "flmag 4 = 4" by code_simp+
  then have "is_f64 2" "is_f64 4" by (simp_all add: is_f64_def fl_smallI)
  then show ?thesis
    using numeric_condition_complete [of 2 4 demo_snapshot "''vout''" "the (demo_snapshot ''vout'')" "''V''" 3 "1/4" "''c''"]
    by (simp add: demo_snapshot_def)
qed

text \<open>
  Binary64 leaves a gap of half a unit in the last place: the interval is rounded before
  it is compared, so that a condition can be clear although the exact interval crosses the bound.
\<close>

theorem numeric_condition_rounding_gap:
  "\<exists>snap s v e lo. snap ''vout'' = Some s \<and> sv_value s = Fin v \<and> sv_absolute_error s = Some (Fin e) \<and>
     check_condition (Numeric ''c'' ''vout'' ''V'' (Fin lo) (Fin 4)) snap = Inr [] \<and> v - e < lo"
proof -
  let ?e = "1 / 2 ^ 60 :: rat"
  let ?s = "\<lparr>sv_signal_id = ''vout'', sv_value = Fin 1, sv_unit = ''V'',
     sv_age_ms = 5, sv_valid = True, sv_absolute_error = Some (Fin ?e)\<rparr>"
  have "flmag (1 - ?e) = 1" "flmag (1 + ?e) = 1" by code_simp+
  then have "fl (1 - ?e) = Fin 1" "fl (1 + ?e) = Fin 1" by (simp_all add: fl_smallI)
  then have "check_condition (Numeric ''c'' ''vout'' ''V'' (Fin 1) (Fin 4)) [''vout'' \<mapsto> ?s] = Inr []"
    by (simp add: numeric_violation_def known_error_def fsub_def)
  then show ?thesis
    by (intro exI [of _ "[''vout'' \<mapsto> ?s]"] exI [of _ ?s] exI [of _ 1] exI [of _ ?e]) simp
qed

text \<open>
  A clear product condition (\<open>V x A -> W\<close>) bounds the power: for any two binary64 values
  that the stated errors of its two factors admit, the absolute product, rounded, does not exceed
  the maximum; both factors are valid and of known error, and, in watts, one is in volts and the
  other in amperes.
\<close>

theorem product_condition_conservative:
  assumes clear: "check_condition (AbsoluteProduct cid sigs ''W'' hi skew) snap = Inr []"
    and hi: "hi \<noteq> NaN" "fle (Fin 0) hi"
  shows "\<exists>s1 s2 v1 e1 v2 e2. snap (sigs ! 0) = Some s1 \<and> snap (sigs ! 1) = Some s2 \<and>
      sv_value s1 = Fin v1 \<and> sv_absolute_error s1 = Some (Fin e1) \<and> sv_valid s1 \<and>
      sv_value s2 = Fin v2 \<and> sv_absolute_error s2 = Some (Fin e2) \<and> sv_valid s2 \<and>
      {sv_unit s1, sv_unit s2} \<subseteq> {''V'', ''A''} \<and> \<bar>sv_age_ms s1 - sv_age_ms s2\<bar> \<le> skew \<and>
      (\<forall>x y. is_f64 \<bar>x\<bar> \<and> is_f64 \<bar>y\<bar> \<and> \<bar>x - v1\<bar> \<le> e1 \<and> \<bar>y - v2\<bar> \<le> e2 \<longrightarrow>
         fle (fl \<bar>x * y\<bar>) hi)"
proof -
  have "\<exists>ss. product_factors cid snap sigs = Inr ss"
    using clear by (auto simp: product_violation_def split: sum.splits)
  then obtain ss where ss: "product_factors cid snap sigs = Inr ss" ..
  with clear obtain s1 s2 rest where ss': "ss = s1 # s2 # rest"
    by (auto simp: product_violation_def split: list.splits)
  obtain g1 g2 gs where sigs: "sigs = g1 # g2 # gs" "snap g1 = Some s1" "snap g2 = Some s2"
    using ss ss' by (cases sigs; cases "tl sigs") (auto split: option.splits if_splits)
  from clear have c: "set (map sv_unit ss) = {''V'', ''A''}"
      "\<not> flt hi (fmul (factor_bound s1) (factor_bound s2))" "\<bar>sv_age_ms s1 - sv_age_ms s2\<bar> \<le> skew"
    by (auto simp: product_violation_def ss ss' Let_def split: if_splits)
  obtain v1 e1 where f1: "sv_value s1 = Fin v1" "sv_absolute_error s1 = Some (Fin e1)" "0 \<le> e1"
      "sv_valid s1"
    using product_factors_dest [OF ss, of s1] by (auto simp: ss')
  obtain v2 e2 where f2: "sv_value s2 = Fin v2" "sv_absolute_error s2 = Some (Fin e2)" "0 \<le> e2"
      "sv_valid s2"
    using product_factors_dest [OF ss, of s2] by (auto simp: ss')
  have bound: "fle (fl \<bar>x * y\<bar>) hi"
    if xy: "is_f64 \<bar>x\<bar>" "is_f64 \<bar>y\<bar>" "\<bar>x - v1\<bar> \<le> e1" "\<bar>y - v2\<bar> \<le> e2" for x y
    using c(2) hi xy f1 f2 by (intro product_bound) (auto simp: factor_bound_def)
  from sigs f1 f2 c bound show ?thesis by (auto simp: ss' intro!: exI [of _ s1] exI [of _ s2])
qed

definition demo_power :: snapshot where
  "demo_power = [''vout'' \<mapsto> \<lparr>sv_signal_id = ''vout'', sv_value = Fin 3, sv_unit = ''V'',
     sv_age_ms = 5, sv_valid = True, sv_absolute_error = Some (Fin (1/4))\<rparr>,
     ''iout'' \<mapsto> \<lparr>sv_signal_id = ''iout'', sv_value = Fin 2, sv_unit = ''A'',
     sv_age_ms = 7, sv_valid = True, sv_absolute_error = Some (Fin 0)\<rparr>]"

theorem product_condition_conservative_witness:
  "fle (fl \<bar>13/4 * 2\<bar>) (Fin 8)"
proof -
  have "flmag (13/4) = 13/4" "flmag 2 = 2" "flmag (13/2) = 13/2" by code_simp+
  then have f: "fl (13/4) = Fin (13/4)" "fl 2 = Fin 2" "fl (13/2) = Fin (13/2)"
    by (simp_all add: fl_smallI)
  have "check_condition (AbsoluteProduct ''p'' [''vout'', ''iout''] ''W'' (Fin 8) 10) demo_power = Inr []"
    by (auto simp: product_violation_def demo_power_def known_error_def factor_bound_def f)
  from product_condition_conservative [OF this] show ?thesis
    by (auto simp: demo_power_def is_f64_def f dest!: spec [of _ "13/4"] spec [of _ 2])
qed

end
