(* ===== verification/Store.thy ===== *)
theory Store
  imports Py_Text "HOL-Library.AList"
begin

text \<open>
  \<open>state/store.py\<close>: the durable state of requests, runs, leases, events, generations, benches,
  devices, run states and change records. A table with a primary key is an association list in
  insertion order; the lease and event ledgers are row lists. \<open>saved\<close> holds the tables as they
  were at an open \<open>BEGIN IMMEDIATE\<close>: a rollback, or a process that dies, restores them. Every
  operation returns its result or the exception it raises, and the store it leaves. SQLite's own
  failures (a full disk, a held lock) are outside the model; a JSON column holds the decoded value
  with its members in key order.
\<close>

section \<open>Rows and tables\<close>

record request_row =
  rq_body :: string
  rq_run :: string
  rq_at :: string

record run_row =
  rn_binding :: pyval
  rn_principal :: string
  rn_started :: string
  rn_terminal :: "pyval option"
  rn_tombstoned :: bool
  rn_tombstoned_at :: "string option"
  rn_authority :: string

record lease =
  ls_id :: string
  ls_bench :: string
  ls_seq :: nat
  ls_holder :: string
  ls_expires :: string
  ls_state :: string

record event_row =
  ev_stream :: string
  ev_seq :: nat
  ev_body :: obj

record bench_row =
  bn_generation :: int
  bn_qualification :: string
  bn_configuration :: string
  bn_licence :: string
  bn_updated :: string

record device_row =
  dv_bench :: string
  dv_generation :: int
  dv_profiles :: string
  dv_descriptor :: string
  dv_identity :: string
  dv_licence :: string
  dv_updated :: string
  dv_acknowledgement :: "string option"

record run_state_row =
  rs_bench :: string
  rs_state :: string
  rs_revision :: nat
  rs_updated :: string

record change_row =
  cg_bench :: string
  cg_kind :: string
  cg_target :: string
  cg_expected :: int
  cg_reason :: string
  cg_state :: string
  cg_reasons :: "string list"
  cg_created :: string
  cg_updated :: string

record tables =
  t_requests :: "(string \<times> request_row) list"
  t_runs :: "(string \<times> run_row) list"
  t_leases :: "lease list"
  t_events :: "event_row list"
  t_generations :: "(string \<times> (int \<times> string)) list"
  t_benches :: "(string \<times> bench_row) list"
  t_devices :: "(string \<times> device_row) list"
  t_run_states :: "(string \<times> run_state_row) list"
  t_changes :: "(string \<times> change_row) list"

record store =
  tabs :: tables
  saved :: "tables option"

definition empty_tables :: tables where
  "empty_tables = \<lparr>t_requests = [], t_runs = [], t_leases = [], t_events = [], t_generations = [],
     t_benches = [], t_devices = [], t_run_states = [], t_changes = []\<rparr>"

definition empty_store :: store where
  "empty_store = \<lparr>tabs = empty_tables, saved = None\<rparr>"

section \<open>Transactions\<close>

text \<open>
  The commands of an explicit transaction: \<open>saved\<close> holds the tables a rollback restores. When the process dies and
  the next one opens the database, an open transaction is rolled back.
\<close>

definition begin_immediate :: "store \<Rightarrow> store" where
  "begin_immediate s = s\<lparr>saved := Some (tabs s)\<rparr>"

definition commit :: "store \<Rightarrow> store" where
  "commit s = s\<lparr>saved := None\<rparr>"

definition crash :: "store \<Rightarrow> store" where
  "crash s = (case saved s of None \<Rightarrow> s | Some t \<Rightarrow> \<lparr>tabs = t, saved = None\<rparr>)"

definition rollback :: "store \<Rightarrow> store" where
  "rollback s = crash s"

text \<open>
  \<open>BEGIN IMMEDIATE\<close> ... \<open>COMMIT\<close>, with the handler that issues \<open>ROLLBACK\<close> on whatever the body raises after it
  may have written. A \<open>BEGIN\<close> inside an open transaction is refused before the body runs.
\<close>

definition immediate :: "(tables \<Rightarrow> (exn + 'a) \<times> tables) \<Rightarrow> store \<Rightarrow> (exn + 'a) \<times> store" where
  "immediate body s = (case saved s of
      Some _ \<Rightarrow> (Inl OperationalError, s)
    | None \<Rightarrow> (let s1 = begin_immediate s in case body (tabs s1) of
        (Inl e, t) \<Rightarrow> (Inl e, rollback (s1\<lparr>tabs := t\<rparr>))
      | (Inr a, t) \<Rightarrow> (Inr a, commit (s1\<lparr>tabs := t\<rparr>))))"

text \<open>
  A single statement outside an explicit transaction (\<open>isolation_level=None\<close>): what it wrote stays written, also when the
  operation raises afterwards.
\<close>

definition autocommit :: "(tables \<Rightarrow> (exn + 'a) \<times> tables) \<Rightarrow> store \<Rightarrow> (exn + 'a) \<times> store" where
  "autocommit body s = (case body (tabs s) of (r, t) \<Rightarrow> (r, s\<lparr>tabs := t\<rparr>))"

lemma immediate_eq: "immediate body s = (case saved s of
      Some _ \<Rightarrow> (Inl OperationalError, s)
    | None \<Rightarrow> (case body (tabs s) of
        (Inl e, _) \<Rightarrow> (Inl e, s)
      | (Inr a, t) \<Rightarrow> (Inr a, s\<lparr>tabs := t\<rparr>)))"
  by (cases s) (auto simp: immediate_def begin_immediate_def commit_def rollback_def crash_def split: option.splits prod.splits sum.splits)

lemma immediate_raises: "immediate body s = (Inl e, s') \<Longrightarrow> s' = s"
  by (auto simp: immediate_eq split: option.splits prod.splits sum.splits)

lemma immediate_ok: "immediate body s = (Inr a, s') \<longleftrightarrow>
    saved s = None \<and> (\<exists>t. body (tabs s) = (Inr a, t) \<and> s' = s\<lparr>tabs := t\<rparr>)"
  by (auto simp: immediate_eq split: option.splits prod.splits sum.splits)

lemma autocommit_ok: "autocommit body s = (Inr a, s') \<longleftrightarrow>
    (\<exists>t. body (tabs s) = (Inr a, t) \<and> s' = s\<lparr>tabs := t\<rparr>)"
  by (auto simp: autocommit_def split: prod.splits)

text \<open>
  What a body leaves of the tables decides what the call leaves, whether it raises or not: the one
  rule behind every frame and every invariant below.
\<close>

lemma immediate_keeps:
  assumes "P (tabs s)" "\<And>a t. saved s = None \<Longrightarrow> body (tabs s) = (Inr a, t) \<Longrightarrow> P t"
  shows "P (tabs (snd (immediate body s)))"
  using assms by (auto simp: immediate_eq split: option.splits prod.splits sum.splits)

lemma saved_immediate [frame_simps]: "saved (snd (immediate body s)) = saved s"
  by (auto simp: immediate_eq split: option.splits prod.splits sum.splits)

lemma saved_autocommit [frame_simps]: "saved (snd (autocommit body s)) = saved s"
  by (auto simp: autocommit_def split: prod.splits sum.splits)

section \<open>Request idempotency\<close>

text \<open>\<open>AcceptResult\<close>: the run id with the outcome as the constructor.\<close>

datatype accept_result = Accepted string | Duplicate string

definition accept_request :: "string \<Rightarrow> string \<Rightarrow> string \<Rightarrow> string \<Rightarrow> store \<Rightarrow> (exn + accept_result) \<times> store" where
  "accept_request key body run now = immediate (\<lambda>t. case map_of (t_requests t) key of
      Some row \<Rightarrow> (if rq_body row = body then Inr (Duplicate (rq_run row)) else Inl (Conflict key), t)
    | None \<Rightarrow> (Inr (Accepted run),
        t\<lparr>t_requests := t_requests t @ [(key, \<lparr>rq_body = body, rq_run = run, rq_at = now\<rparr>)]\<rparr>))"

definition find_request :: "string \<Rightarrow> store \<Rightarrow> request_row option" where
  "find_request key s = map_of (t_requests (tabs s)) key"

text \<open>
  The anti-join: a request whose \<open>run_id\<close> column names no run, no change and no lease.
\<close>

definition dangling :: "tables \<Rightarrow> request_row \<Rightarrow> bool" where
  "dangling t row \<longleftrightarrow> map_of (t_runs t) (rq_run row) = None \<and> map_of (t_changes t) (rq_run row) = None \<and>
     rq_run row \<notin> ls_id ` set (t_leases t)"

definition dangling_keys :: "tables \<Rightarrow> string list" where
  "dangling_keys t = map fst (filter (\<lambda>(k, row). dangling t row) (t_requests t))"

definition reconcile_dangling_requests :: "store \<Rightarrow> (exn + string list) \<times> store" where
  "reconcile_dangling_requests = immediate (\<lambda>t. let keys = dangling_keys t in
     (Inr keys, fold (\<lambda>key t. t\<lparr>t_requests := AList.delete key (t_requests t)\<rparr>) keys t))"

section \<open>Runs\<close>

text \<open>The columns \<open>create_run\<close> does not name take their defaults.\<close>

definition fresh_run :: "pyval \<Rightarrow> string \<Rightarrow> string \<Rightarrow> run_row" where
  "fresh_run binding who now = \<lparr>rn_binding = binding, rn_principal = who, rn_started = now,
     rn_terminal = None, rn_tombstoned = False, rn_tombstoned_at = None, rn_authority = ''gateway''\<rparr>"

text \<open>
  \<open>create_run\<close> reads before it opens its transaction, and encodes the binding inside it with
  no handler: a binding that is no JSON value leaves the transaction open.
\<close>

definition create_run :: "string \<Rightarrow> pyval \<Rightarrow> string \<Rightarrow> string \<Rightarrow> store \<Rightarrow> (exn + unit) \<times> store" where
  "create_run run binding who now s = (case map_of (t_runs (tabs s)) run of
      Some row \<Rightarrow> (Inl (ValueError (if rn_tombstoned row then ''tombstoned'' else ''already exists'')), s)
    | None \<Rightarrow> (case saved s of
        Some _ \<Rightarrow> (Inl OperationalError, s)
      | None \<Rightarrow> (case json_column binding of
          Inl e \<Rightarrow> (Inl e, s\<lparr>saved := Some (tabs s)\<rparr>)
        | Inr b \<Rightarrow> (Inr (), s\<lparr>tabs := (tabs s)\<lparr>t_runs := t_runs (tabs s) @ [(run, fresh_run b who now)]\<rparr>\<rparr>))))"

definition set_run_authority :: "string \<Rightarrow> string \<Rightarrow> store \<Rightarrow> (exn + unit) \<times> store" where
  "set_run_authority run authority = immediate (\<lambda>t. case map_of (t_runs t) run of
      None \<Rightarrow> (Inl (ValueError ''not found''), t)
    | Some row \<Rightarrow> (Inr (), t\<lparr>t_runs := AList.update run (row\<lparr>rn_authority := authority\<rparr>) (t_runs t)\<rparr>))"

text \<open>\<open>UPDATE runs SET ... WHERE run_id = ? AND tombstoned = 0\<close>, with its row count.\<close>

definition update_live :: "string \<Rightarrow> (run_row \<Rightarrow> run_row) \<Rightarrow> tables \<Rightarrow> nat \<times> tables" where
  "update_live run f t = (case map_of (t_runs t) run of
      None \<Rightarrow> (0, t)
    | Some row \<Rightarrow> if rn_tombstoned row then (0, t) else (1, t\<lparr>t_runs := AList.update run (f row) (t_runs t)\<rparr>))"

definition finalize_run :: "string \<Rightarrow> pyval \<Rightarrow> store \<Rightarrow> (exn + unit) \<times> store" where
  "finalize_run run terminal = autocommit (\<lambda>t. case json_column terminal of
      Inl e \<Rightarrow> (Inl e, t)
    | Inr j \<Rightarrow> (case update_live run (\<lambda>row. row\<lparr>rn_terminal := Some j\<rparr>) t of
        (n, t') \<Rightarrow> if n \<noteq> 1 then (Inl (ValueError ''not found or tombstoned''), t') else (Inr (), t')))"

definition delete_run :: "string \<Rightarrow> string \<Rightarrow> store \<Rightarrow> (exn + unit) \<times> store" where
  "delete_run run now = autocommit (\<lambda>t.
     case update_live run (\<lambda>row. row\<lparr>rn_tombstoned := True, rn_tombstoned_at := Some now\<rparr>) t of
       (n, t') \<Rightarrow> if n \<noteq> 1 then (Inl (ValueError ''not found or already tombstoned''), t') else (Inr (), t'))"

lemma finalize_run_eq: "finalize_run run terminal = autocommit (\<lambda>t. case json_column terminal of
      Inl e \<Rightarrow> (Inl e, t)
    | Inr j \<Rightarrow> (case map_of (t_runs t) run of
        None \<Rightarrow> (Inl (ValueError ''not found or tombstoned''), t)
      | Some row \<Rightarrow> if rn_tombstoned row then (Inl (ValueError ''not found or tombstoned''), t)
          else (Inr (), t\<lparr>t_runs := AList.update run (row\<lparr>rn_terminal := Some j\<rparr>) (t_runs t)\<rparr>)))"
  by (auto simp: finalize_run_def update_live_def intro!: arg_cong [where f = autocommit] split: sum.splits option.splits)

lemma delete_run_eq: "delete_run run now = autocommit (\<lambda>t. case map_of (t_runs t) run of
      None \<Rightarrow> (Inl (ValueError ''not found or already tombstoned''), t)
    | Some row \<Rightarrow> if rn_tombstoned row then (Inl (ValueError ''not found or already tombstoned''), t)
        else (Inr (), t\<lparr>t_runs := AList.update run
          (row\<lparr>rn_tombstoned := True, rn_tombstoned_at := Some now\<rparr>) (t_runs t)\<rparr>))"
  by (auto simp: delete_run_def update_live_def intro!: arg_cong [where f = autocommit] split: option.splits)

definition get_run :: "string \<Rightarrow> store \<Rightarrow> run_row option" where
  "get_run run s = map_of (t_runs (tabs s)) run"

section \<open>Leases\<close>

definition lease_seqs :: "tables \<Rightarrow> string \<Rightarrow> nat list" where
  "lease_seqs t bench = map ls_seq (filter (\<lambda>l. ls_bench l = bench) (t_leases t))"

definition next_lease :: "string \<Rightarrow> string \<Rightarrow> string \<Rightarrow> string \<Rightarrow> store \<Rightarrow> (exn + lease) \<times> store" where
  "next_lease bench lease_id holder expires = immediate (\<lambda>t.
     let seq = Suc (max_seq (lease_seqs t bench));
         row = \<lparr>ls_id = lease_id, ls_bench = bench, ls_seq = seq, ls_holder = holder,
                ls_expires = expires, ls_state = ''active''\<rparr>
     in (Inr row, t\<lparr>t_leases := t_leases t @ [row]\<rparr>))"

text \<open>The \<open>UPDATE\<close> matches at most one row (bench and sequence are the primary key).\<close>

definition close_lease :: "string \<Rightarrow> nat \<Rightarrow> string \<Rightarrow> store \<Rightarrow> (exn + unit) \<times> store" where
  "close_lease bench seq now = autocommit (\<lambda>t.
     let hit = (\<lambda>l. ls_bench l = bench \<and> ls_seq l = seq \<and> ls_state l = ''active'') in
     if length (filter hit (t_leases t)) \<noteq> 1 then (Inl LeaseNotActive, t) else (Inr (),
       t\<lparr>t_leases := map (\<lambda>l. if hit l then l\<lparr>ls_state := ''released'', ls_expires := now\<rparr> else l) (t_leases t)\<rparr>))"

definition release_lease :: "string \<Rightarrow> nat \<Rightarrow> string \<Rightarrow> store \<Rightarrow> (exn + unit) \<times> store" where
  "release_lease bench seq now s = close_lease bench seq now s"

definition consume_lease :: "string \<Rightarrow> nat \<Rightarrow> string \<Rightarrow> store \<Rightarrow> (exn + unit) \<times> store" where
  "consume_lease bench seq now s = close_lease bench seq now s"

definition list_leases :: "string \<Rightarrow> store \<Rightarrow> lease list" where
  "list_leases bench s = sort_key ls_seq (filter (\<lambda>l. ls_bench l = bench) (t_leases (tabs s)))"

definition get_active_lease :: "string \<Rightarrow> store \<Rightarrow> lease option" where
  "get_active_lease bench s =
     (case rev (sort_key ls_seq (filter (\<lambda>l. ls_bench l = bench \<and> ls_state l = ''active'') (t_leases (tabs s)))) of
        [] \<Rightarrow> None | l # _ \<Rightarrow> Some l)"

section \<open>Events\<close>

definition event_seqs :: "tables \<Rightarrow> string \<Rightarrow> nat list" where
  "event_seqs t stream = map ev_seq (filter (\<lambda>r. ev_stream r = stream) (t_events t))"

definition append_event :: "string \<Rightarrow> obj \<Rightarrow> store \<Rightarrow> (exn + nat) \<times> store" where
  "append_event stream event = immediate (\<lambda>t.
     let seq = Suc (max_seq (event_seqs t stream));
         envelope = AList.update ''sequence'' (JStr (show_nat seq)) event
     in (case json_column (JObj envelope) of
          Inr (JObj body) \<Rightarrow> (Inr seq,
            t\<lparr>t_events := t_events t @ [\<lparr>ev_stream = stream, ev_seq = seq, ev_body = body\<rparr>]\<rparr>)
        | Inr _ \<Rightarrow> (Inl (TypeError ''json''), t)
        | Inl e \<Rightarrow> (Inl e, t)))"

definition stream_rows :: "string \<Rightarrow> tables \<Rightarrow> event_row list" where
  "stream_rows stream t = sort_key ev_seq (filter (\<lambda>r. ev_stream r = stream) (t_events t))"

definition read_events :: "string \<Rightarrow> store \<Rightarrow> obj list" where
  "read_events stream s = map ev_body (stream_rows stream (tabs s))"

definition read_events_after :: "string \<Rightarrow> string option \<Rightarrow> int \<Rightarrow> store \<Rightarrow> exn + obj list" where
  "read_events_after stream after limit s = (case after of
      None \<Rightarrow> Inr (map ev_body (sql_limit limit (stream_rows stream (tabs s))))
    | Some a \<Rightarrow> bind_res (py_int a) (\<lambda>n.
        Inr (map ev_body (sql_limit limit
          (filter (\<lambda>r. n < int (ev_seq r)) (stream_rows stream (tabs s)))))))"

definition stream_watermarks :: "string \<Rightarrow> store \<Rightarrow> (string \<times> string) option" where
  "stream_watermarks stream s = (let ns = map ev_seq (stream_rows stream (tabs s)) in
     if ns = [] then None else Some (show_nat (foldr min ns (hd ns)), show_nat (max_seq ns)))"

definition trim_stream :: "string \<Rightarrow> int \<Rightarrow> store \<Rightarrow> (exn + nat) \<times> store" where
  "trim_stream stream keep = immediate (\<lambda>t.
     case sql_limit 1 (sql_offset (keep - 1) (rev (stream_rows stream t))) of
       [] \<Rightarrow> (Inr 0, t)
     | edge # _ \<Rightarrow> (let gone = (\<lambda>r. ev_stream r = stream \<and> ev_seq r < ev_seq edge) in
         (Inr (length (filter gone (t_events t))),
          t\<lparr>t_events := filter (\<lambda>r. \<not> gone r) (t_events t)\<rparr>)))"

section \<open>Generation authority\<close>

definition current_generation :: "string \<Rightarrow> store \<Rightarrow> int" where
  "current_generation bench s =
     (case map_of (t_generations (tabs s)) bench of Some (g, _) \<Rightarrow> g | None \<Rightarrow> 0)"

definition bump_generation ::
    "string \<Rightarrow> string \<Rightarrow> int option \<Rightarrow> store \<Rightarrow> (exn + int option) \<times> store" where
  "bump_generation bench now expected = immediate (\<lambda>t.
     let current = (case map_of (t_generations t) bench of Some (g, _) \<Rightarrow> g | None \<Rightarrow> 0) in
     if expected \<noteq> None \<and> expected \<noteq> Some current then (Inr None, t)
     else (Inr (Some (current + 1)),
       t\<lparr>t_generations := AList.update bench (current + 1, now) (t_generations t)\<rparr>))"

section \<open>Inventory\<close>

definition put_bench :: "string \<Rightarrow> bench_row \<Rightarrow> store \<Rightarrow> (exn + unit) \<times> store" where
  "put_bench bench row = immediate (\<lambda>t. (Inr (), t\<lparr>t_benches := AList.update bench row (t_benches t)\<rparr>))"

definition get_bench :: "string \<Rightarrow> store \<Rightarrow> bench_row option" where
  "get_bench bench s = map_of (t_benches (tabs s)) bench"

text \<open>One page, read one row longer than asked so that the caller knows whether more follow.\<close>

definition page :: "int \<Rightarrow> int \<Rightarrow> 'a list \<Rightarrow> 'a list \<times> bool" where
  "page limit offset rows = (let got = sql_limit (limit + 1) (sql_offset offset rows) in
     ((if limit < 0 then take (length got - nat (- limit)) got else take (nat limit) got),
      limit < int (length got)))"

definition list_benches :: "int \<Rightarrow> int \<Rightarrow> store \<Rightarrow> (string \<times> bench_row) list \<times> bool" where
  "list_benches limit offset s = page limit offset (sort_key fst (t_benches (tabs s)))"

definition put_device :: "string \<Rightarrow> device_row \<Rightarrow> store \<Rightarrow> (exn + unit) \<times> store" where
  "put_device device row = immediate (\<lambda>t. (Inr (), t\<lparr>t_devices := AList.update device row (t_devices t)\<rparr>))"

definition get_device :: "string \<Rightarrow> store \<Rightarrow> device_row option" where
  "get_device device s = map_of (t_devices (tabs s)) device"

definition list_devices :: "string \<Rightarrow> int \<Rightarrow> int \<Rightarrow> store \<Rightarrow> (string \<times> device_row) list \<times> bool" where
  "list_devices bench limit offset s =
     page limit offset (sort_key fst (filter (\<lambda>(_, d). dv_bench d = bench) (t_devices (tabs s))))"

section \<open>Run states and change records\<close>

definition put_run_state :: "string \<Rightarrow> string \<Rightarrow> string \<Rightarrow> string \<Rightarrow> store \<Rightarrow> (exn + unit) \<times> store" where
  "put_run_state run bench state now = immediate (\<lambda>t.
     let revision = (case map_of (t_run_states t) run of None \<Rightarrow> 1 | Some old \<Rightarrow> Suc (rs_revision old)) in
     (Inr (), t\<lparr>t_run_states := AList.update run
        \<lparr>rs_bench = bench, rs_state = state, rs_revision = revision, rs_updated = now\<rparr> (t_run_states t)\<rparr>))"

definition get_run_state :: "string \<Rightarrow> store \<Rightarrow> run_state_row option" where
  "get_run_state run s = map_of (t_run_states (tabs s)) run"

definition list_run_states :: "string \<Rightarrow> store \<Rightarrow> (string \<times> run_state_row) list" where
  "list_run_states bench s =
     sort_key fst (filter (\<lambda>(_, r). rs_bench r = bench) (t_run_states (tabs s)))"

definition put_change ::
    "string \<Rightarrow> string \<Rightarrow> string \<Rightarrow> string \<Rightarrow> int \<Rightarrow> string \<Rightarrow> string \<Rightarrow> store \<Rightarrow> (exn + unit) \<times> store" where
  "put_change change bench kind target expected reason now = immediate (\<lambda>t.
     case map_of (t_changes t) change of
       Some _ \<Rightarrow> (Inl IntegrityError, t)
     | None \<Rightarrow> (Inr (), t\<lparr>t_changes := t_changes t @ [(change,
         \<lparr>cg_bench = bench, cg_kind = kind, cg_target = target, cg_expected = expected,
          cg_reason = reason, cg_state = ''proposed'', cg_reasons = [], cg_created = now,
          cg_updated = now\<rparr>)]\<rparr>))"

definition get_change :: "string \<Rightarrow> store \<Rightarrow> change_row option" where
  "get_change change s = map_of (t_changes (tabs s)) change"

definition set_change_state ::
    "string \<Rightarrow> string \<Rightarrow> string list \<Rightarrow> string \<Rightarrow> string option \<Rightarrow> store \<Rightarrow> (exn + bool) \<times> store" where
  "set_change_state change state reasons now only_if = autocommit (\<lambda>t.
     let write = (\<lambda>row. t\<lparr>t_changes := AList.update change
           (row\<lparr>cg_state := state, cg_reasons := reasons, cg_updated := now\<rparr>) (t_changes t)\<rparr>) in
     case only_if of
       None \<Rightarrow> (case map_of (t_changes t) change of
           None \<Rightarrow> (Inl (ValueError ''not found''), t) | Some row \<Rightarrow> (Inr True, write row))
     | Some required \<Rightarrow> (case map_of (t_changes t) change of
           None \<Rightarrow> (Inr False, t)
         | Some row \<Rightarrow> if cg_state row = required then (Inr True, write row) else (Inr False, t)))"

section \<open>The store as a transition system\<close>

text \<open>Every operation that writes, with its arguments.\<close>

datatype store_call =
    AcceptRequest string string string string
  | Reconcile
  | CreateRun string pyval string string
  | SetRunAuthority string string
  | FinalizeRun string pyval
  | DeleteRun string string
  | NextLease string string string string
  | ReleaseLease string nat string
  | ConsumeLease string nat string
  | AppendEvent string obj
  | TrimStream string int
  | BumpGeneration string string "int option"
  | PutBench string bench_row
  | PutDevice string device_row
  | PutRunState string string string string
  | PutChange string string string string int string string
  | SetChangeState string string "string list" string "string option"

definition outcome :: "(exn + 'a) \<times> store \<Rightarrow> exn option \<times> store" where
  "outcome r = (case fst r of Inl e \<Rightarrow> Some e | Inr _ \<Rightarrow> None, snd r)"

fun apply_call :: "store_call \<Rightarrow> store \<Rightarrow> exn option \<times> store" where
  "apply_call (AcceptRequest k b r n) s = outcome (accept_request k b r n s)"
| "apply_call Reconcile s = outcome (reconcile_dangling_requests s)"
| "apply_call (CreateRun r b p n) s = outcome (create_run r b p n s)"
| "apply_call (SetRunAuthority r a) s = outcome (set_run_authority r a s)"
| "apply_call (FinalizeRun r t) s = outcome (finalize_run r t s)"
| "apply_call (DeleteRun r n) s = outcome (delete_run r n s)"
| "apply_call (NextLease b i h e) s = outcome (next_lease b i h e s)"
| "apply_call (ReleaseLease b q n) s = outcome (release_lease b q n s)"
| "apply_call (ConsumeLease b q n) s = outcome (consume_lease b q n s)"
| "apply_call (AppendEvent k e) s = outcome (append_event k e s)"
| "apply_call (TrimStream k n) s = outcome (trim_stream k n s)"
| "apply_call (BumpGeneration b n x) s = outcome (bump_generation b n x s)"
| "apply_call (PutBench b r) s = outcome (put_bench b r s)"
| "apply_call (PutDevice d r) s = outcome (put_device d r s)"
| "apply_call (PutRunState r b st n) s = outcome (put_run_state r b st n s)"
| "apply_call (PutChange c b k t g r n) s = outcome (put_change c b k t g r n s)"
| "apply_call (SetChangeState c st rs n only) s = outcome (set_change_state c st rs n only s)"

text \<open>A life of the store: calls in any order, and deaths of the process between them.\<close>

inductive store_steps :: "store \<Rightarrow> store \<Rightarrow> bool" where
  start: "store_steps s s"
| call: "store_steps s s' \<Longrightarrow> store_steps s (snd (apply_call c s'))"
| crashed: "store_steps s s' \<Longrightarrow> store_steps s (crash s')"

inductive_cases store_stepsE: "store_steps s s'"

lemmas write_ops =
  accept_request_def reconcile_dangling_requests_def set_run_authority_def
  finalize_run_eq delete_run_eq next_lease_def release_lease_def consume_lease_def close_lease_def
  append_event_def trim_stream_def bump_generation_def put_bench_def put_device_def
  put_run_state_def put_change_def set_change_state_def

lemma snd_outcome [simp]: "snd (outcome r) = snd r"
  by (simp add: outcome_def)

lemma fst_outcome: "fst (outcome r) = Some e \<longleftrightarrow> fst r = Inl e"
  by (auto simp: outcome_def split: sum.splits)

text \<open>
  What holds of the tables at every transaction boundary: the live tables, and the ones a rollback
  would restore.
\<close>

definition both :: "(tables \<Rightarrow> bool) \<Rightarrow> store \<Rightarrow> bool" where
  "both P s \<longleftrightarrow> P (tabs s) \<and> (case saved s of None \<Rightarrow> True | Some t \<Rightarrow> P t)"

lemma both_crash [inv_intros]: "both P s \<Longrightarrow> both P (crash s)"
  by (auto simp: both_def crash_def split: option.splits)

lemma create_run_cases:
  "(\<exists>e. create_run r b p n s = (Inl e, s)) \<or>
   (\<exists>e. create_run r b p n s = (Inl e, s\<lparr>saved := Some (tabs s)\<rparr>)) \<or>
   (\<exists>j. map_of (t_runs (tabs s)) r = None \<and> saved s = None \<and>
      create_run r b p n s =
        (Inr (), s\<lparr>tabs := (tabs s)\<lparr>t_runs := t_runs (tabs s) @ [(r, fresh_run j p n)]\<rparr>\<rparr>))"
  unfolding create_run_def by (auto split: option.splits sum.splits)

text \<open>
  Lifting: a property of the tables that every transaction body preserves holds after every life of
  the store.
\<close>

lemma store_steps_keep:
  assumes "store_steps s s'" and "both P s"
    and call: "\<And>c t. both P t \<Longrightarrow> P (tabs (snd (apply_call c t)))"
  shows "both P s'"
  using assms(1,2)
proof (induction rule: store_steps.induct)
  case (call s s' c)
  then have IH: "both P s'" by simp
  have "saved (snd (apply_call c s')) = saved s' \<or> saved (snd (apply_call c s')) = Some (tabs s')"
  proof (cases c)
    case (CreateRun r b p n)
    then show ?thesis using create_run_cases [of r b p n s'] by auto
  qed (simp_all add: write_ops frame_simps)
  with IH assms(3) [OF IH, of c] show ?case by (auto simp: both_def)
qed (simp_all add: both_crash)

section \<open>Frames\<close>

text \<open>Every call writes one table at most.\<close>

datatype table = Requests | Runs | Leases | Events | Generations | Benches | Devices | RunStates | Changes

fun table_of :: "store_call \<Rightarrow> table" where
  "table_of (AcceptRequest _ _ _ _) = Requests"
| "table_of Reconcile = Requests"
| "table_of (CreateRun _ _ _ _) = Runs"
| "table_of (SetRunAuthority _ _) = Runs"
| "table_of (FinalizeRun _ _) = Runs"
| "table_of (DeleteRun _ _) = Runs"
| "table_of (NextLease _ _ _ _) = Leases"
| "table_of (ReleaseLease _ _ _) = Leases"
| "table_of (ConsumeLease _ _ _) = Leases"
| "table_of (AppendEvent _ _) = Events"
| "table_of (TrimStream _ _) = Events"
| "table_of (BumpGeneration _ _ _) = Generations"
| "table_of (PutBench _ _) = Benches"
| "table_of (PutDevice _ _) = Devices"
| "table_of (PutRunState _ _ _ _) = RunStates"
| "table_of (PutChange _ _ _ _ _ _ _) = Changes"
| "table_of (SetChangeState _ _ _ _ _) = Changes"

lemma fold_delete: "fold (\<lambda>key t. t\<lparr>t_requests := AList.delete key (t_requests t)\<rparr>) keys t =
    t\<lparr>t_requests := filter (\<lambda>(k, _). k \<notin> set keys) (t_requests t)\<rparr>"
proof (induction keys arbitrary: t)
  case (Cons key keys)
  have "filter (\<lambda>x. (case x of (k, _) \<Rightarrow> k \<notin> set keys) \<and> (case x of (k', _) \<Rightarrow> key \<noteq> k')) (t_requests t) =
      filter (\<lambda>(k, _). k \<noteq> key \<and> k \<notin> set keys) (t_requests t)"
    by (rule filter_cong) auto
  moreover have "AList.delete key (t_requests t) = filter (\<lambda>(k', _). key \<noteq> k') (t_requests t)"
    by (simp add: AList.delete_eq)
  ultimately show ?case by (simp add: Cons conj_commute)
qed simp

lemmas body_splits = option.splits sum.splits prod.splits if_splits list.splits

lemma requests_frame [frame_simps]: "table_of c \<noteq> Requests \<Longrightarrow> t_requests (tabs (snd (apply_call c s))) = t_requests (tabs s)"
  by (cases c) (auto simp: write_ops create_run_def immediate_eq autocommit_def Let_def fold_delete
    split: body_splits pyval.splits)

lemma runs_frame [frame_simps]: "table_of c \<noteq> Runs \<Longrightarrow> t_runs (tabs (snd (apply_call c s))) = t_runs (tabs s)"
  by (cases c) (auto simp: write_ops create_run_def immediate_eq autocommit_def Let_def fold_delete
    split: body_splits pyval.splits)

lemma leases_frame [frame_simps]: "table_of c \<noteq> Leases \<Longrightarrow> t_leases (tabs (snd (apply_call c s))) = t_leases (tabs s)"
  by (cases c) (auto simp: write_ops create_run_def immediate_eq autocommit_def Let_def fold_delete
    split: body_splits pyval.splits)

lemma events_frame [frame_simps]: "table_of c \<noteq> Events \<Longrightarrow> t_events (tabs (snd (apply_call c s))) = t_events (tabs s)"
  by (cases c) (auto simp: write_ops create_run_def immediate_eq autocommit_def Let_def fold_delete
    split: body_splits pyval.splits)

lemma generations_frame [frame_simps]: "table_of c \<noteq> Generations \<Longrightarrow> t_generations (tabs (snd (apply_call c s))) = t_generations (tabs s)"
  by (cases c) (auto simp: write_ops create_run_def immediate_eq autocommit_def Let_def fold_delete
    split: body_splits pyval.splits)

lemma changes_frame [frame_simps]: "table_of c \<noteq> Changes \<Longrightarrow> t_changes (tabs (snd (apply_call c s))) = t_changes (tabs s)"
  by (cases c) (auto simp: write_ops create_run_def immediate_eq autocommit_def Let_def fold_delete
    split: body_splits pyval.splits)

section \<open>The ledgers\<close>

lemma next_lease_ok: "next_lease b i h e s = (Inr l, s') \<longleftrightarrow> saved s = None \<and>
    l = \<lparr>ls_id = i, ls_bench = b, ls_seq = Suc (max_seq (lease_seqs (tabs s) b)), ls_holder = h,
         ls_expires = e, ls_state = ''active''\<rparr> \<and>
    s' = s\<lparr>tabs := (tabs s)\<lparr>t_leases := t_leases (tabs s) @ [l]\<rparr>\<rparr>"
  by (auto simp: next_lease_def immediate_ok Let_def)

lemma append_event_ok: "append_event k e s = (Inr n, s') \<Longrightarrow> saved s = None \<and>
    n = Suc (max_seq (event_seqs (tabs s) k)) \<and>
    (\<exists>body. json_column (JObj (AList.update ''sequence'' (JStr (show_nat n)) e)) = Inr (JObj body) \<and>
      s' = s\<lparr>tabs := (tabs s)\<lparr>t_events := t_events (tabs s) @
             [\<lparr>ev_stream = k, ev_seq = n, ev_body = body\<rparr>]\<rparr>\<rparr>)"
  by (auto simp: append_event_def immediate_ok Let_def split: sum.splits pyval.splits)

interpretation lease_ledger: seq_authority "\<lambda>s. lease_seqs (tabs s)"
    "\<lambda>b (i, h, e). next_lease b i h e" ls_seq
proof (unfold_locales, goal_cases)
  case (4 k x s e s')
  then show ?case by (auto simp: next_lease_def split: prod.splits dest: immediate_raises)
qed (auto simp: next_lease_ok lease_seqs_def split: prod.splits)

interpretation event_ledger: seq_authority "\<lambda>s. event_seqs (tabs s)" append_event "\<lambda>n. n"
proof (unfold_locales, goal_cases)
  case (4 k x s e s')
  then show ?case by (auto simp: append_event_def dest: immediate_raises)
qed (auto simp: event_seqs_def dest: append_event_ok)

lemma close_lease_seqs [frame_simps]:
  "lease_seqs (tabs (snd (close_lease b q n s))) j = lease_seqs (tabs s) j"
proof -
  have "map ls_seq (filter (\<lambda>l. ls_bench l = j)
      (map (\<lambda>l. if hit l then l\<lparr>ls_state := a, ls_expires := n\<rparr> else l) ls)) =
    map ls_seq (filter (\<lambda>l. ls_bench l = j) ls)" for hit a ls
    by (induction ls) auto
  then show ?thesis
    by (auto simp: close_lease_def autocommit_def Let_def lease_seqs_def split: if_splits)
qed

lemma lease_seqs_call:
  assumes "gap_free (lease_seqs (tabs s) j)"
  shows "gap_free (lease_seqs (tabs (snd (apply_call c s))) j)"
proof (cases "table_of c = Leases")
  case True
  then show ?thesis
    using assms lease_ledger.issue_gap_free [of s j]
    by (cases c) (auto simp: release_lease_def consume_lease_def frame_simps)
next
  case False
  with assms show ?thesis by (simp add: lease_seqs_def frame_simps)
qed

lemma event_row_stamped:
  assumes "json_column (JObj (AList.update ''sequence'' (JStr x) e)) = Inr (JObj body)"
  shows "obj_get body ''sequence'' = JStr x"
proof -
  have body: "body = sort_key fst (map (map_prod id sort_members) (AList.update ''sequence'' (JStr x) e))"
    using assms by (auto simp: json_column_def split: if_splits)
  have "map_of (map (map_prod id sort_members) kvs) k = map_option sort_members (map_of kvs k)"
    for kvs :: obj and k
    by (induction kvs) auto
  then show ?thesis
    by (simp add: body obj_get_def map_of_sort_key update_conv')
qed

text \<open>The event table: each stream an unbroken run of numbers, each envelope stamped with its own.\<close>

definition stream_ok :: "tables \<Rightarrow> bool" where
  "stream_ok t \<longleftrightarrow> (\<forall>k. contiguous (event_seqs t k)) \<and>
     (\<forall>r \<in> set (t_events t). obj_get (ev_body r) ''sequence'' = JStr (show_nat (ev_seq r)))"

lemma stream_rows_append_order: "contiguous (event_seqs t k) \<Longrightarrow>
    stream_rows k t = filter (\<lambda>r. ev_stream r = k) (t_events t)"
  unfolding stream_rows_def
  by (rule sort_key_sorted_id) (metis contiguous_sorted event_seqs_def)

lemma trim_stream_keeps: "stream_ok (tabs s) \<Longrightarrow> stream_ok (tabs (snd (trim_stream k n s)))"
  unfolding trim_stream_def
proof (rule immediate_keeps, assumption, goal_cases)
  case (1 a t)
  show ?case
  proof (cases "sql_limit 1 (sql_offset (n - 1) (rev (stream_rows k (tabs s))))")
    case Nil
    with 1 show ?thesis by simp
  next
    case (Cons edge rest)
    let ?kept = "filter (\<lambda>r. \<not> (ev_stream r = k \<and> ev_seq r < ev_seq edge)) (t_events (tabs s))"
    have t: "t = (tabs s)\<lparr>t_events := ?kept\<rparr>" using 1 Cons by (simp add: Let_def)
    have "event_seqs t j = (if j = k then filter (\<lambda>m. ev_seq edge \<le> m) (event_seqs (tabs s) k)
        else event_seqs (tabs s) j)" for j
      by (auto simp: t event_seqs_def filter_map o_def intro!: arg_cong [where f = "map ev_seq"] filter_cong)
    with 1 t show ?thesis by (auto simp: stream_ok_def intro: contiguous_filter_ge)
  qed
qed

lemma append_event_keeps: "stream_ok (tabs s) \<Longrightarrow> stream_ok (tabs (snd (append_event k e s)))"
proof (cases "fst (append_event k e s)")
  case (Inl x)
  assume "stream_ok (tabs s)"
  with Inl event_ledger.issue_raises [of k e s x] show ?thesis by (cases "append_event k e s") auto
next
  case (Inr n)
  assume ok: "stream_ok (tabs s)"
  obtain s' where i: "append_event k e s = (Inr n, s')" using Inr by (cases "append_event k e s") auto
  have "contiguous (event_seqs (tabs s') j)" for j
    using event_ledger.issue_contiguous [of s j k e] ok i by (simp add: stream_ok_def)
  moreover from append_event_ok [OF i] obtain body where
    "json_column (JObj (AList.update ''sequence'' (JStr (show_nat n)) e)) = Inr (JObj body)"
    "t_events (tabs s') = t_events (tabs s) @ [\<lparr>ev_stream = k, ev_seq = n, ev_body = body\<rparr>]"
    by auto
  ultimately show ?thesis
    using ok event_row_stamped [of "show_nat n" e body] by (auto simp: stream_ok_def i)
qed

lemma stream_ok_call: "stream_ok (tabs s) \<Longrightarrow> stream_ok (tabs (snd (apply_call c s)))"
proof (cases "table_of c = Events")
  case True
  assume "stream_ok (tabs s)"
  with True show ?thesis by (cases c) (simp_all add: append_event_keeps trim_stream_keeps)
qed (simp add: stream_ok_def event_seqs_def frame_simps)

lemma both_empty [simp]: "both P empty_store \<longleftrightarrow> P empty_tables"
  by (simp add: both_def empty_store_def)

lemma reachable_keep:
  assumes "store_steps empty_store s" "P empty_tables"
    "\<And>c t. both P t \<Longrightarrow> P (tabs (snd (apply_call c t)))"
  shows "P (tabs s)"
proof -
  have "both P s" by (rule store_steps_keep [OF assms(1)]) (simp_all add: assms(2,3))
  then show ?thesis by (simp add: both_def)
qed

lemma reachable_stream_ok: "store_steps empty_store s \<Longrightarrow> stream_ok (tabs s)"
proof (erule reachable_keep)
  show "stream_ok empty_tables" by (simp add: stream_ok_def event_seqs_def empty_tables_def)
qed (simp add: both_def stream_ok_call)

lemma reachable_leases: "store_steps empty_store s \<Longrightarrow> gap_free (lease_seqs (tabs s) b)"
proof (erule reachable_keep)
  show "gap_free (lease_seqs empty_tables b)" by (simp add: lease_seqs_def empty_tables_def)
qed (simp add: both_def lease_seqs_call)

section \<open>What calls never undo\<close>

lemma map_of_update_other: "k \<noteq> j \<Longrightarrow> map_of (AList.update j v xs) k = map_of xs k"
  by (simp add: update_conv')

lemma map_of_update_same: "map_of (AList.update k v xs) k = Some v"
  by (simp add: update_conv')

lemma map_of_snoc_keep: "map_of xs k = Some v \<Longrightarrow> map_of (xs @ ys) k = Some v"
  by simp

text \<open>A run row stays; once tombstoned it stays tombstoned.\<close>

definition keeps_run :: "string \<Rightarrow> tables \<Rightarrow> bool" where
  "keeps_run r t \<longleftrightarrow> (\<exists>row. map_of (t_runs t) r = Some row)"

definition buried :: "string \<Rightarrow> tables \<Rightarrow> bool" where
  "buried r t \<longleftrightarrow> (\<exists>row. map_of (t_runs t) r = Some row \<and> rn_tombstoned row)"

lemma keeps_run_call: "keeps_run r (tabs s) \<Longrightarrow> keeps_run r (tabs (snd (apply_call c s)))"
proof (cases "table_of c = Runs")
  case True
  assume "keeps_run r (tabs s)"
  with True show ?thesis
    by (cases c) (auto simp: keeps_run_def write_ops create_run_def immediate_eq autocommit_def
      update_conv' split: body_splits)
qed (simp add: keeps_run_def frame_simps)

lemma buried_call: "buried r (tabs s) \<Longrightarrow> buried r (tabs (snd (apply_call c s)))"
proof (cases "table_of c = Runs")
  case True
  assume "buried r (tabs s)"
  with True show ?thesis
    by (cases c) (auto simp: buried_def write_ops create_run_def immediate_eq autocommit_def
      update_conv' split: body_splits)
qed (simp add: buried_def frame_simps)

text \<open>A lease row or a change row stays under its id.\<close>

lemma close_lease_ids: "ls_id ` set (t_leases (tabs (snd (close_lease b q n s)))) = ls_id ` set (t_leases (tabs s))"
proof -
  have "map ls_id (map (\<lambda>l. if hit l then l\<lparr>ls_state := a, ls_expires := n\<rparr> else l) ls) = map ls_id ls"
    for hit a and ls :: "lease list"
    by (induction ls) auto
  then have "ls_id ` set (map (\<lambda>l. if hit l then l\<lparr>ls_state := a, ls_expires := n\<rparr> else l) ls) = ls_id ` set ls"
    for hit a and ls :: "lease list"
    by (metis set_map)
  then show ?thesis by (simp add: close_lease_def autocommit_def Let_def del: set_map)
qed

lemma lease_ids_call: "i \<in> ls_id ` set (t_leases (tabs s)) \<Longrightarrow> i \<in> ls_id ` set (t_leases (tabs (snd (apply_call c s))))"
proof (cases "table_of c = Leases")
  case True
  assume "i \<in> ls_id ` set (t_leases (tabs s))"
  with True show ?thesis
    by (cases c) (simp_all add: release_lease_def consume_lease_def close_lease_ids,
      auto simp: next_lease_def immediate_eq Let_def split: option.splits)
qed (simp add: frame_simps)

lemma changes_call: "map_of (t_changes (tabs s)) i \<noteq> None \<Longrightarrow>
    map_of (t_changes (tabs (snd (apply_call c s)))) i \<noteq> None"
proof (cases "table_of c = Changes")
  case True
  assume "map_of (t_changes (tabs s)) i \<noteq> None"
  with True show ?thesis
    by (cases c) (auto simp: write_ops immediate_eq autocommit_def Let_def update_conv' split: body_splits)
qed (simp add: frame_simps)

text \<open>A filed key whose target exists: it stays filed, with the row it was filed with.\<close>

definition filed :: "string \<Rightarrow> request_row \<Rightarrow> tables \<Rightarrow> bool" where
  "filed key row t \<longleftrightarrow> map_of (t_requests t) key = Some row \<and> \<not> dangling t row \<and>
     distinct (map fst (t_requests t))"

lemma map_of_filter_keep: "map_of xs k = Some v \<Longrightarrow> P (k, v) \<Longrightarrow> map_of (filter P xs) k = Some v"
  by (induction xs) (auto split: if_splits)

lemma map_of_drop_keys: "map_of (filter (\<lambda>(k, _). k \<notin> D) xs) k = (if k \<in> D then None else map_of xs k)"
  by (induction xs) auto

lemma reconcile_requests: "t_requests (tabs (snd (reconcile_dangling_requests s))) =
    (if saved s = None then filter (\<lambda>(k, _). k \<notin> set (dangling_keys (tabs s))) (t_requests (tabs s))
     else t_requests (tabs s))"
  by (auto simp: reconcile_dangling_requests_def immediate_eq Let_def fold_delete split: option.splits)

lemma dangling_keys_iff: "distinct (map fst (t_requests t)) \<Longrightarrow> map_of (t_requests t) k = Some row \<Longrightarrow>
    k \<in> set (dangling_keys t) \<longleftrightarrow> dangling t row"
  by (auto simp: dangling_keys_def image_iff dest: map_of_SomeD) (metis map_of_is_SomeI option.inject)

lemma dangling_call: "\<not> dangling (tabs s) row \<Longrightarrow> \<not> dangling (tabs (snd (apply_call c s))) row"
  using keeps_run_call [of "rq_run row" s c] changes_call [of s "rq_run row" c] lease_ids_call [of "rq_run row" s c]
  by (auto simp: dangling_def keeps_run_def)

lemma filed_call: "filed key row (tabs s) \<Longrightarrow> filed key row (tabs (snd (apply_call c s)))"
proof (cases "table_of c = Requests")
  case True
  assume f: "filed key row (tabs s)"
  from True show ?thesis
  proof (cases c)
    case (AcceptRequest k b r n)
    with f dangling_call [of s row c] show ?thesis
      by (auto simp: filed_def accept_request_def immediate_eq map_of_eq_None_iff split: body_splits)
  next
    case Reconcile
    with f dangling_call [of s row c] show ?thesis
      using dangling_keys_iff [of "tabs s" key row]
      by (auto simp: filed_def reconcile_requests intro!: map_of_filter_keep distinct_filter
        simp: distinct_map_filter)
  qed simp_all
next
  case False
  assume "filed key row (tabs s)"
  with False dangling_call [of s row c] show ?thesis by (simp add: filed_def frame_simps)
qed

text \<open>The generation of a bench only grows.\<close>

definition gen_at_least :: "int \<Rightarrow> string \<Rightarrow> tables \<Rightarrow> bool" where
  "gen_at_least g b t \<longleftrightarrow> g \<le> (case map_of (t_generations t) b of Some (g', _) \<Rightarrow> g' | None \<Rightarrow> 0)"

lemma gen_at_least_call: "gen_at_least g b (tabs s) \<Longrightarrow> gen_at_least g b (tabs (snd (apply_call c s)))"
proof (cases "table_of c = Generations")
  case True
  assume "gen_at_least g b (tabs s)"
  with True show ?thesis
    by (cases c) (auto simp: gen_at_least_def bump_generation_def immediate_eq Let_def update_conv'
      split: body_splits)
qed (simp add: gen_at_least_def frame_simps)

text \<open>A closed lease: its number is taken, and no row with that number is active.\<close>

definition closed_lease :: "string \<Rightarrow> nat \<Rightarrow> tables \<Rightarrow> bool" where
  "closed_lease b q t \<longleftrightarrow> gap_free (lease_seqs t b) \<and> q \<le> length (lease_seqs t b) \<and>
     (\<forall>l \<in> set (t_leases t). ls_bench l = b \<longrightarrow> ls_seq l = q \<longrightarrow> ls_state l \<noteq> ''active'')"

lemma closed_lease_call: "closed_lease b q (tabs s) \<Longrightarrow> closed_lease b q (tabs (snd (apply_call c s)))"
proof (cases "table_of c = Leases")
  case True
  assume c: "closed_lease b q (tabs s)"
  then have g: "gap_free (lease_seqs (tabs (snd (apply_call c s))) b)"
    by (simp add: closed_lease_def lease_seqs_call del: apply_call.simps)
  from True show ?thesis
  proof (cases c)
    case (NextLease b' i h e)
    with \<open>closed_lease b q (tabs s)\<close> g show ?thesis
      by (auto simp: closed_lease_def next_lease_def immediate_eq Let_def lease_seqs_def gap_free_max
        split: option.splits)
  qed (use c g in \<open>auto simp: closed_lease_def release_lease_def consume_lease_def close_lease_seqs,
      auto simp: close_lease_def autocommit_def Let_def split: if_splits\<close>)
qed (simp add: closed_lease_def lease_seqs_def frame_simps)

section \<open>Properties\<close>

subsection \<open>The ledgers are gap-free\<close>

text \<open>A life of one lease and two events, the second trimmed to one.\<close>

definition sample_store :: store where
  "sample_store = snd (apply_call (TrimStream ''b'' 1) (snd (apply_call (AppendEvent ''b'' [(''k'', JInt 2)])
     (snd (apply_call (AppendEvent ''b'' [(''k'', JInt 1)])
     (snd (apply_call (NextLease ''b'' ''l1'' ''h'' ''t'') empty_store)))))))"

lemma sample_reachable: "store_steps empty_store sample_store"
  unfolding sample_store_def by (intro store_steps.intros)

text \<open>
  Claim C6. Whatever calls the store serves, in whatever order and with whatever crashes in
  between, a bench's lease ledger read in order is numbered 1, 2, ..., n: no lease sequence is
  skipped, repeated or lost.
\<close>

theorem lease_ledger_gap_free:
  assumes "store_steps empty_store s"
  shows "map ls_seq (list_leases b s) = [1..<Suc (length (list_leases b s))]"
proof -
  have g: "gap_free (lease_seqs (tabs s) b)" by (rule reachable_leases [OF assms])
  then have "sorted (lease_seqs (tabs s) b)" by (metis gap_free_def sorted_upt)
  then have "list_leases b s = filter (\<lambda>l. ls_bench l = b) (t_leases (tabs s))"
    by (simp add: list_leases_def lease_seqs_def sort_key_sorted_id)
  with g show ?thesis by (simp add: gap_free_def lease_seqs_def del: upt_Suc)
qed

lemma lease_ledger_gap_free_witness:
  "map ls_seq (list_leases ''b'' sample_store) = [1..<Suc (length (list_leases ''b'' sample_store))]"
  by (rule lease_ledger_gap_free [OF sample_reachable])

text \<open>
  Reading a stream gives its events in the order they were appended, their envelopes
  stamped with consecutive decimal sequence numbers from the oldest kept one on: neither a crash
  nor a trim leaves a hole or reuses a number inside what a reader sees.
\<close>

theorem event_stream_contiguous:
  assumes "store_steps empty_store s"
  shows "\<exists>a b. 1 \<le> a \<and> map (\<lambda>e. obj_get e ''sequence'') (read_events k s) = map (JStr \<circ> show_nat) [a..<b] \<and>
    read_events k s = map ev_body (filter (\<lambda>r. ev_stream r = k) (t_events (tabs s)))"
proof -
  have ok: "stream_ok (tabs s)" by (rule reachable_stream_ok [OF assms])
  then have "contiguous (event_seqs (tabs s) k)" by (simp add: stream_ok_def)
  then obtain a b where ab: "1 \<le> a" "event_seqs (tabs s) k = [a..<b]"
    unfolding contiguous_def by blast
  have rows: "stream_rows k (tabs s) = filter (\<lambda>r. ev_stream r = k) (t_events (tabs s))"
    using ok by (simp add: stream_ok_def stream_rows_append_order)
  have "map (\<lambda>e. obj_get e ''sequence'') (read_events k s) = map (JStr \<circ> show_nat) (event_seqs (tabs s) k)"
    using ok by (auto simp: read_events_def rows stream_ok_def event_seqs_def)
  with ab show ?thesis by (auto simp: read_events_def rows)
qed

lemma event_stream_contiguous_witness:
  "\<exists>a b. 1 \<le> a \<and> map (\<lambda>e. obj_get e ''sequence'') (read_events ''b'' sample_store) = map (JStr \<circ> show_nat) [a..<b] \<and>
    read_events ''b'' sample_store = map ev_body (filter (\<lambda>r. ev_stream r = ''b'') (t_events (tabs sample_store)))"
  by (rule event_stream_contiguous [OF sample_reachable])

subsection \<open>A call that raises has written nothing\<close>

text \<open>
  Claim C7. An operation that raises leaves every table as it was; and it leaves the transaction
  state as it was too, \<open>create_run\<close> with a binding that is no JSON value excepted.
\<close>

theorem raising_call_writes_nothing:
  assumes "fst (apply_call c s) = Some e"
  shows "tabs (snd (apply_call c s)) = tabs s \<and>
    (saved (snd (apply_call c s)) = saved s \<or> (\<exists>r b p n. c = CreateRun r b p n \<and> \<not> is_json b))"
  using assms
  by (cases c) (auto simp: write_ops create_run_def immediate_eq autocommit_def outcome_def Let_def
    json_column_def split: body_splits pyval.splits)

lemma raising_call_writes_nothing_witness:
  "tabs (snd (apply_call (DeleteRun ''r'' ''t'') empty_store)) = tabs empty_store \<and>
    (saved (snd (apply_call (DeleteRun ''r'' ''t'') empty_store)) = saved empty_store \<or>
     (\<exists>r b p n. DeleteRun ''r'' ''t'' = CreateRun r b p n \<and> \<not> is_json b))"
  by (rule raising_call_writes_nothing [where e = "ValueError ''not found or already tombstoned''"])
    (simp add: delete_run_eq autocommit_def outcome_def empty_store_def empty_tables_def)

text \<open>
  That exception is a wedge: after \<open>create_run\<close> has raised on such a binding the
  transaction is open, so that every later operation that begins one is refused, and what the
  single-statement operations still write is lost when the process ends.
\<close>

theorem create_run_wedges_the_store:
  assumes "saved s = None" "get_run r s = None" "\<not> is_json b"
  shows "fst (create_run r b p n s) = Inl (TypeError ''json'') \<and>
    fst (accept_request k body r' n' (snd (create_run r b p n s))) = Inl OperationalError \<and>
    fst (append_event k ev (snd (create_run r b p n s))) = Inl OperationalError \<and>
    crash (snd (finalize_run r' t (snd (create_run r b p n s)))) = s"
  using assms
  by (auto simp: create_run_def get_run_def json_column_def accept_request_def append_event_def
    immediate_eq finalize_run_eq autocommit_def crash_def split: body_splits)

lemma create_run_wedges_the_store_witness:
  "fst (create_run ''r'' (JOther ''bytes'') ''p'' ''n'' empty_store) = Inl (TypeError ''json'') \<and>
    fst (accept_request ''k'' ''b'' ''q'' ''n'' (snd (create_run ''r'' (JOther ''bytes'') ''p'' ''n'' empty_store))) = Inl OperationalError \<and>
    fst (append_event ''k'' [] (snd (create_run ''r'' (JOther ''bytes'') ''p'' ''n'' empty_store))) = Inl OperationalError \<and>
    crash (snd (finalize_run ''q'' JNull (snd (create_run ''r'' (JOther ''bytes'') ''p'' ''n'' empty_store)))) = empty_store"
  by (rule create_run_wedges_the_store) (simp_all add: empty_store_def empty_tables_def get_run_def)

subsection \<open>Idempotency keys\<close>

lemma both_saved_none: "saved s = None \<Longrightarrow> both P s \<longleftrightarrow> P (tabs s)"
  by (simp add: both_def)

lemma steps_tables:
  assumes "store_steps s s'" "saved s = None" "P (tabs s)"
    "\<And>c t. P (tabs t) \<Longrightarrow> P (tabs (snd (apply_call c t)))"
  shows "P (tabs s')"
proof -
  have "both P s'"
    by (rule store_steps_keep [OF assms(1)]) (use assms in \<open>auto simp: both_def\<close>)
  then show ?thesis by (simp add: both_def)
qed

text \<open>
  Claim C8. Once a key is filed and the run, change or lease it names exists, no later history
  unfiles it: a replay with the same body resolves to the run id first filed, and a different body
  under the key is refused. Neither the startup sweep nor a crash reopens the key.
\<close>

theorem filed_key_replays:
  assumes "saved s = None" "distinct (map fst (t_requests (tabs s)))"
    and "find_request key s = Some row" "\<not> dangling (tabs s) row"
    and "store_steps s s'" "saved s' = None"
  shows "fst (accept_request key body r now s') =
    (if body = rq_body row then Inr (Duplicate (rq_run row)) else Inl (Conflict key))"
proof -
  have "filed key row (tabs s')"
    by (rule steps_tables [where P = "filed key row", OF assms(5,1) _ filed_call])
      (use assms in \<open>auto simp: filed_def find_request_def\<close>)
  with assms(6) show ?thesis by (simp add: filed_def accept_request_def immediate_eq)
qed

definition started_store :: store where
  "started_store = snd (create_run ''r1'' JNull ''p'' ''t'' (snd (accept_request ''k'' ''body'' ''r1'' ''t'' empty_store)))"

lemma started_store_eq: "started_store = empty_store\<lparr>tabs := empty_tables\<lparr>
    t_requests := [(''k'', \<lparr>rq_body = ''body'', rq_run = ''r1'', rq_at = ''t''\<rparr>)],
    t_runs := [(''r1'', fresh_run JNull ''p'' ''t'')]\<rparr>\<rparr>"
  by (simp add: started_store_def create_run_def accept_request_def immediate_eq empty_store_def
    empty_tables_def json_column_def)

lemma filed_key_replays_witness:
  "fst (accept_request ''k'' ''body'' ''r2'' ''t2'' (snd (apply_call Reconcile started_store))) = Inr (Duplicate ''r1'')"
proof -
  let ?row = "\<lparr>rq_body = ''body'', rq_run = ''r1'', rq_at = ''t''\<rparr>"
  have "saved started_store = None" "distinct (map fst (t_requests (tabs started_store)))"
    "find_request ''k'' started_store = Some ?row" "\<not> dangling (tabs started_store) ?row"
    by (simp_all add: started_store_eq empty_store_def find_request_def dangling_def)
  moreover have "saved (snd (apply_call Reconcile started_store)) = None"
    by (simp add: frame_simps reconcile_dangling_requests_def started_store_eq empty_store_def)
  moreover have "store_steps started_store (snd (apply_call Reconcile started_store))"
    by (intro store_steps.intros)
  ultimately show ?thesis
    using filed_key_replays [of started_store "''k''" ?row "snd (apply_call Reconcile started_store)"
      "''body''" "''r2''" "''t2''"]
    by simp
qed

text \<open>
  The startup sweep removes exactly the keys that resolve in none of the three tables,
  leaves every other key with its row, reports what it removed, and finds nothing the second time.
\<close>

theorem reconcile_removes_exactly_dangling:
  assumes "saved s = None" "distinct (map fst (t_requests (tabs s)))"
    and "reconcile_dangling_requests s = (r, s')"
  shows "(\<exists>keys. r = Inr keys \<and> set keys = {k. \<exists>row. find_request k s = Some row \<and> dangling (tabs s) row}) \<and>
    (\<forall>k. find_request k s' = (case find_request k s of None \<Rightarrow> None
       | Some row \<Rightarrow> if dangling (tabs s) row then None else Some row)) \<and>
    fst (reconcile_dangling_requests s') = Inr []"
proof (intro conjI)
  have out: "r = Inr (dangling_keys (tabs s))"
    "s' = s\<lparr>tabs := (tabs s)\<lparr>t_requests := filter (\<lambda>(k, _). k \<notin> set (dangling_keys (tabs s))) (t_requests (tabs s))\<rparr>\<rparr>"
    using assms(1,3) by (auto simp: reconcile_dangling_requests_def immediate_eq Let_def fold_delete)
  have keys: "set (dangling_keys (tabs s)) = {k. \<exists>row. find_request k s = Some row \<and> dangling (tabs s) row}"
    using assms(2) by (force simp: dangling_keys_def find_request_def dest: map_of_SomeD intro: map_of_is_SomeI)
  with out show "\<exists>keys. r = Inr keys \<and>
      set keys = {k. \<exists>row. find_request k s = Some row \<and> dangling (tabs s) row}" by blast
  have "find_request k s' = (if k \<in> set (dangling_keys (tabs s)) then None else find_request k s)" for k
    by (simp add: out find_request_def map_of_drop_keys)
  then show "\<forall>k. find_request k s' = (case find_request k s of None \<Rightarrow> None
       | Some row \<Rightarrow> if dangling (tabs s) row then None else Some row)"
    using keys by (auto split: option.splits)
  have "dangling_keys (tabs s') = []"
    by (auto simp: out dangling_keys_def filter_empty_conv dangling_def image_iff)
  then show "fst (reconcile_dangling_requests s') = Inr []"
    using assms(1) by (simp add: reconcile_dangling_requests_def immediate_eq Let_def out)
qed

definition ghost_store :: store where
  "ghost_store = snd (accept_request ''g'' ''body'' ''never'' ''t'' started_store)"

lemma ghost_store_eq: "ghost_store = empty_store\<lparr>tabs := empty_tables\<lparr>
    t_requests := [(''k'', \<lparr>rq_body = ''body'', rq_run = ''r1'', rq_at = ''t''\<rparr>),
                 (''g'', \<lparr>rq_body = ''body'', rq_run = ''never'', rq_at = ''t''\<rparr>)],
    t_runs := [(''r1'', fresh_run JNull ''p'' ''t'')]\<rparr>\<rparr>"
  by (simp add: ghost_store_def started_store_eq accept_request_def immediate_eq empty_store_def)

lemma reconcile_removes_exactly_dangling_witness:
  "\<exists>keys. fst (reconcile_dangling_requests ghost_store) = Inr keys \<and> set keys = {''g''}"
proof -
  have "{k. \<exists>row. find_request k ghost_store = Some row \<and> dangling (tabs ghost_store) row} = {''g''}"
    by (auto simp: ghost_store_eq find_request_def dangling_def empty_tables_def split: if_splits)
  then show ?thesis
    using reconcile_removes_exactly_dangling [of ghost_store "fst (reconcile_dangling_requests ghost_store)"
      "snd (reconcile_dangling_requests ghost_store)"]
    by (simp add: ghost_store_eq empty_store_def)
qed

subsection \<open>Run ids and generations\<close>

text \<open>
  A deleted run's id is burned: in every later state the row is still there, still
  tombstoned, \<open>create_run\<close> refuses the id and \<open>finalize_run\<close> cannot write to it.
\<close>

theorem deleted_run_id_burned:
  assumes "saved s = None" "delete_run r now s = (Inr (), s1)" "store_steps s1 s'"
  shows "fst (create_run r b p n s') = Inl (ValueError ''tombstoned'') \<and>
    (\<exists>row. get_run r s' = Some row \<and> rn_tombstoned row) \<and>
    (\<exists>e. fst (finalize_run r t s') = Inl e)"
proof -
  have "saved s1 = None" "buried r (tabs s1)"
    using assms(1,2) by (auto simp: delete_run_eq autocommit_ok buried_def update_conv' split: body_splits)
  from steps_tables [where P = "buried r", OF assms(3) this buried_call] show ?thesis
    by (auto simp: buried_def create_run_def get_run_def finalize_run_eq autocommit_def split: body_splits)
qed

lemma deleted_run_id_burned_witness:
  "fst (create_run ''r1'' JNull ''p'' ''t'' (snd (delete_run ''r1'' ''t'' started_store))) = Inl (ValueError ''tombstoned'')"
  using deleted_run_id_burned [of started_store "''r1''" "''t''" "snd (delete_run ''r1'' ''t'' started_store)"
    "snd (delete_run ''r1'' ''t'' started_store)"]
  by (simp add: store_steps.intros started_store_eq empty_store_def delete_run_eq autocommit_def
    fresh_run_def)

text \<open>
  The compare-and-swap bump succeeds at most once per expected generation: after one
  caller's success, whatever happens in between, a second caller holding the same expectation
  writes nothing.
\<close>

theorem generation_cas_once:
  assumes "saved s = None" "bump_generation b now (Some g) s = (Inr (Some g'), s1)"
    and "store_steps s1 s'" "saved s' = None"
  shows "g' = g + 1 \<and> bump_generation b now' (Some g) s' = (Inr None, s') \<and> g' \<le> current_generation b s'"
proof -
  have "saved s1 = None" "gen_at_least (g + 1) b (tabs s1)" "g' = g + 1"
    using assms(1,2) by (auto simp: bump_generation_def immediate_ok Let_def gen_at_least_def update_conv'
      split: body_splits)
  with steps_tables [where P = "gen_at_least (g + 1) b", OF assms(3) this(1,2) gen_at_least_call]
    assms(4) show ?thesis
    by (auto simp: gen_at_least_def bump_generation_def immediate_eq Let_def current_generation_def
      split: body_splits)
qed

lemma generation_cas_once_witness:
  "bump_generation ''b'' ''t'' (Some 0) (snd (bump_generation ''b'' ''t'' (Some 0) empty_store)) =
    (Inr None, snd (bump_generation ''b'' ''t'' (Some 0) empty_store))"
  using generation_cas_once [of empty_store "''b''" "''t''" 0 1
    "snd (bump_generation ''b'' ''t'' (Some 0) empty_store)" "snd (bump_generation ''b'' ''t'' (Some 0) empty_store)" "''t''"]
  by (simp add: store_steps.intros empty_store_def empty_tables_def bump_generation_def immediate_eq)

subsection \<open>Leases\<close>

lemma gap_free_seq_unique:
  assumes "gap_free (lease_seqs t b)" "l \<in> set (t_leases t)" "l' \<in> set (t_leases t)"
    "ls_bench l = b" "ls_bench l' = b" "ls_seq l = ls_seq l'"
  shows "l = l'"
proof -
  have "distinct (map ls_seq (filter (\<lambda>l. ls_bench l = b) (t_leases t)))"
    using assms(1) unfolding gap_free_def lease_seqs_def by (metis distinct_upt)
  then have "inj_on ls_seq (set (filter (\<lambda>l. ls_bench l = b) (t_leases t)))"
    by (simp add: distinct_map)
  with assms(2-) show ?thesis by (auto simp: inj_on_def)
qed

lemma active_lease_row: "get_active_lease b s = Some l \<Longrightarrow>
    l \<in> set (t_leases (tabs s)) \<and> ls_bench l = b \<and> ls_state l = ''active''"
proof -
  let ?xs = "sort_key ls_seq (filter (\<lambda>l. ls_bench l = b \<and> ls_state l = ''active'') (t_leases (tabs s)))"
  assume "get_active_lease b s = Some l"
  then obtain r where "rev ?xs = l # r" by (auto simp: get_active_lease_def split: list.splits)
  then have "l \<in> set (rev ?xs)" by (metis list.set_intros(1))
  then show ?thesis by simp
qed

text \<open>
  A lease is closed at most once, and its sequence never comes back: after a release or
  a commissioned takeover has closed it, whatever calls and crashes follow, neither a second release nor a second takeover
  succeeds, and the bench's active lease, if it has one, is another.
\<close>

theorem lease_closed_once:
  assumes "store_steps empty_store s" "saved s = None"
    and "consume_lease b q now s = (Inr (), s1) \<or> release_lease b q now s = (Inr (), s1)"
    and "store_steps s1 s'"
  shows "fst (consume_lease b q now' s') = Inl LeaseNotActive \<and>
    fst (release_lease b q now' s') = Inl LeaseNotActive \<and>
    (\<forall>l. get_active_lease b s' = Some l \<longrightarrow> ls_seq l \<noteq> q)"
proof -
  have c: "close_lease b q now s = (Inr (), s1)"
    using assms(3) by (auto simp: consume_lease_def release_lease_def)
  then have s1: "saved s1 = None" using assms(2) by (auto simp: close_lease_def autocommit_ok Let_def)
  have g: "gap_free (lease_seqs (tabs s) b)" by (rule reachable_leases [OF assms(1)])
  have "filter (\<lambda>l. ls_bench l = b \<and> ls_seq l = q \<and> ls_state l = ''active'') (t_leases (tabs s)) \<noteq> []"
    using c by (auto simp: close_lease_def autocommit_ok Let_def split: if_splits)
  then have "\<exists>l \<in> set (t_leases (tabs s)). ls_bench l = b \<and> ls_seq l = q"
    by (auto simp: filter_empty_conv)
  then have "q \<in> set (lease_seqs (tabs s) b)" by (auto simp: lease_seqs_def)
  with g have "q \<le> length (lease_seqs (tabs s) b)"
    unfolding gap_free_def by (metis atLeastLessThan_iff less_Suc_eq_le set_upt)
  moreover have "lease_seqs (tabs s1) b = lease_seqs (tabs s) b"
    using close_lease_seqs [of b q now s b] c by simp
  moreover have "t_leases (tabs s1) = map (\<lambda>l. if ls_bench l = b \<and> ls_seq l = q \<and> ls_state l = ''active''
      then l\<lparr>ls_state := ''released'', ls_expires := now\<rparr> else l) (t_leases (tabs s))"
    using c by (auto simp: close_lease_def autocommit_ok Let_def split: if_splits)
  then have "\<forall>l \<in> set (t_leases (tabs s1)). ls_bench l = b \<longrightarrow> ls_seq l = q \<longrightarrow> ls_state l \<noteq> ''active''"
    by (simp only: list.set_map ball_simps) (simp split: if_split)
  ultimately have "closed_lease b q (tabs s1)" using g by (simp add: closed_lease_def)
  from steps_tables [where P = "closed_lease b q", OF assms(4) s1 this closed_lease_call]
  have cl: "closed_lease b q (tabs s')" .
  then have "filter (\<lambda>l. ls_bench l = b \<and> ls_seq l = q \<and> ls_state l = ''active'') (t_leases (tabs s')) = []"
    by (auto simp: closed_lease_def filter_empty_conv)
  moreover have "get_active_lease b s' = Some l \<Longrightarrow> ls_seq l \<noteq> q" for l
    using cl active_lease_row [of b s' l] by (auto simp: closed_lease_def)
  ultimately show ?thesis
    by (simp add: consume_lease_def release_lease_def close_lease_def autocommit_def)
qed

definition leased_store :: store where
  "leased_store = snd (apply_call (NextLease ''b'' ''l1'' ''h'' ''t'') empty_store)"

lemma leased_store_eq: "leased_store = empty_store\<lparr>tabs := empty_tables\<lparr>t_leases :=
    [\<lparr>ls_id = ''l1'', ls_bench = ''b'', ls_seq = 1, ls_holder = ''h'', ls_expires = ''t'', ls_state = ''active''\<rparr>]\<rparr>\<rparr>"
  by (simp add: leased_store_def next_lease_def immediate_eq empty_store_def empty_tables_def
    lease_seqs_def Let_def)

lemma lease_closed_once_witness:
  "fst (release_lease ''b'' 1 ''t3'' (snd (consume_lease ''b'' 1 ''t2'' leased_store))) = Inl LeaseNotActive"
proof -
  have "store_steps empty_store leased_store"
    unfolding leased_store_def by (intro store_steps.intros)
  moreover have "consume_lease ''b'' 1 ''t2'' leased_store =
      (Inr (), snd (consume_lease ''b'' 1 ''t2'' leased_store))" "saved leased_store = None"
    by (simp_all add: leased_store_eq consume_lease_def close_lease_def autocommit_def empty_store_def)
  ultimately show ?thesis
    using lease_closed_once [of leased_store "''b''" 1 "''t2''" "snd (consume_lease ''b'' 1 ''t2'' leased_store)"
      "snd (consume_lease ''b'' 1 ''t2'' leased_store)" "''t3''"] store_steps.start by blast
qed

lemma lease_issued:
  assumes "store_steps empty_store s" "next_lease b i h e s = (Inr l, s')"
  shows "get_active_lease b s' = Some l \<and> ls_seq l = Suc (length (list_leases b s)) \<and>
    list_leases b s' = list_leases b s @ [l] \<and> (\<forall>x \<in> set (t_leases (tabs s)). ls_bench x = b \<longrightarrow> ls_seq x < ls_seq l)"
proof -
  let ?mine = "filter (\<lambda>l. ls_bench l = b) (t_leases (tabs s))"
  have g: "gap_free (lease_seqs (tabs s) b)" by (rule reachable_leases [OF assms(1)])
  have n: "max_seq (lease_seqs (tabs s) b) = length ?mine"
    using gap_free_max [OF g] by (simp add: lease_seqs_def)
  have upt: "map ls_seq ?mine = [1..<Suc (length ?mine)]"
    using g by (simp add: gap_free_def lease_seqs_def del: upt_Suc)
  have l: "l = \<lparr>ls_id = i, ls_bench = b, ls_seq = Suc (length ?mine), ls_holder = h, ls_expires = e,
      ls_state = ''active''\<rparr>" "t_leases (tabs s') = t_leases (tabs s) @ [l]"
    using assms(2) by (auto simp: next_lease_ok n)
  have srt: "sorted (map ls_seq ?mine)" unfolding upt by (rule sorted_upt)
  have le: "\<forall>x \<in> set ?mine. ls_seq x < Suc (length ?mine)"
  proof
    fix x assume "x \<in> set ?mine"
    then have "ls_seq x \<in> set (map ls_seq ?mine)" by (simp only: list.set_map imageI)
    then show "ls_seq x < Suc (length ?mine)" unfolding upt by (simp only: set_upt atLeastLessThan_iff)
  qed
  have act: "filter (\<lambda>l. ls_bench l = b \<and> ls_state l = ''active'') ls =
      filter (\<lambda>l. ls_state l = ''active'') (filter (\<lambda>l. ls_bench l = b) ls)" for ls :: "lease list"
    by (simp add: conj_commute)
  have mine': "filter (\<lambda>l. ls_bench l = b) (t_leases (tabs s')) = ?mine @ [l]" by (simp add: l)
  have sorted_sub: "sorted (map ls_seq (filter P (?mine @ [l])))" for P
    using srt le by (intro sorted_filter) (auto simp: sorted_append l(1) less_imp_le)
  have ll: "list_leases b s = ?mine" "list_leases b s' = ?mine @ [l]"
    using srt sorted_sub [of "\<lambda>_. True"] mine' by (simp_all add: list_leases_def sort_key_sorted_id)
  have "get_active_lease b s' = Some l"
    using sorted_sub [of "\<lambda>l. ls_state l = ''active''"]
    unfolding get_active_lease_def act mine' by (simp add: sort_key_sorted_id) (simp add: l(1))
  with ll le show ?thesis by (simp add: l(1))
qed

text \<open>
  The lease just issued is the one the bench is held under, at the next sequence of the
  ledger, and it can be closed once.
\<close>

theorem next_lease_becomes_active:
  assumes "store_steps empty_store s" "next_lease b i h e s = (Inr l, s')"
  shows "get_active_lease b s' = Some l \<and> ls_seq l = Suc (length (list_leases b s)) \<and>
    list_leases b s' = list_leases b s @ [l] \<and> fst (consume_lease b (ls_seq l) now s') = Inr ()"
proof -
  have "t_leases (tabs s') = t_leases (tabs s) @ [l]" "ls_bench l = b" "ls_state l = ''active''"
    using assms(2) by (auto simp: next_lease_ok)
  with lease_issued [OF assms] show ?thesis
    by (fastforce simp: consume_lease_def close_lease_def autocommit_def filter_empty_conv Let_def)
qed

lemma next_lease_becomes_active_witness:
  "\<exists>l. get_active_lease ''b'' (snd (next_lease ''b'' ''l2'' ''h'' ''t'' leased_store)) = Some l \<and> ls_seq l = 2"
proof -
  have "store_steps empty_store leased_store" unfolding leased_store_def by (intro store_steps.intros)
  moreover obtain l where "next_lease ''b'' ''l2'' ''h'' ''t'' leased_store =
      (Inr l, snd (next_lease ''b'' ''l2'' ''h'' ''t'' leased_store))"
    by (simp add: next_lease_def immediate_eq leased_store_eq empty_store_def Let_def)
  ultimately show ?thesis
    using next_lease_becomes_active [of leased_store "''b''" "''l2''" "''h''" "''t''" l
      "snd (next_lease ''b'' ''l2'' ''h'' ''t'' leased_store)"]
    by (simp add: list_leases_def leased_store_eq)
qed

subsection \<open>Reading and trimming a stream\<close>

lemma numbered_rows_split:
  assumes m: "map f rows = [a..<b]" and d: "d \<le> length rows"
  shows "filter (\<lambda>r. f r < a + d) rows = take d rows" "filter (\<lambda>r. \<not> f r < a + d) rows = drop d rows"
proof -
  have nth: "i < length rows \<Longrightarrow> f (rows ! i) = a + i" for i
    using m by (metis length_map length_upt nth_map nth_upt less_diff_conv add.commute)
  have "\<forall>r \<in> set (take d rows). f r < a + d" "\<forall>r \<in> set (drop d rows). \<not> f r < a + d"
    using d nth by (auto simp: in_set_conv_nth)
  then have "filter (\<lambda>r. f r < a + d) (take d rows @ drop d rows) = take d rows"
    "filter (\<lambda>r. \<not> f r < a + d) (take d rows @ drop d rows) = drop d rows"
    unfolding filter_append by simp_all
  then show "filter (\<lambda>r. f r < a + d) rows = take d rows" "filter (\<lambda>r. \<not> f r < a + d) rows = drop d rows"
    by simp_all
qed

lemma numbered_rows_nth: "map f rows = [a..<b] \<Longrightarrow> i < length rows \<Longrightarrow> f (rows ! i) = a + i"
  by (metis length_map length_upt nth_map nth_upt less_diff_conv add.commute)

lemma filter_after:
  assumes "map f rows = [a..<b]" "n \<le> length rows" "0 < n"
  shows "filter (\<lambda>r. int (f (rows ! (n - 1))) < int (f r)) rows = drop n rows"
proof -
  have "f (rows ! (n - 1)) = a + (n - 1)" using assms by (intro numbered_rows_nth) auto
  then have "(int (f (rows ! (n - 1))) < int (f r)) = (\<not> f r < a + n)" for r
    using assms(3) by auto
  then show ?thesis using numbered_rows_split(2) [OF assms(1,2)] by simp
qed

text \<open>
  Cursor paging loses nothing and repeats nothing: a page of \<open>n\<close> events, then the
  page after the sequence stamped into its last event, is the head of the stream, and pages taken
  until one comes back short are the whole stream.
\<close>

theorem paging_composes:
  assumes "store_steps empty_store s" "0 < n"
    and "read_events_after k None (int n) s = Inr p" "p \<noteq> []"
    and "obj_get (last p) ''sequence'' = JStr cursor"
  shows "read_events_after k (Some cursor) (int m) s = Inr (take m (drop n (read_events k s))) \<and>
    p = take n (read_events k s)"
proof -
  let ?rows = "stream_rows k (tabs s)"
  have ok: "stream_ok (tabs s)" by (rule reachable_stream_ok [OF assms(1)])
  have rows: "?rows = filter (\<lambda>r. ev_stream r = k) (t_events (tabs s))"
    using ok by (simp add: stream_ok_def stream_rows_append_order)
  have "contiguous (event_seqs (tabs s) k)" using ok by (simp add: stream_ok_def)
  then obtain a b where ab: "map ev_seq ?rows = [a..<b]"
    unfolding contiguous_def rows event_seqs_def by blast
  have p: "p = map ev_body (take n ?rows)"
    using assms(3) by (simp add: read_events_after_def sql_limit_def)
  let ?c = "min n (length ?rows)"
  have c: "0 < ?c" "?c \<le> length ?rows" using assms(2,4) p by auto
  have "last p = ev_body (?rows ! (?c - 1))"
  proof -
    have ne: "take n ?rows \<noteq> []" using assms(4) p by blast
    have "last p = ev_body (last (take n ?rows))" using ne p by (simp add: last_map)
    also have "last (take n ?rows) = take n ?rows ! (?c - 1)"
      by (simp only: last_conv_nth [OF ne] length_take min.commute)
    also have "\<dots> = ?rows ! (?c - 1)" using c by (intro nth_take) linarith
    finally show ?thesis .
  qed
  moreover have "?rows ! (?c - 1) \<in> set ?rows" using c by (intro nth_mem) linarith
  then have "?rows ! (?c - 1) \<in> set (t_events (tabs s))" by (simp add: rows)
  ultimately have cur: "cursor = show_nat (ev_seq (?rows ! (?c - 1)))"
    using ok assms(5) by (simp add: stream_ok_def)
  have "drop ?c ?rows = drop n ?rows" by (simp add: min_def)
  then show ?thesis
    using filter_after [OF ab c(2,1)]
    by (simp add: read_events_after_def cur py_int_show_nat p read_events_def sql_limit_def take_map drop_map)
qed

definition two_events :: store where
  "two_events = snd (apply_call (AppendEvent ''b'' [(''k'', JInt 2)])
     (snd (apply_call (AppendEvent ''b'' [(''k'', JInt 1)]) empty_store)))"

lemma two_events_eq: "two_events = empty_store\<lparr>tabs := empty_tables\<lparr>t_events := [
    \<lparr>ev_stream = ''b'', ev_seq = 1, ev_body = [(''k'', JInt 1), (''sequence'', JStr ''1'')]\<rparr>,
    \<lparr>ev_stream = ''b'', ev_seq = 2, ev_body = [(''k'', JInt 2), (''sequence'', JStr ''2'')]\<rparr>]\<rparr>\<rparr>"
  by (simp add: two_events_def append_event_def immediate_eq empty_store_def empty_tables_def
    event_seqs_def Let_def json_column_def show_nat_small digit_char_def max_seq_def)

lemma paging_composes_witness:
  "read_events_after ''b'' (Some ''1'') 5 two_events = Inr [[(''k'', JInt 2), (''sequence'', JStr ''2'')]]"
proof -
  have "store_steps empty_store two_events" unfolding two_events_def by (intro store_steps.intros)
  moreover have "read_events_after ''b'' None (int 1) two_events =
      Inr [[(''k'', JInt 1), (''sequence'', JStr ''1'')]]"
    by (simp add: two_events_eq read_events_after_def stream_rows_def sql_limit_def)
  moreover have "read_events ''b'' two_events =
      [[(''k'', JInt 1), (''sequence'', JStr ''1'')], [(''k'', JInt 2), (''sequence'', JStr ''2'')]]"
    by (simp add: two_events_eq read_events_def stream_rows_def)
  ultimately show ?thesis
    using paging_composes [of two_events 1 "''b''" "[[(''k'', JInt 1), (''sequence'', JStr ''1'')]]" "''1''" 5]
    by (simp add: obj_get_def)
qed

text \<open>
  Trimming keeps exactly the newest \<open>max keep 1\<close> events of the stream, reports how
  many it deleted, and touches no other stream. The newest event always stays, whatever
  \<open>keep\<close> is, so that the next number is never one already used.
\<close>

theorem trim_keeps_newest:
  assumes "store_steps empty_store s" "saved s = None"
  shows "\<exists>d s'. trim_stream k keep s = (Inr d, s') \<and>
    read_events k s' = drop d (read_events k s) \<and>
    d = length (read_events k s) - nat (max keep 1) \<and>
    (\<forall>j. j \<noteq> k \<longrightarrow> read_events j s' = read_events j s) \<and>
    (read_events k s \<noteq> [] \<longrightarrow> max_seq (event_seqs (tabs s') k) = max_seq (event_seqs (tabs s) k))"
proof -
  let ?rows = "stream_rows k (tabs s)"
  have ok: "stream_ok (tabs s)" by (rule reachable_stream_ok [OF assms(1)])
  have rows: "stream_rows j (tabs s) = filter (\<lambda>r. ev_stream r = j) (t_events (tabs s))" for j
    using ok by (simp add: stream_ok_def stream_rows_append_order)
  have "contiguous (event_seqs (tabs s) k)" using ok by (simp add: stream_ok_def)
  then obtain a b where ab: "map ev_seq ?rows = [a..<b]"
    unfolding contiguous_def rows event_seqs_def by blast
  let ?m = "nat (keep - 1)"
  let ?d = "length ?rows - Suc ?m"
  have md: "nat (max keep 1) = Suc ?m" by linarith
  show ?thesis
  proof (cases "?m < length ?rows")
    case False
    then have "trim_stream k keep s = (Inr 0, s)"
      using assms(2) by (simp add: trim_stream_def immediate_eq sql_limit_def sql_offset_def)
    with False show ?thesis by (intro exI [of _ 0] exI [of _ s]) (simp add: read_events_def md)
  next
    case True
    let ?edge = "rev ?rows ! ?m"
    have edge: "ev_seq ?edge = a + ?d" using True numbered_rows_nth [OF ab, of ?d] by (simp add: rev_nth)
    have "drop ?m (rev ?rows) = ?edge # drop (Suc ?m) (rev ?rows)" using True by (simp add: Cons_nth_drop_Suc)
    then have hd: "sql_limit 1 (sql_offset (keep - 1) (rev ?rows)) = [?edge]"
      by (simp add: sql_limit_def sql_offset_def)
    let ?gone = "\<lambda>r. ev_stream r = k \<and> ev_seq r < a + ?d"
    obtain t where t: "t = (tabs s)\<lparr>t_events := filter (\<lambda>r. \<not> ?gone r) (t_events (tabs s))\<rparr>" by simp
    then have ev: "t_events t = filter (\<lambda>r. \<not> ?gone r) (t_events (tabs s))" by simp
    have trim: "trim_stream k keep s = (Inr (length (filter ?gone (t_events (tabs s)))), s\<lparr>tabs := t\<rparr>)"
      using assms(2) by (simp add: trim_stream_def immediate_eq hd Let_def edge t)
    then have "stream_ok t" using trim_stream_keeps [OF ok, of k keep] by simp
    then have rows': "stream_rows j t = filter (\<lambda>r. ev_stream r = j) (t_events t)" for j
      by (simp only: stream_ok_def stream_rows_append_order)
    have split: "filter (\<lambda>r. ev_seq r < a + ?d) ?rows = take ?d ?rows"
      "filter (\<lambda>r. \<not> ev_seq r < a + ?d) ?rows = drop ?d ?rows"
      by (rule numbered_rows_split [OF ab], simp)+
    have gone: "filter ?gone (t_events (tabs s)) = take ?d ?rows"
      using split(1) by (simp add: rows conj_commute)
    have kept: "stream_rows k t = drop ?d ?rows"
    proof -
      have "filter (\<lambda>r. ev_stream r = k) (filter (\<lambda>r. \<not> (ev_stream r = k \<and> ev_seq r < D)) xs) =
          filter (\<lambda>r. \<not> ev_seq r < D) (filter (\<lambda>r. ev_stream r = k) xs)" for D xs
        by (induction xs) auto
      from this [of "a + ?d" "t_events (tabs s)"] split(2) show ?thesis by (simp only: rows' rows ev)
    qed
    have other: "stream_rows j t = stream_rows j (tabs s)" if "j \<noteq> k" for j
      using that unfolding rows' rows ev by (simp, intro filter_cong) auto
    have "event_seqs t k = drop ?d [a..<b]"
      using kept ab by (simp add: event_seqs_def rows' drop_map [symmetric] del: drop_upt)
    moreover have "event_seqs (tabs s) k = [a..<b]" using ab by (simp add: event_seqs_def rows)
    moreover have len: "length ?rows = b - a" by (metis ab length_map length_upt)
    have "a + ?d < b" using True len by linarith
    ultimately have mx: "max_seq (event_seqs t k) = max_seq (event_seqs (tabs s) k)"
      by (simp add: max_seq_upt)
    show ?thesis
      using trim gone kept other mx
      by (intro exI [of _ ?d] exI [of _ "s\<lparr>tabs := t\<rparr>"])
        (simp add: read_events_def md drop_map)
  qed
qed

lemma trim_keeps_newest_witness:
  "\<exists>d s'. trim_stream ''b'' 0 two_events = (Inr d, s') \<and>
    read_events ''b'' s' = [[(''k'', JInt 2), (''sequence'', JStr ''2'')]]"
proof -
  have "store_steps empty_store two_events" unfolding two_events_def by (intro store_steps.intros)
  moreover have "saved two_events = None" by (simp add: two_events_eq empty_store_def)
  moreover have "read_events ''b'' two_events =
      [[(''k'', JInt 1), (''sequence'', JStr ''1'')], [(''k'', JInt 2), (''sequence'', JStr ''2'')]]"
    by (simp add: two_events_eq read_events_def stream_rows_def)
  ultimately show ?thesis using trim_keeps_newest [of two_events "''b''" 0] by auto
qed

subsection \<open>Listing\<close>

text \<open>
  A page of the bench list is the requested window of the benches in id order, and
  \<open>has_more\<close> says exactly whether benches follow it.
\<close>

theorem list_benches_window:
  "list_benches (int limit) (int offset) s =
    (take limit (drop offset (sort_key fst (t_benches (tabs s)))),
     offset + limit < length (t_benches (tabs s)))"
  by (auto simp: list_benches_def page_def sql_limit_def sql_offset_def nat_add_distrib)

end
