(* ===== verification/Documents.thy ===== *)
theory Documents
  imports Policy
begin

text \<open>
  The admitted document set the control core runs on (\<open>control/documents.py\<close>, class
  \<open>AdmittedDocuments\<close>). Admission validates every document against its closed schema before any
  of the code modelled here sees it, so a document is a record of the members that code reads, a
  step of \<open>procedure.schema.json\<close> is a constructor with that schema's members, and a member the
  code still tests at run time (a bound, a descriptor's capture limits) stays a Python value.
\<close>

section \<open>The procedure\<close>

record predicate =
  pr_sample :: string
  pr_minimum :: pyval
  pr_maximum :: pyval

text \<open>\<open>OtherStep\<close> is a step of a kind the interpreter does not know.\<close>

datatype step =
    Invoke string string string obj int
  | Read string string string int
  | Write string string string pyval int
  | Capture string string string int int int
  | Delay string int
  | Sample string string string string pyval bool
  | Assert string predicate
  | IfStep string predicate "step list" "step list"
  | Repeat string nat "step list"
  | OtherStep string string

fun step_id :: "step \<Rightarrow> string" where
  "step_id (Invoke i _ _ _ _) = i"
| "step_id (Read i _ _ _) = i"
| "step_id (Write i _ _ _ _) = i"
| "step_id (Capture i _ _ _ _ _) = i"
| "step_id (Delay i _) = i"
| "step_id (Sample i _ _ _ _ _) = i"
| "step_id (Assert i _) = i"
| "step_id (IfStep i _ _ _) = i"
| "step_id (Repeat i _ _) = i"
| "step_id (OtherStep i _) = i"

text \<open>A step with no steps inside.\<close>

fun is_leaf :: "step \<Rightarrow> bool" where
  "is_leaf (IfStep _ _ _ _) = False"
| "is_leaf (Repeat _ _ _) = False"
| "is_leaf _ = True"

record role_decl =
  rl_id :: string
  rl_profiles :: "string list"
  rl_channels :: "string list"

section \<open>Devices and the bench\<close>

record action_decl =
  ac_id :: string
  ac_issued :: "string list"

text \<open>The projected view of a device descriptor; a member the projection leaves out is null.\<close>

record device_view =
  dsc_actions :: "action_decl list"
  dsc_parameters :: "string list"
  dsc_profiles :: "string list"
  dsc_artifact_writer :: pyval
  dsc_capture_formats :: pyval
  dsc_capture_limits :: pyval
  dsc_read_side_effect :: pyval

record bench_device =
  bd_id :: string
  bd_channels :: "string list"

record resource =
  rc_id :: string
  rc_devices :: "string list"
  rc_depends :: "string list"

record mechanism =
  mc_id :: string
  mc_resource :: string

record bench_signal =
  sg_id :: string
  sg_resource :: string
  sg_kind :: string
  sg_device :: string
  sg_parameter :: string
  sg_poll_ms :: pyval
  sg_max_age_ms :: int
  sg_absolute_error :: pyval

section \<open>Policy, binding and commissioning\<close>

record safe_action =
  sa_id :: string
  sa_device :: string
  sa_kind :: string
  sa_action :: string
  sa_input :: obj
  sa_parameter :: string
  sa_value :: pyval
  sa_timeout_ms :: int

record binding_entry =
  be_role :: string
  be_device :: string
  be_channels :: "(string \<times> string) list"

record documents =
  d_steps :: "step list"
  d_roles :: "role_decl list"
  d_max_body_ms :: int
  d_max_protection_ms :: int
  d_rules :: "obj list"
  d_conditions :: "condition list"
  d_energised_ms :: "int list"
  d_transition_ms :: int
  d_actions :: "safe_action list"
  d_verify :: "condition list"
  d_stable_ms :: int
  d_bench :: string
  d_devices :: "bench_device list"
  d_resources :: "resource list"
  d_mechanisms :: "mechanism list"
  d_signals :: "bench_signal list"
  d_request :: string
  d_bindings :: "binding_entry list"
  d_overhead_ms :: int
  d_expires_at :: string
  d_descriptors :: "(string \<times> device_view) list"

section \<open>A small document set\<close>

text \<open>One supply on one bench: what the witnesses below run.\<close>

definition demo_steps :: "step list" where
  "demo_steps = [Invoke ''arm'' ''supply'' ''on'' [(''level'', JInt 3)] 100,
     Sample ''v'' ''arm'' ''vout'' ''V'' (JInt 1000) False,
     IfStep ''high'' \<lparr>pr_sample = ''v'', pr_minimum = JInt 1, pr_maximum = JInt 5\<rparr>
       [Delay ''short'' 10] [Delay ''long'' 40],
     Repeat ''loop'' 3 [Read ''probe'' ''supply'' ''volts'' 20]]"

definition demo_view :: device_view where
  "demo_view = \<lparr>dsc_actions = [\<lparr>ac_id = ''on'', ac_issued = []\<rparr>], dsc_parameters = [''volts''],
     dsc_profiles = [''psu''], dsc_artifact_writer = JBool False, dsc_capture_formats = JNull,
     dsc_capture_limits = JNull, dsc_read_side_effect = JStr ''none''\<rparr>"

definition demo_docs :: documents where
  "demo_docs = \<lparr>d_steps = demo_steps,
     d_roles = [\<lparr>rl_id = ''supply'', rl_profiles = [''psu''], rl_channels = [''out'']\<rparr>],
     d_max_body_ms = 1000, d_max_protection_ms = 500,
     d_rules = [[(''device_id'', JStr ''psu1''), (''kind'', JStr ''invoke''), (''action_id'', JStr ''on''),
                 (''input_constraints'', JObj [(''type'', JStr ''object'')])]],
     d_conditions = [Numeric ''c1'' ''vout'' ''V'' (Fin 0) (Fin 5)],
     d_energised_ms = [2000, 3000], d_transition_ms = 400,
     d_actions = [\<lparr>sa_id = ''off'', sa_device = ''psu1'', sa_kind = ''invoke'', sa_action = ''off'',
                   sa_input = [], sa_parameter = [], sa_value = JNull, sa_timeout_ms = 50\<rparr>],
     d_verify = [Numeric ''c2'' ''vout'' ''V'' (Fin 0) (Fin 1)], d_stable_ms = 20,
     d_bench = ''b1'',
     d_devices = [\<lparr>bd_id = ''psu1'', bd_channels = [''ch1'']\<rparr>],
     d_resources = [\<lparr>rc_id = ''rail'', rc_devices = [''psu1''], rc_depends = [''mains'']\<rparr>,
                    \<lparr>rc_id = ''mains'', rc_devices = [], rc_depends = []\<rparr>],
     d_mechanisms = [\<lparr>mc_id = ''ovp'', mc_resource = ''rail''\<rparr>],
     d_signals = [\<lparr>sg_id = ''vout'', sg_resource = ''rail'', sg_kind = ''parameter'', sg_device = ''psu1'',
                   sg_parameter = ''volts'', sg_poll_ms = JInt 10, sg_max_age_ms = 100,
                   sg_absolute_error = JFloat (Fin (1/4))\<rparr>],
     d_request = ''req-1'',
     d_bindings = [\<lparr>be_role = ''supply'', be_device = ''psu1'', be_channels = [(''out'', ''ch1'')]\<rparr>],
     d_overhead_ms = 50, d_expires_at = ''2030-01-01T00:00:00Z'',
     d_descriptors = [(''psu1'', demo_view)]\<rparr>"

end
