(* ===== verification/Semantics.thy ===== *)
theory Semantics
  imports Documents Py_Text
begin

text \<open>
  \<open>control/semantics.py\<close>: what a procedure must satisfy before a run may start. The generator
  \<open>_walk\<close> is the list of what it yields; \<open>AdmissionRejected\<close> is the left summand, one
  constructor for each raise site, and \<open>Escaped\<close> an exception of Python's library that the code
  does not catch.
\<close>

datatype admission_error =
    DuplicateStepId string
  | ScopeRejected string string string string
  | IssuePlacement string string string
  | CaptureUndeclared string string string
  | StateChangingRead string string string
  | BodyBudget int int int
  | EnergisedBudget int int int
  | ExpiredUnparseable string string
  | ExpiredHorizon string int string
  | Escaped exn

section \<open>Time budget\<close>

definition capture_epilogue_floor_ms :: int where "capture_epilogue_floor_ms = 5000"

fun worst_case_body_ms :: "step list \<Rightarrow> int" where
  "worst_case_body_ms [] = 0"
| "worst_case_body_ms (s # rest) =
     (case s of
        Invoke _ _ _ _ t \<Rightarrow> t
      | Read _ _ _ t \<Rightarrow> t
      | Write _ _ _ _ t \<Rightarrow> t
      | Capture _ _ _ _ _ t \<Rightarrow> t + capture_epilogue_floor_ms
      | Delay _ t \<Rightarrow> t
      | IfStep _ _ th el \<Rightarrow> max (worst_case_body_ms th) (worst_case_body_ms el)
      | Repeat _ n body \<Rightarrow> int n * worst_case_body_ms body
      | _ \<Rightarrow> 0) + worst_case_body_ms rest"

section \<open>Scopes and ids\<close>

text \<open>
  What \<open>_walk\<close> yields: each step with the ids visible to it and its block path. \<open>vis\<close> is
  \<open>visible + seen\<close>; a nested block starts from the ids up to and with its parent step.
\<close>

fun walk :: "step list \<Rightarrow> string list \<Rightarrow> string \<Rightarrow> (step \<times> string list \<times> string) list" where
  "walk [] vis block = []"
| "walk (s # rest) vis block =
     (s, vis, block) #
     (let now = vis @ [step_id s] in
      (case s of
         IfStep i _ th el \<Rightarrow> walk th now (block @ ''/'' @ i @ ''/then'') @ walk el now (block @ ''/'' @ i @ ''/else'')
       | Repeat i n body \<Rightarrow> concat (map (\<lambda>k. walk body now (block @ ''/'' @ i @ ''/'' @ show_nat k)) [0..<n])
       | _ \<Rightarrow> [])
      @ walk rest now block)"

fun collect_ids :: "step list \<Rightarrow> string list" where
  "collect_ids [] = []"
| "collect_ids (s # rest) =
     step_id s #
     (case s of
        IfStep _ _ th el \<Rightarrow> collect_ids th @ collect_ids el
      | Repeat _ _ body \<Rightarrow> collect_ids body
      | _ \<Rightarrow> []) @ collect_ids rest"

fun check_unique :: "string set \<Rightarrow> string list \<Rightarrow> admission_error + unit" where
  "check_unique seen [] = Inr ()"
| "check_unique seen (i # ids) =
     (if i \<in> seen then Inl (DuplicateStepId i) else check_unique (insert i seen) ids)"

definition check_unique_ids :: "step list \<Rightarrow> admission_error + unit" where
  "check_unique_ids steps = check_unique {} (collect_ids steps)"

section \<open>Directive sites\<close>

text \<open>Every \<open>$stg_ref\<close> under a value with its path; a directive is not entered.\<close>

fun ref_sites :: "pyval \<Rightarrow> string \<Rightarrow> (string \<times> pyval) list"
  and ref_sites_obj :: "obj \<Rightarrow> string \<Rightarrow> (string \<times> pyval) list"
  and ref_sites_list :: "pyval list \<Rightarrow> nat \<Rightarrow> string \<Rightarrow> (string \<times> pyval) list" where
  "ref_sites (JObj kvs) path = ref_sites_obj kvs path"
| "ref_sites (JList xs) path = ref_sites_list xs 0 path"
| "ref_sites _ path = []"
| "ref_sites_obj [] path = []"
| "ref_sites_obj ((k, v) # kvs) path =
     (if k = ''$stg_ref'' then [(path, v)] else ref_sites v (path @ ''.'' @ k)) @ ref_sites_obj kvs path"
| "ref_sites_list [] n path = []"
| "ref_sites_list (x # xs) n path =
     ref_sites x (path @ ''['' @ show_nat n @ '']'') @ ref_sites_list xs (Suc n) path"

fun nested_issue_site :: "pyval \<Rightarrow> string \<Rightarrow> string option"
  and nested_issue_obj :: "obj \<Rightarrow> string \<Rightarrow> string option"
  and nested_issue_list :: "pyval list \<Rightarrow> nat \<Rightarrow> string \<Rightarrow> string option" where
  "nested_issue_site (JObj kvs) path = nested_issue_obj kvs path"
| "nested_issue_site (JList xs) path = nested_issue_list xs 0 path"
| "nested_issue_site _ path = None"
| "nested_issue_obj [] path = None"
| "nested_issue_obj ((k, v) # kvs) path =
     (if k = ''$stg_issue'' then Some path
      else case nested_issue_site v (path @ ''.'' @ k) of
        Some p \<Rightarrow> Some p | None \<Rightarrow> nested_issue_obj kvs path)"
| "nested_issue_list [] n path = None"
| "nested_issue_list (x # xs) n path =
     (case nested_issue_site x (path @ ''['' @ show_nat n @ '']'') of
        Some p \<Rightarrow> Some p | None \<Rightarrow> nested_issue_list xs (Suc n) path)"

definition issued_fields :: "string \<Rightarrow> string \<Rightarrow> (string \<times> device_view) list \<Rightarrow> (string \<Rightarrow> string option) \<Rightarrow> string list" where
  "issued_fields role action descriptors device_by_role =
     (case device_by_role role of None \<Rightarrow> []
      | Some device \<Rightarrow> (case map_of descriptors device of None \<Rightarrow> []
        | Some view \<Rightarrow> concat (map ac_issued (filter (\<lambda>a. ac_id a = action) (dsc_actions view)))))"

text \<open>\<open>str(directive["step"])\<close>: the schema makes the member a string.\<close>

definition directive_step :: "pyval \<Rightarrow> string" where
  "directive_step d = (case d of JObj kvs \<Rightarrow> (case obj_get kvs ''step'' of JStr s \<Rightarrow> s | _ \<Rightarrow> []) | _ \<Rightarrow> [])"

section \<open>The checks of one step\<close>

definition check_refs :: "string \<Rightarrow> string \<Rightarrow> string list \<Rightarrow> (string \<times> pyval) list \<Rightarrow> admission_error + unit" where
  "check_refs i where visible = check_each (\<lambda>(path, d).
     guard_res (directive_step d \<in> set visible)
       (ScopeRejected i where (''$stg_ref at '' @ path) (directive_step d)))"

definition check_issue_keys :: "string \<Rightarrow> string \<Rightarrow> string list \<Rightarrow> obj \<Rightarrow> admission_error + unit" where
  "check_issue_keys i where issued = check_each (\<lambda>(key, child).
     if key = ''$stg_issue'' \<or> (case child of JObj kvs \<Rightarrow> ''$stg_issue'' \<in> set (map fst kvs) | _ \<Rightarrow> False)
     then guard_res (key \<in> set issued) (IssuePlacement i where key)
     else (case nested_issue_site child key of
         Some p \<Rightarrow> Inl (IssuePlacement i where p) | None \<Rightarrow> Inr ()))"

fun as_int :: "pyval \<Rightarrow> int option" where
  "as_int (JInt i) = Some i"
| "as_int _ = None"

definition check_capture_declared ::
    "string \<Rightarrow> string \<Rightarrow> string \<Rightarrow> string \<Rightarrow> int \<Rightarrow> int \<Rightarrow> (string \<times> device_view) list \<Rightarrow>
     (string \<Rightarrow> string option) \<Rightarrow> admission_error + unit" where
  "check_capture_declared i where role fmt samples bytes descriptors device_by_role =
     (case device_by_role role of None \<Rightarrow> Inr ()
      | Some device \<Rightarrow> (case map_of descriptors device of
          None \<Rightarrow> Inl (CaptureUndeclared i where ''no projected descriptor'')
        | Some view \<Rightarrow>
            (if falsy (dsc_artifact_writer view) then Inl (CaptureUndeclared i where ''no capture surface'')
             else case (dsc_capture_formats view, dsc_capture_limits view) of
               (JList formats, JObj limits) \<Rightarrow>
                 (if JStr fmt \<notin> set formats then Inl (CaptureUndeclared i where ''format'')
                  else case (as_int (obj_get limits ''max_samples''), as_int (obj_get limits ''max_bytes'')) of
                    (Some max_samples, Some max_bytes) \<Rightarrow>
                      (if max_samples < samples then Inl (CaptureUndeclared i where ''max_samples'')
                       else if max_bytes < bytes then Inl (CaptureUndeclared i where ''max_bytes'')
                       else Inr ())
                  | _ \<Rightarrow> Inl (CaptureUndeclared i where ''malformed capture_limits''))
             | _ \<Rightarrow> Inl (CaptureUndeclared i where ''no capture surface''))))"

definition check_read_side_effect ::
    "string \<Rightarrow> string \<Rightarrow> string \<Rightarrow> (string \<times> device_view) list \<Rightarrow> (string \<Rightarrow> string option) \<Rightarrow>
     admission_error + unit" where
  "check_read_side_effect i where role descriptors device_by_role =
     (case device_by_role role of None \<Rightarrow> Inr ()
      | Some device \<Rightarrow> (case map_of descriptors device of None \<Rightarrow> Inr ()
        | Some view \<Rightarrow> guard_res (dsc_read_side_effect view \<noteq> JStr ''state_change'')
            (StateChangingRead i where device)))"

definition check_step ::
    "step \<Rightarrow> string list \<Rightarrow> string \<Rightarrow> (string \<times> device_view) list \<Rightarrow> (string \<Rightarrow> string option) \<Rightarrow>
     admission_error + unit" where
  "check_step s visible block descriptors device_by_role =
     (let i = step_id s; where = block @ ''/'' @ i in
      case s of
        Capture _ role fmt samples bytes _ \<Rightarrow>
          check_capture_declared i where role fmt samples bytes descriptors device_by_role
      | Read _ role _ _ \<Rightarrow> check_read_side_effect i where role descriptors device_by_role
      | Invoke _ role action input _ \<Rightarrow>
          bind_res (check_refs i where visible (ref_sites (JObj input) ''input''))
            (\<lambda>_. check_issue_keys i where (issued_fields role action descriptors device_by_role) input)
      | Write _ role _ v _ \<Rightarrow>
          bind_res (check_refs i where visible (ref_sites v ''value''))
            (\<lambda>_. case nested_issue_site v ''value'' of
               Some p \<Rightarrow> Inl (IssuePlacement i where p) | None \<Rightarrow> Inr ())
      | Sample _ source _ _ _ _ \<Rightarrow>
          guard_res (source \<in> set visible) (ScopeRejected i where ''sample.source_step'' source)
      | Assert _ p \<Rightarrow>
          guard_res (pr_sample p \<in> set visible) (ScopeRejected i where ''predicate.sample'' (pr_sample p))
      | IfStep _ p _ _ \<Rightarrow>
          guard_res (pr_sample p \<in> set visible) (ScopeRejected i where ''predicate.sample'' (pr_sample p))
      | _ \<Rightarrow> Inr ())"

section \<open>Budgets and the deadline\<close>

definition check_body_budget :: "documents \<Rightarrow> admission_error + unit" where
  "check_body_budget d = (let bound = worst_case_body_ms (d_steps d) in
     guard_res (bound + d_overhead_ms d \<le> d_max_body_ms d)
       (BodyBudget bound (d_overhead_ms d) (d_max_body_ms d)))"

text \<open>\<open>min\<close> of no domain raises \<open>ValueError\<close>.\<close>

definition check_energised :: "documents \<Rightarrow> admission_error + unit" where
  "check_energised d =
     (if d_energised_ms d = [] then Inl (Escaped (ValueError ''min''))
      else guard_res (d_max_body_ms d + d_transition_ms d \<le> Min (set (d_energised_ms d)))
        (EnergisedBudget (d_max_body_ms d) (d_transition_ms d) (Min (set (d_energised_ms d)))))"

definition parse_utc :: "string \<Rightarrow> string \<Rightarrow> admission_error + moment" where
  "parse_utc text label = (case fromisoformat text of
      None \<Rightarrow> Inl (ExpiredUnparseable label text) | Some m \<Rightarrow> Inr (as_utc m))"

definition check_deadline :: "documents \<Rightarrow> moment \<Rightarrow> string \<Rightarrow> moment \<Rightarrow> admission_error + unit" where
  "check_deadline d now now_wall deadline =
     (let horizon = d_max_body_ms d + d_max_protection_ms d in
      case plus_us now (horizon * 1000) of
        Inl e \<Rightarrow> Inl (Escaped e)
      | Inr finish \<Rightarrow> guard_res (instant finish \<le> instant deadline)
          (ExpiredHorizon now_wall horizon (d_expires_at d)))"

definition role_devices :: "documents \<Rightarrow> string \<Rightarrow> string option" where
  "role_devices d = map_of (rev (map (\<lambda>b. (be_role b, be_device b)) (d_bindings d)))"

definition check_semantics :: "documents \<Rightarrow> string \<Rightarrow> admission_error + unit" where
  "check_semantics d now_wall =
     bind_res (parse_utc now_wall ''now_wall'') (\<lambda>now.
     bind_res (parse_utc (d_expires_at d) ''commissioning.expires_at'') (\<lambda>deadline.
     bind_res (check_unique_ids (d_steps d)) (\<lambda>_.
     bind_res (check_each (\<lambda>(s, visible, block).
         check_step s visible block (d_descriptors d) (role_devices d)) (walk (d_steps d) [] [])) (\<lambda>_.
     bind_res (check_body_budget d) (\<lambda>_.
     bind_res (check_energised d) (\<lambda>_.
     check_deadline d now now_wall deadline))))))"

section \<open>The time a body can take\<close>

text \<open>
  The specification of \<open>worst_case_body_ms\<close>: the milliseconds a body may spend, every operation
  taking anything up to its own limit, either branch of an \<open>if\<close>, every iteration of a
  \<open>repeat\<close> on its own, and the body ending anywhere.
\<close>

fun leaf_budget :: "step \<Rightarrow> int" where
  "leaf_budget (Invoke _ _ _ _ t) = t"
| "leaf_budget (Read _ _ _ t) = t"
| "leaf_budget (Write _ _ _ _ t) = t"
| "leaf_budget (Capture _ _ _ _ _ t) = t + capture_epilogue_floor_ms"
| "leaf_budget (Delay _ t) = t"
| "leaf_budget _ = 0"

inductive body_time :: "step list \<Rightarrow> int \<Rightarrow> bool" where
  halt: "body_time steps 0"
| leaf: "is_leaf s \<Longrightarrow> 0 \<le> c \<Longrightarrow> c \<le> leaf_budget s \<Longrightarrow> body_time rest r \<Longrightarrow>
    body_time (s # rest) (c + r)"
| held: "body_time th c \<Longrightarrow> body_time rest r \<Longrightarrow> body_time (IfStep i p th el # rest) (c + r)"
| failed: "body_time el c \<Longrightarrow> body_time rest r \<Longrightarrow> body_time (IfStep i p th el # rest) (c + r)"
| finished: "body_time rest r \<Longrightarrow> body_time (Repeat i 0 body # rest) r"
| again: "body_time body c \<Longrightarrow> body_time (Repeat i n body # rest) r \<Longrightarrow>
    body_time (Repeat i (Suc n) body # rest) (c + r)"

inductive_cases body_time_NilE: "body_time [] c"

text \<open>What the procedure schema guarantees: no negative limit.\<close>

fun timed :: "step list \<Rightarrow> bool" where
  "timed [] = True"
| "timed (s # rest) = ((case s of
      IfStep _ _ th el \<Rightarrow> timed th \<and> timed el
    | Repeat _ _ body \<Rightarrow> timed body
    | _ \<Rightarrow> 0 \<le> leaf_budget s) \<and> timed rest)"

lemma worst_case_leaf: "is_leaf s \<Longrightarrow> worst_case_body_ms (s # rest) = leaf_budget s + worst_case_body_ms rest"
  by (cases s) simp_all

lemma timed_leaf: "is_leaf s \<Longrightarrow> timed (s # rest) \<longleftrightarrow> 0 \<le> leaf_budget s \<and> timed rest"
  by (cases s) simp_all

lemma worst_case_nonneg: "timed steps \<Longrightarrow> 0 \<le> worst_case_body_ms steps"
proof (induction steps rule: worst_case_body_ms.induct)
  case (2 s rest)
  then show ?case by (cases s) (auto simp: max_def)
qed simp

lemma body_time_le: "body_time steps c \<Longrightarrow> timed steps \<Longrightarrow> c \<le> worst_case_body_ms steps"
proof (induction rule: body_time.induct)
  case (halt steps)
  then show ?case by (rule worst_case_nonneg)
next
  case (leaf s c rest r)
  then show ?case
    by (simp add: worst_case_leaf timed_leaf del: worst_case_body_ms.simps timed.simps)
next
  case (again body c i n rest r)
  then have "c \<le> worst_case_body_ms body" "r \<le> int n * worst_case_body_ms body + worst_case_body_ms rest"
    by simp_all
  then show ?case by (simp add: distrib_right)
qed (simp_all add: max_def)

lemma body_time_repeat:
  "body_time body c \<Longrightarrow> body_time rest r \<Longrightarrow> body_time (Repeat i n body # rest) (int n * c + r)"
proof (induction n)
  case (Suc n)
  from body_time.again [OF Suc.prems(1) Suc.IH [OF Suc.prems]] show ?case
    by (simp add: distrib_right add.assoc)
qed (simp add: body_time.finished)

lemma body_time_reaches: "timed steps \<Longrightarrow> body_time steps (worst_case_body_ms steps)"
proof (induction steps rule: worst_case_body_ms.induct)
  case (2 s rest)
  show ?case
  proof (cases "is_leaf s")
    case True
    with "2.prems" have "0 \<le> leaf_budget s" "timed rest"
      by (simp_all add: timed_leaf del: timed.simps)
    then have "body_time (s # rest) (leaf_budget s + worst_case_body_ms rest)"
      using True 2 by (intro body_time.leaf) simp_all
    then show ?thesis using True by (simp add: worst_case_leaf del: worst_case_body_ms.simps)
  next
    case False
    then show ?thesis using 2
      by (cases s) (auto simp: max_def body_time_repeat intro: body_time.held body_time.failed)
  qed
qed (simp add: body_time.halt)

section \<open>Properties\<close>

text \<open>
  Claim C9. The static bound is exact: no body takes longer than \<open>worst_case_body_ms\<close> says, and some
  choice of branches and operation times takes exactly that long.
\<close>

theorem worst_case_is_maximum:
  assumes "timed steps"
  shows "(\<forall>c. body_time steps c \<longrightarrow> c \<le> worst_case_body_ms steps) \<and>
    body_time steps (worst_case_body_ms steps)"
  using assms body_time_le body_time_reaches by blast

lemma worst_case_is_maximum_witness:
  "worst_case_body_ms demo_steps = 200 \<and> body_time demo_steps 200"
proof -
  have "timed demo_steps" "worst_case_body_ms demo_steps = 200" by (simp_all add: demo_steps_def)
  with worst_case_is_maximum [of demo_steps] show ?thesis by simp
qed

lemma check_unique_iff: "check_unique seen ids = Inr () \<longleftrightarrow> distinct ids \<and> set ids \<inter> seen = {}"
  by (induction seen ids rule: check_unique.induct) auto

text \<open>
  Admission accepts only distinct ids and rejects with an id that really repeats: the
  unique-id check passes exactly when no id occurs twice anywhere in the procedure.
\<close>

theorem unique_ids_iff_distinct:
  "(check_unique_ids steps = Inr () \<longleftrightarrow> distinct (collect_ids steps)) \<and>
   (\<forall>e. check_unique_ids steps = Inl e \<longrightarrow>
      (\<exists>i. e = DuplicateStepId i \<and> 2 \<le> count_list (collect_ids steps) i))"
proof -
  have "check_unique seen ids = Inl e \<Longrightarrow>
      \<exists>i. e = DuplicateStepId i \<and> (i \<in> seen \<and> i \<in> set ids \<or> 2 \<le> count_list ids i)" for seen ids e
  proof (induction seen ids rule: check_unique.induct)
    case (2 seen i ids)
    show ?case
    proof (cases "i \<in> seen")
      case False
      with 2 obtain j where "e = DuplicateStepId j"
        "j \<in> insert i seen \<and> j \<in> set ids \<or> 2 \<le> count_list ids j" by auto
      moreover have "j \<in> set ids \<Longrightarrow> 1 \<le> count_list ids j"
        by (metis count_list_0_iff less_one linorder_not_le)
      ultimately show ?thesis by (intro exI [of _ j]) auto
    qed (use 2 in auto)
  qed simp
  from this [of "{}" "collect_ids steps"] show ?thesis
    by (auto simp: check_unique_ids_def check_unique_iff)
qed

text \<open>
  Claim C10. An accepted run fits its budgets: whatever branches it takes, the body plus the
  scheduling overhead fits \<open>max_body_ms\<close>, body plus safe transition fits the energised limit of
  every policy domain, and the commissioning is still valid when body and protection have run out.
\<close>

theorem accepted_run_fits_budgets:
  assumes "check_semantics d now = Inr ()" "timed (d_steps d)" "body_time (d_steps d) c"
  shows "c + d_overhead_ms d \<le> d_max_body_ms d \<and>
    (\<forall>e \<in> set (d_energised_ms d). c + d_overhead_ms d + d_transition_ms d \<le> e) \<and>
    (\<exists>m m'. fromisoformat now = Some m \<and> fromisoformat (d_expires_at d) = Some m' \<and>
       instant m + (d_max_body_ms d + d_max_protection_ms d) * 1000 \<le> instant m')"
proof -
  have c: "c \<le> worst_case_body_ms (d_steps d)" using assms(2,3) body_time_le by blast
  have b: "worst_case_body_ms (d_steps d) + d_overhead_ms d \<le> d_max_body_ms d"
    using assms(1) by (auto simp: check_semantics_def check_body_budget_def Let_def bind_unit_Inr)
  have "\<forall>e \<in> set (d_energised_ms d). d_max_body_ms d + d_transition_ms d \<le> e"
    using assms(1)
    by (auto simp: check_semantics_def check_energised_def Let_def bind_unit_Inr split: if_splits
      intro: order_trans [OF _ Min_le])
  moreover obtain m m' m'' where m: "fromisoformat now = Some m" "fromisoformat (d_expires_at d) = Some m'"
      "plus_us (as_utc m) ((d_max_body_ms d + d_max_protection_ms d) * 1000) = Inr m''"
      "instant m'' \<le> instant (as_utc m')"
    using assms(1)
    by (auto simp: check_semantics_def parse_utc_def check_deadline_def Let_def bind_unit_Inr
      split: option.splits sum.splits)
  ultimately show ?thesis using b c instant_plus_us [OF m(3)] by fastforce
qed

lemma demo_accepted: "check_semantics demo_docs ''2026-01-01T00:00:00Z'' = Inr ()"
  by code_simp

lemma accepted_run_fits_budgets_witness:
  "200 + d_overhead_ms demo_docs \<le> d_max_body_ms demo_docs \<and>
    list_all (\<lambda>e. 200 + d_overhead_ms demo_docs + d_transition_ms demo_docs \<le> e) (d_energised_ms demo_docs)"
proof -
  have "timed (d_steps demo_docs)" "worst_case_body_ms (d_steps demo_docs) = 200"
    by (simp_all add: demo_docs_def demo_steps_def)
  then have "timed (d_steps demo_docs)" "body_time (d_steps demo_docs) 200"
    using body_time_reaches by fastforce+
  with accepted_run_fits_budgets [OF demo_accepted, of 200] show ?thesis by (simp add: list_all_iff)
qed

section \<open>Where an issued id may be asked for\<close>

text \<open>Whether a value contains a \<open>$stg_issue\<close> member anywhere.\<close>

fun mentions_issue :: "pyval \<Rightarrow> bool"
  and mentions_issue_obj :: "obj \<Rightarrow> bool"
  and mentions_issue_list :: "pyval list \<Rightarrow> bool" where
  "mentions_issue (JObj kvs) = mentions_issue_obj kvs"
| "mentions_issue (JList xs) = mentions_issue_list xs"
| "mentions_issue _ = False"
| "mentions_issue_obj [] = False"
| "mentions_issue_obj ((k, v) # kvs) = (k = ''$stg_issue'' \<or> mentions_issue v \<or> mentions_issue_obj kvs)"
| "mentions_issue_list [] = False"
| "mentions_issue_list (x # xs) = (mentions_issue x \<or> mentions_issue_list xs)"

lemma nested_issue_None:
  "nested_issue_site v path = None \<longleftrightarrow> \<not> mentions_issue v"
  "nested_issue_obj kvs path = None \<longleftrightarrow> \<not> mentions_issue_obj kvs"
  "nested_issue_list xs n path = None \<longleftrightarrow> \<not> mentions_issue_list xs"
  by (induction v path and kvs path and xs n path
      rule: nested_issue_site_nested_issue_obj_nested_issue_list.induct)
    (auto split: option.splits)

text \<open>
  An accepted procedure asks for issued ids only where the device's descriptor says so:
  an input member of an \<open>invoke\<close> that contains \<open>$stg_issue\<close> anywhere is one the descriptor of the
  role's device marks issued for that very action, and no \<open>write\<close> asks for one at all.
\<close>

theorem issue_only_where_declared:
  assumes "check_semantics d now = Inr ()" "(s, visible, block) \<in> set (walk (d_steps d) [] [])"
  shows "(\<forall>i role action input t key child. s = Invoke i role action input t \<longrightarrow> (key, child) \<in> set input \<longrightarrow>
      mentions_issue child \<or> key = ''$stg_issue'' \<longrightarrow>
      (\<exists>device view a. role_devices d role = Some device \<and> map_of (d_descriptors d) device = Some view \<and>
         a \<in> set (dsc_actions view) \<and> ac_id a = action \<and> key \<in> set (ac_issued a))) \<and>
    (\<forall>i role p v t. s = Write i role p v t \<longrightarrow> \<not> mentions_issue v)"
proof -
  have "check_each (\<lambda>(s, visible, block). check_step s visible block (d_descriptors d) (role_devices d))
      (walk (d_steps d) [] []) = Inr ()"
    using assms(1) by (auto simp: check_semantics_def bind_unit_Inr)
  from check_each_member [OF this assms(2)]
  have step: "check_step s visible block (d_descriptors d) (role_devices d) = Inr ()" by simp
  have "\<exists>device view a. role_devices d role = Some device \<and> map_of (d_descriptors d) device = Some view \<and>
      a \<in> set (dsc_actions view) \<and> ac_id a = action \<and> key \<in> set (ac_issued a)"
    if inv: "s = Invoke i role action input t" and k: "(key, child) \<in> set input"
      "mentions_issue child \<or> key = ''$stg_issue''" for i role action input t key child
  proof -
    have "check_issue_keys i (block @ ''/'' @ i)
        (issued_fields role action (d_descriptors d) (role_devices d)) input = Inr ()"
      using step inv by (simp add: check_step_def Let_def bind_unit_Inr)
    from check_each_member [OF this [unfolded check_issue_keys_def] k(1)] k(2)
    have "key \<in> set (issued_fields role action (d_descriptors d) (role_devices d))"
      by (auto simp: nested_issue_None split: if_splits option.splits pyval.splits)
    then show ?thesis
      by (auto simp: issued_fields_def split: option.splits) metis
  qed
  moreover have "\<not> mentions_issue v" if "s = Write i role p v t" for i role p v t
    using step that by (auto simp: check_step_def Let_def bind_unit_Inr nested_issue_None split: option.splits)
  ultimately show ?thesis by blast
qed

text \<open>The demo supply with an action that takes an issued configuration id.\<close>

definition issuing_docs :: documents where
  "issuing_docs = demo_docs\<lparr>
     d_steps := [Invoke ''cfg'' ''supply'' ''on'' [(''configuration_id'', JObj [(''$stg_issue'', JStr ''configuration_id'')])] 100],
     d_descriptors := [(''psu1'', demo_view\<lparr>dsc_actions := [\<lparr>ac_id = ''on'', ac_issued = [''configuration_id'']\<rparr>]\<rparr>)]\<rparr>"

lemma issue_only_where_declared_witness:
  "\<exists>device view a. role_devices issuing_docs ''supply'' = Some device \<and>
     map_of (d_descriptors issuing_docs) device = Some view \<and> a \<in> set (dsc_actions view) \<and>
     ac_id a = ''on'' \<and> ''configuration_id'' \<in> set (ac_issued a)"
proof -
  have "check_semantics issuing_docs ''2026-01-01T00:00:00Z'' = Inr ()" by code_simp
  moreover have "(Invoke ''cfg'' ''supply'' ''on'' [(''configuration_id'', JObj [(''$stg_issue'', JStr ''configuration_id'')])] 100, [], [])
      \<in> set (walk (d_steps issuing_docs) [] [])" by (simp add: issuing_docs_def)
  ultimately show ?thesis
    using issue_only_where_declared [of issuing_docs "''2026-01-01T00:00:00Z''"] by fastforce
qed

end
