(* ===== verification/Binding.thy ===== *)
theory Binding
  imports Documents Store
begin

text \<open>
  \<open>control/binding.py\<close>: procedure roles to bench devices, the closure of the resources a run
  touches, and the bench lease. Python's dictionaries are association lists in insertion order
  (\<open>dict_of\<close>); \<open>BindingError\<close> is the left summand, one constructor for each kind of refusal, and
  \<open>BindEscaped\<close> what the code lets through.
\<close>

datatype binding_error =
    InvalidTimestamp string string
  | UnknownRole string
  | DuplicateRole string
  | UnknownDevice string
  | UnboundRole string
  | MissingProfile string "string list" string
  | UndeclaredAlias string "string list"
  | UnboundChannel string "string list"
  | UndeclaredChannel string string string
  | UndeclaredAction string string string
  | UndeclaredParameter string string string
  | DuplicateResource string
  | UnknownResource string string
  | ResourceCycle string
  | BenchMismatch string string
  | BenchBusy string string
  | BindEscaped exn

record resolved =
  rv_device :: "(string \<times> string) list"
  rv_channels :: "(string \<times> (string \<times> string) list) list"

record reservation =
  rsv_resources :: "string set"
  rsv_lease :: lease

definition dict_of :: "(string \<times> 'a) list \<Rightarrow> (string \<times> 'a) list" where
  "dict_of kvs = fold (\<lambda>(k, v). AList.update k v) kvs []"

fun walk_steps :: "step list \<Rightarrow> step list" where
  "walk_steps [] = []"
| "walk_steps (s # rest) =
     s # (case s of IfStep _ _ th el \<Rightarrow> walk_steps th @ walk_steps el
        | Repeat _ _ body \<Rightarrow> walk_steps body | _ \<Rightarrow> []) @ walk_steps rest"

section \<open>Roles\<close>

fun bind_entries :: "string list \<Rightarrow> string list \<Rightarrow> binding_entry list \<Rightarrow> resolved \<Rightarrow> binding_error + resolved" where
  "bind_entries roles devices [] r = Inr r"
| "bind_entries roles devices (e # es) r =
     (if be_role e \<notin> set roles then Inl (UnknownRole (be_role e))
      else if be_role e \<in> set (map fst (rv_device r)) then Inl (DuplicateRole (be_role e))
      else if be_device e \<notin> set devices then Inl (UnknownDevice (be_device e))
      else bind_entries roles devices es
        (r\<lparr>rv_device := rv_device r @ [(be_role e, be_device e)],
           rv_channels := rv_channels r @ [(be_role e, be_channels e)]\<rparr>))"

definition check_role :: "documents \<Rightarrow> (string \<times> bench_device) list \<Rightarrow> resolved \<Rightarrow> string \<times> role_decl \<Rightarrow> binding_error + unit" where
  "check_role d devices r = (\<lambda>(role, decl). case map_of (rv_device r) role of
      None \<Rightarrow> Inl (UnboundRole role)
    | Some device \<Rightarrow> (case map_of (d_descriptors d) device of
        None \<Rightarrow> Inl (BindEscaped (KeyError device))
      | Some view \<Rightarrow>
          (let missing_profiles = filter (\<lambda>p. p \<notin> set (dsc_profiles view)) (rl_profiles decl);
               bound = (case map_of (rv_channels r) role of None \<Rightarrow> [] | Some cs \<Rightarrow> cs);
               extra = sort (remdups (filter (\<lambda>a. a \<notin> set (rl_channels decl)) (map fst bound)));
               missing = sort (remdups (filter (\<lambda>a. a \<notin> set (map fst bound)) (rl_channels decl)))
           in if missing_profiles \<noteq> [] then Inl (MissingProfile role missing_profiles device)
              else if extra \<noteq> [] then Inl (UndeclaredAlias role extra)
              else if missing \<noteq> [] then Inl (UnboundChannel role missing)
              else (case map_of devices device of
                  None \<Rightarrow> Inl (BindEscaped (KeyError device))
                | Some bd \<Rightarrow> check_each (\<lambda>(alias, actual).
                    guard_res (actual \<in> set (bd_channels bd)) (UndeclaredChannel role alias actual)) bound))))"

definition resolve_roles :: "documents \<Rightarrow> binding_error + resolved" where
  "resolve_roles d =
     (let devices = dict_of (map (\<lambda>x. (bd_id x, x)) (d_devices d));
          roles = dict_of (map (\<lambda>x. (rl_id x, x)) (d_roles d)) in
      bind_res (bind_entries (map fst roles) (map fst devices) (d_bindings d) \<lparr>rv_device = [], rv_channels = []\<rparr>)
        (\<lambda>r. bind_res (check_each (check_role d devices r) roles) (\<lambda>_. Inr r)))"

definition check_usage :: "documents \<Rightarrow> resolved \<Rightarrow> step \<Rightarrow> binding_error + unit" where
  "check_usage d r s =
     (let on_device = (\<lambda>role f. case map_of (rv_device r) role of
            None \<Rightarrow> Inl (UnboundRole role)
          | Some device \<Rightarrow> (case map_of (d_descriptors d) device of
              None \<Rightarrow> Inl (BindEscaped (KeyError device)) | Some view \<Rightarrow> f device view))
      in case s of
        Invoke i role action _ _ \<Rightarrow> on_device role (\<lambda>device view.
          guard_res (action \<in> ac_id ` set (dsc_actions view)) (UndeclaredAction i action device))
      | Read i role parameter _ \<Rightarrow> on_device role (\<lambda>device view.
          guard_res (parameter \<in> set (dsc_parameters view)) (UndeclaredParameter i parameter device))
      | Write i role parameter _ _ \<Rightarrow> on_device role (\<lambda>device view.
          guard_res (parameter \<in> set (dsc_parameters view)) (UndeclaredParameter i parameter device))
      | _ \<Rightarrow> Inr ())"

definition check_declared_usage :: "documents \<Rightarrow> resolved \<Rightarrow> binding_error + unit" where
  "check_declared_usage d r = check_each (check_usage d r) (walk_steps (d_steps d))"

definition resolve_binding :: "documents \<Rightarrow> binding_error + resolved" where
  "resolve_binding d =
     bind_res (resolve_roles d) (\<lambda>r. bind_res (check_declared_usage d r) (\<lambda>_. Inr r))"

section \<open>The resource graph\<close>

type_synonym res_index = "(string \<times> resource) list"

fun index_resources :: "resource list \<Rightarrow> res_index \<Rightarrow> binding_error + res_index" where
  "index_resources [] ix = Inr ix"
| "index_resources (r # rs) ix =
     (if rc_id r \<in> set (map fst ix) then Inl (DuplicateResource (rc_id r))
      else index_resources rs (ix @ [(rc_id r, r)]))"

definition resource_index :: "documents \<Rightarrow> binding_error + res_index" where
  "resource_index d = index_resources (d_resources d) []"

text \<open>
  One step of the \<open>while stack\<close> loop: the stack's top is the list's head, a pair is the node and
  whether it is being left.
\<close>

function dfs :: "res_index \<Rightarrow> (string \<times> bool) list \<Rightarrow> string set \<Rightarrow> string set \<Rightarrow>
    binding_error + string set" where
  "dfs ix [] visiting finished = Inr finished"
| "dfs ix ((x, leaving) # stack) visiting finished =
     (if leaving then dfs ix stack (visiting - {x}) (insert x finished)
      else if x \<in> visiting then Inl (ResourceCycle x)
      else if x \<in> finished then dfs ix stack visiting finished
      else (case map_of ix x of
          None \<Rightarrow> Inl (BindEscaped (KeyError x))
        | Some r \<Rightarrow> dfs ix (rev (map (\<lambda>y. (y, False)) (filter (\<lambda>y. y \<notin> finished) (rc_depends r)))
              @ (x, True) # stack) (insert x visiting) finished))"
  by pat_completeness auto
termination
proof (relation "measures [\<lambda>(ix, stack, visiting, finished). card (set (map fst ix) - (visiting \<union> finished)),
    \<lambda>(ix, stack, visiting, finished). length stack]", goal_cases)
  case (2 ix x leaving stack visiting finished)
  have "card (set (map fst ix) - (visiting - {x} \<union> insert x finished)) \<le>
      card (set (map fst ix) - (visiting \<union> finished))"
    by (intro card_mono) auto
  then show ?case by auto
next
  case (4 ix x leaving stack visiting finished r)
  then have "x \<in> set (map fst ix)" by (force dest: map_of_SomeD)
  with 4 have "set (map fst ix) - (insert x visiting \<union> finished) \<subset> set (map fst ix) - (visiting \<union> finished)"
    by auto
  then show ?case by (simp add: psubset_card_mono)
qed simp_all

fun check_roots :: "res_index \<Rightarrow> string list \<Rightarrow> string set \<Rightarrow> binding_error + string set" where
  "check_roots ix [] finished = Inr finished"
| "check_roots ix (node # nodes) finished =
     bind_res (dfs ix [(node, False)] {} finished) (check_roots ix nodes)"

definition check_resource_graph :: "res_index \<Rightarrow> binding_error + unit" where
  "check_resource_graph ix =
     bind_res (check_each (\<lambda>(_, r). check_each (\<lambda>y.
         guard_res (y \<in> set (map fst ix)) (UnknownResource (rc_id r) y)) (rc_depends r)) ix)
       (\<lambda>_. bind_res (check_roots ix (map fst ix) {}) (\<lambda>_. Inr ()))"

section \<open>The resource closure\<close>

text \<open>\<open>reserved.add(x); frontier.append(x)\<close> for what is not reserved yet; the frontier's end is the list's head.\<close>

fun reserve_new :: "string list \<Rightarrow> string set \<times> string list \<Rightarrow> string set \<times> string list" where
  "reserve_new [] st = st"
| "reserve_new (x # xs) (reserved, frontier) =
     reserve_new xs (if x \<in> reserved then (reserved, frontier) else (insert x reserved, x # frontier))"

fun reserve_named :: "res_index \<Rightarrow> (string \<times> string) list \<Rightarrow> string set \<times> string list \<Rightarrow>
    binding_error + string set \<times> string list" where
  "reserve_named ix [] st = Inr st"
| "reserve_named ix ((owner, x) # rest) st =
     (if x \<notin> set (map fst ix) then Inl (UnknownResource owner x)
      else reserve_named ix rest (reserve_new [x] st))"

lemma reserve_new_fst: "fst (reserve_new xs (R, F)) = R \<union> set xs"
  by (induction xs "(R, F)" arbitrary: R F rule: reserve_new.induct) auto

lemma reserve_new_frontier: "\<exists>G. snd (reserve_new xs (R, F)) = G @ F \<and> set G = set xs - R \<and> distinct G"
proof (induction xs arbitrary: R F)
  case (Cons x xs)
  show ?case
  proof (cases "x \<in> R")
    case True
    with Cons [of R F] show ?thesis by auto
  next
    case False
    obtain G where "snd (reserve_new xs (insert x R, x # F)) = G @ x # F" "set G = set xs - insert x R" "distinct G"
      using Cons [of "insert x R" "x # F"] by blast
    with False show ?thesis by (intro exI [of _ "G @ [x]"]) auto
  qed
qed simp

function expand :: "res_index \<Rightarrow> string set \<Rightarrow> string list \<Rightarrow> binding_error + string set" where
  "expand ix reserved [] = Inr reserved"
| "expand ix reserved (x # frontier) =
     (case map_of ix x of
        None \<Rightarrow> Inl (BindEscaped (KeyError x))
      | Some r \<Rightarrow> expand ix (fst (reserve_new (rc_depends r) (reserved, frontier)))
          (snd (reserve_new (rc_depends r) (reserved, frontier))))"
  by pat_completeness auto
termination
proof (relation "measure (\<lambda>(ix, reserved, frontier).
    card ((\<Union>p \<in> set ix. set (rc_depends (snd p))) - reserved) + length frontier)", goal_cases)
  case (2 ix reserved x frontier r)
  let ?U = "\<Union>p \<in> set ix. set (rc_depends (snd p))"
  obtain G where G: "snd (reserve_new (rc_depends r) (reserved, frontier)) = G @ frontier"
      "set G = set (rc_depends r) - reserved" "distinct G"
    using reserve_new_frontier by blast
  have sub: "set G \<subseteq> ?U - reserved" using 2 G(2) by (force dest: map_of_SomeD)
  have eq: "?U - (reserved \<union> set (rc_depends r)) = (?U - reserved) - set G" using G(2) by auto
  have "card (set G) \<le> card (?U - reserved)" by (rule card_mono [OF _ sub]) (auto intro!: finite_UN_I split: prod.splits)
  moreover have "card (?U - (reserved \<union> set (rc_depends r))) = card (?U - reserved) - card (set G)"
    unfolding eq by (rule card_Diff_subset [OF finite_set sub])
  ultimately have "card (?U - (reserved \<union> set (rc_depends r))) + card (set G) = card (?U - reserved)"
    by linarith
  moreover have "card (set G) = length G" using G(3) by (rule distinct_card)
  ultimately show ?case using G(1) by (simp add: reserve_new_fst)
qed simp

definition resource_closure :: "documents \<Rightarrow> res_index \<Rightarrow> string list \<Rightarrow> binding_error + string set" where
  "resource_closure d ix bound =
     (let seeds = map fst (filter (\<lambda>(_, r). set bound \<inter> set (rc_devices r) \<noteq> {}) ix) in
      bind_res (reserve_named ix (map (\<lambda>m. (mc_id m, mc_resource m)) (d_mechanisms d)) (reserve_new seeds ({}, [])))
        (\<lambda>st. bind_res (reserve_named ix (map (\<lambda>s. (sg_id s, sg_resource s)) (d_signals d)) st)
          (\<lambda>(reserved, frontier). expand ix reserved frontier)))"

section \<open>The bench lease\<close>

definition binding_utc :: "string \<Rightarrow> string \<Rightarrow> binding_error + moment" where
  "binding_utc text label = (case fromisoformat text of
      None \<Rightarrow> Inl (InvalidTimestamp label text) | Some m \<Rightarrow> Inr (as_utc m))"

definition check_free :: "lease option \<Rightarrow> string \<Rightarrow> string \<Rightarrow> binding_error + unit" where
  "check_free active bench now_wall = (case active of None \<Rightarrow> Inr ()
    | Some l \<Rightarrow> bind_res (binding_utc (ls_expires l) ''active lease expires_at'') (\<lambda>expiry.
        bind_res (binding_utc now_wall ''now_wall'') (\<lambda>now.
          guard_res (\<not> instant now < instant expiry) (BenchBusy bench (ls_id l)))))"

text \<open>Everything \<open>reserve\<close> checks before it touches the store.\<close>

definition reserve_checks :: "documents \<Rightarrow> string \<Rightarrow> binding_error + string set" where
  "reserve_checks d bench =
     (if bench \<noteq> d_bench d then Inl (BenchMismatch bench (d_bench d))
      else bind_res (resolve_binding d) (\<lambda>r.
        bind_res (resource_index d) (\<lambda>ix.
        bind_res (check_resource_graph ix) (\<lambda>_.
        resource_closure d ix (map snd (rv_device r))))))"

definition reserve :: "documents \<Rightarrow> string \<Rightarrow> string \<Rightarrow> string \<Rightarrow> string \<Rightarrow> store \<Rightarrow>
    (binding_error + reservation) \<times> store" where
  "reserve d bench holder expires now_wall s =
     (case reserve_checks d bench of
        Inl e \<Rightarrow> (Inl e, s)
      | Inr resources \<Rightarrow> (case check_free (get_active_lease bench s) bench now_wall of
          Inl e \<Rightarrow> (Inl e, s)
        | Inr _ \<Rightarrow> (case next_lease bench (''lease-'' @ d_request d) holder expires s of
            (Inl e, s') \<Rightarrow> (Inl (BindEscaped e), s')
          | (Inr l, s') \<Rightarrow> (Inr \<lparr>rsv_resources = resources, rsv_lease = l\<rparr>, s'))))"

text \<open>\<open>LeaseNotActive\<close>'s message is the one \<open>ValueError\<close> \<open>release\<close> swallows.\<close>

definition release :: "reservation \<Rightarrow> string \<Rightarrow> store \<Rightarrow> (exn + unit) \<times> store" where
  "release r now_wall s =
     (case release_lease (ls_bench (rsv_lease r)) (ls_seq (rsv_lease r)) now_wall s of
        (Inl e, s') \<Rightarrow> (if e = LeaseNotActive then Inr () else Inl e, s')
      | (Inr _, s') \<Rightarrow> (Inr (), s'))"

section \<open>The depth-first check accepts exactly the acyclic graphs\<close>

definition edges :: "res_index \<Rightarrow> (string \<times> string) set" where
  "edges ix = {(x, y). \<exists>r. map_of ix x = Some r \<and> y \<in> set (rc_depends r)}"

definition deps_closed :: "res_index \<Rightarrow> bool" where
  "deps_closed ix \<longleftrightarrow> snd ` edges ix \<subseteq> set (map fst ix)"

lemma deps_closed_iff: "deps_closed ix \<longleftrightarrow> (\<forall>x y. (x, y) \<in> edges ix \<longrightarrow> y \<in> set (map fst ix))"
  unfolding deps_closed_def by (metis (no_types, lifting) image_eqI image_subset_iff prod.collapse snd_conv)

text \<open>Nodes from which every path ends: what the search marks finished.\<close>

abbreviation grounded :: "res_index \<Rightarrow> string set" where
  "grounded ix \<equiv> Wellfounded.acc ((edges ix)\<inverse>)"

lemma groundedI: "(\<And>y. (x, y) \<in> edges ix \<Longrightarrow> y \<in> grounded ix) \<Longrightarrow> x \<in> grounded ix"
  by (rule accI) simp

lemma grounded_no_cycle: "x \<in> grounded ix \<Longrightarrow> (x, x) \<notin> (edges ix)\<^sup>+"
proof (induction rule: acc.induct)
  case (accI x)
  show ?case
  proof
    assume "(x, x) \<in> (edges ix)\<^sup>+"
    then obtain y where y: "(x, y) \<in> edges ix" "(y, x) \<in> (edges ix)\<^sup>*" by (meson tranclD)
    have "(y, y) \<in> (edges ix)\<^sup>+" by (rule rtrancl_into_trancl1 [OF y(2) y(1)])
    with accI y(1) show False by simp
  qed
qed

text \<open>The node being left nearest to the top of the stack, and what the stack's order says.\<close>

fun nearest :: "(string \<times> bool) list \<Rightarrow> string option" where
  "nearest [] = None"
| "nearest ((x, leaving) # st) = (if leaving then Some x else nearest st)"

fun chain :: "res_index \<Rightarrow> (string \<times> bool) list \<Rightarrow> bool" where
  "chain ix [] = True"
| "chain ix ((x, leaving) # st) =
     ((case nearest st of None \<Rightarrow> True | Some e \<Rightarrow> (e, x) \<in> edges ix) \<and> chain ix st)"

text \<open>Every successor of a node being left is finished or waits above it.\<close>

fun covered :: "res_index \<Rightarrow> string set \<Rightarrow> string set \<Rightarrow> (string \<times> bool) list \<Rightarrow> bool" where
  "covered ix finished up [] = True"
| "covered ix finished up ((x, leaving) # st) =
     ((leaving \<longrightarrow> (\<forall>y. (x, y) \<in> edges ix \<longrightarrow> y \<in> finished \<union> up)) \<and>
      covered ix finished (insert x up) st)"

definition leavings :: "(string \<times> bool) list \<Rightarrow> string list" where
  "leavings st = map fst (filter snd st)"

lemma chain_reaches: "chain ix st \<Longrightarrow> nearest st = Some e \<Longrightarrow> x \<in> set (leavings st) \<Longrightarrow> (x, e) \<in> (edges ix)\<^sup>*"
proof (induction st arbitrary: e)
  case (Cons p st)
  obtain n leaving where p: "p = (n, leaving)" by (cases p)
  show ?case
  proof (cases leaving)
    case False
    with Cons p show ?thesis by (simp add: leavings_def)
  next
    case True
    with Cons.prems p have e: "e = n" by simp
    show ?thesis
    proof (cases "x = n")
      case False
      with Cons.prems p True have x: "x \<in> set (leavings st)" by (auto simp: leavings_def)
      then obtain e' where e': "nearest st = Some e'"
        by (induction st) (auto simp: leavings_def split: if_splits)
      with Cons x p have "(x, e') \<in> (edges ix)\<^sup>*" "(e', n) \<in> edges ix" by auto
      with e show ?thesis by simp
    qed (simp add: e)
  qed
qed simp

lemma covered_mono: "covered ix finished up st \<Longrightarrow> finished \<union> up \<subseteq> finished' \<union> up' \<Longrightarrow>
    covered ix finished' up' st"
proof (induction ix finished up st arbitrary: finished' up' rule: covered.induct)
  case (2 ix finished up x leaving st)
  then show ?case by (auto intro!: "2.IH")
qed simp

lemma covered_append_new: "covered ix finished up (map (\<lambda>y. (y, False)) ys @ st) \<longleftrightarrow>
    covered ix finished (up \<union> set ys) st"
  by (induction ys arbitrary: up) (auto simp: Un_insert_right)

definition dfs_ok :: "res_index \<Rightarrow> (string \<times> bool) list \<Rightarrow> string set \<Rightarrow> string set \<Rightarrow> bool" where
  "dfs_ok ix st visiting finished \<longleftrightarrow>
     finished \<subseteq> grounded ix \<and> visiting = set (leavings st) \<and> distinct (leavings st) \<and>
     covered ix finished {} st \<and> chain ix st \<and> fst ` set st \<subseteq> set (map fst ix)"

lemma dfs_ok_init: "x \<in> set (map fst ix) \<Longrightarrow> finished \<subseteq> grounded ix \<Longrightarrow> dfs_ok ix [(x, False)] {} finished"
  by (simp add: dfs_ok_def leavings_def)

lemma dfs_ok_leave: "dfs_ok ix ((x, True) # st) visiting finished \<Longrightarrow>
    dfs_ok ix st (visiting - {x}) (insert x finished)"
proof -
  assume ok: "dfs_ok ix ((x, True) # st) visiting finished"
  then have "\<And>y. (x, y) \<in> edges ix \<Longrightarrow> y \<in> finished" by (simp add: dfs_ok_def)
  moreover have "finished \<subseteq> grounded ix" using ok by (simp add: dfs_ok_def)
  ultimately have "x \<in> grounded ix" by (blast intro: groundedI)
  moreover have "covered ix (insert x finished) {} st"
    using ok by (auto simp: dfs_ok_def elim!: covered_mono)
  ultimately show ?thesis using ok by (auto simp: dfs_ok_def leavings_def)
qed

lemma dfs_ok_skip: "dfs_ok ix ((x, False) # st) visiting finished \<Longrightarrow> x \<in> finished \<Longrightarrow>
    dfs_ok ix st visiting finished"
  by (auto simp: dfs_ok_def leavings_def elim!: covered_mono)

lemma nearest_append_new: "nearest (map (\<lambda>y. (y, False)) ys @ st) = nearest st"
  by (induction ys) auto

lemma chain_append_new: "chain ix (map (\<lambda>y. (y, False)) ys @ (x, True) # st) \<longleftrightarrow>
    (\<forall>y \<in> set ys. (x, y) \<in> edges ix) \<and> chain ix ((x, True) # st)"
  by (induction ys) (auto simp: nearest_append_new)

lemma dfs_ok_push:
  assumes "dfs_ok ix ((x, False) # st) visiting finished" "deps_closed ix"
    and "x \<notin> visiting" "map_of ix x = Some r"
  shows "dfs_ok ix (rev (map (\<lambda>y. (y, False)) (filter (\<lambda>y. y \<notin> finished) (rc_depends r))) @ (x, True) # st)
    (insert x visiting) finished"
proof -
  let ?ys = "rev (filter (\<lambda>y. y \<notin> finished) (rc_depends r))"
  have e: "(x, y) \<in> edges ix \<longleftrightarrow> y \<in> set (rc_depends r)" for y using assms(4) by (simp add: edges_def)
  have "y \<in> fst ` set ix" if "y \<in> set ?ys" for y
  proof -
    have "(x, y) \<in> edges ix" using that e by simp
    then have "y \<in> snd ` edges ix" by (rule image_eqI [rotated]) simp
    then show ?thesis using assms(2) by (auto simp: deps_closed_def)
  qed
  moreover have "covered ix finished (set ?ys) ((x, True) # st)"
    using assms(1) e by (auto simp: dfs_ok_def elim!: covered_mono)
  ultimately show ?thesis
    using assms(1,3) e
    by (auto simp: dfs_ok_def rev_map covered_append_new chain_append_new leavings_def
      simp del: covered.simps)
qed

text \<open>
  What the search answers from a good state: either every node it finished is grounded, and the
  ones it started from are among them, or the node it names lies on a cycle. No key is ever missing.
\<close>

lemma dfs_result:
  assumes "dfs_ok ix st visiting finished" "deps_closed ix"
  shows "case dfs ix st visiting finished of
      Inr f \<Rightarrow> f \<subseteq> grounded ix \<and> finished \<subseteq> f \<and> fst ` set st \<subseteq> f
    | Inl e \<Rightarrow> \<exists>x. e = ResourceCycle x \<and> (x, x) \<in> (edges ix)\<^sup>+"
  using assms
proof (induction ix st visiting finished rule: dfs.induct)
  case (1 ix visiting finished)
  then show ?case by (simp add: dfs_ok_def)
next
  case (2 ix x leaving st visiting finished)
  consider (leave) leaving | (cycle) "\<not> leaving" "x \<in> visiting" | (skip) "\<not> leaving" "x \<notin> visiting" "x \<in> finished"
    | (new) "\<not> leaving" "x \<notin> visiting" "x \<notin> finished" by blast
  then show ?case
  proof cases
    case leave
    with 2 dfs_ok_leave [of ix x st visiting finished] show ?thesis by (auto split: sum.splits)
  next
    case cycle
    with "2.prems" have x: "x \<in> set (leavings st)" by (simp add: dfs_ok_def leavings_def)
    then obtain e where e: "nearest st = Some e"
      by (induction st) (auto simp: leavings_def split: if_splits)
    with "2.prems" cycle have ex: "(e, x) \<in> edges ix" "chain ix st" by (simp_all add: dfs_ok_def)
    have "(x, x) \<in> (edges ix)\<^sup>+"
      by (rule rtrancl_into_trancl1 [OF chain_reaches [OF ex(2) e x] ex(1)])
    with cycle show ?thesis by simp
  next
    case skip
    with 2 dfs_ok_skip [of ix x st visiting finished] show ?thesis by (auto split: sum.splits)
  next
    case new
    from "2.prems" have "x \<in> set (map fst ix)" by (simp add: dfs_ok_def)
    then obtain r where r: "map_of ix x = Some r" by (metis map_of_eq_None_iff not_Some_eq set_map)
    with "2.IH"(3) [OF _ new(2,3) r] new 2 dfs_ok_push [of ix x st visiting finished r]
    show ?thesis by (auto split: sum.splits)
  qed
qed

lemma check_roots_result:
  assumes "set roots \<subseteq> set (map fst ix)" "finished \<subseteq> grounded ix" "deps_closed ix"
  shows "case check_roots ix roots finished of
      Inr f \<Rightarrow> f \<subseteq> grounded ix \<and> finished \<subseteq> f \<and> set roots \<subseteq> f
    | Inl e \<Rightarrow> \<exists>x. e = ResourceCycle x \<and> (x, x) \<in> (edges ix)\<^sup>+"
  using assms
proof (induction ix roots finished rule: check_roots.induct)
  case (2 ix x xs finished)
  have r: "case dfs ix [(x, False)] {} finished of
      Inr f \<Rightarrow> f \<subseteq> grounded ix \<and> finished \<subseteq> f \<and> fst ` set [(x, False)] \<subseteq> f
    | Inl e \<Rightarrow> \<exists>x. e = ResourceCycle x \<and> (x, x) \<in> (edges ix)\<^sup>+"
    using 2 by (intro dfs_result dfs_ok_init) auto
  show ?case
  proof (cases "dfs ix [(x, False)] {} finished")
    case (Inr f)
    with r have f: "f \<subseteq> grounded ix" "finished \<subseteq> f" "x \<in> f" by simp_all
    with Inr "2.IH" [OF _ f(1)] "2.prems" show ?thesis
      by (auto split: sum.splits simp del: dfs.simps)
  qed (use r in \<open>simp del: dfs.simps\<close>)
qed simp

lemma index_resources_ok: "index_resources rs ix = Inr ix' \<Longrightarrow> distinct (map fst ix) \<Longrightarrow>
    \<forall>(k, r) \<in> set ix. rc_id r = k \<Longrightarrow>
    distinct (map fst ix') \<and> (\<forall>(k, r) \<in> set ix'. rc_id r = k) \<and> ix' = ix @ map (\<lambda>r. (rc_id r, r)) rs"
proof (induction rs ix rule: index_resources.induct)
  case (2 r rs ix)
  then have n: "rc_id r \<notin> set (map fst ix)" and rec: "index_resources rs (ix @ [(rc_id r, r)]) = Inr ix'"
    by (simp_all split: if_splits)
  have "distinct (map fst ix') \<and> (\<forall>(k, r) \<in> set ix'. rc_id r = k) \<and>
      ix' = (ix @ [(rc_id r, r)]) @ map (\<lambda>r. (rc_id r, r)) rs"
    by (rule "2.IH" [OF n rec]) (use "2.prems" n in auto)
  moreover have "(ix @ [(rc_id r, r)]) @ map (\<lambda>r. (rc_id r, r)) rs = ix @ map (\<lambda>r. (rc_id r, r)) (r # rs)"
    by simp
  ultimately show ?case by metis
qed auto

lemma resource_index_ok: "resource_index d = Inr ix \<Longrightarrow>
    distinct (map fst ix) \<and> (\<forall>(k, r) \<in> set ix. rc_id r = k) \<and> ix = map (\<lambda>r. (rc_id r, r)) (d_resources d)"
  unfolding resource_index_def by (drule index_resources_ok) auto

lemma check_each_Inl: "check_each f xs = Inl e \<Longrightarrow> \<exists>x \<in> set xs. f x = Inl e"
proof (induction xs)
  case (Cons x xs)
  then show ?case by (cases "f x") auto
qed simp

lemma check_each_unit_cases: "check_each f xs = Inr () \<or> (\<exists>e. check_each f xs = Inl e)"
  by (cases "check_each f xs") auto

section \<open>Properties\<close>

text \<open>
  Claim C11. The resource check is exact: it accepts precisely the declarations whose every
  dependency is declared and whose dependency graph has no cycle. An \<open>unknown_resource\<close> refusal
  names an edge to nothing, and a \<open>resource_cycle\<close> refusal names a resource on a cycle. The search
  always ends, without a lookup of a missing key.
\<close>

theorem resource_graph_check_exact:
  assumes "resource_index d = Inr ix"
  shows "(check_resource_graph ix = Inr () \<longleftrightarrow> deps_closed ix \<and> acyclic (edges ix)) \<and>
    (\<forall>e. check_resource_graph ix = Inl e \<longrightarrow>
       (\<exists>x y. e = UnknownResource x y \<and> (x, y) \<in> edges ix \<and> y \<notin> set (map fst ix)) \<or>
       (\<exists>x. e = ResourceCycle x \<and> (x, x) \<in> (edges ix)\<^sup>+))"
proof -
  from resource_index_ok [OF assms] have dis: "distinct (map fst ix)" and keys: "\<And>k r. (k, r) \<in> set ix \<Longrightarrow> rc_id r = k"
    by auto
  let ?edge = "\<lambda>(_, r). check_each (\<lambda>y. guard_res (y \<in> set (map fst ix)) (UnknownResource (rc_id r) y)) (rc_depends r)"
  have e: "(x, y) \<in> edges ix \<longleftrightarrow> (\<exists>r. (x, r) \<in> set ix \<and> y \<in> set (rc_depends r))" for x y
    using dis by (auto simp: edges_def)
  have dangling: "check_each ?edge ix = Inr () \<longleftrightarrow> deps_closed ix"
    by (auto simp: check_each_Inr_iff deps_closed_iff e split: prod.splits)
  have roots: "case check_roots ix (map fst ix) {} of
      Inr f \<Rightarrow> f \<subseteq> grounded ix \<and> {} \<subseteq> f \<and> set (map fst ix) \<subseteq> f
    | Inl e \<Rightarrow> \<exists>x. e = ResourceCycle x \<and> (x, x) \<in> (edges ix)\<^sup>+" if "deps_closed ix"
    using that by (intro check_roots_result) auto
  have acyc: "acyclic (edges ix)" if "set (map fst ix) \<subseteq> grounded ix"
  proof (rule acyclicI, rule allI)
    fix x
    show "(x, x) \<notin> (edges ix)\<^sup>+"
    proof
      assume c: "(x, x) \<in> (edges ix)\<^sup>+"
      then obtain y where "(x, y) \<in> edges ix" by (meson tranclD)
      then have "x \<in> set (map fst ix)" by (force simp: e)
      with that grounded_no_cycle [of x ix] c show False by auto
    qed
  qed
  show ?thesis
  proof (cases "deps_closed ix")
    case False
    then have "check_each ?edge ix \<noteq> Inr ()" by (simp only: dangling simp_thms)
    then obtain err where err: "check_each ?edge ix = Inl err"
      by (cases "check_each ?edge ix") simp_all
    from check_each_Inl [OF err] obtain p where p: "p \<in> set ix" "?edge p = Inl err" by (rule bexE)
    obtain k r where kr: "p = (k, r)" by (cases p)
    from p(2) kr have "check_each (\<lambda>y. guard_res (y \<in> set (map fst ix)) (UnknownResource (rc_id r) y)) (rc_depends r) = Inl err"
      by simp
    from check_each_Inl [OF this] obtain y where
      "y \<in> set (rc_depends r)" "y \<notin> set (map fst ix)" "err = UnknownResource (rc_id r) y" by auto
    with p(1) kr keys [of k r] have "\<exists>x y. err = UnknownResource x y \<and> (x, y) \<in> edges ix \<and> y \<notin> set (map fst ix)"
      by (auto simp: e)
    with False err show ?thesis by (simp add: check_resource_graph_def)
  next
    case True
    with dangling have ok: "check_each ?edge ix = Inr ()" by simp
    show ?thesis
    proof (cases "check_roots ix (map fst ix) {}")
      case (Inl err)
      with roots [OF True] obtain x where x: "err = ResourceCycle x" "(x, x) \<in> (edges ix)\<^sup>+" by auto
      then have "\<not> acyclic (edges ix)" by (auto simp: acyclic_def)
      with Inl x ok True show ?thesis by (simp add: check_resource_graph_def)
    next
      case (Inr f)
      with roots [OF True] have "set (map fst ix) \<subseteq> grounded ix" by auto
      from acyc [OF this] Inr ok True show ?thesis by (simp add: check_resource_graph_def)
    qed
  qed
qed

definition cyclic_docs :: documents where
  "cyclic_docs = demo_docs\<lparr>d_resources :=
     [\<lparr>rc_id = ''rail'', rc_devices = [''psu1''], rc_depends = [''mains'']\<rparr>,
      \<lparr>rc_id = ''mains'', rc_devices = [], rc_depends = [''rail'']\<rparr>]\<rparr>"

lemma resource_graph_check_exact_witness:
  "\<exists>ix. resource_index cyclic_docs = Inr ix \<and> check_resource_graph ix = Inl (ResourceCycle ''rail'') \<and>
    (''rail'', ''rail'') \<in> (edges ix)\<^sup>+"
proof -
  have "\<exists>ix. resource_index cyclic_docs = Inr ix \<and> check_resource_graph ix = Inl (ResourceCycle ''rail'')"
    by (simp add: resource_index_def cyclic_docs_def demo_docs_def check_resource_graph_def guard_res_def)
  then obtain ix where ix: "resource_index cyclic_docs = Inr ix"
    "check_resource_graph ix = Inl (ResourceCycle ''rail'')" by blast
  with resource_graph_check_exact [OF ix(1)] show ?thesis by auto
qed

lemma expand_result:
  assumes "set frontier \<subseteq> reserved" "reserved \<subseteq> set (map fst ix)" "deps_closed ix"
    and "\<forall>x \<in> reserved. x \<in> set frontier \<or> (\<forall>y. (x, y) \<in> edges ix \<longrightarrow> y \<in> reserved)"
  shows "expand ix reserved frontier = Inr ((edges ix)\<^sup>* `` reserved)"
  using assms
proof (induction ix reserved frontier rule: expand.induct)
  case (1 ix reserved)
  have "y \<in> reserved" if "(x, y) \<in> (edges ix)\<^sup>*" "x \<in> reserved" for x y
    using that 1 by (induction rule: rtrancl_induct) auto
  then have "(edges ix)\<^sup>* `` reserved = reserved" by auto
  then show ?case by simp
next
  case (2 ix reserved x frontier)
  have "x \<in> set (map fst ix)" using "2.prems" by auto
  then obtain r where r: "map_of ix x = Some r" by (metis map_of_eq_None_iff not_Some_eq set_map)
  obtain G where G: "snd (reserve_new (rc_depends r) (reserved, frontier)) = G @ frontier"
      "set G = set (rc_depends r) - reserved"
    using reserve_new_frontier by blast
  have e: "(x, y) \<in> edges ix \<longleftrightarrow> y \<in> set (rc_depends r)" for y using r by (simp add: edges_def)
  have sub: "set (rc_depends r) \<subseteq> set (map fst ix)"
  proof
    fix y assume "y \<in> set (rc_depends r)"
    then have "y \<in> snd ` edges ix" using e [of y] by (intro image_eqI [of _ _ "(x, y)"]) auto
    then show "y \<in> set (map fst ix)" using "2.prems"(3) by (auto simp: deps_closed_def)
  qed
  have inv: "\<forall>z \<in> reserved \<union> set (rc_depends r). z \<in> set (G @ frontier) \<or>
      (\<forall>y. (z, y) \<in> edges ix \<longrightarrow> y \<in> reserved \<union> set (rc_depends r))"
  proof
    fix z assume z: "z \<in> reserved \<union> set (rc_depends r)"
    show "z \<in> set (G @ frontier) \<or> (\<forall>y. (z, y) \<in> edges ix \<longrightarrow> y \<in> reserved \<union> set (rc_depends r))"
    proof (cases "z \<in> reserved")
      case True
      with "2.prems"(4) e show ?thesis by (cases "z = x") auto
    qed (use z G in auto)
  qed
  have "set (G @ frontier) \<subseteq> reserved \<union> set (rc_depends r)"
    "reserved \<union> set (rc_depends r) \<subseteq> set (map fst ix)" using "2.prems" sub G by auto
  from "2.IH" [OF r, unfolded reserve_new_fst G(1), OF this "2.prems"(3) inv]
  have "expand ix (reserved \<union> set (rc_depends r)) (G @ frontier) = Inr ((edges ix)\<^sup>* `` (reserved \<union> set (rc_depends r)))"
    .
  moreover have "(edges ix)\<^sup>* `` (reserved \<union> set (rc_depends r)) = (edges ix)\<^sup>* `` reserved"
  proof -
    have "x \<in> reserved" using "2.prems"(1) by simp
    then have "z \<in> (edges ix)\<^sup>* `` reserved" if "y \<in> set (rc_depends r)" "(y, z) \<in> (edges ix)\<^sup>*" for y z
      using that e [of y] by (meson ImageI converse_rtrancl_into_rtrancl)
    then show ?thesis by auto
  qed
  ultimately show ?case using r G(1) by (simp add: reserve_new_fst)
qed

text \<open>What seeds the closure: the resources of the bound devices, the mechanisms and the signals.\<close>

definition seeds :: "documents \<Rightarrow> string list \<Rightarrow> string set" where
  "seeds d bound = {rc_id r |r. r \<in> set (d_resources d) \<and> set bound \<inter> set (rc_devices r) \<noteq> {}} \<union>
     mc_resource ` set (d_mechanisms d) \<union> sg_resource ` set (d_signals d)"

lemma reserve_named_result:
  assumes "reserve_named ix named (R, F) = Inr (R', F')" "set F = R"
  shows "R' = R \<union> snd ` set named \<and> set F' = R' \<and> snd ` set named \<subseteq> set (map fst ix)"
  using assms
proof (induction named arbitrary: R F)
  case (Cons p named)
  obtain owner x where p: "p = (owner, x)" by (cases p)
  with Cons.prems have x: "x \<in> set (map fst ix)"
    and rec: "reserve_named ix named (reserve_new [x] (R, F)) = Inr (R', F')" by (auto split: if_splits)
  have "reserve_new [x] (R, F) = (if x \<in> R then (R, F) else (insert x R, x # F))" by simp
  with rec Cons.IH [of "if x \<in> R then R else insert x R" "if x \<in> R then F else x # F"] Cons.prems(2)
  show ?case using x p by (auto split: if_splits)
qed simp

text \<open>
  A reservation is complete: on an accepted graph the closure, when it answers, is exactly
  the seeds and everything they depend on, directly or not; and it answers unless a mechanism or a
  signal names a resource the bench does not declare.
\<close>

theorem closure_is_everything_reachable:
  assumes "resource_index d = Inr ix" "check_resource_graph ix = Inr ()"
  shows "(\<forall>reserved. resource_closure d ix bound = Inr reserved \<longrightarrow> reserved = (edges ix)\<^sup>* `` seeds d bound) \<and>
    (\<forall>e. resource_closure d ix bound = Inl e \<longrightarrow>
       (\<exists>owner x. e = UnknownResource owner x \<and> x \<in> seeds d bound \<and> x \<notin> set (map fst ix)))"
proof -
  from resource_index_ok [OF assms(1)] have ix: "distinct (map fst ix)" "ix = map (\<lambda>r. (rc_id r, r)) (d_resources d)"
    by auto
  have closed: "deps_closed ix"
  proof -
    have "check_each (\<lambda>(_, r). check_each (\<lambda>y. guard_res (y \<in> set (map fst ix)) (UnknownResource (rc_id r) y)) (rc_depends r)) ix
        = Inr ()" using assms(2) by (auto simp: check_resource_graph_def)
    then show ?thesis
      using ix(1) by (auto simp: check_each_Inr_iff deps_closed_iff edges_def split: prod.splits)
  qed
  let ?first = "map fst (filter (\<lambda>(_, r). set bound \<inter> set (rc_devices r) \<noteq> {}) ix)"
  have first: "set ?first = {rc_id r |r. r \<in> set (d_resources d) \<and> set bound \<inter> set (rc_devices r) \<noteq> {}}"
    by (auto simp: ix(2) filter_map comp_def)
  obtain R F where RF: "reserve_new ?first ({}, []) = (R, F)" by (cases "reserve_new ?first ({}, [])")
  have R: "R = set ?first" using reserve_new_fst [of ?first "{}" "[]"] RF by simp
  have seeds_R: "seeds d bound = R \<union> mc_resource ` set (d_mechanisms d) \<union> sg_resource ` set (d_signals d)"
    by (simp only: seeds_def R first)
  have F: "set F = R" using reserve_new_frontier [of ?first "{}" "[]"] RF R by auto
  have R_ok: "R \<subseteq> set (map fst ix)" unfolding R by auto
  let ?ms = "map (\<lambda>m. (mc_id m, mc_resource m)) (d_mechanisms d)"
  let ?ss = "map (\<lambda>s. (sg_id s, sg_resource s)) (d_signals d)"
  have named_err: "\<exists>owner x. e = UnknownResource owner x \<and> x \<in> snd ` set named \<and> x \<notin> set (map fst ix)"
    if "reserve_named ix named st = Inl e" for named st e
    using that by (induction ix named st rule: reserve_named.induct) (auto split: if_splits)
  have res: "resource_closure d ix bound = bind_res (reserve_named ix ?ms (R, F))
      (\<lambda>st. bind_res (reserve_named ix ?ss st) (\<lambda>(reserved, frontier). expand ix reserved frontier))"
    by (simp add: resource_closure_def RF)
  show ?thesis
  proof (cases "reserve_named ix ?ms (R, F)")
    case (Inl e)
    with named_err [OF Inl] show ?thesis by (auto simp: res seeds_def)
  next
    case (Inr st)
    obtain R1 F1 where st: "st = (R1, F1)" by (cases st)
    from reserve_named_result [OF Inr [unfolded st] F]
    have R1: "R1 = R \<union> mc_resource ` set (d_mechanisms d)" "set F1 = R1"
      "mc_resource ` set (d_mechanisms d) \<subseteq> set (map fst ix)" by (simp_all add: image_image)
    show ?thesis
    proof (cases "reserve_named ix ?ss (R1, F1)")
      case (Inl e)
      with named_err [OF Inl] Inr st show ?thesis by (auto simp: res seeds_def)
    next
      case (Inr st2)
      obtain R2 F2 where st2: "st2 = (R2, F2)" by (cases st2)
      from reserve_named_result [OF Inr [unfolded st2] R1(2)]
      have R2: "R2 = seeds d bound" "set F2 = R2" "R2 \<subseteq> set (map fst ix)"
        using R1 R_ok unfolding seeds_R by (auto simp: image_image)
      have "expand ix R2 F2 = Inr ((edges ix)\<^sup>* `` R2)"
        by (rule expand_result) (use R2 closed in auto)
      with \<open>reserve_named ix ?ms (R, F) = Inr st\<close> Inr st st2 R2 show ?thesis by (simp add: res)
    qed
  qed
qed

lemma demo_index: "resource_index demo_docs = Inr
    [(''rail'', \<lparr>rc_id = ''rail'', rc_devices = [''psu1''], rc_depends = [''mains'']\<rparr>),
     (''mains'', \<lparr>rc_id = ''mains'', rc_devices = [], rc_depends = []\<rparr>)]"
  by (simp add: resource_index_def demo_docs_def)

lemma closure_is_everything_reachable_witness:
  "\<exists>ix. resource_index demo_docs = Inr ix \<and>
    resource_closure demo_docs ix [''psu1''] = Inr ((edges ix)\<^sup>* `` seeds demo_docs [''psu1''])"
proof -
  let ?ix = "[(''rail'', \<lparr>rc_id = ''rail'', rc_devices = [''psu1''], rc_depends = [''mains'']\<rparr>),
     (''mains'', \<lparr>rc_id = ''mains'', rc_devices = [], rc_depends = []\<rparr>)]"
  have "check_resource_graph ?ix = Inr ()"
    by (simp add: check_resource_graph_def guard_res_def)
  moreover have "resource_closure demo_docs ?ix [''psu1''] = Inr {''rail'', ''mains''}"
    by (simp add: resource_closure_def demo_docs_def insert_commute)
  ultimately show ?thesis
    using closure_is_everything_reachable [OF demo_index, of "[''psu1'']"] demo_index by metis
qed

lemma sort_Nil_iff: "sort xs = [] \<longleftrightarrow> xs = []"
  by (metis length_0_conv length_sort)

lemma bind_entries_ok: "bind_entries roles devs es r = Inr r' \<Longrightarrow>
    rv_device r' = rv_device r @ map (\<lambda>e. (be_role e, be_device e)) es \<and>
    rv_channels r' = rv_channels r @ map (\<lambda>e. (be_role e, be_channels e)) es \<and>
    (distinct (map fst (rv_device r)) \<longrightarrow> distinct (map fst (rv_device r'))) \<and>
    (\<forall>e \<in> set es. be_role e \<in> set roles \<and> be_device e \<in> set devs)"
proof (induction roles devs es r rule: bind_entries.induct)
  case (2 roles devs e es r)
  let ?r = "r\<lparr>rv_device := rv_device r @ [(be_role e, be_device e)],
           rv_channels := rv_channels r @ [(be_role e, be_channels e)]\<rparr>"
  from 2 have g: "be_role e \<in> set roles" "be_role e \<notin> set (map fst (rv_device r))" "be_device e \<in> set devs"
    and rec: "bind_entries roles devs es ?r = Inr r'" by (simp_all split: if_splits)
  have IH: "rv_device r' = rv_device ?r @ map (\<lambda>e. (be_role e, be_device e)) es \<and>
    rv_channels r' = rv_channels ?r @ map (\<lambda>e. (be_role e, be_channels e)) es \<and>
    (distinct (map fst (rv_device ?r)) \<longrightarrow> distinct (map fst (rv_device r'))) \<and>
    (\<forall>e \<in> set es. be_role e \<in> set roles \<and> be_device e \<in> set devs)"
    by (rule "2.IH" [OF _ _ _ rec]) (use g in simp_all)
  note ih = IH [THEN conjunct1] IH [THEN conjunct2, THEN conjunct1]
    IH [THEN conjunct2, THEN conjunct2, THEN conjunct2]
  note d = IH [THEN conjunct2, THEN conjunct2, THEN conjunct1]
  from d g(2) have "distinct (map fst (rv_device r)) \<longrightarrow> distinct (map fst (rv_device r'))" by simp
  with ih g show ?case by simp
qed simp

lemma set_dict_of: "set (map fst (dict_of kvs)) = set (map fst kvs)"
proof -
  have "set (map fst (fold (\<lambda>(k, v). AList.update k v) kvs acc)) = set (map fst acc) \<union> set (map fst kvs)" for acc
  proof (induction kvs arbitrary: acc)
    case (Cons p kvs)
    obtain k v where p: "p = (k, v)" by (cases p)
    have "set (map fst (AList.update k v acc)) = insert k (set (map fst acc))"
      by (metis dom_map_of_conv_image_fst dom_fun_upd option.distinct(1) update_conv' set_map)
    with p Cons show ?case by simp
  qed simp
  then show ?thesis by (simp add: dict_of_def)
qed

lemma map_of_dict_of: "map_of (dict_of kvs) = map_of (rev kvs)"
proof -
  have "map_of (fold (\<lambda>(k, v). AList.update k v) kvs acc) = map_of (rev kvs) ++ map_of acc \<or>
      map_of (fold (\<lambda>(k, v). AList.update k v) kvs acc) = map_of acc ++ map_of (rev kvs)" for acc
  proof (rule disjI2, induction kvs arbitrary: acc)
    case (Cons p kvs)
    obtain k v where p: "p = (k, v)" by (cases p)
    show ?case by (simp add: p Cons update_conv' map_add_def fun_eq_iff split: option.splits)
  qed simp
  from this [of "[]"] show ?thesis by (auto simp: dict_of_def)
qed

text \<open>A step somewhere in a body, whatever the nesting, and what it may use: the device its role is bound to declares it.\<close>

inductive occurs :: "step \<Rightarrow> step list \<Rightarrow> bool" where
  here: "s \<in> set ss \<Longrightarrow> occurs s ss"
| then_part: "IfStep i p th el \<in> set ss \<Longrightarrow> occurs s th \<Longrightarrow> occurs s ss"
| else_part: "IfStep i p th el \<in> set ss \<Longrightarrow> occurs s el \<Longrightarrow> occurs s ss"
| in_repeat: "Repeat i n body \<in> set ss \<Longrightarrow> occurs s body \<Longrightarrow> occurs s ss"

lemma walk_steps_in:
  "s \<in> set ss \<Longrightarrow> insert s (case s of IfStep _ _ th el \<Rightarrow> set (walk_steps th) \<union> set (walk_steps el)
     | Repeat _ _ body \<Rightarrow> set (walk_steps body) | _ \<Rightarrow> {}) \<subseteq> set (walk_steps ss)"
proof (induction ss)
  case (Cons t ss)
  then show ?case by (cases "s = t"; cases t) auto
qed simp

lemma occurs_walked: "occurs s ss \<Longrightarrow> s \<in> set (walk_steps ss)"
  by (induction rule: occurs.induct) (use walk_steps_in in fastforce)+

definition on_bound_device :: "documents \<Rightarrow> resolved \<Rightarrow> string \<Rightarrow> (device_view \<Rightarrow> bool) \<Rightarrow> bool" where
  "on_bound_device d r role P \<longleftrightarrow> (\<exists>device view. map_of (rv_device r) role = Some device \<and> map_of (d_descriptors d) device = Some view \<and> P view)"

lemma check_usage_declared:
  assumes "check_usage d r s = Inr ()"
  shows "s = Invoke i role action ins t \<Longrightarrow> on_bound_device d r role (\<lambda>view. action \<in> ac_id ` set (dsc_actions view))"
    and "s = Read i role parameter t \<Longrightarrow> on_bound_device d r role (\<lambda>view. parameter \<in> set (dsc_parameters view))"
    and "s = Write i role parameter x t \<Longrightarrow> on_bound_device d r role (\<lambda>view. parameter \<in> set (dsc_parameters view))"
  using assms by (auto simp: check_usage_def on_bound_device_def Let_def split: option.splits)

lemma resolved_roles_sound:
  assumes "resolve_roles d = Inr r"
  shows "distinct (map fst (rv_device r)) \<and>
    (\<forall>role \<in> set (map rl_id (d_roles d)). \<exists>device view decl chans bd.
       map_of (rv_device r) role = Some device \<and> device \<in> bd_id ` set (d_devices d) \<and>
       map_of (d_descriptors d) device = Some view \<and> decl \<in> set (d_roles d) \<and> rl_id decl = role \<and>
       set (rl_profiles decl) \<subseteq> set (dsc_profiles view) \<and>
       map_of (rv_channels r) role = Some chans \<and> set (map fst chans) = set (rl_channels decl) \<and>
       bd \<in> set (d_devices d) \<and> bd_id bd = device \<and> snd ` set chans \<subseteq> set (bd_channels bd))"
proof -
  let ?devs = "dict_of (map (\<lambda>x. (bd_id x, x)) (d_devices d))"
  let ?roles = "dict_of (map (\<lambda>x. (rl_id x, x)) (d_roles d))"
  from assms have bind: "bind_entries (map fst ?roles) (map fst ?devs) (d_bindings d) \<lparr>rv_device = [], rv_channels = []\<rparr> = Inr r"
    and checks: "check_each (check_role d ?devs r) ?roles = Inr ()"
    by (auto simp: resolve_roles_def Let_def)
  from bind_entries_ok [OF bind] have rv: "rv_device r = map (\<lambda>e. (be_role e, be_device e)) (d_bindings d)"
      "rv_channels r = map (\<lambda>e. (be_role e, be_channels e)) (d_bindings d)" "distinct (map fst (rv_device r))"
    and ents: "\<forall>e \<in> set (d_bindings d). be_device e \<in> set (map fst ?devs)" by auto
  have "\<exists>device view decl chans bd.
       map_of (rv_device r) role = Some device \<and> device \<in> bd_id ` set (d_devices d) \<and>
       map_of (d_descriptors d) device = Some view \<and> decl \<in> set (d_roles d) \<and> rl_id decl = role \<and>
       set (rl_profiles decl) \<subseteq> set (dsc_profiles view) \<and>
       map_of (rv_channels r) role = Some chans \<and> set (map fst chans) = set (rl_channels decl) \<and>
       bd \<in> set (d_devices d) \<and> bd_id bd = device \<and> snd ` set chans \<subseteq> set (bd_channels bd)"
    if "role \<in> set (map rl_id (d_roles d))" for role
  proof -
    have "role \<in> set (map fst ?roles)" unfolding set_dict_of using that by simp
    then obtain decl where decl: "map_of ?roles role = Some decl"
      by (metis map_of_eq_None_iff not_Some_eq set_map)
    then have "map_of (rev (map (\<lambda>x. (rl_id x, x)) (d_roles d))) role = Some decl"
      by (simp only: map_of_dict_of)
    then have d': "decl \<in> set (d_roles d)" "rl_id decl = role" by (auto dest!: map_of_SomeD)
    from check_each_member [OF checks map_of_SomeD [OF decl]]
    have c: "check_role d ?devs r (role, decl) = Inr ()" .
    obtain device where dv: "map_of (rv_device r) role = Some device"
      using c by (auto simp: check_role_def split: option.splits)
    obtain view where vw: "map_of (d_descriptors d) device = Some view"
      using c dv by (auto simp: check_role_def split: option.splits)
    obtain chans where ch: "map_of (rv_channels r) role = Some chans"
    proof (cases "map_of (rv_channels r) role")
      case None
      then have "role \<notin> fst ` set (rv_device r)" by (force simp: map_of_eq_None_iff rv)
      with dv show ?thesis by (force dest: map_of_SomeD)
    qed
    have c2: "filter (\<lambda>p. p \<notin> set (dsc_profiles view)) (rl_profiles decl) = []"
      "filter (\<lambda>a. a \<notin> set (rl_channels decl)) (map fst chans) = []"
      "filter (\<lambda>a. a \<notin> set (map fst chans)) (rl_channels decl) = []"
      using c dv vw ch by (auto simp: check_role_def Let_def sort_Nil_iff split: if_splits)
    with c dv vw ch obtain bd where bd: "map_of ?devs device = Some bd"
      "check_each (\<lambda>(alias, actual). guard_res (actual \<in> set (bd_channels bd)) (UndeclaredChannel role alias actual)) chans = Inr ()"
      by (auto simp: check_role_def Let_def split: option.splits if_splits)
    from bd(1) have "bd \<in> set (d_devices d)" "bd_id bd = device"
      by (auto simp: map_of_dict_of dest!: map_of_SomeD)
    moreover have "snd ` set chans \<subseteq> set (bd_channels bd)" using bd(2) by (auto simp: check_each_Inr_iff)
    moreover have "set (rl_profiles decl) \<subseteq> set (dsc_profiles view)" "set (map fst chans) = set (rl_channels decl)"
      using c2 by (auto simp: filter_empty_conv)
    ultimately show ?thesis using dv vw ch d' by blast
  qed
  then show ?thesis using rv(3) by blast
qed

text \<open>
  Claim C12. An accepted binding is sound: every role the procedure declares is bound, to one
  commissioned device that has the profiles the role requires; its channels are exactly the aliases
  the role declares, each mapped to a channel of that device; and every step of the procedure, however deep in branches and loops,
  that invokes an action, or reads or writes a parameter, names a role bound to a device whose descriptor declares that action or
  parameter.
\<close>

theorem resolved_binding_sound:
  assumes "resolve_binding d = Inr r"
  shows "distinct (map fst (rv_device r)) \<and>
    (\<forall>role \<in> set (map rl_id (d_roles d)). \<exists>device view decl chans bd.
       map_of (rv_device r) role = Some device \<and> device \<in> bd_id ` set (d_devices d) \<and>
       map_of (d_descriptors d) device = Some view \<and> decl \<in> set (d_roles d) \<and> rl_id decl = role \<and>
       set (rl_profiles decl) \<subseteq> set (dsc_profiles view) \<and>
       map_of (rv_channels r) role = Some chans \<and> set (map fst chans) = set (rl_channels decl) \<and>
       bd \<in> set (d_devices d) \<and> bd_id bd = device \<and> snd ` set chans \<subseteq> set (bd_channels bd)) \<and>
    (\<forall>i role action ins t. occurs (Invoke i role action ins t) (d_steps d) \<longrightarrow>
       on_bound_device d r role (\<lambda>view. action \<in> ac_id ` set (dsc_actions view))) \<and>
    (\<forall>i role parameter t. occurs (Read i role parameter t) (d_steps d) \<longrightarrow>
       on_bound_device d r role (\<lambda>view. parameter \<in> set (dsc_parameters view))) \<and>
    (\<forall>i role parameter x t. occurs (Write i role parameter x t) (d_steps d) \<longrightarrow>
       on_bound_device d r role (\<lambda>view. parameter \<in> set (dsc_parameters view)))"
proof -
  from assms have roles: "resolve_roles d = Inr r" and usage: "check_declared_usage d r = Inr ()" by (auto simp: resolve_binding_def)
  have ok: "check_usage d r s = Inr ()" if "occurs s (d_steps d)" for s
    using usage occurs_walked [OF that] by (simp add: check_declared_usage_def check_each_Inr_iff)
  have "\<forall>i role action ins t. occurs (Invoke i role action ins t) (d_steps d) \<longrightarrow>
      on_bound_device d r role (\<lambda>view. action \<in> ac_id ` set (dsc_actions view))"
    using check_usage_declared(1) [OF ok] by simp
  moreover have "\<forall>i role parameter t. occurs (Read i role parameter t) (d_steps d) \<longrightarrow>
      on_bound_device d r role (\<lambda>view. parameter \<in> set (dsc_parameters view))"
    using check_usage_declared(2) [OF ok] by simp
  moreover have "\<forall>i role parameter x t. occurs (Write i role parameter x t) (d_steps d) \<longrightarrow>
      on_bound_device d r role (\<lambda>view. parameter \<in> set (dsc_parameters view))"
    using check_usage_declared(3) [OF ok] by simp
  ultimately show ?thesis using resolved_roles_sound [OF roles] by (intro conjI) blast+
qed

lemma demo_resolved: "resolve_binding demo_docs = Inr
    \<lparr>rv_device = [(''supply'', ''psu1'')], rv_channels = [(''supply'', [(''out'', ''ch1'')])]\<rparr>"
  by code_simp

lemma resolved_binding_sound_witness:
  "\<exists>r. resolve_binding demo_docs = Inr r \<and> map_of (rv_device r) ''supply'' = Some ''psu1'' \<and>
    ''psu1'' \<in> bd_id ` set (d_devices demo_docs)"
proof -
  have "''supply'' \<in> set (map rl_id (d_roles demo_docs))" by (simp add: demo_docs_def)
  with resolved_binding_sound [OF demo_resolved] show ?thesis using demo_resolved by fastforce
qed

text \<open>
  \<open>reserve\<close> is all or nothing: a refused reservation leaves the store as it was, and a
  granted one holds the bench under the run's own lease, taken only when no other lease was active
  and unexpired.
\<close>

theorem reserve_all_or_nothing:
  assumes "store_steps empty_store s" "reserve d bench holder expires now s = (r, s')"
  shows "(\<forall>e. r = Inl e \<longrightarrow> s' = s) \<and>
    (\<forall>rsv. r = Inr rsv \<longrightarrow>
       get_active_lease bench s' = Some (rsv_lease rsv) \<and> ls_holder (rsv_lease rsv) = holder \<and>
       bench = d_bench d \<and>
       (\<forall>l. get_active_lease bench s = Some l \<longrightarrow> (\<exists>m m'. fromisoformat (ls_expires l) = Some m \<and>
          fromisoformat now = Some m' \<and> instant m \<le> instant m')))"
proof (cases "reserve_checks d bench")
  case (Inl e)
  with assms(2) show ?thesis by (auto simp: reserve_def)
next
  case (Inr resources)
  show ?thesis
  proof (cases "check_free (get_active_lease bench s) bench now")
    case (Inl e)
    with Inr assms(2) show ?thesis by (auto simp: reserve_def)
  next
    case (Inr u)
    have free: "\<exists>m m'. fromisoformat (ls_expires l) = Some m \<and> fromisoformat now = Some m' \<and> instant m \<le> instant m'"
      if "get_active_lease bench s = Some l" for l
      using that Inr by (auto simp: check_free_def binding_utc_def not_less split: option.splits)
    have bench: "bench = d_bench d"
      using \<open>reserve_checks d bench = Inr resources\<close> by (simp add: reserve_checks_def split: if_splits)
    obtain q t where q: "next_lease bench (''lease-'' @ d_request d) holder expires s = (q, t)"
      by (cases "next_lease bench (''lease-'' @ d_request d) holder expires s")
    show ?thesis
    proof (cases q)
      case (Inl e)
      then have "t = s" using q immediate_raises unfolding next_lease_def by blast
      with Inl q Inr \<open>reserve_checks d bench = Inr resources\<close> assms(2) show ?thesis
        by (auto simp: reserve_def)
    next
      case (Inr l)
      have "get_active_lease bench t = Some l" "ls_holder l = holder"
        using lease_issued [OF assms(1) q [unfolded Inr]] q Inr by (auto simp: next_lease_ok)
      with Inr q free bench \<open>check_free (get_active_lease bench s) bench now = Inr u\<close>
        \<open>reserve_checks d bench = Inr resources\<close> assms(2) show ?thesis
        by (auto simp: reserve_def)
    qed
  qed
qed

lemma reserve_all_or_nothing_witness:
  "\<exists>rsv s'. reserve demo_docs ''b1'' ''run:r1'' ''2030-01-01T00:00:00Z'' ''2026-01-01T00:00:00Z'' empty_store = (Inr rsv, s') \<and>
    get_active_lease ''b1'' s' = Some (rsv_lease rsv)"
proof -
  have "\<exists>rs. resource_closure demo_docs [(''rail'', \<lparr>rc_id = ''rail'', rc_devices = [''psu1''], rc_depends = [''mains'']\<rparr>),
     (''mains'', \<lparr>rc_id = ''mains'', rc_devices = [], rc_depends = []\<rparr>)] [''psu1''] = Inr rs"
    by (simp add: resource_closure_def demo_docs_def)
  then obtain rs where "reserve_checks demo_docs ''b1'' = Inr rs"
    by (auto simp: reserve_checks_def demo_resolved demo_index check_resource_graph_def guard_res_def
      demo_docs_def [THEN arg_cong [where f = d_bench]])
  then obtain rsv s' where
    "reserve demo_docs ''b1'' ''run:r1'' ''2030-01-01T00:00:00Z'' ''2026-01-01T00:00:00Z'' empty_store = (Inr rsv, s')"
    by (simp add: reserve_def check_free_def get_active_lease_def empty_store_def empty_tables_def
      next_lease_def immediate_eq Let_def)
  with reserve_all_or_nothing [OF store_steps.start this] show ?thesis by auto
qed

text \<open>
  \<open>release\<close> is idempotent and never raises: the first call closes the reservation's own
  lease if it is still active, a second one changes nothing.
\<close>

theorem release_idempotent:
  assumes "release r now s = (x, s1)"
  shows "x = Inr () \<and> release r now' s1 = (Inr (), s1) \<and>
    (\<forall>b q. (b, q) \<noteq> (ls_bench (rsv_lease r), ls_seq (rsv_lease r)) \<longrightarrow>
      filter (\<lambda>l. ls_bench l = b \<and> ls_seq l = q) (t_leases (tabs s1)) =
      filter (\<lambda>l. ls_bench l = b \<and> ls_seq l = q) (t_leases (tabs s)))"
proof -
  let ?b = "ls_bench (rsv_lease r)" and ?q = "ls_seq (rsv_lease r)"
  let ?hit = "\<lambda>l. ls_bench l = ?b \<and> ls_seq l = ?q \<and> ls_state l = ''active''"
  let ?close = "\<lambda>l. if ?hit l then l\<lparr>ls_state := ''released'', ls_expires := now\<rparr> else l"
  have gone: "filter ?hit (map ?close ls) = []" for ls :: "lease list" by (induction ls) auto
  have kept: "filter (\<lambda>l. ls_bench l = b \<and> ls_seq l = q) (map ?close ls) =
      filter (\<lambda>l. ls_bench l = b \<and> ls_seq l = q) ls" if "(b, q) \<noteq> (?b, ?q)" for b q and ls :: "lease list"
    using that by (induction ls) auto
  show ?thesis
  proof (cases "length (filter ?hit (t_leases (tabs s))) = 1")
    case True
    then have "x = Inr ()" "s1 = s\<lparr>tabs := (tabs s)\<lparr>t_leases := map ?close (t_leases (tabs s))\<rparr>\<rparr>"
      using assms by (simp_all add: release_def release_lease_def close_lease_def autocommit_def Let_def)
    with kept show ?thesis
      by (simp add: release_def release_lease_def close_lease_def autocommit_def Let_def gone)
  next
    case False
    with assms show ?thesis
      by (auto simp: release_def release_lease_def close_lease_def autocommit_def Let_def)
  qed
qed

definition demo_reservation :: reservation where
  "demo_reservation = \<lparr>rsv_resources = {}, rsv_lease = \<lparr>ls_id = ''l1'', ls_bench = ''b'', ls_seq = 1,
     ls_holder = ''h'', ls_expires = ''t'', ls_state = ''active''\<rparr>\<rparr>"

lemma release_idempotent_witness:
  "fst (release demo_reservation ''t3'' leased_store) = Inr () \<and>
    release demo_reservation ''t4'' (snd (release demo_reservation ''t3'' leased_store)) =
      (Inr (), snd (release demo_reservation ''t3'' leased_store))"
  using release_idempotent [of demo_reservation "''t3''" leased_store
    "fst (release demo_reservation ''t3'' leased_store)" "snd (release demo_reservation ''t3'' leased_store)" "''t4''"]
  by simp

end
