(* ===== verification/Resolve.thy ===== *)
theory Resolve
  imports Host Documents Semantics Binding
begin

text \<open>
  Reference resolution of \<open>control/executor.py\<close>: the three \<open>$stg_\<close> forms, the projections of earlier
  results and the RFC 6901 walk. \<open>ScopeError\<close> is the left summand, one constructor for each raise
  site. The scope is an association list, the innermost entry first: a nested block extends it and
  its entries are dropped when the block ends, which is what \<open>ChainMap.new_child\<close> does. Minting an
  issued id changes the occurrence's bucket, which a later error does not take back.
\<close>

section \<open>What a step leaves in the scope\<close>

datatype sample_fault =
    SMissing | SWrongUnit | SNotScalar | SStale | SNaiveTimestamp | SUnknownUncertainty

record sample_outcome =
  so_value :: "pyfloat option"
  so_uncertainty :: "pyfloat option"
  so_configuration :: "string option"
  so_invalid :: "sample_fault option"
  so_acquired_at :: "string option"
  so_max_age_ms :: "int option"

datatype scope_val = VNone | VOp op_result | VSample sample_outcome | VBool bool

type_synonym scope = "(string \<times> scope_val) list"
type_synonym occurrence = "string \<times> string \<times> nat list"

record issued =
  is_id :: string
  is_status :: string
  is_reason :: "string option"
  is_dispatch :: "dispatch_state option"

type_synonym bucket = "(string \<times> issued) list"

record resolve_ctx =
  rx_run :: string
  rx_step :: string
  rx_path :: "nat list"
  rx_channels :: "(string \<times> string) list"

datatype scope_error =
    MalformedReference
  | NotVisible string
  | NoSuccessfulResult string
  | NoEnvelope string
  | NotAReading string
  | NotAReceipt string
  | NotAManifest string
  | NotReferable op_verb
  | KeyMissing string string
  | NotAnIndex string string
  | IndexOutOfRange string nat
  | CannotDescend string
  | NotJson string
  | MalformedAlias
  | AliasUnbound string
  | MalformedIssue
  | ReadNotLiteral
  | ReadNotString

section \<open>The pointer walk\<close>

definition unescape :: "string \<Rightarrow> string" where
  "unescape t = replace_all ''~0'' ''~'' (replace_all ''~1'' ''/'' t)"

definition array_index :: "string \<Rightarrow> nat option" where
  "array_index t = (if t = [] \<or> (1 < length t \<and> hd t = CHR ''0'') then None else digits_val 0 t)"

fun walk_tokens :: "string \<Rightarrow> string list \<Rightarrow> pyval \<Rightarrow> scope_error + pyval" where
  "walk_tokens step [] v = (case v of JOther _ \<Rightarrow> Inl (NotJson step) | _ \<Rightarrow> Inr v)"
| "walk_tokens step (raw # ts) v = (let t = unescape raw in
     case v of
       JObj kvs \<Rightarrow> (case map_of kvs t of None \<Rightarrow> Inl (KeyMissing step t) | Some w \<Rightarrow> walk_tokens step ts w)
     | JList xs \<Rightarrow> (case array_index t of
           None \<Rightarrow> Inl (NotAnIndex step t)
         | Some n \<Rightarrow> if n < length xs then walk_tokens step ts (xs ! n) else Inl (IndexOutOfRange step n))
     | _ \<Rightarrow> Inl (CannotDescend step))"

definition walk_pointer :: "pyval \<Rightarrow> string \<Rightarrow> string \<Rightarrow> scope_error + pyval" where
  "walk_pointer base ptr step =
     walk_tokens step (if ptr = [] then [] else tl (split_on (CHR ''/'') ptr)) base"

section \<open>Projections\<close>

definition reading_projection :: "reading \<Rightarrow> pyval" where
  "reading_projection r = JObj [(''parameter'', JStr (rd_parameter r)), (''value'', rd_value r),
     (''unit'', rd_unit r), (''observed_at'', JStr (rd_observed_at r)), (''age_ms'', JInt (rd_age_ms r)),
     (''quality'', JStr (quality_text (rd_quality r))), (''source'', JStr (source_text (rd_source r)))]"

definition receipt_projection :: "write_receipt \<Rightarrow> pyval" where
  "receipt_projection w = JObj [(''parameter'', JStr (wr_parameter w)), (''requested_value'', wr_requested w),
     (''effective_value'', wr_effective w), (''assurance'', JStr (assurance_text (wr_assurance w))),
     (''verification'', case wr_verification w of None \<Rightarrow> JNull | Some r \<Rightarrow> reading_projection r)]"

definition capture_required :: "string list" where
  "capture_required = [''capture_id'', ''format'', ''artifact_id'', ''byte_length'', ''sha256'', ''started_at'']"

fun is_other :: "pyval \<Rightarrow> bool" where
  "is_other (JOther _) = True"
| "is_other _ = False"

definition capture_projection :: "string \<Rightarrow> op_data \<Rightarrow> scope_error + pyval" where
  "capture_projection step d = (case d of
      Raw (JObj kvs) \<Rightarrow>
        (if set capture_required \<subseteq> set (map fst kvs)
         then Inr (JObj (filter (\<lambda>(_, v). \<not> is_other v) kvs)) else Inl (NotAManifest step))
    | _ \<Rightarrow> Inl (NotAManifest step))"

section \<open>Resolution\<close>

definition result_value :: "string \<Rightarrow> op_result \<Rightarrow> scope_error + pyval" where
  "result_value step r = (case r_verb r of
      INVOKE \<Rightarrow> (case r_data r of
          Raw (JObj kvs) \<Rightarrow> (case map_of kvs ''result'' of None \<Rightarrow> Inl (NoEnvelope step) | Some v \<Rightarrow> Inr v)
        | _ \<Rightarrow> Inl (NoEnvelope step))
    | READ \<Rightarrow> (case r_data r of AReading x \<Rightarrow> Inr (reading_projection x) | _ \<Rightarrow> Inl (NotAReading step))
    | WRITE \<Rightarrow> (case r_data r of AReceipt x \<Rightarrow> Inr (receipt_projection x) | _ \<Rightarrow> Inl (NotAReceipt step))
    | CAPTURE \<Rightarrow> capture_projection step (r_data r)
    | verb \<Rightarrow> Inl (NotReferable verb))"

definition resolve_ref :: "scope \<Rightarrow> pyval \<Rightarrow> scope_error + pyval" where
  "resolve_ref scope directive = (case directive of
      JObj kvs \<Rightarrow>
        (if set (map fst kvs) \<noteq> {''step'', ''pointer''} then Inl MalformedReference
         else (case (obj_get kvs ''step'', obj_get kvs ''pointer'') of
             (JStr step, JStr ptr) \<Rightarrow> (case map_of scope step of
                 None \<Rightarrow> Inl (NotVisible step)
               | Some (VOp r) \<Rightarrow>
                   (if r_status r \<noteq> StOk then Inl (NoSuccessfulResult step)
                    else bind_res (result_value step r) (\<lambda>v. walk_pointer v ptr step))
               | Some _ \<Rightarrow> Inl (NoSuccessfulResult step))
           | _ \<Rightarrow> Inl MalformedReference))
    | _ \<Rightarrow> Inl MalformedReference)"

definition resolve_channel :: "resolve_ctx \<Rightarrow> pyval \<Rightarrow> scope_error + pyval" where
  "resolve_channel ctx alias = (case alias of
      JStr a \<Rightarrow> (case map_of (rx_channels ctx) a of None \<Rightarrow> Inl (AliasUnbound a) | Some c \<Rightarrow> Inr (JStr c))
    | _ \<Rightarrow> Inl MalformedAlias)"

definition path_suffix :: "nat list \<Rightarrow> string" where
  "path_suffix path = concat (map (\<lambda>i. ''.'' @ show_nat i) path)"

definition issue_id :: "string \<Rightarrow> string \<Rightarrow> string \<Rightarrow> nat list \<Rightarrow> string" where
  "issue_id fld run step path = fld @ ''-'' @ run @ ''-'' @ step @ path_suffix path"

definition resolve_issue :: "resolve_ctx \<Rightarrow> pyval \<Rightarrow> bucket \<Rightarrow> (scope_error + pyval) \<times> bucket" where
  "resolve_issue ctx fld b = (case fld of
      JStr f \<Rightarrow> (case map_of b f of
          Some rec \<Rightarrow> (Inr (JStr (is_id rec)), b)
        | None \<Rightarrow> (let i = issue_id f (rx_run ctx) (rx_step ctx) (rx_path ctx) in
            (Inr (JStr i), b @ [(f, \<lparr>is_id = i, is_status = ''issued'', is_reason = None, is_dispatch = None\<rparr>)])))
    | _ \<Rightarrow> (Inl MalformedIssue, b))"

definition reserved_key :: "obj \<Rightarrow> string option" where
  "reserved_key kvs = map_option fst (List.find (\<lambda>(k, _). prefix ''$stg_'' k) kvs)"

fun resolve_value :: "resolve_ctx \<Rightarrow> scope \<Rightarrow> pyval \<Rightarrow> bucket \<Rightarrow> (scope_error + pyval) \<times> bucket"
  and resolve_obj :: "resolve_ctx \<Rightarrow> scope \<Rightarrow> obj \<Rightarrow> bucket \<Rightarrow> (scope_error + obj) \<times> bucket"
  and resolve_list :: "resolve_ctx \<Rightarrow> scope \<Rightarrow> pyval list \<Rightarrow> bucket \<Rightarrow> (scope_error + pyval list) \<times> bucket" where
  "resolve_value ctx scope (JObj kvs) b = (case reserved_key kvs of
      Some k \<Rightarrow>
        (if length kvs \<noteq> 1 \<or> k \<notin> {''$stg_ref'', ''$stg_channel'', ''$stg_issue''} then (Inl MalformedReference, b)
         else if k = ''$stg_ref'' then (resolve_ref scope (obj_get kvs k), b)
         else if k = ''$stg_channel'' then (resolve_channel ctx (obj_get kvs k), b)
         else resolve_issue ctx (obj_get kvs k) b)
    | None \<Rightarrow> (case resolve_obj ctx scope kvs b of (r, b') \<Rightarrow> (map_sum id JObj r, b')))"
| "resolve_value ctx scope (JList xs) b =
     (case resolve_list ctx scope xs b of (r, b') \<Rightarrow> (map_sum id JList r, b'))"
| "resolve_value ctx scope v b = (Inr v, b)"
| "resolve_obj ctx scope [] b = (Inr [], b)"
| "resolve_obj ctx scope ((k, v) # kvs) b = (case resolve_value ctx scope v b of
      (Inl e, b') \<Rightarrow> (Inl e, b')
    | (Inr w, b') \<Rightarrow> (case resolve_obj ctx scope kvs b' of (r, b'') \<Rightarrow> (map_sum id ((#) (k, w)) r, b'')))"
| "resolve_list ctx scope [] b = (Inr [], b)"
| "resolve_list ctx scope (x # xs) b = (case resolve_value ctx scope x b of
      (Inl e, b') \<Rightarrow> (Inl e, b')
    | (Inr w, b') \<Rightarrow> (case resolve_list ctx scope xs b' of (r, b'') \<Rightarrow> (map_sum id ((#) w) r, b'')))"

text \<open>\<open>_contains_stg_directive\<close>.\<close>

fun contains_stg :: "pyval \<Rightarrow> bool"
  and contains_stg_obj :: "obj \<Rightarrow> bool"
  and contains_stg_list :: "pyval list \<Rightarrow> bool" where
  "contains_stg (JObj kvs) = (reserved_key kvs \<noteq> None \<or> contains_stg_obj kvs)"
| "contains_stg (JList xs) = contains_stg_list xs"
| "contains_stg _ = False"
| "contains_stg_obj [] = False"
| "contains_stg_obj ((k, v) # kvs) = (contains_stg v \<or> contains_stg_obj kvs)"
| "contains_stg_list [] = False"
| "contains_stg_list (x # xs) = (contains_stg x \<or> contains_stg_list xs)"

section \<open>Occurrence identities\<close>

definition operation_id :: "string \<Rightarrow> string \<Rightarrow> nat list \<Rightarrow> string" where
  "operation_id run step path = ''op:'' @ run @ '':'' @ step @ path_suffix path"

definition capture_id :: "string \<Rightarrow> string \<Rightarrow> nat list \<Rightarrow> string" where
  "capture_id run step path = ''cap:'' @ run @ '':'' @ step @ path_suffix path"

lemma path_suffix_Nil [simp]: "path_suffix [] = []"
  by (simp add: path_suffix_def)

lemma path_suffix_Cons [simp]: "path_suffix (i # path) = CHR ''.'' # show_nat i @ path_suffix path"
  by (simp add: path_suffix_def)

text \<open>Cutting at the dots reads the suffix back.\<close>

lemma split_suffix: "CHR ''.'' \<notin> set w \<Longrightarrow> split_on (CHR ''.'') (w @ path_suffix path) = w # map show_nat path"
proof (induction path arbitrary: w)
  case Nil
  then show ?case by (simp add: split_on_no_sep)
next
  case (Cons i path)
  then have "split_on (CHR ''.'') (w @ CHR ''.'' # show_nat i @ path_suffix path) =
      w # split_on (CHR ''.'') (show_nat i @ path_suffix path)"
    by (simp add: split_on_append_sep)
  with Cons.IH [of "show_nat i"] show_nat_no_dot show ?case by simp
qed

lemma map_show_nat_inj: "map show_nat xs = map show_nat ys \<longleftrightarrow> xs = ys"
  by (rule inj_map_eq_map) (simp add: inj_on_def show_nat_inj)

lemma suffix_inj: "CHR ''.'' \<notin> set a \<Longrightarrow> CHR ''.'' \<notin> set b \<Longrightarrow>
    a @ path_suffix p = b @ path_suffix q \<Longrightarrow> a = b \<and> p = q"
  using split_suffix [of a p] split_suffix [of b q] map_show_nat_inj [of p q] by force

section \<open>Escaping\<close>

text \<open>RFC 6901, the other way round: how a member name is written in a pointer.\<close>

definition escape :: "string \<Rightarrow> string" where
  "escape t = concat (map (\<lambda>c. if c = CHR ''~'' then ''~0'' else if c = CHR ''/'' then ''~1'' else [c]) t)"

lemma unescape_slashes: "replace_all ''~1'' ''/'' (escape t) =
    concat (map (\<lambda>c. if c = CHR ''~'' then ''~0'' else [c]) t)"
proof (induction t)
  case (Cons c t)
  consider "c = CHR ''~''" | "c = CHR ''/''" | "c \<noteq> CHR ''~''" "c \<noteq> CHR ''/''" by blast
  then show ?case
  proof cases
    case 1
    with Cons show ?thesis by (simp add: escape_def replace_all_skip)
  next
    case 2
    have "replace_all ''~1'' ''/'' (''~1'' @ escape t) = ''/'' @ replace_all ''~1'' ''/'' (escape t)"
      by (rule replace_all_hit) simp
    with 2 Cons show ?thesis by (simp add: escape_def)
  next
    case 3
    with Cons show ?thesis by (simp add: escape_def replace_all_skip)
  qed
qed (simp add: escape_def)

lemma unescape_tildes: "replace_all ''~0'' ''~'' (concat (map (\<lambda>c. if c = CHR ''~'' then ''~0'' else [c]) t)) = t"
proof (induction t)
  case (Cons c t)
  let ?rest = "concat (map (\<lambda>c. if c = CHR ''~'' then ''~0'' else [c]) t)"
  show ?case
  proof (cases "c = CHR ''~''")
    case True
    have "replace_all ''~0'' ''~'' (''~0'' @ ?rest) = ''~'' @ replace_all ''~0'' ''~'' ?rest"
      by (rule replace_all_hit) simp
    with True Cons show ?thesis by simp
  next
    case False
    with Cons show ?thesis by (simp add: replace_all_skip)
  qed
qed simp

lemma unescape_escape: "unescape (escape t) = t"
  by (simp add: unescape_def unescape_slashes unescape_tildes)

lemma escape_no_slash: "CHR ''/'' \<notin> set (escape t)"
  by (auto simp: escape_def split: if_splits)

lemma show_nat_plain: "c \<in> set (show_nat n) \<Longrightarrow> c \<noteq> CHR ''~'' \<and> c \<noteq> CHR ''/''"
  using show_nat_chars [of c n] digit_char_plain by auto

lemma escape_digits: "escape (show_nat n) = show_nat n"
proof -
  have "concat (map (\<lambda>c. if c = CHR ''~'' then ''~0'' else if c = CHR ''/'' then ''~1'' else [c]) t) = t"
    if "\<forall>c \<in> set t. c \<noteq> CHR ''~'' \<and> c \<noteq> CHR ''/''" for t
    using that by (induction t) auto
  moreover have "\<forall>c \<in> set (show_nat n). c \<noteq> CHR ''~'' \<and> c \<noteq> CHR ''/''"
    using show_nat_plain by blast
  ultimately show ?thesis by (simp add: escape_def)
qed

text \<open>A place in a JSON tree, the pointer that names it and the value that stands there.\<close>

datatype place = Member string | Item nat

fun follow :: "place list \<Rightarrow> pyval \<Rightarrow> pyval option" where
  "follow [] v = Some v"
| "follow (Member k # ps) v = (case v of JObj kvs \<Rightarrow> (case map_of kvs k of None \<Rightarrow> None | Some w \<Rightarrow> follow ps w) | _ \<Rightarrow> None)"
| "follow (Item n # ps) v = (case v of JList xs \<Rightarrow> if n < length xs then follow ps (xs ! n) else None | _ \<Rightarrow> None)"

fun token :: "place \<Rightarrow> string" where
  "token (Member k) = escape k"
| "token (Item n) = show_nat n"

definition render_pointer :: "place list \<Rightarrow> string" where
  "render_pointer ps = concat (map (\<lambda>p. CHR ''/'' # token p) ps)"

lemma token_no_slash: "CHR ''/'' \<notin> set (token p)"
  using show_nat_plain by (cases p) (auto simp: escape_no_slash)

lemma split_render: "CHR ''/'' \<notin> set w \<Longrightarrow> split_on (CHR ''/'') (w @ render_pointer ps) = w # map token ps"
proof (induction ps arbitrary: w)
  case Nil
  then show ?case by (simp add: render_pointer_def split_on_no_sep)
next
  case (Cons p ps)
  then have "split_on (CHR ''/'') (w @ CHR ''/'' # token p @ render_pointer ps) =
      w # split_on (CHR ''/'') (token p @ render_pointer ps)"
    by (simp add: split_on_append_sep)
  with Cons.IH [OF token_no_slash [of p]] show ?case by (simp add: render_pointer_def)
qed

lemma unescape_digits: "unescape (show_nat n) = show_nat n"
  using unescape_escape [of "show_nat n"] by (simp add: escape_digits)

lemma array_index_show_nat: "array_index (show_nat n) = Some n"
proof -
  have "digits_val 0 (show_nat n) = Some n" by (rule digits_val_show_nat)
  moreover have "\<not> (1 < length (show_nat n) \<and> hd (show_nat n) = CHR ''0'')" by (rule show_nat_no_leading_zero)
  ultimately show ?thesis by (simp add: array_index_def)
qed

lemma walk_tokens_follow: "follow ps v = Some w \<Longrightarrow> \<not> is_other w \<Longrightarrow> walk_tokens step (map token ps) v = Inr w"
proof (induction ps v rule: follow.induct)
  case (1 v)
  then show ?case by (cases v) auto
next
  case (2 k ps v)
  then show ?case by (auto simp: unescape_escape split: pyval.splits option.splits)
next
  case (3 n ps v)
  then show ?case by (auto simp: unescape_digits array_index_show_nat split: pyval.splits if_splits)
qed

section \<open>Properties\<close>

text \<open>
  The pointer walk is RFC 6901: the pointer written for a place in a JSON tree, with
  \<open>~\<close> and \<open>/\<close> in member names escaped, selects exactly the value that stands there.
\<close>

theorem pointer_round_trip:
  assumes "follow ps v = Some w" "\<not> is_other w"
  shows "walk_pointer v (render_pointer ps) step = Inr w"
proof (cases ps)
  case Nil
  with walk_tokens_follow [OF assms] show ?thesis by (simp add: walk_pointer_def render_pointer_def)
next
  case (Cons p qs)
  then have "render_pointer ps \<noteq> []" by (simp add: render_pointer_def)
  with split_render [of "[]" ps] walk_tokens_follow [OF assms, of step] show ?thesis
    by (simp add: walk_pointer_def)
qed

lemma pointer_round_trip_witness:
  "walk_pointer (JObj [(''a/b'', JList [JNull, JObj [(''~1'', JInt 7)]])]) ''/a~1b/1/~01'' ''s'' = Inr (JInt 7)"
proof -
  have "render_pointer [Member ''a/b'', Item 1, Member ''~1''] = ''/a~1b/1/~01''"
    by (simp add: render_pointer_def escape_def show_nat_small digit_char_def)
  with pointer_round_trip [of "[Member ''a/b'', Item 1, Member ''~1'']"
      "JObj [(''a/b'', JList [JNull, JObj [(''~1'', JInt 7)]])]" "JInt 7" "''s''"]
  show ?thesis by simp
qed

lemma literal_resolves:
  "\<not> contains_stg v \<Longrightarrow> resolve_value ctx scope v b = (Inr v, b)"
  "\<not> contains_stg_obj kvs \<Longrightarrow> resolve_obj ctx scope kvs b = (Inr kvs, b)"
  "\<not> contains_stg_list xs \<Longrightarrow> resolve_list ctx scope xs b = (Inr xs, b)"
  by (induction ctx scope v b and ctx scope kvs b and ctx scope xs b
      rule: resolve_value_resolve_obj_resolve_list.induct) auto

text \<open>
  No defaults, coercions or interpolation: a value with no \<open>$stg_\<close> key anywhere resolves
  to itself and mints nothing, whatever is in scope; and a value that is one \<open>$stg_ref\<close> resolves to
  exactly the place its pointer names in the successful result of a step that is in scope, or not at all.
\<close>

theorem resolution_exact:
  "(\<not> contains_stg v \<longrightarrow> resolve_value ctx scope v b = (Inr v, b)) \<and>
   (\<forall>d w b'. resolve_value ctx scope (JObj [(''$stg_ref'', d)]) b = (Inr w, b') \<longrightarrow>
      b' = b \<and> (\<exists>kvs step ptr r x. d = JObj kvs \<and> set (map fst kvs) = {''step'', ''pointer''} \<and>
        obj_get kvs ''step'' = JStr step \<and> obj_get kvs ''pointer'' = JStr ptr \<and>
        map_of scope step = Some (VOp r) \<and> r_status r = StOk \<and> result_value step r = Inr x \<and>
        walk_pointer x ptr step = Inr w))"
proof -
  have "resolve_value ctx scope (JObj [(''$stg_ref'', d)]) b = (resolve_ref scope d, b)" for d
    by (simp add: reserved_key_def obj_get_def)
  moreover have "resolve_ref scope d = Inr w \<Longrightarrow> \<exists>kvs step ptr r x. d = JObj kvs \<and>
      set (map fst kvs) = {''step'', ''pointer''} \<and> obj_get kvs ''step'' = JStr step \<and>
      obj_get kvs ''pointer'' = JStr ptr \<and> map_of scope step = Some (VOp r) \<and> r_status r = StOk \<and>
      result_value step r = Inr x \<and> walk_pointer x ptr step = Inr w" for d w
    by (auto simp: resolve_ref_def split: pyval.splits if_splits option.splits scope_val.splits)
  ultimately show ?thesis using literal_resolves(1) by fastforce
qed

lemma resolution_exact_witness:
  "resolve_value \<lparr>rx_run = ''r'', rx_step = ''s'', rx_path = [], rx_channels = []\<rparr> []
     (JObj [(''level'', JList [JInt 3, JStr ''$stg_ref''])]) [] =
   (Inr (JObj [(''level'', JList [JInt 3, JStr ''$stg_ref''])]), [])"
  by (rule resolution_exact [THEN conjunct1, rule_format]) (simp add: reserved_key_def)

text \<open>
  Step identities are unambiguous while step ids contain no dot: two occurrences of a run
  get the same operation id, capture id or issued id only if they are the same occurrence.
\<close>

theorem occurrence_ids_injective:
  assumes "CHR ''.'' \<notin> set step" "CHR ''.'' \<notin> set step'"
  shows "(operation_id run step path = operation_id run step' path' \<longleftrightarrow> step = step' \<and> path = path') \<and>
    (capture_id run step path = capture_id run step' path' \<longleftrightarrow> step = step' \<and> path = path') \<and>
    (issue_id f run step path = issue_id f run step' path' \<longleftrightarrow> step = step' \<and> path = path')"
  using suffix_inj [OF assms, of path path'] by (auto simp: operation_id_def capture_id_def issue_id_def)

lemma occurrence_ids_injective_witness:
  "operation_id ''r'' ''loop_a'' [1, 2] \<noteq> operation_id ''r'' ''loop_a'' [12]"
  using occurrence_ids_injective [of "''loop_a''" "''loop_a''" "''r''" "[1, 2]" "[12]"] by simp

text \<open>
  But the procedure schema allows dots and digits in step ids, and there the identities
  collide: in a procedure that semantic admission accepts, iteration 0 of a step \<open>a\<close> in a loop and
  a top-level step \<open>a.0\<close> are different occurrences with the same operation id, the same capture id
  and the same issued id.
\<close>

theorem dotted_ids_collide:
  "\<exists>steps a i b. check_unique_ids steps = Inr () \<and> a \<in> set (walk_steps steps) \<and> b \<in> set (walk_steps steps) \<and>
     step_id a \<noteq> step_id b \<and> operation_id run (step_id a) [i] = operation_id run (step_id b) [] \<and>
     capture_id run (step_id a) [i] = capture_id run (step_id b) [] \<and>
     issue_id f run (step_id a) [i] = issue_id f run (step_id b) []"
proof -
  let ?a = "Capture ''a'' ''scope'' ''raw_binary'' 1 1 1" and ?b = "Capture ''a.0'' ''scope'' ''raw_binary'' 1 1 1"
  let ?steps = "[Repeat ''loop'' 1 [?a], ?b]"
  have "check_unique_ids ?steps = Inr ()" by (simp add: check_unique_ids_def)
  moreover have "show_nat 0 = ''0''" by (simp add: show_nat_small digit_char_def)
  ultimately show ?thesis
    by (intro exI [of _ ?steps] exI [of _ ?a] exI [of _ 0] exI [of _ ?b])
      (simp add: operation_id_def capture_id_def issue_id_def)
qed

end
