(* ===== verification/Evidence.thy ===== *)
theory Evidence
  imports Resolve
begin

text \<open>
  Trustworthy samples and three-valued predicates (\<open>control/executor.py\<close>: \<open>select_sample\<close>,
  \<open>evaluate_predicate\<close> and their helpers). The left summand is an exception that escapes
  (\<open>math.isfinite\<close> or \<open>float\<close> of an int beyond binary64 raise \<open>OverflowError\<close>); an untrustworthy
  sample is a value, with the reason in \<open>so_invalid\<close>, and an undecided predicate is \<open>None\<close>.
\<close>

section \<open>Timestamps\<close>

fun parse_wall :: "pyval \<Rightarrow> moment option" where
  "parse_wall (JStr s) = (case fromiso_z s of
      None \<Rightarrow> None
    | Some t \<Rightarrow> if utc_offset t = None then None else Some t)"
| "parse_wall _ = None"

fun naive_wall :: "pyval \<Rightarrow> bool" where
  "naive_wall (JStr s) = (case fromiso_z s of None \<Rightarrow> False | Some t \<Rightarrow> utc_offset t = None)"
| "naive_wall _ = False"

definition age_ms :: "moment \<Rightarrow> moment \<Rightarrow> pyfloat" where
  "age_ms evaluated started = elapsed_ms (instant evaluated - instant started)"

definition opt_str :: "string option \<Rightarrow> pyval" where
  "opt_str s = (case s of None \<Rightarrow> JNull | Some t \<Rightarrow> JStr t)"

definition recheck_stale :: "sample_outcome \<Rightarrow> string \<Rightarrow> exn + bool" where
  "recheck_stale oc wall = (case so_max_age_ms oc of
      None \<Rightarrow> Inr False
    | Some m \<Rightarrow> (case (parse_wall (opt_str (so_acquired_at oc)), parse_wall (JStr wall)) of
        (Some acquired, Some evaluated) \<Rightarrow>
          bind_res (float_of_int m) (\<lambda>bound. Inr (flt bound (age_ms evaluated acquired)))
      | _ \<Rightarrow> Inr True))"

section \<open>Selecting a sample\<close>

definition invalid_sample :: "sample_fault \<Rightarrow> sample_outcome" where
  "invalid_sample f = \<lparr>so_value = None, so_uncertainty = None, so_configuration = None,
     so_invalid = Some f, so_acquired_at = None, so_max_age_ms = None\<rparr>"

definition sample_dataset :: "scope_val option \<Rightarrow> obj option" where
  "sample_dataset source = (case source of
      Some (VOp r) \<Rightarrow>
        (if r_status r \<noteq> StOk then None
         else (case r_data r of
             Raw (JObj kvs) \<Rightarrow> (case obj_get kvs ''result'' of JObj ds \<Rightarrow> Some ds | _ \<Rightarrow> None)
           | _ \<Rightarrow> None))
    | _ \<Rightarrow> None)"

definition find_variable :: "string \<Rightarrow> pyval list \<Rightarrow> obj option" where
  "find_variable vid vs = map_option (\<lambda>v. case v of JObj c \<Rightarrow> c | _ \<Rightarrow> [])
     (List.find (\<lambda>v. case v of JObj c \<Rightarrow> obj_get c ''id'' = JStr vid | _ \<Rightarrow> False) vs)"

text \<open>\<open>math.isfinite\<close>.\<close>

fun finite_num :: "pyval \<Rightarrow> exn + bool" where
  "finite_num (JInt i) = bind_res (float_of_int i) (\<lambda>_. Inr True)"
| "finite_num (JFloat f) = Inr (isfinite f)"
| "finite_num _ = Inr False"

definition scalar_ok :: "obj \<Rightarrow> pyval \<Rightarrow> exn + bool" where
  "scalar_ok variable raw = bind_res (finite_num raw) (\<lambda>ok.
     Inr (ok \<and> obj_get variable ''dimensions'' = JList [] \<and> obj_get variable ''status'' = JStr ''valid''))"

definition sole_value :: "obj \<Rightarrow> pyval" where
  "sole_value variable = (case obj_get variable ''values'' of JList [x] \<Rightarrow> x | _ \<Rightarrow> JNull)"

fun freshness_bound :: "pyval \<Rightarrow> int option" where
  "freshness_bound (JInt m) = Some m"
| "freshness_bound _ = None"

definition freshness_fault :: "int option \<Rightarrow> pyval \<Rightarrow> string \<Rightarrow> exn + sample_fault option" where
  "freshness_fault bound started_at wall = (case bound of
      None \<Rightarrow> Inr None
    | Some m \<Rightarrow>
        (if naive_wall started_at then Inr (Some SNaiveTimestamp)
         else (case (parse_wall started_at, parse_wall (JStr wall)) of
             (Some started, Some evaluated) \<Rightarrow> bind_res (float_of_int m) (\<lambda>b.
               Inr (if flt b (age_ms evaluated started) then Some SStale else None))
           | _ \<Rightarrow> Inr (Some SStale))))"

definition known_uncertainty :: "obj \<Rightarrow> exn + pyfloat option" where
  "known_uncertainty variable = (case obj_get variable ''uncertainty'' of
      JObj u \<Rightarrow>
        (if obj_get u ''status'' = JStr ''known'' then
           bind_res (finite_num (obj_get u ''absolute'')) (\<lambda>ok.
             if ok then bind_res (py_float (obj_get u ''absolute'')) (\<lambda>f. Inr (Some (fabs f)))
             else Inr None)
         else Inr None)
    | _ \<Rightarrow> Inr None)"

definition str_opt :: "pyval \<Rightarrow> string option" where
  "str_opt v = (case v of JStr s \<Rightarrow> Some s | _ \<Rightarrow> None)"

definition select_sample :: "string \<Rightarrow> string \<Rightarrow> pyval \<Rightarrow> bool \<Rightarrow> scope_val option \<Rightarrow> string \<Rightarrow> exn + sample_outcome" where
  "select_sample vid u max_age require_known source wall = (case sample_dataset source of
      None \<Rightarrow> Inr (invalid_sample SMissing)
    | Some dataset \<Rightarrow>
        (if obj_get dataset ''kind'' \<noteq> JStr ''scalar_set'' then Inr (invalid_sample SNotScalar)
         else (case obj_get dataset ''variables'' of
             JList vs \<Rightarrow> (case find_variable vid vs of
                 None \<Rightarrow> Inr (invalid_sample SMissing)
               | Some v \<Rightarrow>
                   (if obj_get v ''unit'' \<noteq> JStr u then Inr (invalid_sample SWrongUnit)
                    else bind_res (scalar_ok v (sole_value v)) (\<lambda>ok.
                      if \<not> ok then Inr (invalid_sample SNotScalar)
                      else bind_res (freshness_fault (freshness_bound max_age) (obj_get dataset ''started_at'') wall) (\<lambda>fault.
                        case fault of
                          Some f \<Rightarrow> Inr (invalid_sample f)
                        | None \<Rightarrow> bind_res (known_uncertainty v) (\<lambda>unc.
                            if require_known \<and> unc = None then Inr (invalid_sample SUnknownUncertainty)
                            else bind_res (py_float (sole_value v)) (\<lambda>x.
                              Inr \<lparr>so_value = Some x, so_uncertainty = unc,
                                so_configuration = str_opt (obj_get dataset ''configuration_id''),
                                so_invalid = None,
                                so_acquired_at = str_opt (obj_get dataset ''started_at''),
                                so_max_age_ms = freshness_bound max_age\<rparr>))))))
           | _ \<Rightarrow> Inr (invalid_sample SMissing))))"

section \<open>Predicates\<close>

definition conservative_interval :: "pyfloat \<Rightarrow> pyfloat option \<Rightarrow> pyfloat \<times> pyfloat" where
  "conservative_interval v unc = (case unc of
      None \<Rightarrow> (v, v)
    | Some u \<Rightarrow> (fsub v u, fadd v u))"

text \<open>\<open>samples\<close> holds the sample outcomes visible at the predicate.\<close>

definition evaluate_predicate :: "predicate \<Rightarrow> (string \<Rightarrow> sample_outcome option) \<Rightarrow> string option \<Rightarrow> exn + bool option" where
  "evaluate_predicate p samples wall = (case samples (pr_sample p) of
      None \<Rightarrow> Inr None
    | Some oc \<Rightarrow> (case (so_invalid oc, so_value oc) of
        (None, Some v) \<Rightarrow>
          bind_res (case wall of None \<Rightarrow> Inr False | Some t \<Rightarrow> recheck_stale oc t) (\<lambda>stale.
            if stale then Inr None
            else (case (num_val (pr_minimum p), num_val (pr_maximum p)) of
                (Some lo, Some hi) \<Rightarrow> (case conservative_interval v (so_uncertainty oc) of
                    (low, high) \<Rightarrow> Inr (Some (fle lo low \<and> fle high hi)))
              | _ \<Rightarrow> Inr None))
      | _ \<Rightarrow> Inr None))"

section \<open>What a trustworthy sample means\<close>

lemma float_of_int_Fin: "float_of_int i = Inr f \<Longrightarrow> fl (of_int i) = f \<and> isfinite f"
  by (cases "fl (of_int i)") (auto simp: float_of_int_def)






lemma parse_wall_str: "parse_wall v = Some t \<Longrightarrow> \<exists>s. v = JStr s \<and> fromiso_z s = Some t \<and> utc_offset t \<noteq> None"
  by (cases v) (auto split: option.splits if_splits)



section \<open>Properties\<close>





text \<open>
  Claim C14. INVALID evidence decides nothing: a predicate yields a verdict only over a visible sample
  without a fault whose age at the predicate's own wall reading is within its bound; and the verdict
  is true only if every binary64 number inside the sample's error interval lies in the inclusive
  bounds, so a true branch or a passing assertion never rests on the nominal value alone.
\<close>

theorem verdict_grounded:
  assumes "evaluate_predicate p samples (Some wall) = Inr (Some verdict)"
  shows "\<exists>oc v lo hi. samples (pr_sample p) = Some oc \<and> so_invalid oc = None \<and> so_value oc = Some v \<and>
    num_val (pr_minimum p) = Some lo \<and> num_val (pr_maximum p) = Some hi \<and>
    (\<forall>m. so_max_age_ms oc = Some m \<longrightarrow> (\<exists>s a t. so_acquired_at oc = Some s \<and> parse_wall (JStr s) = Some a \<and>
       parse_wall (JStr wall) = Some t \<and> \<not> flt (fl (of_int m)) (age_ms t a))) \<and>
    (verdict \<longrightarrow> (\<forall>c e x. v = Fin c \<and> so_uncertainty oc = Some (Fin e) \<and> is_f64 x \<and> c - e \<le> x \<and> x \<le> c + e \<longrightarrow>
       fle lo (Fin x) \<and> fle (Fin x) hi)) \<and>
    (verdict \<and> so_uncertainty oc = None \<longrightarrow> fle lo v \<and> fle v hi)"
proof -
  let ?inside = "\<lambda>oc v lo hi. fle lo (fst (conservative_interval v (so_uncertainty oc))) \<and>
      fle (snd (conservative_interval v (so_uncertainty oc))) hi"
  obtain oc where oc: "samples (pr_sample p) = Some oc"
    using assms by (cases "samples (pr_sample p)") (auto simp: evaluate_predicate_def)
  obtain v where v: "so_invalid oc = None" "so_value oc = Some v"
    using assms oc by (cases "so_invalid oc"; cases "so_value oc") (auto simp: evaluate_predicate_def)
  have stale: "recheck_stale oc wall = Inr False"
    using assms by (auto simp: evaluate_predicate_def oc v split: if_splits)
  obtain lo hi where bounds: "num_val (pr_minimum p) = Some lo" "num_val (pr_maximum p) = Some hi"
    using assms by (cases "num_val (pr_minimum p)"; cases "num_val (pr_maximum p)")
      (auto simp: evaluate_predicate_def oc v stale)
  have verdict: "?inside oc v lo hi = verdict"
    using assms by (simp add: evaluate_predicate_def oc v stale bounds split_beta)
  note f = oc v bounds stale
  have fresh: "\<exists>s a t. so_acquired_at oc = Some s \<and> parse_wall (JStr s) = Some a \<and>
      parse_wall (JStr wall) = Some t \<and> \<not> flt (fl (of_int m)) (age_ms t a)" if "so_max_age_ms oc = Some m" for m
    using f(6) that parse_wall_str [of "opt_str (so_acquired_at oc)"] float_of_int_Fin [of m]
    by (fastforce simp: recheck_stale_def opt_str_def split: option.splits simp del: parse_wall.simps)
  have inside: "fle lo (Fin x) \<and> fle (Fin x) hi"
    if "verdict" "v = Fin c" "so_uncertainty oc = Some (Fin e)" "is_f64 x" "c - e \<le> x" "x \<le> c + e" for c e x
  proof -
    from that verdict have "fle lo (fl (c - e))" "fle (fl (c + e)) hi"
      by (auto simp: conservative_interval_def fsub_def)
    with that(4-6) show ?thesis using fl_le_f64 [of x "c - e"] fl_ge_f64 [of x "c + e"] fle_trans by blast
  qed
  have nominal: "fle lo v \<and> fle v hi" if "verdict" "so_uncertainty oc = None"
    using that verdict by (auto simp: conservative_interval_def)
  show ?thesis
    by (intro exI [of _ oc] exI [of _ v] exI [of _ lo] exI [of _ hi] conjI)
      (use f fresh inside nominal in blast)+
qed

section \<open>A recorded measurement\<close>

definition demo_variable :: obj where
  "demo_variable = [(''id'', JStr ''vout''), (''unit'', JStr ''V''), (''values'', JList [JInt 3]),
     (''dimensions'', JList []), (''status'', JStr ''valid''),
     (''uncertainty'', JObj [(''status'', JStr ''known''), (''absolute'', JFloat (Fin (1/4)))])]"

definition demo_source :: scope_val where
  "demo_source = VOp \<lparr>r_id = ''op:r:arm'', r_verb = INVOKE, r_status = StOk,
     r_data = Raw (JObj [(''result'', JObj [(''kind'', JStr ''scalar_set''),
       (''started_at'', JStr ''2026-09-11T00:00:00Z''), (''variables'', JList [JObj demo_variable])])]),
     r_error = None\<rparr>"

definition demo_sample :: "int option \<Rightarrow> sample_outcome" where
  "demo_sample bound = \<lparr>so_value = Some (Fin 3), so_uncertainty = Some (Fin (1/4)), so_configuration = None,
     so_invalid = None, so_acquired_at = Some ''2026-09-11T00:00:00Z'', so_max_age_ms = bound\<rparr>"

lemma demo_roundings:
  "fl 3 = Fin 3" "fl 5 = Fin 5" "fl 6 = Fin 6" "fl 1000 = Fin 1000" "fl 5000 = Fin 5000" "fl 6000 = Fin 6000"
  "fl 9000 = Fin 9000" "fl (11/4) = Fin (11/4)" "fl (13/4) = Fin (13/4)"
proof -
  have "flmag 3 = 3" "flmag 5 = 5" "flmag 6 = 6" "flmag 1000 = 1000" "flmag 5000 = 5000" "flmag 6000 = 6000"
      "flmag 9000 = 9000" "flmag (11/4) = 11/4" "flmag (13/4) = 13/4"
    by code_simp+
  then show "fl 3 = Fin 3" "fl 5 = Fin 5" "fl 6 = Fin 6" "fl 1000 = Fin 1000" "fl 5000 = Fin 5000"
      "fl 6000 = Fin 6000" "fl 9000 = Fin 9000" "fl (11/4) = Fin (11/4)" "fl (13/4) = Fin (13/4)"
    by (simp_all add: fl_smallI)
qed

definition demo_epoch :: moment where
  "demo_epoch = \<lparr>local_us = 1789084800000000, utc_offset = Some 0\<rparr>"

lemma demo_walls:
  "parse_wall (JStr ''2026-09-11T00:00:00Z'') = Some demo_epoch"
  "naive_wall (JStr ''2026-09-11T00:00:00Z'') = False"
  "parse_wall (JStr ''2026-09-11T00:00:05Z'') = Some (demo_epoch\<lparr>local_us := 1789084805000000\<rparr>)"
  "parse_wall (JStr ''2026-09-11T00:00:06Z'') = Some (demo_epoch\<lparr>local_us := 1789084806000000\<rparr>)"
  by code_simp+

lemma demo_ages:
  "age_ms (demo_epoch\<lparr>local_us := 1789084805000000\<rparr>) demo_epoch = Fin 5000"
  "age_ms (demo_epoch\<lparr>local_us := 1789084806000000\<rparr>) demo_epoch = Fin 6000"
  by (simp_all add: age_ms_def elapsed_ms_def instant_def demo_epoch_def demo_roundings)

lemmas demo_facts = demo_roundings demo_walls demo_ages float_of_int_def

lemma demo_dataset:
  "sample_dataset (Some demo_source) = Some [(''kind'', JStr ''scalar_set''),
     (''started_at'', JStr ''2026-09-11T00:00:00Z''), (''variables'', JList [JObj demo_variable])]"
  "find_variable ''vout'' [JObj demo_variable] = Some demo_variable"
  "obj_get demo_variable ''unit'' = JStr ''V''"
  "sole_value demo_variable = JInt 3"
  "scalar_ok demo_variable (JInt 3) = Inr True"
  "known_uncertainty demo_variable = Inr (Some (Fin (1/4)))"
  by (simp_all add: sample_dataset_def demo_source_def find_variable_def demo_variable_def sole_value_def
      scalar_ok_def known_uncertainty_def obj_get_def demo_facts)

lemma demo_members:
  fixes a b c :: pyval
  shows "obj_get [(''kind'', a), (''started_at'', b), (''variables'', c)] ''kind'' = a"
    "obj_get [(''kind'', a), (''started_at'', b), (''variables'', c)] ''started_at'' = b"
    "obj_get [(''kind'', a), (''started_at'', b), (''variables'', c)] ''variables'' = c"
    "obj_get [(''kind'', a), (''started_at'', b), (''variables'', c)] ''configuration_id'' = JNull"
  by (simp_all add: obj_get_def)

lemma demo_select:
  "select_sample ''vout'' ''V'' (JInt 9000) True (Some demo_source) ''2026-09-11T00:00:05Z'' = Inr (demo_sample (Some 9000))"
  "select_sample ''vout'' ''V'' (JInt 1000) True (Some demo_source) ''2026-09-11T00:00:05Z'' = Inr (invalid_sample SStale)"
  "select_sample ''vout'' ''V'' (JFloat (Fin 1000)) True (Some demo_source) ''2026-09-11T00:00:05Z'' = Inr (demo_sample None)"
  by (simp_all add: select_sample_def demo_dataset demo_members freshness_fault_def demo_facts demo_sample_def
      str_opt_def del: parse_wall.simps naive_wall.simps)


lemma demo_verdict:
  "evaluate_predicate \<lparr>pr_sample = ''v'', pr_minimum = JInt 1, pr_maximum = JFloat (Fin 5)\<rparr>
     [''v'' \<mapsto> demo_sample (Some 9000)] (Some ''2026-09-11T00:00:06Z'') = Inr (Some True)"
  by (simp add: evaluate_predicate_def recheck_stale_def demo_sample_def opt_str_def conservative_interval_def
      fsub_def demo_facts del: parse_wall.simps)

lemma f64_three: "is_f64 3"
  by (simp add: is_f64_def demo_roundings)

lemma verdict_grounded_witness: "fle (Fin 1) (Fin 3) \<and> fle (Fin 3) (Fin 5)"
  using verdict_grounded [OF demo_verdict] f64_three by (auto simp: demo_sample_def)

text \<open>
  The age bound fails open on a number written as a float: the procedure schema admits
  \<open>1000.0\<close> as an integer, but \<open>isinstance(max_age_ms, int)\<close> does not, so the sample that
  is stale under \<open>1000\<close> is accepted, carries no bound, and is never found stale again.
\<close>

theorem float_age_bound_ignored:
  "(\<forall>vid u b rk source wall wall'. select_sample vid u (JFloat b) rk source wall = select_sample vid u JNull rk source wall') \<and>
   select_sample ''vout'' ''V'' (JInt 1000) True (Some demo_source) ''2026-09-11T00:00:05Z'' = Inr (invalid_sample SStale) \<and>
   select_sample ''vout'' ''V'' (JFloat (Fin 1000)) True (Some demo_source) ''2026-09-11T00:00:05Z'' = Inr (demo_sample None) \<and>
   (\<forall>wall. recheck_stale (demo_sample None) wall = Inr False)"
proof -
  have "select_sample vid u (JFloat b) rk source wall = select_sample vid u JNull rk source wall'" for vid u b rk source wall wall'
    unfolding select_sample_def freshness_fault_def freshness_bound.simps option.case ..
  moreover have "recheck_stale (demo_sample None) wall = Inr False" for wall
    by (simp add: recheck_stale_def demo_sample_def)
  ultimately show ?thesis using demo_select by blast
qed

end
