(* ===== verification/Executor.thy ===== *)
theory Executor
  imports Evidence
begin

text \<open>
  The procedure body interpreter, class \<open>Executor\<close> of \<open>control/executor.py\<close>. A run changes one
  explicit state: the outside world (\<open>Host\<close>), the step events, the reasons and the outcome of the
  body, the occurrence ledger and the issued-id registry. Events are mutable objects shared between
  the body's list, the ledger and the in-flight slot, so they live in a heap and the others hold
  addresses. An operation returns a value or the exception it raises, beside the state at that moment.
  \<open>measurement.derivation.derive_dataset_variables\<close> enters as the parameter \<open>cf_derive\<close>: for a device
  with declarations, the derived dataset or the exception.
\<close>

section \<open>Digests\<close>

text \<open>
  \<open>_sha256_hex(value)\<close>: the digest of the canonical text. Canonical texts are equal when the values
  are equal up to the order of members, so a digest is named by the sorted value. \<open>HexDigest\<close> is one
  read back as text from the event stream.
\<close>

datatype digest = NoDigest | Sha256 pyval | HexDigest string

text \<open>The exception of \<open>json.dumps(.., allow_nan=False)\<close>: the first offender in member order.\<close>

fun json_fault :: "pyval \<Rightarrow> exn option"
  and json_fault_obj :: "obj \<Rightarrow> exn option"
  and json_fault_list :: "pyval list \<Rightarrow> exn option" where
  "json_fault (JFloat f) = (if isfinite f then None else Some (ValueError ''json''))"
| "json_fault (JOther _) = Some (TypeError ''json'')"
| "json_fault (JObj kvs) = json_fault_obj kvs"
| "json_fault (JList xs) = json_fault_list xs"
| "json_fault _ = None"
| "json_fault_obj [] = None"
| "json_fault_obj ((_, v) # kvs) = (case json_fault v of None \<Rightarrow> json_fault_obj kvs | e \<Rightarrow> e)"
| "json_fault_list [] = None"
| "json_fault_list (x # xs) = (case json_fault x of None \<Rightarrow> json_fault_list xs | e \<Rightarrow> e)"

definition sha256 :: "pyval \<Rightarrow> exn + digest" where
  "sha256 v = (case json_fault (sort_members v) of
      None \<Rightarrow> Inr (Sha256 (sort_members v)) | Some e \<Rightarrow> Inl e)"

section \<open>Events, entries and the state\<close>

datatype body_outcome =
    Completed | AssertionFailed | BodyCancelled | TimedOut | Tripped | ExecutionError | OutcomeUnknown

datatype event_status = EvOk | EvError | EvUnknown | EvCancelled | EvFailed

datatype event_code =
    UnresolvedCode | PolicyCode | DerivationCode | SampleCode | DispatchCode error_code

record step_event =
  ev_occurrence :: occurrence
  ev_kind :: string
  ev_digest :: digest
  ev_operation :: "string option"
  ev_status :: event_status
  ev_code :: "event_code option"
  ev_dispatch :: dispatch_state
  ev_derivation :: "exn option"

datatype reason =
    DeadlineBefore string
  | DeadlineAtDispatch string
  | Unresolved string scope_error
  | Denied string deny_reason
  | UnknownKind string string
  | NoErrorCarried string
  | DispatchRefused string error_code string
  | DispatchUncertain string dispatch_state error_code string
  | InvalidSample string sample_fault
  | InvalidPredicate string string bool
  | OutsideBounds string "pyfloat option" "pyfloat option" pyval pyval
  | DerivationInvalid string exn
  | UncaughtException exn

record entry =
  en_event :: nat
  en_result :: scope_val
  en_issued :: bucket
  en_end :: "(body_outcome \<times> reason) option"

record 'w exec =
  x_world :: 'w
  x_heap :: "step_event list"
  x_events :: "nat list"
  x_reasons :: "reason list"
  x_outcome :: "body_outcome option"
  x_flight :: "nat option"
  x_ledger :: "occurrence \<Rightarrow> entry option"
  x_issued :: "occurrence \<Rightarrow> bucket"

record exec_config =
  cf_binding :: resolved
  cf_rules :: "obj list"
  cf_validate :: validator
  cf_derive :: "string \<Rightarrow> (obj \<Rightarrow> exn + obj) option"

section \<open>Elementary effects\<close>

definition terminate :: "body_outcome \<Rightarrow> reason \<Rightarrow> 'w exec \<Rightarrow> 'w exec" where
  "terminate oc r x = x\<lparr>x_outcome := (case x_outcome x of None \<Rightarrow> Some oc | Some prior \<Rightarrow> Some prior),
     x_reasons := x_reasons x @ [r]\<rparr>"

definition upd_event :: "nat \<Rightarrow> (step_event \<Rightarrow> step_event) \<Rightarrow> 'w exec \<Rightarrow> 'w exec" where
  "upd_event a f x = x\<lparr>x_heap := (x_heap x)[a := f (x_heap x ! a)]\<rparr>"

definition new_event :: "occurrence \<Rightarrow> string \<Rightarrow> digest \<Rightarrow> step_event" where
  "new_event oc kind d = \<lparr>ev_occurrence = oc, ev_kind = kind, ev_digest = d, ev_operation = None,
     ev_status = EvOk, ev_code = None, ev_dispatch = NotDispatched, ev_derivation = None\<rparr>"

text \<open>Append a fresh event to the body and make it the one in flight.\<close>

definition open_event :: "step_event \<Rightarrow> 'w exec \<Rightarrow> nat \<times> 'w exec" where
  "open_event e x = (let a = length (x_heap x) in
     (a, x\<lparr>x_heap := x_heap x @ [e], x_events := x_events x @ [a], x_flight := Some a\<rparr>))"

definition fail_event :: "nat \<Rightarrow> event_code \<Rightarrow> 'w exec \<Rightarrow> 'w exec" where
  "fail_event a c = upd_event a (\<lambda>e. e\<lparr>ev_status := EvError, ev_code := Some c\<rparr>)"

definition now_ns :: "'w world \<Rightarrow> 'w exec \<Rightarrow> int \<times> 'w exec" where
  "now_ns W x = (case w_now W (x_world x) of (w, t) \<Rightarrow> (t, x\<lparr>x_world := w\<rparr>))"

definition now_wall :: "'w world \<Rightarrow> 'w exec \<Rightarrow> string \<times> 'w exec" where
  "now_wall W x = (case w_wall W (x_world x) of (w, t) \<Rightarrow> (t, x\<lparr>x_world := w\<rparr>))"

text \<open>\<open>d[k]\<close> of a dictionary, and the digest of an input entered in the event.\<close>

definition lookup_key :: "(string \<times> 'a) list \<Rightarrow> string \<Rightarrow> exn + 'a" where
  "lookup_key d k = (case map_of d k of None \<Rightarrow> Inl (KeyError k) | Some v \<Rightarrow> Inr v)"

definition enter_digest :: "nat \<Rightarrow> pyval \<Rightarrow> 'w exec \<Rightarrow> (exn + unit) \<times> 'w exec" where
  "enter_digest a v x = (case sha256 v of
      Inl e \<Rightarrow> (Inl e, x)
    | Inr d \<Rightarrow> (Inr (), upd_event a (\<lambda>e. e\<lparr>ev_digest := d\<rparr>) x))"

section \<open>Dispatch\<close>

fun status_event :: "op_status \<Rightarrow> event_status" where
  "status_event StCancelled = EvCancelled"
| "status_event StError = EvError"
| "status_event _ = EvUnknown"

text \<open>What \<open>_dispatch\<close> does with a failed result; the clock is read for a timeout that never left.\<close>

definition settle_failure :: "'w world \<Rightarrow> int \<Rightarrow> string \<Rightarrow> nat \<Rightarrow> op_result \<Rightarrow> op_error \<Rightarrow> 'w exec \<Rightarrow> 'w exec" where
  "settle_failure W deadline i a r err x =
     (let x1 = upd_event a (\<lambda>e. e\<lparr>ev_status := status_event (r_status r),
            ev_code := Some (DispatchCode (er_code err)), ev_dispatch := er_state err\<rparr>) x in
      if er_state err = NotDispatched then
        (if er_code err = TIMEOUT then
           (case now_ns W x1 of (t, x2) \<Rightarrow>
              if deadline \<le> t then terminate TimedOut (DeadlineAtDispatch i) x2
              else terminate ExecutionError (DispatchRefused i (er_code err) (er_message err)) x2)
         else terminate ExecutionError (DispatchRefused i (er_code err) (er_message err)) x1)
      else terminate OutcomeUnknown (DispatchUncertain i (er_state err) (er_code err) (er_message err)) x1)"

definition dispatch :: "'w world \<Rightarrow> int \<Rightarrow> string \<Rightarrow> op_request \<Rightarrow> string \<Rightarrow> int \<Rightarrow> nat \<Rightarrow> 'w exec \<Rightarrow>
    (exn + op_result) \<times> 'w exec" where
  "dispatch W deadline dev q i timeout a x =
     (if \<not> w_has W dev then (Inl (KeyError dev), x)
      else case now_ns W x of (t, x1) \<Rightarrow>
        (case w_dispatch W dev q (min (t + timeout * 1000000) deadline) (x_world x1) of (w, answer) \<Rightarrow>
          (let x2 = x1\<lparr>x_world := w\<rparr> in
           case answer of
             Inl e \<Rightarrow> (Inl e, x2)
           | Inr r \<Rightarrow>
               (if r_status r = StOk then
                  (Inr r, upd_event a (\<lambda>e. e\<lparr>ev_status := EvOk, ev_dispatch := Dispatched\<rparr>) x2)
                else (case r_error r of
                    None \<Rightarrow> (Inr r, terminate ExecutionError (NoErrorCarried i) x2)
                  | Some err \<Rightarrow> (Inr r, settle_failure W deadline i a r err x2))))))"

text \<open>The policy gate in front of a dispatch.\<close>

definition deny :: "string \<Rightarrow> nat \<Rightarrow> policy_denied \<Rightarrow> 'w exec \<Rightarrow> 'w exec" where
  "deny i a d x = terminate ExecutionError (Denied i (pd_reason d)) (fail_event a PolicyCode x)"

definition guarded_dispatch :: "'w world \<Rightarrow> exec_config \<Rightarrow> int \<Rightarrow> string \<Rightarrow> string \<Rightarrow> string \<Rightarrow> string \<Rightarrow> pyval \<Rightarrow>
    op_request \<Rightarrow> int \<Rightarrow> nat \<Rightarrow> 'w exec \<Rightarrow> (exn + op_result option) \<times> 'w exec" where
  "guarded_dispatch W C deadline i dev kind target payload q timeout a x =
     (case snd (check_allowed (cf_validate C) (cf_rules C) dev kind target payload) of
        Inl d \<Rightarrow> (Inr None, deny i a d x)
      | Inr _ \<Rightarrow> (case dispatch W deadline dev q i timeout a x of (r, x') \<Rightarrow> (map_sum id Some r, x')))"

section \<open>The operation steps\<close>

definition channels_of :: "exec_config \<Rightarrow> string \<Rightarrow> (string \<times> string) list" where
  "channels_of C role = (case map_of (rv_channels (cf_binding C)) role of None \<Rightarrow> [] | Some m \<Rightarrow> m)"

definition resolve_context :: "exec_config \<Rightarrow> string \<Rightarrow> string \<Rightarrow> string \<Rightarrow> nat list \<Rightarrow> resolve_ctx" where
  "resolve_context C role run i path =
     \<lparr>rx_run = run, rx_step = i, rx_path = path, rx_channels = channels_of C role\<rparr>"

definition unresolved :: "string \<Rightarrow> nat \<Rightarrow> scope_error \<Rightarrow> 'w exec \<Rightarrow> 'w exec" where
  "unresolved i a e x = terminate ExecutionError (Unresolved i e) (fail_event a UnresolvedCode x)"

definition resolve_input :: "exec_config \<Rightarrow> string \<Rightarrow> scope \<Rightarrow> string \<Rightarrow> string \<Rightarrow> nat list \<Rightarrow> pyval \<Rightarrow> nat \<Rightarrow> 'w exec \<Rightarrow>
    pyval option \<times> 'w exec" where
  "resolve_input C run scope role i path v a x =
     (case resolve_value (resolve_context C role run i path) scope v (x_issued x (run, i, path)) of (r, b) \<Rightarrow>
        (let x1 = x\<lparr>x_issued := (x_issued x)((run, i, path) := b)\<rparr> in
         case r of Inl e \<Rightarrow> (None, unresolved i a e x1) | Inr w \<Rightarrow> (Some w, x1)))"

definition enter_operation :: "nat \<Rightarrow> string \<Rightarrow> 'w exec \<Rightarrow> 'w exec" where
  "enter_operation a op = upd_event a (\<lambda>e. e\<lparr>ev_operation := Some op\<rparr>)"

text \<open>\<open>_apply_derivation\<close>: derived variables join a dataset-shaped invoke result.\<close>

definition apply_derivation :: "exec_config \<Rightarrow> string \<Rightarrow> op_result \<Rightarrow> string \<Rightarrow> nat \<Rightarrow> 'w exec \<Rightarrow> (exn + op_result) \<times> 'w exec" where
  "apply_derivation C dev r i a x =
     (case (cf_derive C dev, r_data r) of
        (Some derive, Raw (JObj kvs)) \<Rightarrow>
          (case obj_get kvs ''result'' of
             JObj payload \<Rightarrow>
               (case obj_get payload ''variables'' of
                  JList _ \<Rightarrow>
                    (case derive payload of
                       Inl e \<Rightarrow> (Inr r, terminate ExecutionError (DerivationInvalid i e)
                         (upd_event a (\<lambda>ev. ev\<lparr>ev_status := EvError, ev_code := Some DerivationCode,
                            ev_derivation := Some e\<rparr>) x))
                     | Inr payload' \<Rightarrow>
                         (result_ok (r_id r) (r_verb r) (Raw (JObj (AList.update ''result'' (JObj payload') kvs))), x))
                | _ \<Rightarrow> (Inr r, x))
           | _ \<Rightarrow> (Inr r, x))
      | _ \<Rightarrow> (Inr r, x))"

text \<open>Sequencing: the first exception ends it, with the state it left.\<close>

definition bind_x :: "(exn + 'a) \<times> 'w exec \<Rightarrow> ('a \<Rightarrow> 'w exec \<Rightarrow> (exn + 'b) \<times> 'w exec) \<Rightarrow> (exn + 'b) \<times> 'w exec" where
  "bind_x m f = (case m of (Inl e, x) \<Rightarrow> (Inl e, x) | (Inr v, x) \<Rightarrow> f v x)"

definition as_scope :: "op_result option \<Rightarrow> scope_val" where
  "as_scope r = (case r of None \<Rightarrow> VNone | Some q \<Rightarrow> VOp q)"

definition step_invoke :: "'w world \<Rightarrow> exec_config \<Rightarrow> int \<Rightarrow> string \<Rightarrow> scope \<Rightarrow> nat list \<Rightarrow> string \<Rightarrow> string \<Rightarrow> string \<Rightarrow>
    obj \<Rightarrow> int \<Rightarrow> nat \<Rightarrow> 'w exec \<Rightarrow> (exn + scope_val) \<times> 'w exec" where
  "step_invoke W C deadline run scope path i role action input timeout a x =
     bind_x (lookup_key (rv_device (cf_binding C)) role, x) (\<lambda>dev x.
       case resolve_input C run scope role i path (JObj input) a x of
         (None, x) \<Rightarrow> (Inr VNone, x)
       | (Some v, x) \<Rightarrow> bind_x (enter_digest a v x) (\<lambda>_ x.
           let op = operation_id run i path in
           bind_x (guarded_dispatch W C deadline i dev ''invoke'' action v
               \<lparr>q_id = op, q_verb = INVOKE, q_args = [(''action_id'', JStr action), (''input'', v)]\<rparr>
               timeout a (enter_operation a op x)) (\<lambda>r x.
             case r of
               None \<Rightarrow> (Inr VNone, x)
             | Some q \<Rightarrow>
                 (if r_status q = StOk then bind_x (apply_derivation C dev q i a x) (\<lambda>q' x. (Inr (VOp q'), x))
                  else (Inr (VOp q), x)))))"

text \<open>A read parameter is a literal name; the code sends it through the same seam.\<close>

definition read_parameter :: "exec_config \<Rightarrow> string \<Rightarrow> scope \<Rightarrow> string \<Rightarrow> string \<Rightarrow> nat list \<Rightarrow> pyval \<Rightarrow> bucket \<Rightarrow>
    (scope_error + string) \<times> bucket" where
  "read_parameter C run scope role i path p b =
     (if contains_stg p then (Inl ReadNotLiteral, b)
      else case resolve_value (resolve_context C role run i path) scope p b of
        (Inl e, b') \<Rightarrow> (Inl e, b')
      | (Inr (JStr s), b') \<Rightarrow> (Inr s, b')
      | (Inr _, b') \<Rightarrow> (Inl ReadNotString, b'))"

definition step_read :: "'w world \<Rightarrow> exec_config \<Rightarrow> int \<Rightarrow> string \<Rightarrow> scope \<Rightarrow> nat list \<Rightarrow> string \<Rightarrow> string \<Rightarrow> string \<Rightarrow>
    int \<Rightarrow> nat \<Rightarrow> 'w exec \<Rightarrow> (exn + scope_val) \<times> 'w exec" where
  "step_read W C deadline run scope path i role parameter timeout a x =
     (case read_parameter C run scope role i path (JStr parameter) (x_issued x (run, i, path)) of (r, b) \<Rightarrow>
        (let x = x\<lparr>x_issued := (x_issued x)((run, i, path) := b)\<rparr> in
         case r of
           Inl e \<Rightarrow> (Inr VNone, unresolved i a e x)
         | Inr p \<Rightarrow> bind_x (lookup_key (rv_device (cf_binding C)) role, x) (\<lambda>dev x.
             bind_x (enter_digest a (JObj [(''parameter'', JStr p)]) x) (\<lambda>_ x.
               let op = operation_id run i path in
               bind_x (dispatch W deadline dev (request_read op p) i timeout a (enter_operation a op x))
                 (\<lambda>q x. (Inr (VOp q), x))))))"

definition step_write :: "'w world \<Rightarrow> exec_config \<Rightarrow> int \<Rightarrow> string \<Rightarrow> scope \<Rightarrow> nat list \<Rightarrow> string \<Rightarrow> string \<Rightarrow> string \<Rightarrow>
    pyval \<Rightarrow> int \<Rightarrow> nat \<Rightarrow> 'w exec \<Rightarrow> (exn + scope_val) \<times> 'w exec" where
  "step_write W C deadline run scope path i role parameter v timeout a x =
     bind_x (lookup_key (rv_device (cf_binding C)) role, x) (\<lambda>dev x.
       case resolve_input C run scope role i path v a x of
         (None, x) \<Rightarrow> (Inr VNone, x)
       | (Some w, x) \<Rightarrow> bind_x (enter_digest a w x) (\<lambda>_ x.
           let op = operation_id run i path in
           bind_x (guarded_dispatch W C deadline i dev ''write'' parameter w (request_write op parameter w)
               timeout a (enter_operation a op x)) (\<lambda>r x. (Inr (as_scope r), x))))"

definition capture_payload :: "string \<Rightarrow> int \<Rightarrow> int \<Rightarrow> obj" where
  "capture_payload fmt samples bytes =
     [(''format'', JStr fmt), (''sample_count'', JInt samples), (''max_bytes'', JInt bytes)]"

definition step_capture :: "'w world \<Rightarrow> exec_config \<Rightarrow> int \<Rightarrow> string \<Rightarrow> nat list \<Rightarrow> string \<Rightarrow> string \<Rightarrow> string \<Rightarrow>
    int \<Rightarrow> int \<Rightarrow> int \<Rightarrow> nat \<Rightarrow> 'w exec \<Rightarrow> (exn + scope_val) \<times> 'w exec" where
  "step_capture W C deadline run path i role fmt samples bytes timeout a x =
     bind_x (lookup_key (rv_device (cf_binding C)) role, x) (\<lambda>dev x.
       let cap = capture_id run i path; payload = capture_payload fmt samples bytes in
       bind_x (enter_digest a (JObj payload) (enter_operation a cap x)) (\<lambda>_ x.
         let x = x\<lparr>x_issued := (x_issued x)((run, i, path) := AList.update ''capture_id''
               \<lparr>is_id = cap, is_status = ''issued'', is_reason = None, is_dispatch = None\<rparr>
               (x_issued x (run, i, path)))\<rparr> in
         bind_x (guarded_dispatch W C deadline i dev ''capture'' fmt (JObj payload)
             \<lparr>q_id = cap, q_verb = CAPTURE, q_args = (''capture_id'', JStr cap) # payload\<rparr> timeout a x)
           (\<lambda>r x. (Inr (as_scope r), x))))"

section \<open>The other leaf steps\<close>

text \<open>A delay never waits past the body deadline.\<close>

definition step_delay :: "'w world \<Rightarrow> int \<Rightarrow> int \<Rightarrow> nat \<Rightarrow> 'w exec \<Rightarrow> (exn + scope_val) \<times> 'w exec" where
  "step_delay W deadline duration a x =
     bind_x (enter_digest a (JObj [(''duration_ms'', JInt duration)]) x) (\<lambda>_ x.
       case now_ns W x of (t, x) \<Rightarrow>
         (let wait = min (duration * 1000000) (deadline - t) in
          if 0 < wait then (case w_wait W wait (x_world x) of (w, raised) \<Rightarrow>
              (case raised of None \<Rightarrow> Inr VNone | Some e \<Rightarrow> Inl e, x\<lparr>x_world := w\<rparr>))
          else (Inr VNone, x)))"

definition step_sample :: "'w world \<Rightarrow> scope \<Rightarrow> string \<Rightarrow> string \<Rightarrow> string \<Rightarrow> string \<Rightarrow> pyval \<Rightarrow> bool \<Rightarrow> nat \<Rightarrow> 'w exec \<Rightarrow>
    (exn + scope_val) \<times> 'w exec" where
  "step_sample W scope i source variable unit max_age require_known a x =
     bind_x (enter_digest a (JObj [(''source_step'', JStr source), (''variable_id'', JStr variable),
         (''unit'', JStr unit), (''max_age_ms'', max_age), (''require_known_uncertainty'', JBool require_known)]) x)
       (\<lambda>_ x. case now_wall W x of (wall, x) \<Rightarrow>
          (case select_sample variable unit max_age require_known (map_of scope source) wall of
             Inl e \<Rightarrow> (Inl e, x)
           | Inr oc \<Rightarrow> (Inr (VSample oc), case so_invalid oc of
                 None \<Rightarrow> x
               | Some f \<Rightarrow> terminate ExecutionError (InvalidSample i f) (fail_event a SampleCode x))))"

definition predicate_value :: "predicate \<Rightarrow> pyval" where
  "predicate_value p = JObj [(''sample'', JStr (pr_sample p)), (''minimum'', pr_minimum p), (''maximum'', pr_maximum p)]"

definition scope_sample :: "scope \<Rightarrow> string \<Rightarrow> sample_outcome option" where
  "scope_sample scope i = (case map_of scope i of Some (VSample oc) \<Rightarrow> Some oc | _ \<Rightarrow> None)"

text \<open>\<open>_evaluate_predicate\<close>: the verdict, and whether a missing one is due to age.\<close>

definition eval_predicate :: "'w world \<Rightarrow> scope \<Rightarrow> predicate \<Rightarrow> 'w exec \<Rightarrow> (exn + bool option \<times> bool) \<times> 'w exec" where
  "eval_predicate W scope p x = (case now_wall W x of (wall, x) \<Rightarrow>
     (bind_res (evaluate_predicate p (scope_sample scope) (Some wall)) (\<lambda>held.
        case held of
          Some b \<Rightarrow> Inr (Some b, False)
        | None \<Rightarrow> bind_res (case scope_sample scope (pr_sample p) of
              None \<Rightarrow> Inr False | Some oc \<Rightarrow> recheck_stale oc wall) (\<lambda>stale. Inr (None, stale))), x))"

definition assertion_failure :: "scope \<Rightarrow> string \<Rightarrow> predicate \<Rightarrow> reason" where
  "assertion_failure scope i p = (case scope_sample scope (pr_sample p) of
      None \<Rightarrow> OutsideBounds i None None (pr_minimum p) (pr_maximum p)
    | Some oc \<Rightarrow> (case (so_value oc, so_uncertainty oc) of
        (Some v, Some u) \<Rightarrow> OutsideBounds i (Some (fst (conservative_interval v (Some u))))
          (Some (snd (conservative_interval v (Some u)))) (pr_minimum p) (pr_maximum p)
      | (v, _) \<Rightarrow> OutsideBounds i v None (pr_minimum p) (pr_maximum p)))"

definition step_assert :: "'w world \<Rightarrow> scope \<Rightarrow> string \<Rightarrow> predicate \<Rightarrow> nat \<Rightarrow> 'w exec \<Rightarrow> (exn + scope_val) \<times> 'w exec" where
  "step_assert W scope i p a x =
     bind_x (enter_digest a (predicate_value p) x) (\<lambda>_ x.
       bind_x (eval_predicate W scope p x) (\<lambda>(held, stale) x.
         case held of
           None \<Rightarrow> (Inr VNone, terminate ExecutionError (InvalidPredicate i (pr_sample p) stale)
             (fail_event a SampleCode x))
         | Some True \<Rightarrow> (Inr (VBool True), x)
         | Some False \<Rightarrow> (Inr (VBool False), terminate AssertionFailed (assertion_failure scope i p)
             (upd_event a (\<lambda>e. e\<lparr>ev_status := EvFailed\<rparr>) x))))"

section \<open>Issued ids\<close>

text \<open>\<open>_invalidation_outcome\<close>.\<close>

definition invalidation :: "step_event \<Rightarrow> scope_val \<Rightarrow> string \<times> dispatch_state" where
  "invalidation e v =
     (if ev_code e = Some PolicyCode then (''policy_denied'', NotDispatched)
      else case v of
        VOp r \<Rightarrow> (case r_error r of
            Some err \<Rightarrow>
              (if r_status r = StCancelled \<or> er_code err = CANCELLED then (''cancelled'', er_state err)
               else if er_code err = TIMEOUT then (''timed_out'', er_state err)
               else if er_state err = NotDispatched then (''gate_refused'', NotDispatched)
               else (''dispatch_failed'', er_state err))
          | None \<Rightarrow> (''gate_refused'', NotDispatched))
      | _ \<Rightarrow> (''gate_refused'', NotDispatched))"

definition invalidate :: "step_event \<Rightarrow> scope_val \<Rightarrow> bucket \<Rightarrow> bucket" where
  "invalidate e v b = (case invalidation e v of (why, state) \<Rightarrow>
     map (\<lambda>(f, rec). (f, rec\<lparr>is_status := ''invalidated'', is_reason := Some why, is_dispatch := Some state\<rparr>)) b)"

fun is_operation :: "step \<Rightarrow> bool" where
  "is_operation (Invoke _ _ _ _ _) = True"
| "is_operation (Read _ _ _ _) = True"
| "is_operation (Write _ _ _ _ _) = True"
| "is_operation (Capture _ _ _ _ _ _) = True"
| "is_operation _ = False"

fun op_succeeded :: "scope_val \<Rightarrow> bool" where
  "op_succeeded (VOp r) = (r_status r = StOk)"
| "op_succeeded _ = False"

section \<open>One leaf occurrence\<close>

fun step_kind :: "step \<Rightarrow> string" where
  "step_kind (Invoke _ _ _ _ _) = ''invoke''"
| "step_kind (Read _ _ _ _) = ''read''"
| "step_kind (Write _ _ _ _ _) = ''write''"
| "step_kind (Capture _ _ _ _ _ _) = ''capture''"
| "step_kind (Delay _ _) = ''delay''"
| "step_kind (Sample _ _ _ _ _ _) = ''sample''"
| "step_kind (Assert _ _) = ''assert''"
| "step_kind (IfStep _ _ _ _) = ''if''"
| "step_kind (Repeat _ _ _) = ''repeat''"
| "step_kind (OtherStep _ k) = k"

text \<open>The body of a leaf; \<open>None\<close> for a kind the interpreter does not know.\<close>

definition run_leaf :: "'w world \<Rightarrow> exec_config \<Rightarrow> int \<Rightarrow> string \<Rightarrow> scope \<Rightarrow> nat list \<Rightarrow> step \<Rightarrow> nat \<Rightarrow> 'w exec \<Rightarrow>
    (exn + scope_val) \<times> 'w exec" where
  "run_leaf W C deadline run scope path s a x = (case s of
      Invoke i role action input timeout \<Rightarrow> step_invoke W C deadline run scope path i role action input timeout a x
    | Read i role parameter timeout \<Rightarrow> step_read W C deadline run scope path i role parameter timeout a x
    | Write i role parameter v timeout \<Rightarrow> step_write W C deadline run scope path i role parameter v timeout a x
    | Capture i role fmt samples bytes timeout \<Rightarrow> step_capture W C deadline run path i role fmt samples bytes timeout a x
    | Delay i duration \<Rightarrow> step_delay W deadline duration a x
    | Sample i source variable unit max_age req \<Rightarrow> step_sample W scope i source variable unit max_age req a x
    | Assert i p \<Rightarrow> step_assert W scope i p a x
    | _ \<Rightarrow> (Inr VNone, x))"

definition record_leaf :: "occurrence \<Rightarrow> step \<Rightarrow> nat \<Rightarrow> scope_val \<Rightarrow> 'w exec \<Rightarrow> 'w exec" where
  "record_leaf oc s a v x =
     (let issued = x_issued x oc;
          issued' = (if issued \<noteq> [] \<and> is_operation s \<and> \<not> op_succeeded v
            then invalidate (x_heap x ! a) v issued else issued);
          ending = (case x_outcome x of None \<Rightarrow> None | Some out \<Rightarrow> Some (out, last (x_reasons x))) in
      x\<lparr>x_issued := (x_issued x)(oc := issued'),
        x_ledger := (x_ledger x)(oc \<mapsto>
          \<lparr>en_event = a, en_result = v, en_issued = issued', en_end = ending\<rparr>)\<rparr>)"

text \<open>\<open>_replay_termination\<close>; the flag says that it ended the body.\<close>

definition replay_end :: "entry \<Rightarrow> 'w exec \<Rightarrow> bool \<times> 'w exec" where
  "replay_end en x = (case (en_end en, x_outcome x) of
      (Some (out, r), None) \<Rightarrow> (True, terminate out r x)
    | _ \<Rightarrow> (False, x))"

definition replay_event :: "entry \<Rightarrow> 'w exec \<Rightarrow> 'w exec" where
  "replay_event en x = x\<lparr>x_events := x_events x @ [en_event en]\<rparr>"

definition exec_leaf :: "'w world \<Rightarrow> exec_config \<Rightarrow> int \<Rightarrow> string \<Rightarrow> scope \<Rightarrow> nat list \<Rightarrow> step \<Rightarrow> 'w exec \<Rightarrow>
    (exn + scope_val) \<times> 'w exec" where
  "exec_leaf W C deadline run scope path s x =
     (let oc = (run, step_id s, path) in
      case x_ledger x oc of
        Some en \<Rightarrow> (Inr (en_result en), snd (replay_end en (replay_event en x)))
      | None \<Rightarrow>
          (case open_event (new_event oc (step_kind s) NoDigest) x of (a, x) \<Rightarrow>
            (case s of
               OtherStep i k \<Rightarrow> (Inr VNone, terminate ExecutionError (UnknownKind k i) x)
             | _ \<Rightarrow> bind_x (run_leaf W C deadline run scope path s a x) (\<lambda>v x. (Inr v, record_leaf oc s a v x)))))"

section \<open>Blocks, branches and loops\<close>

text \<open>The head of an \<open>if\<close>: the recorded decision, or a fresh one; \<open>None\<close> when no branch runs.\<close>

definition if_head :: "'w world \<Rightarrow> string \<Rightarrow> scope \<Rightarrow> nat list \<Rightarrow> string \<Rightarrow> predicate \<Rightarrow> 'w exec \<Rightarrow>
    (exn + bool option) \<times> 'w exec" where
  "if_head W run scope path i p x =
     (let oc = (run, i, path) in
      case x_ledger x oc of
        Some en \<Rightarrow>
          (case replay_end en (replay_event en x) of (ended, x) \<Rightarrow>
             (Inr (if ended then None else case en_result en of VBool b \<Rightarrow> Some b | _ \<Rightarrow> None), x))
      | None \<Rightarrow> (case sha256 (predicate_value p) of
          Inl e \<Rightarrow> (Inl e, x)
        | Inr d \<Rightarrow>
            (case open_event (new_event oc ''if'' d) x of (a, x) \<Rightarrow>
               bind_x (eval_predicate W scope p x) (\<lambda>(held, stale) x.
                 case held of
                   None \<Rightarrow>
                     (let x = terminate ExecutionError (InvalidPredicate i (pr_sample p) stale) (fail_event a SampleCode x) in
                      (Inr None, x\<lparr>x_ledger := (x_ledger x)(oc \<mapsto> \<lparr>en_event = a, en_result = VNone, en_issued = [],
                         en_end = Some (the (x_outcome x), last (x_reasons x))\<rparr>)\<rparr>))
                 | Some b \<Rightarrow>
                     (Inr (Some b), x\<lparr>x_ledger := (x_ledger x)(oc \<mapsto>
                        \<lparr>en_event = a, en_result = VBool b, en_issued = [], en_end = None\<rparr>)\<rparr>)))))"

text \<open>The head of a \<open>repeat\<close>; the flag says that the iterations run.\<close>

definition repeat_head :: "string \<Rightarrow> nat list \<Rightarrow> string \<Rightarrow> nat \<Rightarrow> 'w exec \<Rightarrow> bool \<times> 'w exec" where
  "repeat_head run path i n x =
     (let oc = (run, i, path) in
      case x_ledger x oc of
        Some en \<Rightarrow> (case replay_end en (replay_event en x) of (ended, x) \<Rightarrow> (\<not> ended, x))
      | None \<Rightarrow>
          (case open_event (new_event oc ''repeat'' (Sha256 (JObj [(''count'', JInt (int n))]))) x of (a, x) \<Rightarrow>
             (True, x\<lparr>x_ledger := (x_ledger x)(oc \<mapsto>
                \<lparr>en_event = a, en_result = VNone, en_issued = [], en_end = None\<rparr>)\<rparr>)))"

text \<open>The check in front of every step: \<open>None\<close> when the block stops here.\<close>

definition before_step :: "'w world \<Rightarrow> int \<Rightarrow> step \<Rightarrow> 'w exec \<Rightarrow> bool \<times> 'w exec" where
  "before_step W deadline s x =
     (if x_outcome x \<noteq> None then (False, x)
      else case now_ns W x of (t, x) \<Rightarrow>
        (if deadline \<le> t then (False, terminate TimedOut (DeadlineBefore (step_id s)) x) else (True, x)))"

text \<open>
  \<open>_execute_block\<close>, \<open>_execute_step\<close> and the iterations of \<open>_run_repeat\<close>. Iteration \<open>k\<close> of \<open>n\<close> is
  \<open>run_iters n k\<close>. A block ends early, without an exception, when the body has an outcome.
\<close>

function run_block :: "'w world \<Rightarrow> exec_config \<Rightarrow> int \<Rightarrow> string \<Rightarrow> scope \<Rightarrow> nat list \<Rightarrow> step list \<Rightarrow> 'w exec \<Rightarrow>
      (exn + unit) \<times> 'w exec"
  and run_step :: "'w world \<Rightarrow> exec_config \<Rightarrow> int \<Rightarrow> string \<Rightarrow> scope \<Rightarrow> nat list \<Rightarrow> step \<Rightarrow> 'w exec \<Rightarrow>
      (exn + scope_val) \<times> 'w exec"
  and run_iters :: "'w world \<Rightarrow> exec_config \<Rightarrow> int \<Rightarrow> string \<Rightarrow> scope \<Rightarrow> nat list \<Rightarrow> step list \<Rightarrow> nat \<Rightarrow> nat \<Rightarrow> 'w exec \<Rightarrow>
      (exn + unit) \<times> 'w exec" where
  "run_block W C dl run scope path [] x = (Inr (), x)"
| "run_block W C dl run scope path (s # ss) x =
     (case before_step W dl s x of
        (False, x1) \<Rightarrow> (Inr (), x1)
      | (True, x1) \<Rightarrow>
          (case run_step W C dl run scope path s x1 of
             (Inl e, x2) \<Rightarrow> (Inl e, x2)
           | (Inr v, x2) \<Rightarrow> run_block W C dl run ((step_id s, v) # scope) path ss (x2\<lparr>x_flight := None\<rparr>)))"
| "run_step W C dl run scope path s x =
     (case s of
        IfStep i p th el \<Rightarrow>
          (case if_head W run scope path i p x of
             (Inl e, x1) \<Rightarrow> (Inl e, x1)
           | (Inr None, x1) \<Rightarrow> (Inr VNone, x1)
           | (Inr (Some b), x1) \<Rightarrow>
               (case (if b then run_block W C dl run scope path th x1 else run_block W C dl run scope path el x1) of
                  (Inl e, x2) \<Rightarrow> (Inl e, x2) | (Inr _, x2) \<Rightarrow> (Inr (VBool b), x2)))
      | Repeat i n body \<Rightarrow>
          (case repeat_head run path i n x of
             (False, x1) \<Rightarrow> (Inr VNone, x1)
           | (True, x1) \<Rightarrow>
               (case run_iters W C dl run scope path body n 0 x1 of
                  (Inl e, x2) \<Rightarrow> (Inl e, x2) | (Inr _, x2) \<Rightarrow> (Inr VNone, x2)))
      | _ \<Rightarrow> exec_leaf W C dl run scope path s x)"
| "run_iters W C dl run scope path body n k x =
     (if n \<le> k \<or> x_outcome x \<noteq> None then (Inr (), x)
      else case run_block W C dl run scope (path @ [k]) body x of
        (Inl e, x1) \<Rightarrow> (Inl e, x1)
      | (Inr _, x1) \<Rightarrow> run_iters W C dl run scope path body n (Suc k) x1)"
  by pat_completeness auto
termination
  by (relation "measures [\<lambda>q. case q of Inl (_, _, _, _, _, _, ss, _) \<Rightarrow> size_list size ss
        | Inr (Inl (_, _, _, _, _, _, s, _)) \<Rightarrow> size s
        | Inr (Inr (_, _, _, _, _, _, body, _, _, _)) \<Rightarrow> size_list size body,
      \<lambda>q. case q of Inl _ \<Rightarrow> 0 | Inr (Inl _) \<Rightarrow> 0 | Inr (Inr (_, _, _, _, _, _, _, n, k, _)) \<Rightarrow> Suc (n - k)]") auto

declare run_iters.simps [simp del]

text \<open>\<open>run_body\<close>: a fresh body over the executor's ledger and registry.\<close>

record body_result =
  br_outcome :: body_outcome
  br_reasons :: "reason list"
  br_events :: "step_event list"

definition fresh_body :: "'w exec \<Rightarrow> 'w exec" where
  "fresh_body x = x\<lparr>x_events := [], x_reasons := [], x_outcome := None, x_flight := None\<rparr>"

text \<open>The guard: an escaping exception marks the event in flight and ends the body.\<close>

definition contain :: "exn \<Rightarrow> 'w exec \<Rightarrow> 'w exec" where
  "contain e x = terminate ExecutionError (UncaughtException e)
     (case x_flight x of
        None \<Rightarrow> x
      | Some a \<Rightarrow> upd_event a (\<lambda>ev. ev\<lparr>ev_status := EvError, ev_code := Some (DispatchCode INTERNAL_ERROR),
          ev_dispatch := DispatchUnknown\<rparr>) x)"

definition body_events :: "'w exec \<Rightarrow> step_event list" where
  "body_events x = map (\<lambda>a. x_heap x ! a) (x_events x)"

definition body_result_of :: "'w exec \<Rightarrow> body_result" where
  "body_result_of x = \<lparr>br_outcome = (case x_outcome x of None \<Rightarrow> Completed | Some out \<Rightarrow> out),
     br_reasons = x_reasons x, br_events = body_events x\<rparr>"

definition run_body :: "'w world \<Rightarrow> exec_config \<Rightarrow> step list \<Rightarrow> string \<Rightarrow> int \<Rightarrow> 'w exec \<Rightarrow> body_result \<times> 'w exec" where
  "run_body W C steps run deadline x =
     (let x' = (case run_block W C deadline run [] [] steps (fresh_body x) of
         (Inl e, x1) \<Rightarrow> contain e x1 | (Inr _, x1) \<Rightarrow> x1)
      in (body_result_of x', x'))"

definition fresh_exec :: "'w \<Rightarrow> 'w exec" where
  "fresh_exec w = \<lparr>x_world = w, x_heap = [], x_events = [], x_reasons = [], x_outcome = None, x_flight = None,
     x_ledger = (\<lambda>_. None), x_issued = (\<lambda>_. [])\<rparr>"

end
