(* ===== verification/Interpreter.thy ===== *)
theory Interpreter
  imports Executor
begin

text \<open>
  Laws of the interpreter. \<open>leaf_rel P n a\<close> relates the states around one leaf whose event stands at
  address \<open>a\<close>: what a leaf may touch, and that every dispatch it makes satisfies \<open>P\<close>. The locale
  \<open>body_relation\<close> lifts any relation that the heads of the steps respect to whole blocks. Dispatches
  are observed by a world that keeps a log beside the real one.
\<close>

section \<open>A world that keeps a log\<close>

type_synonym dispatch_record = "string \<times> op_request \<times> int"

definition recorded :: "'w world \<Rightarrow> ('w \<times> dispatch_record list) world" where
  "recorded W = \<lparr>w_has = w_has W,
     w_now = (\<lambda>(w, l). case w_now W w of (w', t) \<Rightarrow> ((w', l), t)),
     w_wait = (\<lambda>d (w, l). case w_wait W d w of (w', e) \<Rightarrow> ((w', l), e)),
     w_wall = (\<lambda>(w, l). case w_wall W w of (w', t) \<Rightarrow> ((w', l), t)),
     w_dispatch = (\<lambda>dev q dl (w, l). case w_dispatch W dev q dl w of (w', r) \<Rightarrow> ((w', l @ [(dev, q, dl)]), r))\<rparr>"

abbreviation dispatches :: "('w \<times> dispatch_record list) exec \<Rightarrow> dispatch_record list" where
  "dispatches x \<equiv> snd (x_world x)"

section \<open>What a leaf may touch\<close>

definition ev_ok :: "'w exec \<Rightarrow> nat \<Rightarrow> bool" where
  "ev_ok x a \<longleftrightarrow> a < length (x_heap x) \<and> ev_status (x_heap x ! a) = EvOk"

definition same_frame :: "nat \<Rightarrow> 'w exec \<Rightarrow> 'w exec \<Rightarrow> bool" where
  "same_frame a x y \<longleftrightarrow> x_ledger y = x_ledger x \<and> x_events y = x_events x \<and> x_flight y = x_flight x \<and>
     length (x_heap y) = length (x_heap x) \<and> (\<forall>b. b \<noteq> a \<longrightarrow> x_heap y ! b = x_heap x ! b) \<and>
     prefix (x_reasons x) (x_reasons y) \<and> (x_outcome x \<noteq> None \<longrightarrow> x_outcome y = x_outcome x) \<and>
     (x_outcome x = None \<longrightarrow> (x_outcome y = None \<longleftrightarrow> x_reasons y = x_reasons x) \<and> x_outcome y \<noteq> Some Completed) \<and>
     (x_outcome y = None \<and> ev_ok x a \<longrightarrow> ev_ok y a) \<and>
     (\<forall>i. DeadlineBefore i \<in> set (x_reasons y) \<longrightarrow> DeadlineBefore i \<in> set (x_reasons x))"

definition leaf_rel :: "(dispatch_record \<Rightarrow> bool) \<Rightarrow> nat \<Rightarrow> nat \<Rightarrow> ('w \<times> dispatch_record list) exec \<Rightarrow>
    ('w \<times> dispatch_record list) exec \<Rightarrow> bool" where
  "leaf_rel P n a x y \<longleftrightarrow> same_frame a x y \<and>
     (\<exists>new. dispatches y = dispatches x @ new \<and> list_all P new \<and> length new \<le> n)"

lemma same_frame_refl [simp]: "same_frame a x x"
  by (simp add: same_frame_def)

lemma same_frame_trans: "same_frame a x y \<Longrightarrow> same_frame a y z \<Longrightarrow> same_frame a x z"
  unfolding same_frame_def
  by (cases "x_outcome x"; cases "x_outcome y") (auto dest: prefix_order.antisym intro: prefix_order.trans)

lemma leaf_rel_refl [simp]: "leaf_rel P n a x x"
  by (simp add: leaf_rel_def)

lemma leaf_rel_add: "leaf_rel P m a x y \<Longrightarrow> leaf_rel P n a y z \<Longrightarrow> leaf_rel P (m + n) a x z"
  unfolding leaf_rel_def using same_frame_trans by fastforce

lemma leaf_rel_trans: "leaf_rel P n a x y \<Longrightarrow> leaf_rel P 0 a y z \<Longrightarrow> leaf_rel P n a x z"
  using leaf_rel_add [of P n a x y 0 z] by simp

lemma leaf_rel_trans0: "leaf_rel P 0 a x y \<Longrightarrow> leaf_rel P n a y z \<Longrightarrow> leaf_rel P n a x z"
  using leaf_rel_add [of P 0 a x y n z] by simp

lemma leaf_rel_mono: "leaf_rel P m a x y \<Longrightarrow> m \<le> n \<Longrightarrow> leaf_rel P n a x y"
  unfolding leaf_rel_def by fastforce

text \<open>Effects before the dispatch of a step, and effects after it.\<close>

lemma bind_before:
  assumes "leaf_rel P 0 a x (snd m)" "\<And>v y. m = (Inr v, y) \<Longrightarrow> leaf_rel P n a y (snd (f v y))"
  shows "leaf_rel P n a x (snd (bind_x m f))"
proof (cases m)
  case (Pair r y)
  show ?thesis
  proof (cases r)
    case (Inl e)
    with Pair assms(1) leaf_rel_mono [of P 0 a x y n] show ?thesis by (simp add: bind_x_def)
  next
    case (Inr v)
    with Pair assms leaf_rel_trans0 show ?thesis by (fastforce simp: bind_x_def)
  qed
qed

lemma bind_after:
  assumes "leaf_rel P n a x (snd m)" "\<And>v y. m = (Inr v, y) \<Longrightarrow> leaf_rel P 0 a y (snd (f v y))"
  shows "leaf_rel P n a x (snd (bind_x m f))"
proof (cases m)
  case (Pair r y)
  show ?thesis
  proof (cases r)
    case (Inl e)
    with Pair assms(1) show ?thesis by (simp add: bind_x_def)
  next
    case (Inr v)
    with Pair assms leaf_rel_trans show ?thesis by (fastforce simp: bind_x_def)
  qed
qed

text \<open>Elementary effects: an update of the own event that keeps it healthy, or one that ends the body.\<close>

lemma rel_upd: "(\<And>e. ev_status e = EvOk \<Longrightarrow> ev_status (f e) = EvOk) \<Longrightarrow> leaf_rel P n a x (upd_event a f x)"
  by (auto simp: leaf_rel_def same_frame_def upd_event_def ev_ok_def)

lemma rel_end: "oc \<noteq> Completed \<Longrightarrow> \<forall>i. r \<noteq> DeadlineBefore i \<Longrightarrow> leaf_rel P n a x (terminate oc r x)"
  by (auto simp: leaf_rel_def same_frame_def terminate_def split: option.splits)

lemma rel_end_upd: "oc \<noteq> Completed \<Longrightarrow> \<forall>i. r \<noteq> DeadlineBefore i \<Longrightarrow> leaf_rel P n a x (terminate oc r (upd_event a f x))"
  by (auto simp: leaf_rel_def same_frame_def terminate_def upd_event_def split: option.splits)

lemma rel_world: "dispatches y = dispatches x \<Longrightarrow> \<exists>w. y = x\<lparr>x_world := w\<rparr> \<Longrightarrow> leaf_rel P n a x y"
  by (auto simp: leaf_rel_def same_frame_def ev_ok_def)

lemma rel_issued [simp]: "leaf_rel P n a x (x\<lparr>x_issued := b\<rparr>)"
  by (auto simp: leaf_rel_def same_frame_def ev_ok_def)

lemma rel_now [simp]: "leaf_rel P n a x (snd (now_ns (recorded W) x))"
  by (rule rel_world) (auto simp: now_ns_def recorded_def split: prod.splits)

lemma rel_wall [simp]: "leaf_rel P n a x (snd (now_wall (recorded W) x))"
  by (rule rel_world) (auto simp: now_wall_def recorded_def split: prod.splits)

lemma rel_wait [simp]: "leaf_rel P n a x (x\<lparr>x_world := fst (w_wait (recorded W) d (x_world x))\<rparr>)"
  by (rule rel_world) (auto simp: recorded_def split: prod.splits)

lemma rel_deny [simp]: "leaf_rel P n a x (deny i a d x)"
  unfolding deny_def fail_event_def by (rule rel_end_upd) simp_all

lemma rel_unresolved [simp]: "leaf_rel P n a x (unresolved i a e x)"
  unfolding unresolved_def fail_event_def by (rule rel_end_upd) simp_all

lemma rel_operation [simp]: "leaf_rel P n a x (enter_operation a op x)"
  unfolding enter_operation_def by (rule rel_upd) simp

lemma rel_digest [simp]: "leaf_rel P n a x (snd (enter_digest a v x))"
  by (auto simp: enter_digest_def split: sum.splits intro: rel_upd)

lemma rel_settle [simp]: "leaf_rel P n a x (settle_failure (recorded W) dl i a r err x)"
proof -
  have "leaf_rel P n a x (terminate oc r (snd (now_ns (recorded W) (upd_event a f x))))"
    if "oc \<noteq> Completed" "\<forall>i. r \<noteq> DeadlineBefore i" for oc r f
    using that by (auto simp: leaf_rel_def same_frame_def terminate_def upd_event_def now_ns_def recorded_def
        split: option.splits prod.splits)
  moreover have "leaf_rel P n a x (terminate oc r (upd_event a f x))" if "oc \<noteq> Completed" "\<forall>i. r \<noteq> DeadlineBefore i" for oc r f
    using that by (rule rel_end_upd)
  ultimately show ?thesis
    unfolding settle_failure_def Let_def split_beta by simp
qed

section \<open>One dispatch\<close>

lemma rel_dispatch:
  assumes "\<And>t. t \<le> dl \<Longrightarrow> w_has W dev \<Longrightarrow> P (dev, q, t)"
  shows "leaf_rel P (Suc 0) a x (snd (dispatch (recorded W) dl dev q i timeout a x))"
proof -
  obtain w l where xw: "x_world x = (w, l)" by (cases "x_world x")
  obtain w1 t where now: "w_now W w = (w1, t)" by (cases "w_now W w")
  let ?t = "min (t + timeout * 1000000) dl"
  obtain w2 answer where ans: "w_dispatch W dev q ?t w1 = (w2, answer)" by (cases "w_dispatch W dev q ?t w1")
  let ?x2 = "x\<lparr>x_world := (w2, l @ [(dev, q, ?t)])\<rparr>"
  have seen: "leaf_rel P (Suc 0) a x ?x2" if "w_has W dev"
    using that assms [of ?t] by (auto simp: leaf_rel_def same_frame_def ev_ok_def xw)
  have run: "snd (dispatch (recorded W) dl dev q i timeout a x) =
     (if \<not> w_has W dev then x else case answer of
        Inl e \<Rightarrow> ?x2
      | Inr r \<Rightarrow> if r_status r = StOk then upd_event a (\<lambda>e. e\<lparr>ev_status := EvOk, ev_dispatch := Dispatched\<rparr>) ?x2
          else (case r_error r of None \<Rightarrow> terminate ExecutionError (NoErrorCarried i) ?x2
            | Some err \<Rightarrow> settle_failure (recorded W) dl i a r err ?x2))"
    by (simp add: dispatch_def now_ns_def xw recorded_def now ans Let_def split: sum.splits option.splits)
  have ok: "leaf_rel P 0 a ?x2 (upd_event a (\<lambda>e. e\<lparr>ev_status := EvOk, ev_dispatch := Dispatched\<rparr>) ?x2)"
    by (rule rel_upd) simp
  have none: "leaf_rel P 0 a ?x2 (terminate ExecutionError (NoErrorCarried i) ?x2)" by (rule rel_end) simp_all
  show ?thesis
    unfolding run
    using leaf_rel_trans [OF seen ok] leaf_rel_trans [OF seen none] leaf_rel_trans [OF seen rel_settle] seen
    by (simp split: sum.splits option.splits)
qed

lemma rel_guarded:
  assumes "\<And>t. t \<le> dl \<Longrightarrow> w_has W dev \<Longrightarrow> allowed (cf_validate C) (cf_rules C) dev kind target payload \<Longrightarrow> P (dev, q, t)"
  shows "leaf_rel P (Suc 0) a x (snd (guarded_dispatch (recorded W) C dl i dev kind target payload q timeout a x))"
proof (cases "snd (check_allowed (cf_validate C) (cf_rules C) dev kind target payload)")
  case (Inl d)
  then show ?thesis by (simp add: guarded_dispatch_def)
next
  case (Inr u)
  then have "allowed (cf_validate C) (cf_rules C) dev kind target payload" by (simp add: allowed_def)
  with assms have "leaf_rel P (Suc 0) a x (snd (dispatch (recorded W) dl dev q i timeout a x))"
    by (intro rel_dispatch) blast
  with Inr show ?thesis by (simp add: guarded_dispatch_def split_beta)
qed

section \<open>What a step may dispatch\<close>

text \<open>
  A dispatch that occurrence \<open>(run, i, path)\<close> may make under configuration \<open>C\<close>: to a device a role is
  bound to, under the identity of the occurrence, no later than the body deadline; and unless it is a
  read, with an action and a payload the allow rules permit.
\<close>

definition authorised :: "exec_config \<Rightarrow> int \<Rightarrow> occurrence \<Rightarrow> dispatch_record \<Rightarrow> bool" where
  "authorised C dl oc rec = (case oc of (run, i, path) \<Rightarrow> case rec of (dev, q, t) \<Rightarrow>
     t \<le> dl \<and> dev \<in> ran (map_of (rv_device (cf_binding C))) \<and>
     q_id q = (if q_verb q = CAPTURE then capture_id run i path else operation_id run i path) \<and>
     (case q_verb q of
        READ \<Rightarrow> \<exists>p. q_args q = [(''parameter'', JStr p)]
      | INVOKE \<Rightarrow> \<exists>action v. q_args q = [(''action_id'', JStr action), (''input'', v)] \<and>
          allowed (cf_validate C) (cf_rules C) dev ''invoke'' action v
      | WRITE \<Rightarrow> \<exists>p v. q_args q = [(''parameter'', JStr p), (''value'', v)] \<and>
          allowed (cf_validate C) (cf_rules C) dev ''write'' p v
      | CAPTURE \<Rightarrow> \<exists>fmt samples bytes.
          q_args q = (''capture_id'', JStr (q_id q)) # capture_payload fmt samples bytes \<and>
          allowed (cf_validate C) (cf_rules C) dev ''capture'' fmt (JObj (capture_payload fmt samples bytes))
      | _ \<Rightarrow> False))"

lemma lookup_key_ran: "lookup_key d k = Inr v \<Longrightarrow> v \<in> ran (map_of d)"
  by (auto simp: lookup_key_def ran_def split: option.splits)

lemma rel_derivation: "leaf_rel P 0 a x (snd (apply_derivation C dev r i a x))"
proof -
  have "leaf_rel P 0 a x (terminate ExecutionError (DerivationInvalid i e) (upd_event a f x))" for e f
    by (rule rel_end_upd) simp_all
  then show ?thesis
    by (simp add: apply_derivation_def split: option.split op_data.split pyval.split sum.split)
qed

lemma rel_resolve_input:
  "leaf_rel P 0 a x (snd (resolve_input C run scope role i path v a x))"
  by (simp add: resolve_input_def Let_def leaf_rel_trans [OF rel_issued rel_unresolved] split: prod.split sum.split)

lemma bind_resolved:
  assumes "leaf_rel P 0 a x (snd m)" "\<And>v y. m = (Some v, y) \<Longrightarrow> leaf_rel P n a y (snd (f v y))"
  shows "leaf_rel P n a x (snd (case m of (None, y) \<Rightarrow> (Inr VNone, y) | (Some v, y) \<Rightarrow> f v y))"
proof (cases m)
  case (Pair r y)
  with assms leaf_rel_mono [of P 0 a x y n] leaf_rel_trans0 [of P a x y n]
  show ?thesis by (cases r) auto
qed

lemma rel_unresolved_issued: "leaf_rel P n a x (unresolved i a e (x\<lparr>x_issued := b\<rparr>))"
  by (rule leaf_rel_trans [OF rel_issued rel_unresolved])

lemma rel_lookup: "leaf_rel P 0 a x (snd (lookup_key d k, x))"
  by simp

lemma rel_step_invoke:
  "leaf_rel (authorised C dl (run, i, path)) (Suc 0) a x
     (snd (step_invoke (recorded W) C dl run scope path i role action input timeout a x))"
  unfolding step_invoke_def
proof (rule bind_before, rule rel_lookup)
  fix dev y assume "(lookup_key (rv_device (cf_binding C)) role, x) = (Inr dev, y)"
  then have dev: "dev \<in> ran (map_of (rv_device (cf_binding C)))" and y: "y = x" using lookup_key_ran by auto
  let ?P = "authorised C dl (run, i, path)" and ?op = "operation_id run i path"
  let ?q = "\<lambda>v. \<lparr>q_id = ?op, q_verb = INVOKE, q_args = [(''action_id'', JStr action), (''input'', v)]\<rparr>"
  have gate: "leaf_rel ?P (Suc 0) a z (snd (guarded_dispatch (recorded W) C dl i dev ''invoke'' action v (?q v) timeout a
      (enter_operation a ?op z)))" for v z
    by (rule leaf_rel_trans0 [OF rel_operation rel_guarded]) (simp add: authorised_def dev)
  have rest: "leaf_rel ?P 0 a z (snd (case r of None \<Rightarrow> (Inr VNone, z)
      | Some q \<Rightarrow> if r_status q = StOk then bind_x (apply_derivation C dev q i a z) (\<lambda>q' x. (Inr (VOp q'), x))
          else (Inr (VOp q), z)))" for r z
    by (auto split: option.split intro: bind_before [OF rel_derivation])
  show "leaf_rel ?P (Suc 0) a y (snd (case resolve_input C run scope role i path (JObj input) a y of
      (None, x) \<Rightarrow> (Inr VNone, x)
    | (Some v, x) \<Rightarrow> bind_x (enter_digest a v x) (\<lambda>_ x. let op = ?op in
        bind_x (guarded_dispatch (recorded W) C dl i dev ''invoke'' action v
          \<lparr>q_id = op, q_verb = INVOKE, q_args = [(''action_id'', JStr action), (''input'', v)]\<rparr>
          timeout a (enter_operation a op x)) (\<lambda>r x. case r of None \<Rightarrow> (Inr VNone, x)
            | Some q \<Rightarrow> if r_status q = StOk then bind_x (apply_derivation C dev q i a x) (\<lambda>q' x. (Inr (VOp q'), x))
                else (Inr (VOp q), x)))))"
    unfolding Let_def
    by (rule bind_resolved, rule rel_resolve_input, rule bind_before, rule rel_digest, rule bind_after,
        rule gate, rule rest)
qed

lemma rel_step_write:
  "leaf_rel (authorised C dl (run, i, path)) (Suc 0) a x
     (snd (step_write (recorded W) C dl run scope path i role parameter v timeout a x))"
  unfolding step_write_def Let_def
proof (rule bind_before, rule rel_lookup, rule bind_resolved, rule rel_resolve_input, rule bind_before,
    rule rel_digest, rule bind_after, rule leaf_rel_trans0 [OF rel_operation rel_guarded])
  fix dev y t w assume "(lookup_key (rv_device (cf_binding C)) role, x) = (Inr dev, y)"
    and "t \<le> dl" "allowed (cf_validate C) (cf_rules C) dev ''write'' parameter w"
  then show "authorised C dl (run, i, path) (dev, request_write (operation_id run i path) parameter w, t)"
    using lookup_key_ran by (fastforce simp: authorised_def request_write_def)
qed simp

lemma rel_step_capture:
  "leaf_rel (authorised C dl (run, i, path)) (Suc 0) a x
     (snd (step_capture (recorded W) C dl run path i role fmt samples bytes timeout a x))"
  unfolding step_capture_def Let_def
proof (rule bind_before, rule rel_lookup, rule bind_before, rule leaf_rel_trans [OF rel_operation rel_digest],
    rule bind_after, rule leaf_rel_trans0 [OF rel_issued rel_guarded])
  fix dev y t assume "(lookup_key (rv_device (cf_binding C)) role, x) = (Inr dev, y)"
    and "t \<le> dl" "allowed (cf_validate C) (cf_rules C) dev ''capture'' fmt (JObj (capture_payload fmt samples bytes))"
  then show "authorised C dl (run, i, path) (dev, \<lparr>q_id = capture_id run i path, q_verb = CAPTURE,
      q_args = (''capture_id'', JStr (capture_id run i path)) # capture_payload fmt samples bytes\<rparr>, t)"
    using lookup_key_ran by (fastforce simp: authorised_def)
qed simp

lemma rel_step_read:
  "leaf_rel (authorised C dl (run, i, path)) (Suc 0) a x
     (snd (step_read (recorded W) C dl run scope path i role parameter timeout a x))"
proof -
  let ?P = "authorised C dl (run, i, path)" and ?op = "operation_id run i path"
  obtain r b where rb: "read_parameter C run scope role i path (JStr parameter) (x_issued x (run, i, path)) = (r, b)"
    by (cases "read_parameter C run scope role i path (JStr parameter) (x_issued x (run, i, path))")
  let ?x = "x\<lparr>x_issued := (x_issued x)((run, i, path) := b)\<rparr>"
  have gate: "leaf_rel ?P (Suc 0) a z (snd (dispatch (recorded W) dl dev (request_read ?op p) i timeout a (enter_operation a ?op z)))"
    if "dev \<in> ran (map_of (rv_device (cf_binding C)))" for dev p z
    by (rule leaf_rel_trans0 [OF rel_operation rel_dispatch]) (simp add: authorised_def request_read_def that)
  have go: "leaf_rel ?P (Suc 0) a ?x (snd (bind_x (lookup_key (rv_device (cf_binding C)) role, ?x) (\<lambda>dev x.
      bind_x (enter_digest a (JObj [(''parameter'', JStr p)]) x) (\<lambda>_ x.
        bind_x (dispatch (recorded W) dl dev (request_read ?op p) i timeout a (enter_operation a ?op x))
          (\<lambda>q x. (Inr (VOp q), x))))))" for p
    by (rule bind_before, rule rel_lookup, rule bind_before, rule rel_digest, rule bind_after, rule gate)
      (auto dest: lookup_key_ran)
  show ?thesis
    using leaf_rel_trans0 [OF rel_issued go]
    by (simp add: step_read_def rb Let_def rel_unresolved_issued split: sum.split)
qed

lemma rel_step_delay: "leaf_rel P 0 a x (snd (step_delay (recorded W) dl d a x))"
  unfolding step_delay_def
  by (rule bind_before, rule rel_digest)
    (simp add: Let_def split_beta leaf_rel_trans [OF rel_now rel_wait])

lemma rel_invalid_sample: "leaf_rel P n a x (terminate ExecutionError (InvalidSample i f) (fail_event a SampleCode x))"
  unfolding fail_event_def by (rule rel_end_upd) simp_all

lemma rel_invalid_predicate:
  "leaf_rel P n a x (terminate ExecutionError (InvalidPredicate i p st) (fail_event a SampleCode x))"
  unfolding fail_event_def by (rule rel_end_upd) simp_all

lemma rel_assertion: "leaf_rel P n a x (terminate AssertionFailed (assertion_failure scope i p) (upd_event a f x))"
  by (rule rel_end_upd) (auto simp: assertion_failure_def split: option.splits)

lemma rel_step_sample: "leaf_rel P 0 a x (snd (step_sample (recorded W) scope i src var u m req a x))"
  unfolding step_sample_def
  by (rule bind_before, rule rel_digest)
    (simp add: split_beta leaf_rel_trans [OF rel_wall rel_invalid_sample] split: sum.split option.split)

lemma rel_eval: "leaf_rel P n a x (snd (eval_predicate (recorded W) scope p x))"
  by (simp add: eval_predicate_def split_beta)

lemma rel_step_assert: "leaf_rel P 0 a x (snd (step_assert (recorded W) scope i p a x))"
  unfolding step_assert_def
  by (rule bind_before, rule rel_digest, rule bind_before, rule rel_eval)
    (simp add: rel_invalid_predicate rel_assertion split: option.split bool.split prod.split)

lemma rel_leaf:
  "leaf_rel (authorised C dl (run, step_id s, path)) (Suc 0) a x (snd (run_leaf (recorded W) C dl run scope path s a x))"
  by (cases s) (simp_all add: run_leaf_def rel_step_invoke rel_step_read rel_step_write rel_step_capture
    leaf_rel_mono [OF rel_step_delay] leaf_rel_mono [OF rel_step_sample] leaf_rel_mono [OF rel_step_assert])

section \<open>Lifting to blocks\<close>

definition post :: "('w exec \<Rightarrow> 'w exec \<Rightarrow> bool) \<Rightarrow> ('w exec \<Rightarrow> 'w exec \<Rightarrow> bool) \<Rightarrow> 'w exec \<Rightarrow> (exn + 'a) \<times> 'w exec \<Rightarrow> bool" where
  "post R E x m = (case m of (Inl _, y) \<Rightarrow> E x y | (Inr _, y) \<Rightarrow> R x y)"

lemma post_simps [simp]: "post R E x (Inl e, y) = E x y" "post R E x (Inr v, y) = R x y"
  by (simp_all add: post_def)

lemma before_step_go: "before_step W dl s x = (True, y) \<Longrightarrow> x_outcome y = None"
  by (auto simp: before_step_def now_ns_def split: if_splits prod.splits)

text \<open>
  What a relation between states has to satisfy step by step to hold across a whole body: \<open>R\<close> when
  an operation returns, \<open>E\<close> when it raises, for the steps \<open>S\<close> of the procedure.
\<close>

locale body_relation =
  fixes R E :: "'w exec \<Rightarrow> 'w exec \<Rightarrow> bool" and W :: "'w world" and C :: exec_config
    and dl :: int and run :: string and S :: "step set"
  assumes R_refl: "R x x"
    and R_trans: "R x y \<Longrightarrow> R y z \<Longrightarrow> R x z"
    and R_then_E: "R x y \<Longrightarrow> E y z \<Longrightarrow> E x z"
    and checked: "s \<in> S \<Longrightarrow> R x (snd (before_step W dl s x))"
    and leaf: "s \<in> S \<Longrightarrow> is_leaf s \<Longrightarrow> x_outcome x = None \<Longrightarrow> post R E x (exec_leaf W C dl run scope path s x)"
    and branch: "IfStep i p th el \<in> S \<Longrightarrow> x_outcome x = None \<Longrightarrow> post R E x (if_head W run scope path i p x)"
    and loop: "Repeat i n body \<in> S \<Longrightarrow> x_outcome x = None \<Longrightarrow> R x (snd (repeat_head run path i n x))"
    and settled: "R x (x\<lparr>x_flight := None\<rparr>)"
begin

lemma R_then_post: "R x y \<Longrightarrow> post R E y m \<Longrightarrow> post R E x m"
  using R_trans R_then_E by (cases m; cases "fst m") auto

lemma post_cons:
  assumes "s \<in> S"
    and step: "\<And>x1. x_outcome x1 = None \<Longrightarrow> before_step W dl s x = (True, x1) \<Longrightarrow>
      post R E x1 (run_step W C dl run scope path s x1)"
    and rest: "\<And>x1 v x2. before_step W dl s x = (True, x1) \<Longrightarrow> run_step W C dl run scope path s x1 = (Inr v, x2) \<Longrightarrow>
      post R E (x2\<lparr>x_flight := None\<rparr>) (run_block W C dl run ((step_id s, v) # scope) path ss (x2\<lparr>x_flight := None\<rparr>))"
  shows "post R E x (run_block W C dl run scope path (s # ss) x)"
proof (cases "before_step W dl s x")
  case (Pair go x1)
  with assms(1) checked [of s x] have R1: "R x x1" by simp
  show ?thesis
  proof (cases go)
    case False
    with Pair R1 show ?thesis by simp
  next
    case True
    with Pair have go: "before_step W dl s x = (True, x1)" by simp
    obtain r x2 where m: "run_step W C dl run scope path s x1 = (r, x2)" by (cases "run_step W C dl run scope path s x1")
    with step [OF before_step_go [OF go] go] have P: "post R E x1 (r, x2)" by simp
    show ?thesis
    proof (cases r)
      case (Inl e)
      with go m P R_then_E [OF R1] show ?thesis by simp
    next
      case (Inr v)
      with P R1 have "R x (x2\<lparr>x_flight := None\<rparr>)" using R_trans settled by (metis post_simps(2))
      with rest [OF go m [unfolded Inr]] go m Inr show ?thesis using R_then_post by simp
    qed
  qed
qed

lemma post_if:
  assumes "IfStep i p th el \<in> S" "x_outcome x = None"
    and "\<And>x1. post R E x1 (run_block W C dl run scope path th x1)"
    and "\<And>x1. post R E x1 (run_block W C dl run scope path el x1)"
  shows "post R E x (run_step W C dl run scope path (IfStep i p th el) x)"
proof (cases "if_head W run scope path i p x")
  case (Pair r x1)
  with branch [OF assms(1,2), of scope path] have P: "post R E x (r, x1)" by simp
  show ?thesis
  proof (cases "\<exists>b. r = Inr (Some b)")
    case True
    then obtain b where b: "r = Inr (Some b)" by blast
    let ?m = "if b then run_block W C dl run scope path th x1 else run_block W C dl run scope path el x1"
    have "post R E x ?m" using R_then_post [of x x1 ?m] P b assms(3,4) by simp
    with Pair b show ?thesis by (cases ?m; cases "fst ?m") (auto simp: post_def)
  next
    case False
    with Pair P show ?thesis by (auto simp: post_def split: sum.splits option.splits)
  qed
qed

lemma post_repeat:
  assumes "Repeat i n body \<in> S" "x_outcome x = None" and "\<And>x1. post R E x1 (run_iters W C dl run scope path body n 0 x1)"
  shows "post R E x (run_step W C dl run scope path (Repeat i n body) x)"
proof (cases "repeat_head run path i n x")
  case (Pair go x1)
  let ?m = "run_iters W C dl run scope path body n 0 x1"
  from loop [OF assms(1,2), of path] Pair have "R x x1" by simp
  with assms(3) R_then_post have "R x x1" "post R E x ?m" by blast+
  with Pair show ?thesis by (cases go; cases ?m; cases "fst ?m") (auto simp: post_def)
qed

lemma post_iter:
  assumes "\<And>x1. post R E x1 (run_block W C dl run scope (path @ [k]) body x1)"
    and "\<And>x1. post R E x1 (run_iters W C dl run scope path body n (Suc k) x1)"
  shows "post R E x (run_iters W C dl run scope path body n k x)"
proof (cases "run_block W C dl run scope (path @ [k]) body x")
  case (Pair r x1)
  with assms(1) [of x] have P: "post R E x (r, x1)" by simp
  show ?thesis
  proof (cases "n \<le> k \<or> x_outcome x \<noteq> None")
    case True
    then show ?thesis by (subst run_iters.simps) (simp add: R_refl)
  next
    case False
    then have "run_iters W C dl run scope path body n k x =
        (case r of Inl e \<Rightarrow> (Inl e, x1) | Inr _ \<Rightarrow> run_iters W C dl run scope path body n (Suc k) x1)"
      by (subst run_iters.simps) (simp add: Pair split: sum.split)
    with P R_then_post [OF _ assms(2)] show ?thesis
      by (cases r) (simp_all del: run_iters.simps)
  qed
qed

text \<open>Induction over the steps, on the number of iterations left inside a \<open>repeat\<close>.\<close>

lemma lifted_iters:
  assumes "\<And>path x. post R E x (run_block W C dl run scope path body x)"
  shows "post R E x (run_iters W C dl run scope path body n k x)"
proof (induction "n - k" arbitrary: k x)
  case 0
  then show ?case by (subst run_iters.simps) (simp add: R_refl)
next
  case (Suc d)
  then have "\<And>x1. post R E x1 (run_iters W C dl run scope path body n (Suc k) x1)" by simp
  with assms post_iter show ?case by blast
qed

lemma block_post: "set (walk_steps ss) \<subseteq> S \<Longrightarrow> post R E x (run_block W C dl run scope path ss x)"
proof (induction ss arbitrary: scope path x rule: walk_steps.induct)
  case 1
  then show ?case by (simp add: R_refl)
next
  case (2 s rest)
  then have sub: "s \<in> S" "set (walk_steps rest) \<subseteq> S" by auto
  show ?case
  proof (rule post_cons [OF sub(1)])
    fix x1 :: "'w exec" assume going: "x_outcome x1 = None"
    consider (Leaf) "is_leaf s" | (If) i p th el where "s = IfStep i p th el" | (Rep) i n body where "s = Repeat i n body"
      by (cases s) auto
    then show "post R E x1 (run_step W C dl run scope path s x1)"
    proof cases
      case Leaf
      with leaf [OF sub(1) Leaf going, of scope path] show ?thesis by (cases s) auto
    next
      case If
      with 2 sub have "\<And>x. post R E x (run_block W C dl run scope path th x)"
          "\<And>x. post R E x (run_block W C dl run scope path el x)" by auto
      with sub If going show ?thesis unfolding If by (intro post_if) simp_all
    next
      case Rep
      with 2 sub have "\<And>path x. post R E x (run_block W C dl run scope path body x)" by auto
      with sub Rep going show ?thesis unfolding Rep by (intro post_repeat lifted_iters) simp_all
    qed
  next
    fix v and x2 :: "'w exec"
    show "post R E (x2\<lparr>x_flight := None\<rparr>)
        (run_block W C dl run ((step_id s, v) # scope) path rest (x2\<lparr>x_flight := None\<rparr>))"
      by (rule "2.IH"(4)) (rule sub(2))
  qed
qed

end

end
