(* ===== verification/Execution.thy ===== *)
theory Execution
  imports Interpreter
begin

text \<open>
  Properties of a body execution: the gate in front of every dispatch, one dispatch per occurrence,
  replay without physical work, honest completion, and what an exception in a dispatch leaves behind.
\<close>

section \<open>Leaves\<close>

fun is_known :: "step \<Rightarrow> bool" where
  "is_known (OtherStep _ _) = False"
| "is_known _ = True"

definition leaf_result :: "occurrence \<Rightarrow> step \<Rightarrow> nat \<Rightarrow> (exn + scope_val) \<Rightarrow> 'w exec \<Rightarrow> (exn + scope_val) \<times> 'w exec" where
  "leaf_result oc s a r y = (case r of Inl e \<Rightarrow> (Inl e, y)
     | Inr v \<Rightarrow> (Inr v, if is_known s then record_leaf oc s a v y else y))"

lemma exec_leaf_replayed: "x_ledger x (run, step_id s, path) = Some en \<Longrightarrow>
    exec_leaf W C dl run scope path s x = (Inr (en_result en), snd (replay_end en (replay_event en x)))"
  by (simp add: exec_leaf_def)

lemma open_event_facts [simp]:
  "x_ledger (snd (open_event e x)) = x_ledger x" "x_world (snd (open_event e x)) = x_world x"
  "x_outcome (snd (open_event e x)) = x_outcome x" "x_reasons (snd (open_event e x)) = x_reasons x"
  "x_events (snd (open_event e x)) = x_events x @ [length (x_heap x)]"
  "x_heap (snd (open_event e x)) = x_heap x @ [e]" "fst (open_event e x) = length (x_heap x)"
  by (simp_all add: open_event_def Let_def)

lemma exec_leaf_fresh:
  assumes "x_ledger x (run, step_id s, path) = None"
  obtains r y where
    "leaf_rel (authorised C dl (run, step_id s, path)) (Suc 0) (length (x_heap x))
       (snd (open_event (new_event (run, step_id s, path) (step_kind s) NoDigest) x)) y"
    "exec_leaf (recorded W) C dl run scope path s x =
       leaf_result (run, step_id s, path) s (length (x_heap x)) r y"
    "\<not> is_known s \<longrightarrow> r = Inr VNone \<and> x_outcome y \<noteq> None \<and> dispatches y = dispatches x"
proof -
  let ?oc = "(run, step_id s, path)" and ?a = "length (x_heap x)"
  let ?x = "snd (open_event (new_event ?oc (step_kind s) NoDigest) x)"
  show thesis
  proof (cases "is_known s")
    case True
    obtain r y where m: "run_leaf (recorded W) C dl run scope path s ?a ?x = (r, y)"
      by (cases "run_leaf (recorded W) C dl run scope path s ?a ?x")
    have "leaf_rel (authorised C dl ?oc) (Suc 0) ?a ?x y"
      using rel_leaf [of C dl run s path ?a ?x W scope] by (simp add: m)
    moreover have "exec_leaf (recorded W) C dl run scope path s x = leaf_result ?oc s ?a r y"
      using True assms m
      by (cases s; cases r) (simp_all add: exec_leaf_def Let_def split_beta bind_x_def leaf_result_def)
    ultimately show thesis using that True by blast
  next
    case False
    then obtain i k where s: "s = OtherStep i k" by (cases s) auto
    let ?y = "terminate ExecutionError (UnknownKind k i) ?x"
    have "leaf_rel (authorised C dl ?oc) (Suc 0) ?a ?x ?y" by (rule rel_end) simp_all
    moreover have "exec_leaf (recorded W) C dl run scope path s x = leaf_result ?oc s ?a (Inr VNone) ?y"
      using s assms by (simp add: exec_leaf_def Let_def split_beta leaf_result_def)
    moreover have "x_outcome ?y \<noteq> None" "dispatches ?y = dispatches x"
      by (simp_all add: terminate_def split: option.split)
    ultimately show thesis using that by blast
  qed
qed

lemma record_leaf_facts [simp]:
  "x_ledger (record_leaf oc s a v x) oc' = (if oc' = oc then
     Some \<lparr>en_event = a, en_result = v, en_issued = x_issued (record_leaf oc s a v x) oc,
       en_end = (case x_outcome x of None \<Rightarrow> None | Some out \<Rightarrow> Some (out, last (x_reasons x)))\<rparr> else x_ledger x oc')"
  "x_world (record_leaf oc s a v x) = x_world x" "x_outcome (record_leaf oc s a v x) = x_outcome x"
  "x_reasons (record_leaf oc s a v x) = x_reasons x" "x_events (record_leaf oc s a v x) = x_events x"
  "x_heap (record_leaf oc s a v x) = x_heap x"
  by (simp_all add: record_leaf_def Let_def)

lemma replay_facts [simp]:
  "x_ledger (replay_event en x) = x_ledger x" "x_world (replay_event en x) = x_world x"
  "x_outcome (replay_event en x) = x_outcome x" "x_reasons (replay_event en x) = x_reasons x"
  "x_heap (replay_event en x) = x_heap x" "x_events (replay_event en x) = x_events x @ [en_event en]"
  "x_ledger (snd (replay_end en x)) = x_ledger x" "x_world (snd (replay_end en x)) = x_world x"
  "x_heap (snd (replay_end en x)) = x_heap x" "x_events (snd (replay_end en x)) = x_events x"
  "prefix (x_reasons x) (x_reasons (snd (replay_end en (replay_event en x))))"
  "x_outcome x = None \<Longrightarrow> x_outcome (snd (replay_end en x)) = map_option fst (en_end en)"
  "x_outcome x = None \<Longrightarrow> fst (replay_end en x) \<longleftrightarrow> en_end en \<noteq> None"
  by (simp_all add: replay_event_def replay_end_def terminate_def split: option.split prod.split)

lemma terminate_facts [simp]:
  "x_ledger (terminate oc r x) = x_ledger x" "x_world (terminate oc r x) = x_world x"
  "x_heap (terminate oc r x) = x_heap x" "x_events (terminate oc r x) = x_events x"
  "x_reasons (terminate oc r x) = x_reasons x @ [r]" "x_outcome (terminate oc r x) \<noteq> None"
  "x_outcome x = None \<Longrightarrow> x_outcome (terminate oc r x) = Some oc"
  by (simp_all add: terminate_def split: option.split)

lemma upd_event_facts [simp]:
  "x_ledger (upd_event a f x) = x_ledger x" "x_world (upd_event a f x) = x_world x"
  "x_events (upd_event a f x) = x_events x" "length (x_heap (upd_event a f x)) = length (x_heap x)"
  "x_outcome (upd_event a f x) = x_outcome x" "x_reasons (upd_event a f x) = x_reasons x"
  by (simp_all add: upd_event_def)

section \<open>Dispatches and the ledger\<close>

text \<open>
  From \<open>x\<close> to \<open>y\<close> the ledger only grows, and the dispatches made belong to distinct occurrences of
  the run that the ledger did not hold, each authorised for its own occurrence. After a return (\<open>finished\<close>)
  the ledger holds them all.
\<close>

definition disciplined :: "bool \<Rightarrow> exec_config \<Rightarrow> int \<Rightarrow> string \<Rightarrow> step set \<Rightarrow> ('w \<times> dispatch_record list) exec \<Rightarrow>
    ('w \<times> dispatch_record list) exec \<Rightarrow> bool" where
  "disciplined finished C dl run S x y \<longleftrightarrow> x_ledger x \<subseteq>\<^sub>m x_ledger y \<and> prefix (x_reasons x) (x_reasons y) \<and>
     (\<exists>ocs new. dispatches y = dispatches x @ new \<and> list_all2 (authorised C dl) ocs new \<and> distinct ocs \<and>
        set ocs \<inter> dom (x_ledger x) = {} \<and> (finished \<longrightarrow> set ocs \<subseteq> dom (x_ledger y)) \<and>
        (\<forall>oc \<in> set ocs. \<exists>s \<in> S. \<exists>path. oc = (run, step_id s, path)))"

lemma disciplined_quiet: "x_ledger x \<subseteq>\<^sub>m x_ledger y \<Longrightarrow> dispatches y = dispatches x \<Longrightarrow>
    prefix (x_reasons x) (x_reasons y) \<Longrightarrow> disciplined d C dl run S x y"
  unfolding disciplined_def by (intro conjI exI [of _ "[]"]) simp_all

lemma disciplined_trans:
  assumes "disciplined True C dl run S x y" "disciplined d C dl run S y z"
  shows "disciplined d C dl run S x z"
proof -
  have reasons: "prefix (x_reasons x) (x_reasons z)"
    using assms unfolding disciplined_def by (meson prefix_order.trans)
  from assms(1) obtain ocs new where 1: "x_ledger x \<subseteq>\<^sub>m x_ledger y" "dispatches y = dispatches x @ new"
      "list_all2 (authorised C dl) ocs new" "distinct ocs" "set ocs \<inter> dom (x_ledger x) = {}"
      "set ocs \<subseteq> dom (x_ledger y)" "\<forall>oc \<in> set ocs. \<exists>s \<in> S. \<exists>path. oc = (run, step_id s, path)"
    unfolding disciplined_def by blast
  from assms(2) obtain ocs' new' where 2: "x_ledger y \<subseteq>\<^sub>m x_ledger z" "dispatches z = dispatches y @ new'"
      "list_all2 (authorised C dl) ocs' new'" "distinct ocs'" "set ocs' \<inter> dom (x_ledger y) = {}"
      "d \<longrightarrow> set ocs' \<subseteq> dom (x_ledger z)" "\<forall>oc \<in> set ocs'. \<exists>s \<in> S. \<exists>path. oc = (run, step_id s, path)"
    unfolding disciplined_def by blast
  have "dom (x_ledger x) \<subseteq> dom (x_ledger y)" "dom (x_ledger y) \<subseteq> dom (x_ledger z)"
    using 1(1) 2(1) by (simp_all add: map_le_implies_dom_le)
  with 1(5,6) 2(5) have sets: "set ocs' \<inter> dom (x_ledger x) = {}" "set ocs \<subseteq> dom (x_ledger z)" "set ocs \<inter> set ocs' = {}"
    by blast+
  have le: "x_ledger x \<subseteq>\<^sub>m x_ledger z" using 1(1) 2(1) by (rule map_le_trans)
  show ?thesis
    unfolding disciplined_def
  proof (intro conjI exI [of _ "ocs @ ocs'"] exI [of _ "new @ new'"])
    show "set (ocs @ ocs') \<inter> dom (x_ledger x) = {}" using 1(5) sets(1) by (simp add: Int_Un_distrib2)
    show "d \<longrightarrow> set (ocs @ ocs') \<subseteq> dom (x_ledger z)" using 2(6) sets(2) by simp
    show "\<forall>oc \<in> set (ocs @ ocs'). \<exists>s \<in> S. \<exists>path. oc = (run, step_id s, path)"
      using 1(7) 2(7) by (simp add: ball_Un)
  qed (use 1 2 sets le reasons in \<open>simp_all add: list_all2_appendI\<close>)
qed

lemma disciplined_leaf:
  assumes "s \<in> S"
  shows "post (disciplined True C dl run S) (disciplined False C dl run S) x
    (exec_leaf (recorded W) C dl run scope path s x)"
proof (cases "x_ledger x (run, step_id s, path)")
  case (Some en)
  then show ?thesis by (simp add: exec_leaf_replayed disciplined_quiet)
next
  case None
  let ?oc = "(run, step_id s, path)" and ?a = "length (x_heap x)"
  obtain r y where rel: "leaf_rel (authorised C dl ?oc) (Suc 0) ?a (snd (open_event (new_event ?oc (step_kind s) NoDigest) x)) y"
    and run: "exec_leaf (recorded W) C dl run scope path s x = leaf_result ?oc s ?a r y"
    and unknown: "\<not> is_known s \<longrightarrow> r = Inr VNone \<and> x_outcome y \<noteq> None \<and> dispatches y = dispatches x"
    by (rule exec_leaf_fresh [OF None])
  from rel have reasons: "prefix (x_reasons x) (x_reasons y)" by (simp add: leaf_rel_def same_frame_def)
  from rel obtain new where new: "x_ledger y = x_ledger x" "dispatches y = dispatches x @ new"
      "list_all (authorised C dl ?oc) new" "length new \<le> Suc 0"
    by (auto simp: leaf_rel_def same_frame_def)
  let ?ocs = "if new = [] then [] else [?oc]"
  have ocs: "list_all2 (authorised C dl) ?ocs new" using new(3,4) by (cases new) auto
  have E: "disciplined False C dl run S x y"
    unfolding disciplined_def
    by (intro conjI exI [of _ ?ocs] exI [of _ new]) (use new ocs None assms reasons in \<open>auto split: if_splits\<close>)
  have le: "x_ledger x \<subseteq>\<^sub>m x_ledger (record_leaf ?oc s ?a v y)" for v
    using None new(1) by (auto simp: map_le_def)
  have R: "disciplined True C dl run S x (record_leaf ?oc s ?a v y)" for v
    unfolding disciplined_def
    by (intro conjI exI [of _ ?ocs] exI [of _ new]) (use le new ocs None assms reasons in \<open>auto split: if_splits\<close>)
  have U: "disciplined True C dl run S x y" if "\<not> is_known s"
    by (rule disciplined_quiet) (use that new unknown reasons in simp_all)
  show ?thesis
    unfolding run leaf_result_def using E R U by (cases r) auto
qed

lemma before_step_facts:
  "x_ledger (snd (before_step W dl s x)) = x_ledger x" "x_heap (snd (before_step W dl s x)) = x_heap x"
  "x_events (snd (before_step W dl s x)) = x_events x" "dispatches (snd (before_step (recorded V) dl s y)) = dispatches y"
  "prefix (x_reasons x) (x_reasons (snd (before_step W dl s x)))"
  by (auto simp: before_step_def now_ns_def recorded_def split: prod.splits)

lemma now_wall_facts [simp]:
  "x_ledger (snd (now_wall W x)) = x_ledger x" "x_heap (snd (now_wall W x)) = x_heap x"
  "x_events (snd (now_wall W x)) = x_events x" "x_outcome (snd (now_wall W x)) = x_outcome x"
  "x_reasons (snd (now_wall W x)) = x_reasons x" "dispatches (snd (now_wall (recorded V) y)) = dispatches y"
  by (auto simp: now_wall_def recorded_def split: prod.splits)

text \<open>A fresh decision: the event enters the body, and unless an exception escapes the ledger holds it.\<close>

lemma if_head_fresh:
  assumes "x_ledger x (run, i, path) = None" "x_outcome x = None"
  obtains (raised) e y where "if_head W run scope path i p x = (Inl e, y)" "x_ledger y = x_ledger x" "x_outcome y = None"
      "y = x \<or> y = snd (now_wall W (snd (open_event (new_event (run, i, path) ''if'' (Sha256 (sort_members (predicate_value p)))) x)))"
  | (decided) b y where "if_head W run scope path i p x = (Inr (Some b), y)" "x_outcome y = None"
      "y = (snd (now_wall W (snd (open_event (new_event (run, i, path) ''if'' (Sha256 (sort_members (predicate_value p)))) x))))
         \<lparr>x_ledger := (x_ledger x)((run, i, path) \<mapsto> \<lparr>en_event = length (x_heap x), en_result = VBool b, en_issued = [], en_end = None\<rparr>)\<rparr>"
  | (invalid) stale y where "if_head W run scope path i p x = (Inr None, y)"
      "y = (terminate ExecutionError (InvalidPredicate i (pr_sample p) stale) (fail_event (length (x_heap x)) SampleCode
         (snd (now_wall W (snd (open_event (new_event (run, i, path) ''if'' (Sha256 (sort_members (predicate_value p)))) x))))))
         \<lparr>x_ledger := (x_ledger x)((run, i, path) \<mapsto> \<lparr>en_event = length (x_heap x), en_result = VNone, en_issued = [],
            en_end = Some (ExecutionError, InvalidPredicate i (pr_sample p) stale)\<rparr>)\<rparr>"
proof (cases "sha256 (predicate_value p)")
  case (Inl e)
  with assms show thesis by (intro raised [of e x]) (simp_all add: if_head_def Let_def)
next
  case (Inr d)
  then have d: "d = Sha256 (sort_members (predicate_value p))" by (simp add: sha256_def split: option.splits)
  let ?x1 = "snd (open_event (new_event (run, i, path) ''if'' d) x)"
  let ?x2 = "snd (now_wall W ?x1)"
  obtain r where ev: "eval_predicate W scope p ?x1 = (r, ?x2)"
    by (simp add: eval_predicate_def split_beta)
  show thesis
  proof (cases r)
    case (Inl e)
    with assms Inr ev show thesis by (intro raised [of e ?x2]) (simp_all add: if_head_def Let_def split_beta bind_x_def d)
  next
    case out: (Inr hs)
    obtain held stale where hs: "hs = (held, stale)" by (cases hs)
    show thesis
    proof (cases held)
      case (Some b)
      with assms Inr ev out hs show thesis
        by (intro decided [of b]) (simp_all add: if_head_def Let_def split_beta bind_x_def d)
    next
      case None
      with assms Inr ev out hs show thesis
        by (intro invalid [of _ stale]) (simp_all add: if_head_def Let_def split_beta bind_x_def d fail_event_def)
    qed
  qed
qed

lemma if_head_replayed: "x_ledger x (run, i, path) = Some en \<Longrightarrow>
    \<exists>d. if_head W run scope path i p x = (Inr d, snd (replay_end en (replay_event en x)))"
  by (simp add: if_head_def split_beta)

lemma repeat_head_replayed: "x_ledger x (run, i, path) = Some en \<Longrightarrow>
    repeat_head run path i n x = (\<not> fst (replay_end en (replay_event en x)), snd (replay_end en (replay_event en x)))"
  by (simp add: repeat_head_def split_beta)

lemma repeat_head_fresh: "x_ledger x (run, i, path) = None \<Longrightarrow> repeat_head run path i n x = (True,
    (snd (open_event (new_event (run, i, path) ''repeat'' (Sha256 (JObj [(''count'', JInt (int n))]))) x))
      \<lparr>x_ledger := (x_ledger x)((run, i, path) \<mapsto> \<lparr>en_event = length (x_heap x), en_result = VNone, en_issued = [], en_end = None\<rparr>)\<rparr>)"
  by (simp add: repeat_head_def Let_def split_beta)

lemma map_le_lookup: "m \<subseteq>\<^sub>m m' \<Longrightarrow> m k = Some v \<Longrightarrow> m' k = Some v"
  unfolding map_le_def by (metis domIff option.distinct(1))

lemma map_le_fresh: "m oc = None \<Longrightarrow> m \<subseteq>\<^sub>m m(oc \<mapsto> en)"
  by (auto simp: map_le_def)

lemma disciplined_if:
  assumes "x_outcome x = None"
  shows "post (disciplined True C dl run S) (disciplined False C dl run S) x (if_head (recorded W) run scope path i p x)"
proof (cases "x_ledger x (run, i, path)")
  case (Some en)
  from if_head_replayed [of x run i path en "recorded W" scope p, OF Some] obtain d
    where "if_head (recorded W) run scope path i p x = (Inr d, snd (replay_end en (replay_event en x)))" by blast
  then show ?thesis by (simp add: disciplined_quiet)
next
  case None
  then show ?thesis using assms
    by (rule if_head_fresh [where W = "recorded W" and scope = scope and p = p])
      (auto simp: fail_event_def None intro!: disciplined_quiet map_le_fresh)
qed

interpretation discipline: body_relation "disciplined True C dl run S" "disciplined False C dl run S" "recorded W" C dl run S
  for W :: "'w world" and C dl run S
proof unfold_locales
  fix x y z :: "('w \<times> dispatch_record list) exec"
  show "disciplined True C dl run S x x" by (simp add: disciplined_quiet)
  show "disciplined True C dl run S x y \<Longrightarrow> disciplined True C dl run S y z \<Longrightarrow> disciplined True C dl run S x z"
    by (rule disciplined_trans)
  show "disciplined True C dl run S x y \<Longrightarrow> disciplined False C dl run S y z \<Longrightarrow> disciplined False C dl run S x z"
    by (rule disciplined_trans)
  show "disciplined True C dl run S x (snd (before_step (recorded W) dl s x))" for s
    by (rule disciplined_quiet) (simp_all add: before_step_facts)
  show "disciplined True C dl run S x (snd (repeat_head run path i n x))" for path i n
    by (cases "x_ledger x (run, i, path)")
      (auto simp: repeat_head_replayed repeat_head_fresh intro!: disciplined_quiet map_le_fresh)
  show "disciplined True C dl run S x (x\<lparr>x_flight := None\<rparr>)" by (rule disciplined_quiet) simp_all
qed (auto simp: disciplined_leaf disciplined_if)

lemma run_body_disciplined:
  "disciplined False C dl run (set (walk_steps steps)) (fresh_body x) (snd (run_body (recorded W) C steps run dl x))"
proof (cases "run_block (recorded W) C dl run [] [] steps (fresh_body x)")
  case (Pair r y)
  have "post (disciplined True C dl run (set (walk_steps steps))) (disciplined False C dl run (set (walk_steps steps)))
      (fresh_body x) (r, y)"
    using discipline.block_post [of steps "set (walk_steps steps)"] Pair by (metis subset_refl)
  then show ?thesis
    by (cases r) (auto simp: run_body_def Pair Let_def disciplined_def contain_def prefix_def split: option.split)
qed

lemma fresh_body_facts [simp]:
  "x_ledger (fresh_body x) = x_ledger x" "x_world (fresh_body x) = x_world x" "x_heap (fresh_body x) = x_heap x"
  "x_outcome (fresh_body x) = None" "x_reasons (fresh_body x) = []" "x_events (fresh_body x) = []"
  by (simp_all add: fresh_body_def)

section \<open>Nothing is dispatched without authority, and nothing twice\<close>

text \<open>
  Claim C2. The policy gate has no bypass: whatever the plugins, the validator and the procedure do,
  every dispatch a body run makes is one an occurrence of this run may make: to a device bound to
  some role, under that occurrence's identity, with a deadline no later than the body deadline, and for
  an invoke, a write or a capture with a target and exactly the payload the allow rules permit.
\<close>

theorem dispatches_authorised:
  "\<exists>new. dispatches (snd (run_body (recorded W) C steps run dl x)) = dispatches x @ new \<and>
     list_all (\<lambda>d. \<exists>s path. s \<in> set (walk_steps steps) \<and> authorised C dl (run, step_id s, path) d) new"
proof -
  obtain ocs new where 1: "dispatches (snd (run_body (recorded W) C steps run dl x)) = dispatches x @ new"
      "list_all2 (authorised C dl) ocs new" "\<forall>oc \<in> set ocs. \<exists>s \<in> set (walk_steps steps). \<exists>path. oc = (run, step_id s, path)"
    using run_body_disciplined [of C dl run steps x W] by (auto simp: disciplined_def)
  from 1(2,3) have "list_all (\<lambda>d. \<exists>s path. s \<in> set (walk_steps steps) \<and> authorised C dl (run, step_id s, path) d) new"
    by (induction rule: list_all2_induct) (simp, fastforce)
  with 1(1) show ?thesis by blast
qed

lemma distinct_map_list_all2:
  assumes "list_all2 P xs ys" "distinct xs"
    and "\<And>x x' y y'. x \<in> set xs \<Longrightarrow> x' \<in> set xs \<Longrightarrow> P x y \<Longrightarrow> P x' y' \<Longrightarrow> f y = f y' \<Longrightarrow> x = x'"
  shows "distinct (map f ys)"
  using assms
proof (induction rule: list_all2_induct)
  case (Cons x xs y ys)
  have "f y \<notin> f ` set ys"
  proof
    assume "f y \<in> f ` set ys"
    then obtain y' where "y' \<in> set ys" "f y = f y'" by blast
    with Cons.hyps obtain x' where "x' \<in> set xs" "P x' y'" by (metis in_set_conv_nth list_all2_conv_all_nth)
    with Cons.prems(2) [of x x' y y'] Cons.hyps(1) \<open>f y = f y'\<close> Cons.prems(1) show False by auto
  qed
  with Cons.IH Cons.prems show ?case by simp
qed simp

lemma authorised_id: "authorised C dl oc (dev, q, t) \<Longrightarrow> q_id q = (case oc of (run, i, path) \<Rightarrow>
    if q_verb q = CAPTURE then capture_id run i path else operation_id run i path)"
  by (auto simp: authorised_def)

lemma ids_differ: "operation_id run i path \<noteq> capture_id run' i' path'"
  by (simp add: operation_id_def capture_id_def)

text \<open>
  Claim C3. One dispatch per occurrence: with step ids free of dots, the operation and capture ids of
  all the dispatches a body run makes are pairwise different, and none of them belongs to an occurrence
  the ledger held when the run started. So recorded work is never repeated, on any path through the body.
\<close>

theorem one_dispatch_per_occurrence:
  assumes "\<forall>s \<in> set (walk_steps steps). CHR ''.'' \<notin> set (step_id s)"
    and "dispatches (snd (run_body (recorded W) C steps run dl x)) = dispatches x @ new"
  shows "distinct (map (\<lambda>(dev, q, t). q_id q) new) \<and>
    (\<forall>dev q t i path. (dev, q, t) \<in> set new \<and> CHR ''.'' \<notin> set i \<and>
       (q_id q = operation_id run i path \<or> q_id q = capture_id run i path) \<longrightarrow> x_ledger x (run, i, path) = None)"
proof -
  obtain ocs where 1: "list_all2 (authorised C dl) ocs new" "distinct ocs" "set ocs \<inter> dom (x_ledger x) = {}"
      "\<forall>oc \<in> set ocs. \<exists>s \<in> set (walk_steps steps). \<exists>path. oc = (run, step_id s, path)"
    using run_body_disciplined [of C dl run steps x W] assms(2) by (auto simp: disciplined_def)
  have dotfree: "\<exists>i path. oc = (run, i, path) \<and> CHR ''.'' \<notin> set i" if "oc \<in> set ocs" for oc
    using 1(4) assms(1) that by blast
  have key: "(run, i, path) = oc" if oc: "oc \<in> set ocs" and a: "authorised C dl oc (dev, q, t)" and i: "CHR ''.'' \<notin> set i"
      and q: "q_id q = operation_id run i path \<or> q_id q = capture_id run i path" for oc dev q t i path
  proof -
    from dotfree [OF oc] obtain j p where j: "oc = (run, j, p)" "CHR ''.'' \<notin> set j" by blast
    from authorised_id [OF a] j q ids_differ have "operation_id run i path = operation_id run j p \<or>
        capture_id run i path = capture_id run j p" by (auto split: if_splits) (metis ids_differ)+
    with suffix_inj [OF i j(2), of path p] j show ?thesis by (auto simp: operation_id_def capture_id_def)
  qed
  have "distinct (map (\<lambda>(dev, q, t). q_id q) new)"
  proof (rule distinct_map_list_all2 [OF 1(1,2)])
    fix oc oc' and d d' :: dispatch_record
    assume oc: "oc \<in> set ocs" "oc' \<in> set ocs" and a: "authorised C dl oc d" "authorised C dl oc' d'"
      and eq: "(\<lambda>(dev, q, t). q_id q) d = (\<lambda>(dev, q, t). q_id q) d'"
    obtain dev q t dev' q' t' where d: "d = (dev, q, t)" "d' = (dev', q', t')" by (cases d, cases d')
    from dotfree [OF oc(2)] obtain j p where j: "oc' = (run, j, p)" "CHR ''.'' \<notin> set j" by blast
    from authorised_id [OF a(2) [unfolded d]] eq d j(1)
    have "q_id q = operation_id run j p \<or> q_id q = capture_id run j p" by simp
    with key [OF oc(1) a(1) [unfolded d] j(2)] j(1) show "oc = oc'" by simp
  qed
  moreover have "x_ledger x (run, i, path) = None"
    if "(dev, q, t) \<in> set new" "CHR ''.'' \<notin> set i" "q_id q = operation_id run i path \<or> q_id q = capture_id run i path"
    for dev q t i path
  proof -
    from 1(1) that(1) obtain oc where "oc \<in> set ocs" "authorised C dl oc (dev, q, t)"
      by (metis in_set_conv_nth list_all2_conv_all_nth)
    with key [OF this that(2,3)] 1(3) show ?thesis by blast
  qed
  ultimately show ?thesis by blast
qed

section \<open>Completion is honest\<close>

text \<open>
  The events of the body and of the ledger's ordinary entries exist and say \<open>ok\<close>, as long as the body
  has no outcome.
\<close>

definition healthy_ledger :: "'w exec \<Rightarrow> bool" where
  "healthy_ledger x \<longleftrightarrow> (\<forall>oc en. x_ledger x oc = Some en \<longrightarrow>
     en_event en < length (x_heap x) \<and> (en_end en = None \<longrightarrow> ev_ok x (en_event en)) \<and>
     (\<forall>r. en_end en \<noteq> Some (Completed, r)))"

definition healthy :: "'w exec \<Rightarrow> bool" where
  "healthy x \<longleftrightarrow> healthy_ledger x \<and> (\<forall>a \<in> set (x_events x). a < length (x_heap x)) \<and>
     x_outcome x \<noteq> Some Completed \<and> (x_outcome x = None \<longrightarrow> x_reasons x = [] \<and> (\<forall>a \<in> set (x_events x). ev_ok x a))"

definition not_completed :: "'w exec \<Rightarrow> 'w exec \<Rightarrow> bool" where
  "not_completed x y \<longleftrightarrow> (healthy x \<longrightarrow> x_outcome y \<noteq> Some Completed)"

definition keeps_healthy :: "'w exec \<Rightarrow> 'w exec \<Rightarrow> bool" where
  "keeps_healthy x y \<longleftrightarrow> (healthy x \<longrightarrow> healthy y)"

lemma healthy_cong: "x_heap y = x_heap x \<Longrightarrow> x_ledger y = x_ledger x \<Longrightarrow> x_events y = x_events x \<Longrightarrow>
    x_outcome y = x_outcome x \<Longrightarrow> x_reasons y = x_reasons x \<Longrightarrow> healthy y = healthy x"
  by (simp add: healthy_def healthy_ledger_def ev_ok_def)

lemma healthy_terminate: "healthy x \<Longrightarrow> x_outcome x = None \<Longrightarrow> out \<noteq> Completed \<Longrightarrow> healthy (terminate out r x)"
  by (simp add: healthy_def healthy_ledger_def ev_ok_def)

lemma healthy_replay:
  assumes "healthy x" "x_outcome x = None" "x_ledger x oc = Some en"
  shows "healthy (snd (replay_end en (replay_event en x)))"
proof -
  from assms(1,3) have en: "en_event en < length (x_heap x)" "en_end en = None \<Longrightarrow> ev_ok x (en_event en)"
      "\<And>r. en_end en \<noteq> Some (Completed, r)"
    unfolding healthy_def healthy_ledger_def by blast+
  show ?thesis
  proof (cases "en_end en")
    case None
    with assms(1,2) en(1,2) show ?thesis by (simp add: healthy_def healthy_ledger_def ev_ok_def replay_end_def)
  next
    case (Some e)
    with en(3) [of "snd e"] have "fst e \<noteq> Completed" by (cases e) simp
    with assms(1,2) Some en(1) show ?thesis
      by (simp add: healthy_def healthy_ledger_def ev_ok_def replay_end_def split_beta)
  qed
qed

text \<open>A step opens its event, leaves every other event alone, and then enters the ledger.\<close>

lemma healthy_step:
  assumes h: "healthy x" "x_outcome x = None" and e: "ev_status e = EvOk"
    and f: "same_frame (length (x_heap x)) (snd (open_event e x)) y"
    and z: "x_heap z = x_heap y" "x_events z = x_events y" "x_reasons z = x_reasons y" "x_outcome z = x_outcome y"
    and l: "x_ledger z = x_ledger x \<or> x_ledger z = (x_ledger x)(oc \<mapsto> en) \<and> en_event en = length (x_heap x) \<and>
      map_option fst (en_end en) = x_outcome y"
  shows "healthy z"
proof -
  let ?a = "length (x_heap x)"
  have len: "length (x_heap y) = Suc ?a" and ev: "x_events y = x_events x @ [?a]"
    and other: "\<And>b. b < ?a \<Longrightarrow> x_heap y ! b = x_heap x ! b"
    using f by (auto simp: same_frame_def nth_append)
  have ok: "ev_ok (snd (open_event e x)) ?a" using e by (simp add: ev_ok_def)
  have old: "ev_ok z b" if "ev_ok x b" for b using that len other z by (auto simp: ev_ok_def)
  have out: "x_outcome y \<noteq> Some Completed" using f h by (auto simp: same_frame_def)
  have new: "ev_ok z ?a" "x_reasons y = []" if "x_outcome y = None"
    using that f ok h z by (auto simp: same_frame_def ev_ok_def healthy_def)
  have ledger: "healthy_ledger z"
  proof (cases "x_ledger z = x_ledger x")
    case True
    from h(1) old len z have "en_event en < length (x_heap z) \<and> (en_end en = None \<longrightarrow> ev_ok z (en_event en)) \<and>
        (\<forall>r. en_end en \<noteq> Some (Completed, r))" if "x_ledger x k = Some en" for k en
      using that unfolding healthy_def healthy_ledger_def by (metis less_Suc_eq)
    with True show ?thesis by (simp add: healthy_ledger_def)
  next
    case False
    with l have l: "x_ledger z = (x_ledger x)(oc \<mapsto> en)" "en_event en = ?a" "map_option fst (en_end en) = x_outcome y" by auto
    from l(3) new(1) out have "en_end en = None \<longrightarrow> ev_ok z ?a" "en_end en \<noteq> Some (Completed, r)" for r by auto
    moreover from h(1) old len z have "en_event en < length (x_heap z) \<and> (en_end en = None \<longrightarrow> ev_ok z (en_event en)) \<and>
        (\<forall>r. en_end en \<noteq> Some (Completed, r))" if "x_ledger x k = Some en" for k en
      using that unfolding healthy_def healthy_ledger_def by (metis less_Suc_eq)
    ultimately show ?thesis using l(1,2) len z(1) by (simp add: healthy_ledger_def)
  qed
  with h old new out len ev z show ?thesis unfolding healthy_def by auto
qed

lemma healthy_leaf:
  assumes "x_outcome x = None"
  shows "post keeps_healthy not_completed x (exec_leaf (recorded W) C dl run scope path s x)"
proof (cases "x_ledger x (run, step_id s, path)")
  case (Some en)
  with assms healthy_replay show ?thesis by (auto simp: exec_leaf_replayed keeps_healthy_def)
next
  case None
  let ?oc = "(run, step_id s, path)" and ?a = "length (x_heap x)"
  let ?e = "new_event ?oc (step_kind s) NoDigest"
  obtain r y where rel: "leaf_rel (authorised C dl ?oc) (Suc 0) ?a (snd (open_event ?e x)) y"
    and run: "exec_leaf (recorded W) C dl run scope path s x = leaf_result ?oc s ?a r y"
    by (rule exec_leaf_fresh [OF None])
  from rel have f: "same_frame ?a (snd (open_event ?e x)) y" by (simp add: leaf_rel_def)
  have e: "ev_status ?e = EvOk" by (simp add: new_event_def)
  have ledger: "x_ledger y = x_ledger x" using f by (simp add: same_frame_def)
  have "healthy (record_leaf ?oc s ?a v y)" "healthy y" if "healthy x" for v
  proof -
    show "healthy (record_leaf ?oc s ?a v y)"
      by (rule healthy_step [OF that assms e f, of _ ?oc "the (x_ledger (record_leaf ?oc s ?a v y) ?oc)"])
        (auto simp: record_leaf_def Let_def ledger split: option.splits)
    show "healthy y" by (rule healthy_step [OF that assms e f]) (simp_all add: ledger)
  qed
  moreover from f assms have "x_outcome y \<noteq> Some Completed" by (simp add: same_frame_def)
  ultimately show ?thesis by (cases r) (simp_all add: run leaf_result_def keeps_healthy_def not_completed_def)
qed

lemma healthy_if:
  assumes "x_outcome x = None"
  shows "post keeps_healthy not_completed x (if_head (recorded W) run scope path i p x)"
proof (cases "x_ledger x (run, i, path)")
  case (Some en)
  from if_head_replayed [of x run i path en "recorded W" scope p, OF Some] obtain d
    where "if_head (recorded W) run scope path i p x = (Inr d, snd (replay_end en (replay_event en x)))" by blast
  with assms Some healthy_replay show ?thesis by (auto simp: keeps_healthy_def)
next
  case None
  let ?e = "new_event (run, i, path) ''if'' (Sha256 (sort_members (predicate_value p)))"
  let ?x1 = "snd (open_event ?e x)" and ?a = "length (x_heap x)"
  have e: "ev_status ?e = EvOk" by (simp add: new_event_def)
  have wall: "same_frame ?a ?x1 (snd (now_wall (recorded W) ?x1))"
    using rel_wall [of "\<lambda>_. True" 0 ?a ?x1 W] by (simp add: leaf_rel_def)
  have fail: "same_frame ?a ?x1 (terminate ExecutionError (InvalidPredicate i (pr_sample p) st)
      (fail_event ?a SampleCode (snd (now_wall (recorded W) ?x1))))" for st
    using same_frame_trans [OF wall] rel_invalid_predicate [of "\<lambda>_. True" 0 ?a "snd (now_wall (recorded W) ?x1)"]
    by (simp add: leaf_rel_def)
  show ?thesis using None assms
  proof (rule if_head_fresh [where W = "recorded W" and scope = scope and p = p])
    fix b y
    assume "if_head (recorded W) run scope path i p x = (Inr (Some b), y)" "x_outcome y = None"
      and y: "y = (snd (now_wall (recorded W) ?x1))\<lparr>x_ledger := (x_ledger x)((run, i, path) \<mapsto>
        \<lparr>en_event = ?a, en_result = VBool b, en_issued = [], en_end = None\<rparr>)\<rparr>"
    moreover have "healthy y" if "healthy x"
      by (rule healthy_step [OF that assms e wall, of _ "(run, i, path)" "the (x_ledger y (run, i, path))"])
        (simp_all add: y assms)
    ultimately show ?thesis by (simp add: keeps_healthy_def)
  next
    fix st y
    assume "if_head (recorded W) run scope path i p x = (Inr None, y)"
      and y: "y = (terminate ExecutionError (InvalidPredicate i (pr_sample p) st)
        (fail_event ?a SampleCode (snd (now_wall (recorded W) ?x1))))
         \<lparr>x_ledger := (x_ledger x)((run, i, path) \<mapsto> \<lparr>en_event = ?a, en_result = VNone, en_issued = [],
            en_end = Some (ExecutionError, InvalidPredicate i (pr_sample p) st)\<rparr>)\<rparr>"
    moreover have "healthy y" if "healthy x"
      by (rule healthy_step [OF that assms e fail [of st], of _ "(run, i, path)" "the (x_ledger y (run, i, path))"])
        (simp_all add: y fail_event_def assms)
    ultimately show ?thesis by (simp add: keeps_healthy_def)
  qed (simp add: post_def not_completed_def)
qed

lemma healthy_repeat: "x_outcome x = None \<Longrightarrow> healthy x \<Longrightarrow> healthy (snd (repeat_head run path i n x))"
proof (cases "x_ledger x (run, i, path)")
  case (Some en)
  moreover assume "x_outcome x = None" "healthy x"
  ultimately show ?thesis by (simp add: repeat_head_replayed healthy_replay)
next
  case None
  let ?e = "new_event (run, i, path) ''repeat'' (Sha256 (JObj [(''count'', JInt (int n))]))"
  assume o: "x_outcome x = None" and h: "healthy x"
  show ?thesis
    by (rule healthy_step [OF h o, of ?e "snd (open_event ?e x)" _ "(run, i, path)"
        "the (x_ledger (snd (repeat_head run path i n x)) (run, i, path))"])
      (simp_all add: repeat_head_fresh [OF None] new_event_def o)
qed

interpretation honest: body_relation keeps_healthy not_completed "recorded W" C dl run S
  for W :: "'w world" and C dl run S
proof unfold_locales
  fix x :: "('w \<times> dispatch_record list) exec"
  show "keeps_healthy x (snd (before_step (recorded W) dl s x))" for s
  proof -
    obtain t w where n: "now_ns (recorded W) x = (t, x\<lparr>x_world := w\<rparr>)"
      by (cases "w_now (recorded W) (x_world x)") (simp add: now_ns_def)
    have "healthy (x\<lparr>x_world := w\<rparr>) = healthy x" by (rule healthy_cong) simp_all
    then show ?thesis by (simp add: keeps_healthy_def before_step_def n healthy_terminate)
  qed
  show "keeps_healthy x (x\<lparr>x_flight := None\<rparr>)"
    using healthy_cong [of "x\<lparr>x_flight := None\<rparr>" x] by (simp add: keeps_healthy_def)
  show "x_outcome x = None \<Longrightarrow> keeps_healthy x (snd (repeat_head run path i n x))" for path i n
    by (simp add: keeps_healthy_def healthy_repeat)
qed (auto simp: keeps_healthy_def not_completed_def healthy_leaf healthy_if)

text \<open>
  Claim C5. Completion is honest. Let every entry of the ledger the body starts from that did not end its run stand for an \<open>ok\<close>
  event, as in the empty ledger of a fresh run. When the body run reports \<open>completed\<close>, there is no reason on record, every step
  event it carries, replayed ones included, has status \<open>ok\<close>, and the ledger it leaves is again of that kind. An error, an uncertain
  dispatch, a failed assertion, a denied action or an exception always shows in the outcome. (A ledger that recovery rebuilt from the
  event stream may hold an error event whose run was interrupted before it was ended; of that the property does not speak.)
\<close>

theorem completion_honest:
  assumes "healthy_ledger x" "br_outcome (fst (run_body (recorded W) C steps run dl x)) = Completed"
  shows "br_reasons (fst (run_body (recorded W) C steps run dl x)) = [] \<and>
    list_all (\<lambda>e. ev_status e = EvOk) (br_events (fst (run_body (recorded W) C steps run dl x))) \<and>
    healthy_ledger (snd (run_body (recorded W) C steps run dl x))"
proof (cases "run_block (recorded W) C dl run [] [] steps (fresh_body x)")
  case (Pair r y)
  have start: "healthy (fresh_body x)" using assms(1) by (simp add: healthy_def healthy_ledger_def ev_ok_def)
  have post: "post keeps_healthy not_completed (fresh_body x) (r, y)"
    using honest.block_post [of steps UNIV, where W = W] Pair by (metis subset_UNIV)
  with start have y: "healthy y" if "r = Inr ()" using that by (simp add: keeps_healthy_def)
  have "r = Inr ()"
  proof (rule ccontr)
    assume "r \<noteq> Inr ()"
    then obtain e where e: "r = Inl e" by (cases r) auto
    with post start have "x_outcome y \<noteq> Some Completed" by (simp add: not_completed_def)
    then have "x_outcome (contain e y) \<noteq> None" "x_outcome (contain e y) \<noteq> Some Completed"
      by (auto simp: contain_def terminate_def split: option.splits)
    with assms(2) Pair e show False by (auto simp: run_body_def body_result_of_def Let_def)
  qed
  with assms(2) y Pair have "x_outcome y = None"
    by (auto simp: run_body_def body_result_of_def Let_def healthy_def split: option.splits)
  with y \<open>r = Inr ()\<close> Pair show ?thesis
    by (auto simp: run_body_def body_result_of_def Let_def healthy_def body_events_def ev_ok_def list_all_iff)
qed

section \<open>Replay\<close>

text \<open>
  A second execution \<open>m\<close> from \<open>z\<close>, over a ledger that contains what the first one left in \<open>y\<close> with the
  value \<open>v\<close>: it returns, touches neither ledger nor world log, and unless it has ended early it is
  where the first one was.
\<close>

definition follows :: "'a \<Rightarrow> 'v exec \<Rightarrow> ('w \<times> dispatch_record list) exec \<Rightarrow>
    (exn + 'a) \<times> ('w \<times> dispatch_record list) exec \<Rightarrow> bool" where
  "follows v y z m \<longleftrightarrow> (\<exists>v'. fst m = Inr v' \<and> x_ledger (snd m) = x_ledger z \<and> dispatches (snd m) = dispatches z \<and>
     (x_outcome (snd m) = None \<longrightarrow> x_outcome y = None \<and> v' = v))"

lemma quiet_block: "x_outcome z \<noteq> None \<Longrightarrow> run_block W C dl run scope path ss z = (Inr (), z)"
  by (cases ss) (auto simp: before_step_def)

lemma quiet_iters: "x_outcome z \<noteq> None \<Longrightarrow> run_iters W C dl run scope path body n k z = (Inr (), z)"
  by (subst run_iters.simps) simp

lemma follows_leaf:
  assumes run: "exec_leaf (recorded W) C dl run scope path s x = (Inr v, y)" and known: "is_known s"
    and o: "x_outcome x = None" "x_outcome z = None" and le: "x_ledger y \<subseteq>\<^sub>m x_ledger z"
  shows "follows v y z (exec_leaf (recorded V) C' dl' run scope' path s z)"
proof -
  let ?oc = "(run, step_id s, path)"
  have "\<exists>en. x_ledger y ?oc = Some en \<and> en_result en = v \<and> (en_end en = None \<longleftrightarrow> x_outcome y = None)"
  proof (cases "x_ledger x ?oc")
    case (Some en)
    with run have "v = en_result en" "y = snd (replay_end en (replay_event en x))" by (simp_all add: exec_leaf_replayed)
    with Some o(1) show ?thesis by (intro exI [of _ en]) simp
  next
    case None
    obtain r y' where "exec_leaf (recorded W) C dl run scope path s x = leaf_result ?oc s (length (x_heap x)) r y'"
      by (rule exec_leaf_fresh [OF None])
    with run known have y: "y = record_leaf ?oc s (length (x_heap x)) v y'" by (cases r) (auto simp: leaf_result_def)
    show ?thesis
      unfolding y by (intro exI [of _ "the (x_ledger (record_leaf ?oc s (length (x_heap x)) v y') ?oc)"])
        (simp split: option.split)
  qed
  then obtain en where en: "x_ledger y ?oc = Some en" "en_result en = v" "en_end en = None \<longleftrightarrow> x_outcome y = None"
    by (elim exE conjE) (rule that)
  have "x_ledger z ?oc = Some en" using le en(1) by (rule map_le_lookup)
  then have run': "exec_leaf (recorded V) C' dl' run scope' path s z = (Inr v, snd (replay_end en (replay_event en z)))"
    using en(2) by (simp add: exec_leaf_replayed)
  show ?thesis
    unfolding follows_def run' using en(3) o(2) by (cases "en_end en") simp_all
qed

lemma if_head_replay: "x_ledger x (run, i, path) = Some en \<Longrightarrow> x_outcome x = None \<Longrightarrow>
    if_head W run scope path i p x = (Inr (if en_end en \<noteq> None then None else case en_result en of VBool b \<Rightarrow> Some b | _ \<Rightarrow> None),
      snd (replay_end en (replay_event en x)))"
  by (simp add: if_head_def split_beta)

lemma follows_if:
  assumes run: "if_head (recorded W) run scope path i p x = (Inr d, y)"
    and o: "x_outcome x = None" "x_outcome z = None" and le: "x_ledger y \<subseteq>\<^sub>m x_ledger z"
  shows "follows d y z (if_head (recorded V) run scope' path i p z)"
proof -
  let ?oc = "(run, i, path)"
  have "\<exists>en. x_ledger y ?oc = Some en \<and> (en_end en = None \<longleftrightarrow> x_outcome y = None) \<and>
      (en_end en = None \<longrightarrow> d = (case en_result en of VBool b \<Rightarrow> Some b | _ \<Rightarrow> None))"
  proof (cases "x_ledger x ?oc")
    case (Some en)
    with run o(1) have "y = snd (replay_end en (replay_event en x))"
        "d = (if en_end en \<noteq> None then None else case en_result en of VBool b \<Rightarrow> Some b | _ \<Rightarrow> None)"
      by (simp_all add: if_head_replay)
    with Some o(1) show ?thesis by (intro exI [of _ en]) simp
  next
    case None
    then show ?thesis using o(1)
    proof (rule if_head_fresh [where W = "recorded W" and scope = scope and p = p])
      fix e y' assume "if_head (recorded W) run scope path i p x = (Inl e, y')"
      with run show ?thesis by simp
    next
      fix b y' assume "if_head (recorded W) run scope path i p x = (Inr (Some b), y')" "x_outcome y' = None"
        "y' = (snd (now_wall (recorded W) (snd (open_event (new_event ?oc ''if'' (Sha256 (sort_members (predicate_value p)))) x))))
           \<lparr>x_ledger := (x_ledger x)(?oc \<mapsto> \<lparr>en_event = length (x_heap x), en_result = VBool b, en_issued = [], en_end = None\<rparr>)\<rparr>"
      with run show ?thesis
        by (intro exI [of _ "\<lparr>en_event = length (x_heap x), en_result = VBool b, en_issued = [], en_end = None\<rparr>"]) auto
    next
      fix st y' assume "if_head (recorded W) run scope path i p x = (Inr None, y')"
        "y' = (terminate ExecutionError (InvalidPredicate i (pr_sample p) st) (fail_event (length (x_heap x)) SampleCode
           (snd (now_wall (recorded W) (snd (open_event (new_event ?oc ''if'' (Sha256 (sort_members (predicate_value p)))) x))))))
           \<lparr>x_ledger := (x_ledger x)(?oc \<mapsto> \<lparr>en_event = length (x_heap x), en_result = VNone, en_issued = [],
              en_end = Some (ExecutionError, InvalidPredicate i (pr_sample p) st)\<rparr>)\<rparr>"
      with run show ?thesis
        by (intro exI [of _ "\<lparr>en_event = length (x_heap x), en_result = VNone, en_issued = [],
          en_end = Some (ExecutionError, InvalidPredicate i (pr_sample p) st)\<rparr>"])
          (auto simp: fail_event_def o(1))
    qed
  qed
  then obtain en where en: "x_ledger y ?oc = Some en" "en_end en = None \<longleftrightarrow> x_outcome y = None"
      "en_end en = None \<longrightarrow> d = (case en_result en of VBool b \<Rightarrow> Some b | _ \<Rightarrow> None)"
    by (elim exE conjE) (rule that)
  have "x_ledger z ?oc = Some en" using le en(1) by (rule map_le_lookup)
  note run' = if_head_replay [OF this o(2), of "recorded V" scope' p]
  show ?thesis
    unfolding follows_def run' using en(2,3) o(2) by (cases "en_end en") simp_all
qed

lemma follows_repeat:
  assumes run: "repeat_head run path i n x = (go, y)"
    and o: "x_outcome x = None" "x_outcome z = None" and le: "x_ledger y \<subseteq>\<^sub>m x_ledger z"
  shows "\<exists>z'. repeat_head run path i n z = (x_outcome z' = None, z') \<and> x_ledger z' = x_ledger z \<and> dispatches z' = dispatches z \<and>
    (x_outcome z' = None \<longrightarrow> x_outcome y = None \<and> go)"
proof -
  let ?oc = "(run, i, path)"
  have "\<exists>en. x_ledger y ?oc = Some en \<and> (en_end en = None \<longleftrightarrow> x_outcome y = None) \<and> (go \<longleftrightarrow> x_outcome y = None)"
  proof (cases "x_ledger x ?oc")
    case (Some en)
    with run o(1) have "y = snd (replay_end en (replay_event en x))" "go = (en_end en = None)"
      by (cases "en_end en"; simp add: repeat_head_replayed)+
    with Some o(1) show ?thesis by (intro exI [of _ en]) simp
  next
    case None
    with run o(1) show ?thesis
      by (intro exI [of _ "\<lparr>en_event = length (x_heap x), en_result = VNone, en_issued = [], en_end = None\<rparr>"])
        (auto simp: repeat_head_fresh)
  qed
  then obtain en where en: "x_ledger y ?oc = Some en" "en_end en = None \<longleftrightarrow> x_outcome y = None" "go \<longleftrightarrow> x_outcome y = None"
    by (elim exE conjE) (rule that)
  have "x_ledger z ?oc = Some en" using le en(1) by (rule map_le_lookup)
  note run' = repeat_head_replayed [OF this, of n]
  show ?thesis
    unfolding run' using en(2,3) o(2)
    by (cases "en_end en"; intro exI [of _ "snd (replay_end en (replay_event en z))"]) simp_all
qed

text \<open>The first execution did not stop at a deadline check.\<close>

definition no_expiry :: "'w exec \<Rightarrow> bool" where
  "no_expiry y \<longleftrightarrow> (\<forall>i. DeadlineBefore i \<notin> set (x_reasons y))"

lemma block_disciplined:
  assumes "run_block (recorded W) C dl run scope path ss x = (Inr u, y)"
  shows "x_ledger x \<subseteq>\<^sub>m x_ledger y" "no_expiry y \<Longrightarrow> no_expiry x"
  using discipline.block_post [where ss = ss and S = UNIV and C = C and dl = dl and run = run and W = W and x = x and scope = scope and path = path] assms
  by (auto simp: disciplined_def no_expiry_def dest: set_mono_prefix)

lemma iters_disciplined:
  assumes "run_iters (recorded W) C dl run scope path body n k x = (Inr u, y)"
  shows "x_ledger x \<subseteq>\<^sub>m x_ledger y" "no_expiry y \<Longrightarrow> no_expiry x"
proof -
  have "post (disciplined True C dl run UNIV) (disciplined False C dl run UNIV) x
      (run_iters (recorded W) C dl run scope path body n k x)"
    by (rule discipline.lifted_iters, rule discipline.block_post) simp
  with assms have "x_ledger x \<subseteq>\<^sub>m x_ledger y" "prefix (x_reasons x) (x_reasons y)" by (simp_all add: disciplined_def)
  then show "x_ledger x \<subseteq>\<^sub>m x_ledger y" "no_expiry y \<Longrightarrow> no_expiry x"
    using set_mono_prefix unfolding no_expiry_def by blast+
qed

lemma before_step_first:
  assumes "before_step W dl s x = (go, x1)" "no_expiry x1" "x_outcome x = None"
  shows "go \<and> x_outcome x1 = None \<and> x_ledger x1 = x_ledger x"
  using assms by (auto simp: before_step_def now_ns_def no_expiry_def split: prod.splits if_splits)

lemma before_step_again:
  assumes "before_step (recorded V) dl s z = (go, z1)" "x_outcome z = None"
  shows "x_ledger z1 = x_ledger z \<and> dispatches z1 = dispatches z \<and> (go \<longleftrightarrow> x_outcome z1 = None)"
  using assms by (auto simp: before_step_def now_ns_def recorded_def split: prod.splits if_splits)

abbreviation block_follows :: "exec_config \<Rightarrow> int \<Rightarrow> string \<Rightarrow> 'w world \<Rightarrow> exec_config \<Rightarrow> int \<Rightarrow> 'v world \<Rightarrow> scope \<Rightarrow>
    nat list \<Rightarrow> step list \<Rightarrow> bool" where
  "block_follows C dl run W C' dl' V scope path ss \<equiv> \<forall>x y z. run_block (recorded W) C dl run scope path ss x = (Inr (), y) \<longrightarrow>
     x_outcome x = None \<longrightarrow> x_outcome z = None \<longrightarrow> no_expiry y \<longrightarrow> x_ledger y \<subseteq>\<^sub>m x_ledger z \<longrightarrow>
     follows () y z (run_block (recorded V) C' dl' run scope path ss z)"

lemma iters_follow:
  assumes block: "\<And>path. block_follows C dl run W C' dl' V scope path body"
  shows "run_iters (recorded W) C dl run scope path body n k x = (Inr (), y) \<Longrightarrow> x_outcome x = None \<Longrightarrow> x_outcome z = None \<Longrightarrow>
    no_expiry y \<Longrightarrow> x_ledger y \<subseteq>\<^sub>m x_ledger z \<Longrightarrow>
    follows () y z (run_iters (recorded V) C' dl' run scope path body n k z)"
proof (induction "n - k" arbitrary: k x z)
  case 0
  then show ?case by (simp add: follows_def run_iters.simps [of _ _ _ _ _ _ _ n k])
next
  case (Suc d)
  then have k: "\<not> n \<le> k" by simp
  from Suc.prems(1,2) k obtain x1 where b: "run_block (recorded W) C dl run scope (path @ [k]) body x = (Inr (), x1)"
      and rest: "run_iters (recorded W) C dl run scope path body n (Suc k) x1 = (Inr (), y)"
    by (subst (asm) run_iters.simps) (auto split: prod.splits sum.splits)
  note later = iters_disciplined [OF rest]
  from block b Suc.prems later have f: "follows () x1 z (run_block (recorded V) C' dl' run scope (path @ [k]) body z)"
    using map_le_trans by blast
  then obtain z1 where z1: "run_block (recorded V) C' dl' run scope (path @ [k]) body z = (Inr (), z1)"
      "x_ledger z1 = x_ledger z" "dispatches z1 = dispatches z" "x_outcome z1 = None \<longrightarrow> x_outcome x1 = None"
    by (cases "run_block (recorded V) C' dl' run scope (path @ [k]) body z") (auto simp: follows_def)
  have step: "run_iters (recorded V) C' dl' run scope path body n k z = run_iters (recorded V) C' dl' run scope path body n (Suc k) z1"
    using k Suc.prems(3) by (subst run_iters.simps) (simp add: z1(1))
  show ?case
  proof (cases "x_outcome z1")
    case None
    with z1 Suc.hyps(1) [of "Suc k" x1 z1] Suc.hyps(2) rest Suc.prems
    have "follows () y z1 (run_iters (recorded V) C' dl' run scope path body n (Suc k) z1)" by simp
    with z1 show ?thesis by (simp add: step follows_def)
  next
    case (Some out)
    with z1 show ?thesis by (simp add: step quiet_iters follows_def)
  qed
qed

text \<open>One step, given that the blocks inside it follow.\<close>

lemma step_follows:
  assumes run: "run_step (recorded W) C dl run scope path s x = (Inr v, y)" and known: "is_known s"
    and inner: "\<And>i p th el b. s = IfStep i p th el \<Longrightarrow> block_follows C dl run W C' dl' V scope path (if b then th else el)"
      "\<And>i n body path. s = Repeat i n body \<Longrightarrow> block_follows C dl run W C' dl' V scope path body"
    and o: "x_outcome x = None" "x_outcome z = None" and y: "no_expiry y" "x_ledger y \<subseteq>\<^sub>m x_ledger z"
  shows "follows v y z (run_step (recorded V) C' dl' run scope path s z)"
proof -
  consider (Leaf) "is_leaf s" | (If) i p th el where "s = IfStep i p th el" | (Rep) i n body where "s = Repeat i n body"
    by (cases s) auto
  then show ?thesis
  proof cases
    case Leaf
    then have e: "run_step W' D d run scope path s = exec_leaf W' D d run scope path s" for W' :: "('u \<times> dispatch_record list) world" and D d
      by (cases s) (simp_all add: fun_eq_iff)
    from Leaf run have "exec_leaf (recorded W) C dl run scope path s x = (Inr v, y)" by (cases s) simp_all
    from follows_leaf [OF this known o y(2), of V C' dl' scope] Leaf show ?thesis by (cases s) simp_all
  next
    case If
    let ?arm = "\<lambda>b. if b then th else el"
    obtain d x1 where h: "if_head (recorded W) run scope path i p x = (Inr d, x1)"
      using run If by (auto split: prod.splits sum.splits)
    have tail: "(d = None \<and> y = x1 \<and> v = VNone) \<or> (\<exists>b. d = Some b \<and> v = VBool b \<and>
        run_block (recorded W) C dl run scope path (?arm b) x1 = (Inr (), y))"
      using run If h by (cases d) (auto split: prod.splits sum.splits if_splits)
    have le1: "x_ledger x1 \<subseteq>\<^sub>m x_ledger z"
      using tail y(2) block_disciplined(1) map_le_trans by blast
    from follows_if [OF h o le1, of V scope] obtain d' z1 where z1: "if_head (recorded V) run scope path i p z = (Inr d', z1)"
        "x_ledger z1 = x_ledger z" "dispatches z1 = dispatches z" "x_outcome z1 = None \<longrightarrow> x_outcome x1 = None \<and> d' = d"
      by (cases "if_head (recorded V) run scope path i p z") (auto simp: follows_def)
    show ?thesis
    proof (cases d')
      case None
      with z1 tail If show ?thesis by (auto simp: follows_def)
    next
      case (Some b)
      have "follows () y z1 (run_block (recorded V) C' dl' run scope path (?arm b) z1) \<or> x_outcome z1 \<noteq> None"
        using tail inner(1) [OF If, of b] z1 Some y by (cases "x_outcome z1") auto
      then obtain z2 where "run_block (recorded V) C' dl' run scope path (?arm b) z1 = (Inr (), z2)"
          "x_ledger z2 = x_ledger z1" "dispatches z2 = dispatches z1" "x_outcome z2 = None \<longrightarrow> x_outcome z1 = None \<and> x_outcome y = None"
        using quiet_block [of z1 "recorded V" C' dl' run scope path "?arm b"]
        by (cases "x_outcome z1"; cases "run_block (recorded V) C' dl' run scope path (?arm b) z1") (auto simp: follows_def)
      with z1 tail Some If show ?thesis by (auto simp: follows_def)
    qed
  next
    case Rep
    obtain go x1 where h: "repeat_head run path i n x = (go, x1)" by (cases "repeat_head run path i n x")
    have tail: "(\<not> go \<and> y = x1 \<and> v = VNone) \<or> (go \<and> v = VNone \<and>
        run_iters (recorded W) C dl run scope path body n 0 x1 = (Inr (), y))"
      using run Rep h by (auto split: prod.splits sum.splits bool.splits)
    have le1: "x_ledger x1 \<subseteq>\<^sub>m x_ledger z"
      using tail y(2) iters_disciplined(1) map_le_trans by blast
    from follows_repeat [OF h o le1] obtain z1 where z1: "repeat_head run path i n z = (x_outcome z1 = None, z1)"
        "x_ledger z1 = x_ledger z" "dispatches z1 = dispatches z" "x_outcome z1 = None \<longrightarrow> x_outcome x1 = None \<and> go"
      by (elim exE conjE) (rule that)
    show ?thesis
    proof (cases "x_outcome z1")
      case (Some out)
      with z1 Rep show ?thesis by (simp add: follows_def)
    next
      case None
      with z1 tail have "follows () y z1 (run_iters (recorded V) C' dl' run scope path body n 0 z1)"
        using iters_follow [OF inner(2) [OF Rep]] y by auto
      with z1 None Rep tail show ?thesis
        by (cases "run_iters (recorded V) C' dl' run scope path body n 0 z1") (auto simp: follows_def)
    qed
  qed
qed

lemma all_block_follows:
  fixes W :: "'w world" and V :: "'v world"
  shows "list_all is_known (walk_steps ss) \<Longrightarrow> block_follows C dl run W C' dl' V scope path ss"
proof (induction ss arbitrary: scope path rule: walk_steps.induct)
  case 1
  then show ?case by (simp add: follows_def)
next
  case (2 s rest)
  have inner: "\<And>i p th el b. s = IfStep i p th el \<Longrightarrow> block_follows C dl run W C' dl' V scope path (if b then th else el)"
      "\<And>i n body path. s = Repeat i n body \<Longrightarrow> block_follows C dl run W C' dl' V scope path body"
    using "2.IH"(1-3) "2.prems" by auto
  have known: "is_known s" "list_all is_known (walk_steps rest)" using "2.prems" by auto
  show ?case
  proof (intro allI impI)
    fix x y :: "('w \<times> dispatch_record list) exec" and z :: "('v \<times> dispatch_record list) exec"
    assume run: "run_block (recorded W) C dl run scope path (s # rest) x = (Inr (), y)"
      and o: "x_outcome x = None" "x_outcome z = None" and ne: "no_expiry y" and le: "x_ledger y \<subseteq>\<^sub>m x_ledger z"
    obtain go x1 where b: "before_step (recorded W) dl s x = (go, x1)" by (cases "before_step (recorded W) dl s x")
    have go: "go"
      using run b ne before_step_first [of "recorded W" dl s x go x1] o(1) by (cases go) auto
    then have b: "before_step (recorded W) dl s x = (True, x1)" using b by simp
    obtain v x2 where step: "run_step (recorded W) C dl run scope path s x1 = (Inr v, x2)"
        and rest: "run_block (recorded W) C dl run ((step_id s, v) # scope) path rest (x2\<lparr>x_flight := None\<rparr>) = (Inr (), y)"
      using run b by (auto split: prod.splits sum.splits simp del: run_step.simps)
    have x2: "no_expiry x2" "x_ledger x2 \<subseteq>\<^sub>m x_ledger z"
      using block_disciplined [OF rest] ne le map_le_trans by (auto simp: no_expiry_def)
    obtain goz z1 where bz: "before_step (recorded V) dl' s z = (goz, z1)" by (cases "before_step (recorded V) dl' s z")
    note z1 = before_step_again [OF bz o(2)]
    show "follows () y z (run_block (recorded V) C' dl' run scope path (s # rest) z)"
    proof (cases goz)
      case False
      then have "before_step (recorded V) dl' s z = (False, z1)" using bz by simp
      then have m: "run_block (recorded V) C' dl' run scope path (s # rest) z = (Inr (), z1)" by simp
      have "x_outcome z1 \<noteq> None" using z1 False by blast
      with z1 show ?thesis unfolding m follows_def by auto
    next
      case True
      have "follows v x2 z1 (run_step (recorded V) C' dl' run scope path s z1)"
        by (rule step_follows [OF step known(1) _ _ before_step_go [OF b]])
          (use inner z1 True x2 in \<open>simp_all\<close>)
      then obtain v' z2 where sz: "run_step (recorded V) C' dl' run scope path s z1 = (Inr v', z2)" "x_ledger z2 = x_ledger z1"
          "dispatches z2 = dispatches z1" "x_outcome z2 = None \<longrightarrow> x_outcome x2 = None \<and> v' = v"
        by (cases "run_step (recorded V) C' dl' run scope path s z1") (auto simp: follows_def)
      let ?m = "run_block (recorded V) C' dl' run ((step_id s, v') # scope) path rest (z2\<lparr>x_flight := None\<rparr>)"
      have m: "run_block (recorded V) C' dl' run scope path (s # rest) z = ?m"
        using bz True sz(1) by (simp del: run_step.simps)
      show ?thesis
      proof (cases "x_outcome z2")
        case None
        have "follows () y (z2\<lparr>x_flight := None\<rparr>)
            (run_block (recorded V) C' dl' run ((step_id s, v) # scope) path rest (z2\<lparr>x_flight := None\<rparr>))"
          using "2.IH"(4) [OF known(2), of "(step_id s, v) # scope" path] rest sz None z1 ne le by auto
        with sz None z1 show ?thesis unfolding m by (simp add: follows_def)
      next
        case (Some out)
        with sz z1 show ?thesis unfolding m by (simp add: quiet_block follows_def)
      qed
    qed
  qed
qed

text \<open>
  Claim C4. Replay repeats no physical work: let a body run return without an exception and without
  stopping at a deadline check. Then a second run of the same procedure under the same run id, over any
  ledger that contains what the first one left, dispatches nothing and records nothing, whatever world,
  policy and deadline it runs under; and if the first run ended early, so does the second.
\<close>

theorem replay_dispatches_nothing:
  fixes W :: "'w world" and V :: "'v world"
  assumes "list_all is_known (walk_steps steps)"
    and "run_body (recorded W) C steps run dl x = (res, y)" "list_all (\<lambda>r. \<forall>e i. r \<noteq> UncaughtException e \<and> r \<noteq> DeadlineBefore i) (br_reasons res)"
    and "x_ledger y \<subseteq>\<^sub>m x_ledger z"
  shows "dispatches (snd (run_body (recorded V) C' steps run dl' z)) = dispatches z \<and>
    x_ledger (snd (run_body (recorded V) C' steps run dl' z)) = x_ledger z \<and>
    (x_outcome (snd (run_body (recorded V) C' steps run dl' z)) = None \<longrightarrow> br_outcome res = Completed)"
proof (cases "run_block (recorded W) C dl run [] [] steps (fresh_body x)")
  case (Pair r y1)
  have res: "br_reasons res = x_reasons y" "br_outcome res = (case x_outcome y of None \<Rightarrow> Completed | Some out \<Rightarrow> out)"
    using assms(2) by (auto simp: run_body_def Let_def body_result_of_def)
  have r: "r = Inr ()" "y = y1"
    using assms(2,3) res Pair by (cases r; force simp: run_body_def Let_def contain_def split: option.splits)+
  then have "no_expiry y1" using assms(3) res(1) by (auto simp: no_expiry_def list_all_iff)
  with all_block_follows [OF assms(1), where C = C and dl = dl and run = run and W = W and C' = C' and dl' = dl' and V = V
      and scope = "[]" and path = "[]"] Pair r assms(4)
  have "follows () y1 (fresh_body z) (run_block (recorded V) C' dl' run [] [] steps (fresh_body z))" by simp
  then show ?thesis
    using r res(2) by (cases "run_block (recorded V) C' dl' run [] [] steps (fresh_body z)")
      (auto simp: follows_def run_body_def Let_def body_result_of_def split: option.splits)
qed

section \<open>A run on the simulated bench\<close>

text \<open>One supply with one allowed action; the plugin's first \<open>n\<close> dispatches raise.\<close>

definition demo_config :: exec_config where
  "demo_config = \<lparr>cf_binding = \<lparr>rv_device = [(''supply'', ''psu'')], rv_channels = []\<rparr>,
     cf_rules = [[(''device_id'', JStr ''psu''), (''kind'', JStr ''invoke''), (''action_id'', JStr ''on''),
        (''input_constraints'', JObj [(''type'', JStr ''object'')])]],
     cf_validate = (\<lambda>_ _. Inr None), cf_derive = (\<lambda>_. None)\<rparr>"

definition demo_plugin :: "nat \<Rightarrow> string \<Rightarrow> op_request \<Rightarrow> int \<Rightarrow> nat \<Rightarrow> nat \<times> nat \<times> (exn + op_result)" where
  "demo_plugin failing dev q dl n = (Suc n, 1000000,
     if n < failing then Inl (PluginRaised ''ConnectionError'' ''lost'')
     else result_ok (q_id q) (q_verb q) (Raw (JObj [(''result'', JObj [(''kind'', JStr ''scalar_set''),
       (''variables'', JList [])])])))"

definition demo_world :: "nat \<Rightarrow> ((test_clock \<times> nat) \<times> dispatch_record list) world" where
  "demo_world failing = recorded (sim_world (\<lambda>_. True) (demo_plugin failing))"

definition demo_start :: "((test_clock \<times> nat) \<times> dispatch_record list) exec" where
  "demo_start = fresh_exec ((tc_init, 0), [])"

definition demo_body :: "step list" where
  "demo_body = [Repeat ''twice'' 2 [Invoke ''arm'' ''supply'' ''on'' [(''level'', JInt 3)] 100, Delay ''pause'' 5]]"

definition demo_run :: "nat \<Rightarrow> ((test_clock \<times> nat) \<times> dispatch_record list) exec \<Rightarrow>
    body_result \<times> ((test_clock \<times> nat) \<times> dispatch_record list) exec" where
  "demo_run failing x = run_body (demo_world failing) demo_config demo_body ''r'' 2000000000 x"

definition sent_ids :: "('w \<times> dispatch_record list) exec \<Rightarrow> string list" where
  "sent_ids x = map (\<lambda>(dev, q, t). q_id q) (dispatches x)"

lemma demo_world_simps:
  "w_has (demo_world n) d = True" "w_now (demo_world n) w = (w, tc_now_ns (fst (fst w)))"
  "w_wait (demo_world n) e w = (((tc_wait_ns e (fst (fst w)), snd (fst w)), snd w), None)"
  "w_dispatch (demo_world n) d q dl w = (case demo_plugin n d q dl (snd (fst w)) of (s, took, r) \<Rightarrow>
     (((tc_advance (int took) (fst (fst w)), s), snd w @ [(d, q, dl)]), r))"
  by (simp_all add: demo_world_def recorded_def sim_world_def split_beta)

lemma demo_config_simps:
  "rv_device (cf_binding demo_config) = [(''supply'', ''psu'')]" "rv_channels (cf_binding demo_config) = []"
  "cf_derive demo_config d = None"
  "check_allowed (cf_validate demo_config) (cf_rules demo_config) ''psu'' ''invoke'' ''on'' (JObj kvs) = ([], Inr ())"
  by (simp_all add: demo_config_def check_allowed_def matching_rules_def enumerate_eq_zip rule_matches_def
      target_key_def obj_get_def constraints_key_def)

lemmas interpreter_defs = run_body_def fresh_body_def run_iters.simps before_step_def now_ns_def
  exec_leaf_def open_event_def new_event_def run_leaf_def step_invoke_def bind_x_def lookup_key_def resolve_input_def
  resolve_context_def channels_of_def enter_digest_def sha256_def enter_operation_def upd_event_def guarded_dispatch_def
  dispatch_def apply_derivation_def record_leaf_def repeat_head_def replay_end_def replay_event_def terminate_def
  contain_def body_result_of_def fresh_exec_def step_delay_def body_events_def

lemmas demo_run_simps = demo_world_simps demo_config_simps interpreter_defs demo_start_def tc_now_ns_def tc_init_def
  tc_advance_def tc_wait_ns_def demo_plugin_def sent_ids_def operation_id_def reserved_key_def result_ok_def
  mk_result_def show_nat_small digit_char_def demo_run_def demo_body_def Let_def

lemma demo_completes:
  "br_outcome (fst (demo_run 0 demo_start)) = Completed" "br_reasons (fst (demo_run 0 demo_start)) = []"
  "sent_ids (snd (demo_run 0 demo_start)) = [''op:r:arm.0'', ''op:r:arm.1'']"
  by (simp_all add: demo_run_simps)

lemma demo_failure:
  "br_outcome (fst (demo_run 1 demo_start)) = ExecutionError" "sent_ids (snd (demo_run 1 demo_start)) = [''op:r:arm.0'']"
  "x_ledger (snd (demo_run 1 demo_start)) (''r'', ''arm'', [0]) = None"
  by (simp_all add: demo_run_simps)

lemma demo_again:
  "br_outcome (fst (demo_run 1 (snd (demo_run 1 demo_start)))) = Completed"
  "sent_ids (snd (demo_run 1 (snd (demo_run 1 demo_start)))) = [''op:r:arm.0'', ''op:r:arm.0'', ''op:r:arm.1'']"
  by (simp_all add: demo_run_simps)

lemma demo_run_recorded: "demo_run failing x = run_body (recorded (sim_world (\<lambda>_. True) (demo_plugin failing)))
    demo_config demo_body ''r'' 2000000000 x"
  by (simp add: demo_run_def demo_world_def)

lemma one_dispatch_per_occurrence_witness: "distinct (sent_ids (snd (demo_run 0 demo_start)))"
proof -
  have "\<forall>s \<in> set (walk_steps demo_body). CHR ''.'' \<notin> set (step_id s)" by (simp add: demo_body_def)
  moreover have "dispatches demo_start = []" by (simp add: demo_start_def fresh_exec_def)
  ultimately show ?thesis
    using one_dispatch_per_occurrence [of demo_body "sim_world (\<lambda>_. True) (demo_plugin 0)" demo_config "''r''" 2000000000 demo_start]
    by (simp add: demo_run_recorded sent_ids_def)
qed

lemma completion_honest_witness:
  "list_all (\<lambda>e. ev_status e = EvOk) (br_events (fst (demo_run 0 demo_start)))"
proof -
  have "healthy_ledger demo_start" by (simp add: healthy_ledger_def demo_start_def fresh_exec_def)
  from completion_honest [OF this demo_completes(1) [unfolded demo_run_recorded]]
  show ?thesis by (simp add: demo_run_recorded)
qed

lemma replay_dispatches_nothing_witness:
  "sent_ids (snd (demo_run 5 (snd (demo_run 0 demo_start)))) = [''op:r:arm.0'', ''op:r:arm.1'']"
proof -
  let ?y = "snd (demo_run 0 demo_start)"
  have run: "run_body (recorded (sim_world (\<lambda>_. True) (demo_plugin 0))) demo_config demo_body ''r'' 2000000000 demo_start =
      (fst (demo_run 0 demo_start), ?y)" by (simp add: demo_run_recorded)
  have "dispatches (snd (run_body (recorded (sim_world (\<lambda>_. True) (demo_plugin 5))) demo_config demo_body ''r'' 2000000000 ?y)) =
      dispatches ?y"
    by (rule replay_dispatches_nothing [OF _ run, THEN conjunct1]) (simp_all add: demo_body_def demo_completes(2))
  with demo_completes(3) show ?thesis by (simp add: demo_run_recorded sent_ids_def)
qed

text \<open>
  The ledger does not cover a dispatch that raises. On the simulated bench a plugin's first
  dispatch raises after the device saw the attempt: the run ends \<open>execution_error\<close>, the ledger holds
  no entry for the occurrence, and the executor's re-entry under the same run id dispatches the same operation id
  a second time and completes.
\<close>

theorem raised_dispatch_is_repeated:
  "br_outcome (fst (demo_run 1 demo_start)) = ExecutionError \<and>
   sent_ids (snd (demo_run 1 demo_start)) = [''op:r:arm.0''] \<and>
   x_ledger (snd (demo_run 1 demo_start)) (''r'', ''arm'', [0]) = None \<and>
   br_outcome (fst (demo_run 1 (snd (demo_run 1 demo_start)))) = Completed \<and>
   sent_ids (snd (demo_run 1 (snd (demo_run 1 demo_start)))) = [''op:r:arm.0'', ''op:r:arm.0'', ''op:r:arm.1'']"
  using demo_failure demo_again by simp

end
