(* ===== verification/Protection.thy ===== *)
theory Protection
  imports Interpreter
begin

text \<open>
  The safe-transition engine, \<open>control/protection.py\<close>: the snapshot of bench signals, the ordered
  safe actions under the fixed protective deadline, and verification, which polls until the conjunction
  has held long enough. The polling loop ends only if the clock moves, so it is an option: \<open>None\<close> is a
  loop that never returns. A plugin's answer is a result or the exception it raises.
\<close>

section \<open>The signal snapshot\<close>

text \<open>\<open>isinstance(x, int)\<close> also holds of the booleans.\<close>

fun int_like :: "pyval \<Rightarrow> int option" where
  "int_like (JInt i) = Some i"
| "int_like (JBool b) = Some (if b then 1 else 0)"
| "int_like _ = None"

definition bench_poll_ns :: "bench_signal list \<Rightarrow> int" where
  "bench_poll_ns signals = (let polls = List.map_filter (\<lambda>s. int_like (sg_poll_ms s)) signals in
     max 1 (if polls = [] then 10 else Min (set polls)) * 1000000)"

text \<open>\<open>_parse_wall\<close>: here a naive time is taken as UTC.\<close>

definition wall_utc :: "string \<Rightarrow> moment option" where
  "wall_utc s = map_option as_utc (fromiso_z s)"

definition nonnegative_float :: "pyval \<Rightarrow> exn + pyfloat option" where
  "nonnegative_float v = (case num_val v of
      Some x \<Rightarrow> if fle (Fin 0) x then bind_res (py_float v) (\<lambda>f. Inr (Some f)) else Inr None
    | None \<Rightarrow> Inr None)"

text \<open>The reading of a successful read, rebuilt as a plain one; anything else is a failed read.\<close>

definition plain_reading :: "exn + op_result \<Rightarrow> reading option" where
  "plain_reading answer = (case answer of
      Inl _ \<Rightarrow> None
    | Inr r \<Rightarrow> (case r_data r of
        AReading rd \<Rightarrow> if r_status r = StOk then (case mk_reading rd of Inl _ \<Rightarrow> None | Inr q \<Rightarrow> Some q) else None
      | _ \<Rightarrow> None))"

text \<open>\<open>int(x)\<close> of a nonnegative finite float.\<close>

definition whole_ms :: "pyfloat \<Rightarrow> int" where
  "whole_ms x = (case x of Fin q \<Rightarrow> \<lfloor>q\<rfloor> | _ \<Rightarrow> 0)"

definition signal_reading :: "bench_signal \<Rightarrow> reading \<Rightarrow> moment \<Rightarrow> exn + int \<times> pyfloat option" where
  "signal_reading sg rd now = (case wall_utc (rd_observed_at rd) of
      None \<Rightarrow> Inr (0, None)
    | Some observed \<Rightarrow>
        (if instant now < instant observed then Inr (0, None)
         else let age = max (whole_ms (elapsed_ms (instant now - instant observed))) (rd_age_ms rd) in
           if num_val (rd_value rd) \<noteq> None \<and> rd_quality rd = QValid \<and> age \<le> sg_max_age_ms sg
           then bind_res (py_float (rd_value rd)) (\<lambda>f. Inr (age, Some f))
           else Inr (age, None)))"

definition signal_of :: "bench_signal \<Rightarrow> reading option \<Rightarrow> moment option \<Rightarrow> exn + signal_value" where
  "signal_of sg rd now =
     bind_res (case (rd, now) of (Some r, Some t) \<Rightarrow> signal_reading sg r t | _ \<Rightarrow> Inr (0, None)) (\<lambda>(age, v).
       bind_res (nonnegative_float (sg_absolute_error sg)) (\<lambda>err.
         Inr \<lparr>sv_signal_id = sg_id sg, sv_value = (case v of None \<Rightarrow> Fin 0 | Some f \<Rightarrow> f),
           sv_unit = (case (rd, now) of (Some r, Some _) \<Rightarrow> (case rd_unit r of JStr u \<Rightarrow> u | _ \<Rightarrow> []) | _ \<Rightarrow> []),
           sv_age_ms = age, sv_valid = (v \<noteq> None), sv_absolute_error = err\<rparr>))"

definition read_signal :: "'w world \<Rightarrow> int \<Rightarrow> bench_signal \<Rightarrow> 'w \<Rightarrow> (exn + signal_value) \<times> 'w" where
  "read_signal W dl sg w =
     (case (if w_has W (sg_device sg) \<and> sg_kind sg = ''parameter'' then
              (case w_dispatch W (sg_device sg) (request_read (''signal:'' @ sg_id sg) (sg_parameter sg)) dl w of
                 (w1, answer) \<Rightarrow> (plain_reading answer, w1))
            else (None, w)) of
        (rd, w1) \<Rightarrow> (case w_wall W w1 of (w2, text) \<Rightarrow> (signal_of sg rd (wall_utc text), w2)))"

fun read_signals :: "'w world \<Rightarrow> int \<Rightarrow> bench_signal list \<Rightarrow> snapshot \<Rightarrow> 'w \<Rightarrow> (exn + snapshot) \<times> 'w" where
  "read_signals W dl [] snap w = (Inr snap, w)"
| "read_signals W dl (sg # sgs) snap w = (case read_signal W dl sg w of
      (Inl e, w1) \<Rightarrow> (Inl e, w1)
    | (Inr v, w1) \<Rightarrow> read_signals W dl sgs (snap(sg_id sg \<mapsto> v)) w1)"

definition read_signal_values :: "'w world \<Rightarrow> int \<Rightarrow> bench_signal list \<Rightarrow> 'w \<Rightarrow> (exn + snapshot) \<times> 'w" where
  "read_signal_values W dl signals w = read_signals W dl signals (\<lambda>_. None) w"

section \<open>Verification\<close>

datatype safe_state = Verified | SafeUnknown

text \<open>One look at the verify conjunction: the violations it shows.\<close>

definition poll_once :: "'w world \<Rightarrow> bench_signal list \<Rightarrow> condition list \<Rightarrow> int \<Rightarrow> 'w \<Rightarrow> (exn + violation list) \<times> 'w" where
  "poll_once W signals conds dl w = (case read_signal_values W dl signals w of
      (Inl e, w1) \<Rightarrow> (Inl e, w1)
    | (Inr snap, w1) \<Rightarrow> (evaluate_conditions conds snap, w1))"

partial_function (option) verify_loop :: "'w world \<Rightarrow> bench_signal list \<Rightarrow> condition list \<Rightarrow> int \<Rightarrow> int \<Rightarrow> int \<Rightarrow>
    int option \<Rightarrow> 'w \<Rightarrow> ((exn + safe_state) \<times> 'w) option" where
  "verify_loop W signals conds hold_ns poll dl since w =
     (case w_now W w of (w1, now) \<Rightarrow>
       (if dl - now \<le> 0 then Some (Inr SafeUnknown, w1)
        else case poll_once W signals conds dl w1 of
            (Inl e, w2) \<Rightarrow> Some (Inl e, w2)
          | (Inr viols, w2) \<Rightarrow>
              (let start = (case since of None \<Rightarrow> now | Some t \<Rightarrow> t); clean = (viols = []) in
               if clean \<and> hold_ns \<le> now - start then Some (Inr Verified, w2)
               else case w_wait W (if clean then min poll (min (hold_ns - (now - start)) (dl - now))
                     else min poll (dl - now)) w2 of
                   (w3, Some e) \<Rightarrow> Some (Inl e, w3)
                 | (w3, None) \<Rightarrow> verify_loop W signals conds hold_ns poll dl (if clean then Some start else None) w3)))"

section \<open>The engine\<close>

datatype action_error = UnknownDevice | UnsupportedKind | ActionFailed error_code string | ActionRaised exn

record action_record =
  ar_id :: string
  ar_device :: string
  ar_deadline :: int
  ar_status :: op_status
  ar_error :: "action_error option"

record transition =
  tr_max_duration_ms :: int
  tr_actions :: "safe_action list"
  tr_verify :: "condition list"
  tr_stable_ms :: int

text \<open>The reasons a run record may carry, by where they come from.\<close>

datatype run_reason =
    FromBody reason
  | Violated violation
  | SafeActionFailed string op_status
  | CancelledByPrincipal string
  | LeaseLost nat
  | LeaseExpired string
  | UncaughtProtection exn
  | Disclosure string string string
  | EchoDisagrees string string
  | GatewayRestart
  | GatewayStop

record engine =
  g_reasons :: "run_reason list"
  g_actions :: "action_record list"
  g_entered :: "int option"
  g_deadline :: "int option"
  g_standing :: "safe_state option"
  g_in_transition :: bool

record protection_result =
  px_safe_state :: safe_state
  px_reasons :: "run_reason list"
  px_actions :: "action_record list"
  px_entered_at :: int
  px_deadline :: int

definition add_reasons :: "run_reason list \<Rightarrow> engine \<Rightarrow> engine" where
  "add_reasons rs g = g\<lparr>g_reasons := add_new (g_reasons g) rs\<rparr>"

definition append_reason :: "run_reason \<Rightarrow> engine \<Rightarrow> engine" where
  "append_reason r g = add_reasons [r] g"

definition safe_action_request :: "safe_action \<Rightarrow> op_request option" where
  "safe_action_request a = (let op = ''protect:'' @ sa_id a in
     if sa_kind a = ''invoke'' then Some \<lparr>q_id = op, q_verb = INVOKE,
       q_args = [(''action_id'', JStr (sa_action a)), (''input'', JObj (sa_input a))]\<rparr>
     else if sa_kind a = ''write'' then Some (request_write op (sa_parameter a) (sa_value a))
     else None)"

text \<open>The record of one attempted action, from what its dispatch answered.\<close>

definition action_outcome :: "exn + op_result \<Rightarrow> op_status \<times> action_error option" where
  "action_outcome answer = (case answer of
      Inl e \<Rightarrow> (StError, Some (ActionRaised e))
    | Inr r \<Rightarrow> (r_status r, if r_status r = StOk then None
        else map_option (\<lambda>err. ActionFailed (er_code err) (er_message err)) (r_error r)))"

definition dispatch_action :: "'w world \<Rightarrow> int \<Rightarrow> safe_action \<Rightarrow> 'w \<Rightarrow> action_record \<times> 'w" where
  "dispatch_action W dl a w =
     (case w_now W w of (w1, now) \<Rightarrow>
       (let t = min (now + sa_timeout_ms a * 1000000) dl;
            rec = (\<lambda>st err. \<lparr>ar_id = sa_id a, ar_device = sa_device a, ar_deadline = t, ar_status = st, ar_error = err\<rparr>) in
        if \<not> w_has W (sa_device a) then (rec StError (Some UnknownDevice), w1)
        else case safe_action_request a of
            None \<Rightarrow> (rec StError (Some UnsupportedKind), w1)
          | Some q \<Rightarrow> (case w_dispatch W (sa_device a) q t w1 of
              (w2, answer) \<Rightarrow> (case action_outcome answer of (st, err) \<Rightarrow> (rec st err, w2)))))"

definition note_action :: "action_record \<Rightarrow> engine \<Rightarrow> engine" where
  "note_action r g = (let g = g\<lparr>g_actions := g_actions g @ [r]\<rparr> in
     if ar_status r \<noteq> StOk then append_reason (SafeActionFailed (ar_id r) (ar_status r)) g else g)"

text \<open>
  While an action or a read runs, the run monitor may enter the engine again; such an entry only appends
  its reasons. \<open>later w\<close> are the reasons such entries have brought by the time the world is \<open>w\<close>.
\<close>

fun dispatch_actions :: "'w world \<Rightarrow> ('w \<Rightarrow> run_reason list) \<Rightarrow> int \<Rightarrow> safe_action list \<Rightarrow> engine \<Rightarrow> 'w \<Rightarrow> engine \<times> 'w" where
  "dispatch_actions W later dl [] g w = (g, w)"
| "dispatch_actions W later dl (a # as) g w = (case dispatch_action W dl a w of
     (r, w1) \<Rightarrow> dispatch_actions W later dl as (note_action r (add_reasons (later w1) g)) w1)"

definition fresh_engine :: engine where
  "fresh_engine = \<lparr>g_reasons = [], g_actions = [], g_entered = None, g_deadline = None, g_standing = None,
     g_in_transition = False\<rparr>"

definition snapshot_result :: "engine \<Rightarrow> exn + protection_result" where
  "snapshot_result g = (case (g_entered g, g_deadline g) of
      (Some t, Some dl) \<Rightarrow> Inr \<lparr>px_safe_state = (case g_standing g of None \<Rightarrow> SafeUnknown | Some s \<Rightarrow> s),
        px_reasons = g_reasons g, px_actions = g_actions g, px_entered_at = t, px_deadline = dl\<rparr>
    | _ \<Rightarrow> Inl (RuntimeError ''protection invariant violated: snapshot before first entry''))"

definition protective_deadline :: "transition \<Rightarrow> int \<Rightarrow> int" where
  "protective_deadline tr t0 = t0 + tr_max_duration_ms tr * 1000000"

definition enter :: "'w world \<Rightarrow> ('w \<Rightarrow> run_reason list) \<Rightarrow> transition \<Rightarrow> bench_signal list \<Rightarrow> run_reason list \<Rightarrow> int \<Rightarrow>
    engine \<Rightarrow> 'w \<Rightarrow> ((exn + protection_result) \<times> engine \<times> 'w) option" where
  "enter W later tr signals reasons t0 g w =
     (let g1 = add_reasons reasons g in
      if g_entered g \<noteq> None then Some (snapshot_result g1, g1, w)
      else
        (let dl = protective_deadline tr t0;
             g2 = g1\<lparr>g_entered := Some t0, g_deadline := Some dl, g_in_transition := True\<rparr> in
         case dispatch_actions W later dl (tr_actions tr) g2 w of (g3, w1) \<Rightarrow>
           (case verify_loop W signals (tr_verify tr) (tr_stable_ms tr * 1000000) (bench_poll_ns signals) dl None w1 of
              None \<Rightarrow> None
            | Some (r, w2) \<Rightarrow>
                (let g4 = add_reasons (later w2) (g3\<lparr>g_in_transition := False\<rparr>) in
                 case r of
                   Inl e \<Rightarrow> Some (Inl e, g4, w2)
                 | Inr s \<Rightarrow> (let g5 = g4\<lparr>g_standing := Some s\<rparr> in Some (snapshot_result g5, g5, w2))))))"

section \<open>The loop ends\<close>

lemma bench_poll_pos: "0 < bench_poll_ns signals"
  by (simp add: bench_poll_ns_def Let_def)

context timed_world
begin

lemma read_signal_mono: "time w \<le> time (snd (read_signal W dl sg w))"
proof -
  have "time w \<le> time w1" if "w_dispatch W dev q dl w = (w1, r)" for dev q w1 r
    using dispatch_mono [of w dev q dl] that by simp
  moreover have "time w1 \<le> time w2" if "w_wall W w1 = (w2, t)" for w1 w2 t
    using wall_mono [of w1] that by simp
  ultimately show ?thesis
    by (fastforce simp: read_signal_def split: prod.splits)
qed

lemma read_signals_mono: "time w \<le> time (snd (read_signals W dl sgs snap w))"
proof (induction sgs arbitrary: snap w)
  case (Cons sg sgs)
  obtain r w1 where r: "read_signal W dl sg w = (r, w1)" by (cases "read_signal W dl sg w")
  with read_signal_mono [of w dl sg] Cons show ?case
    by (cases r) (auto intro: order_trans)
qed simp

lemma poll_once_mono: "time w \<le> time (snd (poll_once W signals conds dl w))"
  using read_signals_mono [of w dl signals "\<lambda>_. None"]
  by (auto simp: poll_once_def read_signal_values_def split: prod.splits sum.splits)

lemma verify_loop_returns:
  assumes "0 < poll"
  shows "\<exists>r. verify_loop W signals conds hold_ns poll dl since w = Some r"
proof (induction "nat (dl - time w)" arbitrary: since w rule: less_induct)
  case less
  obtain w1 now where n: "w_now W w = (w1, now)" by (cases "w_now W w")
  obtain r w2 where p: "poll_once W signals conds dl w1 = (r, w2)" by (cases "poll_once W signals conds dl w1")
  consider "dl - now \<le> 0" | e where "r = Inl e" | viols where "\<not> dl - now \<le> 0" "r = Inr viols" by (cases r) auto
  then show ?case
  proof cases
    case 3
    let ?start = "case since of None \<Rightarrow> now | Some t \<Rightarrow> t"
    let ?stay = "\<not> (viols = [] \<and> hold_ns \<le> now - ?start)"
    let ?d = "if viols = [] then min poll (min (hold_ns - (now - ?start)) (dl - now)) else min poll (dl - now)"
    obtain w3 e where wt: "w_wait W ?d w2 = (w3, e)" by (cases "w_wait W ?d w2")
    have "\<exists>r. verify_loop W signals conds hold_ns poll dl since' w3 = Some r" if ?stay "e = None" for since'
    proof (rule less.hyps)
      have pos: "0 < ?d" using that(1) 3(1) assms by (cases "viols = []") simp_all
      have "time w \<le> now" "now \<le> time w1" using now_le [OF n] by auto
      moreover have "time w1 \<le> time w2" using poll_once_mono [of w1 signals conds dl] p by simp
      moreover have "time w2 + ?d \<le> time w3" using wait_adv [of ?d w2 w3] wt that(2) pos by simp
      ultimately show "nat (dl - time w3) < nat (dl - time w)" using pos 3(1) by linarith
    qed
    with 3 n p wt show ?thesis
      by (subst verify_loop.simps) (auto simp: Let_def split: option.split)
  qed (subst verify_loop.simps; simp add: n p)+
qed

end

lemma enter_returns:
  assumes "timed_world W time"
  shows "\<exists>r g' w'. enter W later tr signals reasons t0 g w = Some (r, g', w')"
proof -
  obtain g3 w1 where a: "dispatch_actions W later (protective_deadline tr t0) (tr_actions tr)
      ((add_reasons reasons g)\<lparr>g_entered := Some t0, g_deadline := Some (protective_deadline tr t0), g_in_transition := True\<rparr>)
      w = (g3, w1)"
    by fastforce
  obtain r w2 where l: "verify_loop W signals (tr_verify tr) (tr_stable_ms tr * 1000000) (bench_poll_ns signals)
      (protective_deadline tr t0) None w1 = Some (r, w2)"
    using timed_world.verify_loop_returns [OF assms bench_poll_pos] by fastforce
  show ?thesis
    by (cases r) (simp_all add: enter_def Let_def a l)
qed

text \<open>
  The protective transition always returns: on any clock that never runs backwards and on
  which a wait really waits, \<open>enter\<close> ends, whatever the plugins answer, even when the verify
  conjunction never settles.
\<close>

theorem protection_returns:
  assumes "timed_world W time"
  shows "\<exists>r g' w'. enter W later tr signals reasons t0 g w = Some (r, g', w')"
  using assms by (rule enter_returns)

section \<open>What verified means\<close>

text \<open>
  An unbroken series of clean polls, the first at time \<open>s\<close>, the last at time \<open>t\<close>, all before the
  deadline and each at most one poll period of waiting after the one before.
\<close>

inductive clean_polls :: "'w world \<Rightarrow> bench_signal list \<Rightarrow> condition list \<Rightarrow> int \<Rightarrow> int \<Rightarrow> int \<Rightarrow> int \<Rightarrow> 'w \<Rightarrow> bool"
  for W signals conds poll dl where
  first: "w_now W w = (w1, t) \<Longrightarrow> t < dl \<Longrightarrow> poll_once W signals conds dl w1 = (Inr [], w2) \<Longrightarrow>
    clean_polls W signals conds poll dl t t w2"
| again: "clean_polls W signals conds poll dl s t w \<Longrightarrow> d \<le> poll \<Longrightarrow> w_wait W d w = (w', None) \<Longrightarrow>
    w_now W w' = (w1, t') \<Longrightarrow> t' < dl \<Longrightarrow> poll_once W signals conds dl w1 = (Inr [], w2) \<Longrightarrow>
    clean_polls W signals conds poll dl s t' w2"

abbreviation span_from :: "'w world \<Rightarrow> bench_signal list \<Rightarrow> condition list \<Rightarrow> int \<Rightarrow> int \<Rightarrow> int option \<Rightarrow> 'w \<Rightarrow> bool" where
  "span_from W signals conds poll dl since w \<equiv> \<forall>s. since = Some s \<longrightarrow>
     (\<exists>t w0 d. clean_polls W signals conds poll dl s t w0 \<and> d \<le> poll \<and> w_wait W d w0 = (w, None))"

lemma verify_loop_verified:
  assumes "verify_loop W signals conds hold_ns poll dl since w = Some res"
  shows "span_from W signals conds poll dl since w \<longrightarrow> fst res = Inr Verified \<longrightarrow>
    (\<exists>s t. clean_polls W signals conds poll dl s t (snd res) \<and> hold_ns \<le> t - s)"
proof (rule verify_loop.raw_induct [where P = "\<lambda>W signals conds hold_ns poll dl since w res.
    span_from W signals conds poll dl since w \<longrightarrow> fst res = Inr Verified \<longrightarrow>
    (\<exists>s t. clean_polls W signals conds poll dl s t (snd res) \<and> hold_ns \<le> t - s)", OF _ assms], intro impI, goal_cases)
  case (1 f W signals conds hold_ns poll dl since w res)
  note IH = 1(1) and body = 1(2) and span = 1(3) and ok = 1(4)
  obtain w1 now where n: "w_now W w = (w1, now)" by (cases "w_now W w")
  obtain r w2 where p: "poll_once W signals conds dl w1 = (r, w2)" by (cases "poll_once W signals conds dl w1")
  let ?start = "case since of None \<Rightarrow> now | Some t \<Rightarrow> t"
  have going: "\<not> dl - now \<le> 0" using body ok by (auto simp: n split: if_splits)
  obtain viols where r: "r = Inr viols"
    using body ok going by (cases r) (auto simp: n p)
  let ?d = "if viols = [] then min poll (min (hold_ns - (now - ?start)) (dl - now)) else min poll (dl - now)"
  have clean: "clean_polls W signals conds poll dl ?start now w2" if "viols = []"
  proof (cases since)
    case None
    with n p r that going show ?thesis by (auto intro: clean_polls.first)
  next
    case (Some s)
    with span obtain t w0 d where "clean_polls W signals conds poll dl s t w0" "d \<le> poll" "w_wait W d w0 = (w, None)" by blast
    with Some n p r that going show ?thesis
      using clean_polls.again [of W signals conds poll dl s t w0 d w w1 now w2] by simp
  qed
  show ?case
  proof (cases "viols = [] \<and> hold_ns \<le> now - ?start")
    case True
    with body ok going n p r have "snd res = w2" by (auto simp: Let_def)
    with clean True show ?thesis by blast
  next
    case False
    obtain w3 e where wt: "w_wait W ?d w2 = (w3, e)" by (cases "w_wait W ?d w2")
    with body going n p r False ok have "e = None" by (auto simp: Let_def split: option.splits)
    with body going n p r False wt
    have "f W signals conds hold_ns poll dl (if viols = [] then Some ?start else None) w3 = Some res"
      by (auto simp: Let_def split: if_splits)
    moreover have "span_from W signals conds poll dl (if viols = [] then Some ?start else None) w3"
    proof (cases "viols = []")
      case True
      have "w_wait W ?d w2 = (w3, None)" "?d \<le> poll" using wt \<open>e = None\<close> by simp_all
      with clean [OF True] have "\<exists>t w0 d. clean_polls W signals conds poll dl ?start t w0 \<and> d \<le> poll \<and> w_wait W d w0 = (w3, None)"
        by blast
      with True show ?thesis by simp
    qed simp
    ultimately show ?thesis using IH ok by blast
  qed
qed

lemma enter_first:
  assumes "enter W later tr signals reasons t0 fresh_engine w = Some (r, g, w')"
  obtains g3 w1 v where "dispatch_actions W later (protective_deadline tr t0) (tr_actions tr)
      ((add_reasons reasons fresh_engine)\<lparr>g_entered := Some t0, g_deadline := Some (protective_deadline tr t0),
        g_in_transition := True\<rparr>) w = (g3, w1)"
    "verify_loop W signals (tr_verify tr) (tr_stable_ms tr * 1000000) (bench_poll_ns signals)
      (protective_deadline tr t0) None w1 = Some (v, w')"
    "g_actions g = g_actions g3" "set (g_reasons g) = set (g_reasons g3) \<union> set (later w')"
    "g_standing g = (case v of Inl _ \<Rightarrow> g_standing g3 | Inr s \<Rightarrow> Some s)"
    "r = (case v of Inl e \<Rightarrow> Inl e | Inr _ \<Rightarrow> snapshot_result g)"
    "g_entered g = g_entered g3" "g_deadline g = g_deadline g3"
proof -
  obtain g3 w1 where a: "dispatch_actions W later (protective_deadline tr t0) (tr_actions tr)
      ((add_reasons reasons fresh_engine)\<lparr>g_entered := Some t0, g_deadline := Some (protective_deadline tr t0),
        g_in_transition := True\<rparr>) w = (g3, w1)"
    by fastforce
  with assms obtain v where v: "verify_loop W signals (tr_verify tr) (tr_stable_ms tr * 1000000) (bench_poll_ns signals)
      (protective_deadline tr t0) None w1 = Some (v, w')"
    by (auto simp: enter_def Let_def fresh_engine_def split: option.splits sum.splits)
  with a assms show ?thesis
    by (intro that [OF a v]; cases v) (auto simp: enter_def Let_def fresh_engine_def add_reasons_def)
qed

text \<open>What an action leaves alone.\<close>

lemma note_action_frame [simp]:
  "g_entered (note_action r g) = g_entered g" "g_deadline (note_action r g) = g_deadline g"
  "g_standing (note_action r g) = g_standing g" "g_actions (note_action r g) = g_actions g @ [r]"
  by (simp_all add: note_action_def append_reason_def add_reasons_def Let_def)

lemma add_reasons_frame [simp]:
  "g_entered (add_reasons rs g) = g_entered g" "g_deadline (add_reasons rs g) = g_deadline g"
  "g_standing (add_reasons rs g) = g_standing g" "g_actions (add_reasons rs g) = g_actions g"
  "g_in_transition (add_reasons rs g) = g_in_transition g" "g_reasons (add_reasons rs g) = add_new (g_reasons g) rs"
  by (simp_all add: add_reasons_def)

lemma dispatch_actions_frame:
  "dispatch_actions W later dl as g w = (g', w') \<Longrightarrow>
    g_entered g' = g_entered g \<and> g_deadline g' = g_deadline g \<and> g_standing g' = g_standing g"
  by (induction as arbitrary: g w) (auto split: prod.splits)

text \<open>
  Claim C16. \<open>verified\<close> means held: a transition that ends verified made an unbroken series of clean
  polls of the whole verify conjunction, at most one poll period apart, every one of them started
  before the protective deadline, over at least \<open>stable_for_ms\<close>, with no poll after it.
\<close>

theorem verified_means_held:
  assumes "enter W later tr signals reasons t0 fresh_engine w = Some (Inr res, g, w')"
    and "px_safe_state res = Verified"
  shows "\<exists>s t. clean_polls W signals (tr_verify tr) (bench_poll_ns signals) (protective_deadline tr t0) s t w' \<and>
    tr_stable_ms tr * 1000000 \<le> t - s"
  using assms(1)
proof (rule enter_first)
  fix g3 w1 v
  assume a: "dispatch_actions W later (protective_deadline tr t0) (tr_actions tr)
      ((add_reasons reasons fresh_engine)\<lparr>g_entered := Some t0, g_deadline := Some (protective_deadline tr t0),
        g_in_transition := True\<rparr>) w = (g3, w1)"
    and v: "verify_loop W signals (tr_verify tr) (tr_stable_ms tr * 1000000) (bench_poll_ns signals)
      (protective_deadline tr t0) None w1 = Some (v, w')"
    and st: "g_standing g = (case v of Inl _ \<Rightarrow> g_standing g3 | Inr s \<Rightarrow> Some s)"
    and r: "Inr res = (case v of Inl e \<Rightarrow> Inl e | Inr _ \<Rightarrow> snapshot_result g)"
  have "fst (v, w') = Inr Verified"
    using r st assms(2) by (auto simp: snapshot_result_def split: sum.splits option.splits)
  with verify_loop_verified [OF v] show ?thesis by simp
qed

text \<open>
  The transition runs once: entering the engine again, at any time and with any reasons,
  touches no device and no clock, keeps the deadline, the actions and the standing safe state, and
  only appends reasons that were not there yet.
\<close>

theorem later_entry_only_appends:
  assumes "enter W later tr signals reasons t0 fresh_engine w = Some (Inr res, g, w')"
  shows "enter W' later' tr' signals' added t1 g w'' =
      Some (Inr (res\<lparr>px_reasons := add_new (px_reasons res) added\<rparr>), add_reasons added g, w'') \<and>
    px_entered_at res = t0 \<and> px_deadline res = protective_deadline tr t0"
  using assms
proof (rule enter_first)
  fix g3 w1 v
  assume a: "dispatch_actions W later (protective_deadline tr t0) (tr_actions tr)
      ((add_reasons reasons fresh_engine)\<lparr>g_entered := Some t0, g_deadline := Some (protective_deadline tr t0),
        g_in_transition := True\<rparr>) w = (g3, w1)"
    and r: "Inr res = (case v of Inl e \<Rightarrow> Inl e | Inr _ \<Rightarrow> snapshot_result g)"
    and e: "g_entered g = g_entered g3" "g_deadline g = g_deadline g3"
  have "g_entered g = Some t0" "g_deadline g = Some (protective_deadline tr t0)"
    using e dispatch_actions_frame [OF a] by simp_all
  with r show ?thesis
    by (auto simp: enter_def snapshot_result_def split: sum.splits)
qed

section \<open>What the transition sends\<close>

text \<open>The command an action stands for, when its device is bound and its kind known.\<close>

definition command_of :: "'w world \<Rightarrow> safe_action \<Rightarrow> (string \<times> op_request) list" where
  "command_of W a = (if w_has W (sa_device a) then
     (case safe_action_request a of None \<Rightarrow> [] | Some q \<Rightarrow> [(sa_device a, q)]) else [])"

definition sent :: "dispatch_record list \<Rightarrow> (string \<times> op_request) list" where
  "sent lg = map (\<lambda>(dev, q, t). (dev, q)) lg"

definition in_time :: "int \<Rightarrow> dispatch_record list \<Rightarrow> bool" where
  "in_time dl lg = list_all (\<lambda>(dev, q, t). t \<le> dl) lg"

definition signal_reads :: "bench_signal list \<Rightarrow> dispatch_record list \<Rightarrow> bool" where
  "signal_reads signals lg = list_all (\<lambda>(dev, q, t). list_ex (\<lambda>sg. dev = sg_device sg \<and>
     q = request_read (''signal:'' @ sg_id sg) (sg_parameter sg)) signals) lg"

lemma log_simps [simp]:
  "sent [] = []" "sent (x @ y) = sent x @ sent y" "in_time dl []" "in_time dl (x @ y) = (in_time dl x \<and> in_time dl y)"
  "signal_reads signals []" "signal_reads signals (x @ y) = (signal_reads signals x \<and> signal_reads signals y)"
  "sent [(dev, q, t)] = [(dev, q)]" "in_time dl [(dev, q, t)] = (t \<le> dl)"
  by (simp_all add: sent_def in_time_def signal_reads_def)

lemma recorded_simps:
  "w_has (recorded W) = w_has W" "w_now (recorded W) (w, l) = (case w_now W w of (w', t) \<Rightarrow> ((w', l), t))"
  "w_wait (recorded W) d (w, l) = (case w_wait W d w of (w', e) \<Rightarrow> ((w', l), e))"
  "w_wall (recorded W) (w, l) = (case w_wall W w of (w', t) \<Rightarrow> ((w', l), t))"
  "w_dispatch (recorded W) dev q dl (w, l) = (case w_dispatch W dev q dl w of (w', r) \<Rightarrow> ((w', l @ [(dev, q, dl)]), r))"
  by (simp_all add: recorded_def)

lemma dispatch_action_log:
  assumes "dispatch_action (recorded W) dl a (w, l) = (r, (w', l'))"
  shows "\<exists>lg. l' = l @ lg \<and> sent lg = command_of W a \<and> in_time dl lg \<and> ar_id r = sa_id a"
proof -
  obtain w1 now where n: "w_now W w = (w1, now)" by (cases "w_now W w")
  show ?thesis
  proof (cases "w_has W (sa_device a)")
    case False
    with assms n show ?thesis by (auto simp: dispatch_action_def recorded_simps command_of_def)
  next
    case True
    show ?thesis
    proof (cases "safe_action_request a")
      case None
      with assms n True show ?thesis by (auto simp: dispatch_action_def recorded_simps command_of_def)
    next
      case (Some q)
      let ?t = "min (now + sa_timeout_ms a * 1000000) dl"
      obtain w2 ans where "w_dispatch W (sa_device a) q ?t w1 = (w2, ans)" by fastforce
      with assms n True Some show ?thesis
        by (auto simp: dispatch_action_def recorded_simps command_of_def Let_def split: prod.splits)
    qed
  qed
qed

lemma dispatch_actions_log:
  "dispatch_actions (recorded W) later dl as g (w, l) = (g', (w', l')) \<Longrightarrow>
    (\<exists>lg. l' = l @ lg \<and> sent lg = concat (map (command_of W) as) \<and> in_time dl lg) \<and>
    map ar_id (g_actions g') = map ar_id (g_actions g) @ map sa_id as"
proof (induction as arbitrary: g w l)
  case (Cons a as)
  obtain r w1 l1 where r: "dispatch_action (recorded W) dl a (w, l) = (r, (w1, l1))"
    by (metis prod.exhaust)
  from Cons.prems have "dispatch_actions (recorded W) later dl as (note_action r (add_reasons (later (w1, l1)) g)) (w1, l1) =
      (g', (w', l'))"
    by (simp add: r)
  from Cons.IH [OF this] dispatch_action_log [OF r] show ?case
    by (elim exE conjE) simp
qed simp

lemma failures_noted:
  "dispatch_actions W later dl as g w = (g', w') \<Longrightarrow>
    set (g_reasons g) \<subseteq> set (g_reasons g') \<and>
    (\<forall>r \<in> set (g_actions g') - set (g_actions g). ar_status r \<noteq> StOk \<longrightarrow>
       SafeActionFailed (ar_id r) (ar_status r) \<in> set (g_reasons g'))"
proof (induction as arbitrary: g w)
  case (Cons a as)
  obtain r w1 where r: "dispatch_action W dl a w = (r, w1)" by fastforce
  let ?g = "note_action r (add_reasons (later w1) g)"
  have step: "set (g_reasons g) \<subseteq> set (g_reasons ?g)"
    "ar_status r \<noteq> StOk \<longrightarrow> SafeActionFailed (ar_id r) (ar_status r) \<in> set (g_reasons ?g)"
    by (auto simp: note_action_def append_reason_def add_reasons_def Let_def)
  from Cons.prems have "dispatch_actions W later dl as ?g w1 = (g', w')" by (simp add: r)
  from Cons.IH [OF this] step show ?case by (simp add: subset_iff) blast
qed simp

lemma read_signal_log:
  assumes "read_signal (recorded W) dl sg (w, l) = (r, (w', l'))" "sg \<in> set signals"
  shows "\<exists>lg. l' = l @ lg \<and> in_time dl lg \<and> signal_reads signals lg"
proof (cases "w_has W (sg_device sg) \<and> sg_kind sg = ''parameter''")
  case True
  obtain w1 ans where "w_dispatch W (sg_device sg) (request_read (''signal:'' @ sg_id sg) (sg_parameter sg)) dl w = (w1, ans)"
    by fastforce
  with assms True show ?thesis
    by (auto simp: read_signal_def recorded_simps signal_reads_def list_ex_iff split: prod.splits)
next
  case False
  with assms show ?thesis by (auto simp: read_signal_def recorded_simps split: prod.splits)
qed

lemma read_signals_log:
  "read_signals (recorded W) dl sgs snap (w, l) = (r, (w', l')) \<Longrightarrow> set sgs \<subseteq> set signals \<Longrightarrow>
    \<exists>lg. l' = l @ lg \<and> in_time dl lg \<and> signal_reads signals lg"
proof (induction sgs arbitrary: snap w l)
  case (Cons sg sgs)
  obtain v w1 l1 where v: "read_signal (recorded W) dl sg (w, l) = (v, (w1, l1))" by (metis prod.exhaust)
  from read_signal_log [OF v, of signals] Cons.prems(2)
  obtain lg where lg: "l1 = l @ lg" "in_time dl lg" "signal_reads signals lg" by auto
  show ?case
  proof (cases v)
    case (Inl e)
    with Cons.prems v lg show ?thesis by auto
  next
    case (Inr x)
    with Cons.prems v have "read_signals (recorded W) dl sgs (snap(sg_id sg \<mapsto> x)) (w1, l1) = (r, (w', l'))" by simp
    from Cons.IH [OF this] Cons.prems(2) lg show ?thesis by auto
  qed
qed simp

lemma poll_once_log:
  assumes "poll_once (recorded W) signals conds dl (w, l) = (r, (w', l'))"
  shows "\<exists>lg. l' = l @ lg \<and> in_time dl lg \<and> signal_reads signals lg"
proof -
  obtain x w1 l1 where x: "read_signals (recorded W) dl signals (\<lambda>_. None) (w, l) = (x, (w1, l1))"
    by (metis prod.exhaust)
  with assms have "(w1, l1) = (w', l')"
    by (cases x) (auto simp: poll_once_def read_signal_values_def)
  with read_signals_log [OF x] show ?thesis by simp
qed

abbreviation only_reads :: "bench_signal list \<Rightarrow> int \<Rightarrow> dispatch_record list \<Rightarrow> dispatch_record list \<Rightarrow> bool" where
  "only_reads signals dl l l' \<equiv> \<exists>lg. l' = l @ lg \<and> in_time dl lg \<and> signal_reads signals lg"

lemma only_reads_trans: "only_reads signals dl x y \<Longrightarrow> only_reads signals dl y z \<Longrightarrow> only_reads signals dl x z"
  by (elim exE conjE) simp

lemma verify_loop_log:
  assumes "verify_loop V signals conds hold_ns poll dl since x = Some res"
  shows "V = recorded W \<longrightarrow> only_reads signals dl (snd x) (snd (snd res))"
proof (rule verify_loop.raw_induct [where P = "\<lambda>V signals conds hold_ns poll dl since x res.
    V = recorded W \<longrightarrow> only_reads signals dl (snd x) (snd (snd res))", OF _ assms], intro impI, goal_cases)
  case (1 f V signals conds hold_ns poll dl since x res)
  note IH = 1(1) and body = 1(2)
  obtain w l where x: "x = (w, l)" by (cases x)
  obtain w1 now where n: "w_now V x = ((w1, l), now)"
    by (cases "w_now W w") (simp add: 1(3) x recorded_simps)
  obtain r w2 l2 where p: "poll_once V signals conds dl (w1, l) = (r, (w2, l2))" by (metis prod.exhaust)
  have lg: "only_reads signals dl l l2" using poll_once_log [of W] p 1(3) by simp
  let ?start = "case since of None \<Rightarrow> now | Some t \<Rightarrow> t"
  consider "dl - now \<le> 0" | e where "r = Inl e" | viols where "\<not> dl - now \<le> 0" "r = Inr viols" by (cases r) auto
  then show ?case
  proof cases
    case 3
    let ?d = "if viols = [] then min poll (min (hold_ns - (now - ?start)) (dl - now)) else min poll (dl - now)"
    obtain w3 e where wt: "w_wait V ?d (w2, l2) = ((w3, l2), e)"
      by (cases "w_wait W ?d w2") (simp add: 1(3) recorded_simps)
    show ?thesis
    proof (cases "(viols = [] \<and> hold_ns \<le> now - ?start) \<or> e \<noteq> None")
      case True
      with body n p 3 wt have "snd (snd res) = l2" by (auto simp: Let_def split: option.splits if_splits)
      with lg x show ?thesis by simp
    next
      case False
      then have "f V signals conds hold_ns poll dl (if viols = [] then Some ?start else None) (w3, l2) = Some res"
        using body n p 3 wt by (auto simp: Let_def split: if_splits)
      with IH have "V = recorded W \<longrightarrow> only_reads signals dl (snd (w3, l2)) (snd (snd res))" by blast
      with 1(3) have "only_reads signals dl l2 (snd (snd res))" by simp
      with lg x show ?thesis by (auto intro: only_reads_trans)
    qed
  qed (use body n p lg x in \<open>auto split: if_splits\<close>)
qed

text \<open>
  Every commissioned safe action is attempted once and in order, whatever the ones before
  it answered or raised; after the actions the transition only reads; and no dispatch of it carries a
  deadline past the protective deadline. Every action that did not end ok is among the reasons.
\<close>

theorem safe_actions_all_attempted:
  assumes "enter (recorded W) later tr signals reasons t0 fresh_engine (w, []) = Some (r, g, (w', lg))"
  shows "\<exists>acts reads. lg = acts @ reads \<and> sent acts = concat (map (command_of W) (tr_actions tr)) \<and>
    signal_reads signals reads \<and> in_time (protective_deadline tr t0) lg \<and>
    map ar_id (g_actions g) = map sa_id (tr_actions tr) \<and>
    list_all (\<lambda>a. ar_status a = StOk \<or> SafeActionFailed (ar_id a) (ar_status a) \<in> set (g_reasons g)) (g_actions g)"
  using assms
proof (rule enter_first)
  fix g3 w1 v
  let ?g = "(add_reasons reasons fresh_engine)\<lparr>g_entered := Some t0, g_deadline := Some (protective_deadline tr t0),
        g_in_transition := True\<rparr>"
  assume a: "dispatch_actions (recorded W) later (protective_deadline tr t0) (tr_actions tr) ?g (w, []) = (g3, w1)"
    and v: "verify_loop (recorded W) signals (tr_verify tr) (tr_stable_ms tr * 1000000) (bench_poll_ns signals)
      (protective_deadline tr t0) None w1 = Some (v, (w', lg))"
    and g: "g_actions g = g_actions g3" "set (g_reasons g) = set (g_reasons g3) \<union> set (later (w', lg))"
  obtain w1' acts where w1: "w1 = (w1', acts)" by (cases w1)
  from dispatch_actions_log [OF a [unfolded w1]]
  have acts: "sent acts = concat (map (command_of W) (tr_actions tr))" "in_time (protective_deadline tr t0) acts"
    "map ar_id (g_actions g3) = map sa_id (tr_actions tr)"
    by (auto simp: fresh_engine_def add_reasons_def)
  have "only_reads signals (protective_deadline tr t0) acts lg" using verify_loop_log [OF v, of W] w1 by simp
  then obtain reads where "lg = acts @ reads" "in_time (protective_deadline tr t0) reads" "signal_reads signals reads" by blast
  moreover have "list_all (\<lambda>a. ar_status a = StOk \<or> SafeActionFailed (ar_id a) (ar_status a) \<in> set (g_reasons g)) (g_actions g)"
    using failures_noted [OF a] g by (auto simp: list_all_iff fresh_engine_def add_reasons_def)
  ultimately show ?thesis using acts g(1) by auto
qed

section \<open>A transition on a simulated bench\<close>

text \<open>One supply, switched off and watched until its output flag has been down for a second.\<close>

definition meter_plugin :: "pyval \<Rightarrow> string \<Rightarrow> op_request \<Rightarrow> int \<Rightarrow> 's \<Rightarrow> 's \<times> nat \<times> (exn + op_result)" where
  "meter_plugin v dev q dl s = (s, 0,
     if q_verb q = READ then result_ok (q_id q) READ (AReading \<lparr>rd_parameter = ''out'', rd_value = v, rd_unit = JStr ''V'',
       rd_observed_at = ''2026-09-11T00:00:00Z'', rd_age_ms = 0, rd_quality = QValid, rd_source = SrcDevice\<rparr>)
     else result_ok (q_id q) (q_verb q) (Raw JNull))"

definition calm_world :: "(test_clock \<times> 's) world" where
  "calm_world = sim_world (\<lambda>_. True) (meter_plugin (JInt 0))"

definition calm_signal :: bench_signal where
  "calm_signal = \<lparr>sg_id = ''out'', sg_resource = ''rail'', sg_kind = ''parameter'', sg_device = ''psu'', sg_parameter = ''out'',
     sg_poll_ms = JInt 1000, sg_max_age_ms = 5000, sg_absolute_error = JInt 0\<rparr>"

definition calm_transition :: transition where
  "calm_transition = \<lparr>tr_max_duration_ms = 4000,
     tr_actions = [\<lparr>sa_id = ''off'', sa_device = ''psu'', sa_kind = ''invoke'', sa_action = ''off'', sa_input = [],
       sa_parameter = [], sa_value = JNull, sa_timeout_ms = 50\<rparr>],
     tr_verify = [BooleanCond ''low'' ''out'' False], tr_stable_ms = 1000\<rparr>"

abbreviation calm_clock :: "int \<Rightarrow> int list \<Rightarrow> test_clock" where
  "calm_clock e ws \<equiv> \<lparr>tc_start_ns = 1000000000, tc_wall_start = ''2026-09-11T00:00:00Z'', tc_elapsed_ns = e, tc_waits = ws\<rparr>"

lemma calm_moment:
  "wall_utc ''2026-09-11T00:00:00Z'' = Some \<lparr>local_us = 1789084800000000, utc_offset = Some 0\<rparr>"
  "wall_utc ''2026-09-11T00:00:01Z'' = Some \<lparr>local_us = 1789084801000000, utc_offset = Some 0\<rparr>"
  by code_simp+

lemma calm_wall:
  "tc_now_iso (calm_clock 0 ws) = Inr ''2026-09-11T00:00:00Z''"
  "tc_now_iso (calm_clock 1000000000 ws) = Inr ''2026-09-11T00:00:01Z''"
proof -
  have "min_us = -62135596800000000" "max_us = 253402300799999999" by code_simp+
  then have plus: "plus_us \<lparr>local_us = 1789084800000000, utc_offset = Some 0\<rparr> us =
      Inr \<lparr>local_us = 1789084800000000 + us, utc_offset = Some 0\<rparr>" if "0 \<le> us" "us \<le> 1000000" for us
    using that by (simp add: plus_us_def)
  have "civil_from_days 20707 = (2026, 9, 11)" by code_simp
  then have "isoformat \<lparr>local_us = 1789084800000000, utc_offset = Some 0\<rparr> = ''2026-09-11T00:00:00+00:00''"
    "isoformat \<lparr>local_us = 1789084801000000, utc_offset = Some 0\<rparr> = ''2026-09-11T00:00:01+00:00''"
    by (simp_all add: isoformat_def us_per_day_def show_clock_def pad_num_def show_nat_small show_nat_large digit_char_def Let_def)
  moreover have "replace_all ''+00:00'' ''Z'' ''2026-09-11T00:00:00+00:00'' = ''2026-09-11T00:00:00Z''"
    "replace_all ''+00:00'' ''Z'' ''2026-09-11T00:00:01+00:00'' = ''2026-09-11T00:00:01Z''"
    by code_simp+
  ultimately have "isoformat_z \<lparr>local_us = 1789084800000000, utc_offset = Some 0\<rparr> = ''2026-09-11T00:00:00Z''"
    "isoformat_z \<lparr>local_us = 1789084801000000, utc_offset = Some 0\<rparr> = ''2026-09-11T00:00:01Z''"
    by (simp_all add: isoformat_z_def)
  with plus [of 0] plus [of 1000000] fromiso_example
  show "tc_now_iso (calm_clock 0 ws) = Inr ''2026-09-11T00:00:00Z''"
    "tc_now_iso (calm_clock 1000000000 ws) = Inr ''2026-09-11T00:00:01Z''"
    by (simp_all add: tc_now_iso_def as_utc_def)
qed

lemma calm_float: "fl 0 = Fin 0" "fl 1 = Fin 1" "fl 1000 = Fin 1000"
proof -
  have "flmag \<bar>0\<bar> = 0" "flmag \<bar>1\<bar> = 1" "flmag \<bar>1000\<bar> = 1000" by code_simp+
  then show "fl 0 = Fin 0" "fl 1 = Fin 1" "fl 1000 = Fin 1000" by (simp_all add: fl_smallI)
qed

definition calm_reading :: reading where
  "calm_reading = \<lparr>rd_parameter = ''out'', rd_value = JInt 0, rd_unit = JStr ''V'',
     rd_observed_at = ''2026-09-11T00:00:00Z'', rd_age_ms = 0, rd_quality = QValid, rd_source = SrcDevice\<rparr>"

lemma calm_signal_of:
  assumes "t \<in> {1789084800000000, 1789084801000000}"
  shows "\<exists>age. signal_of calm_signal (Some calm_reading) (Some \<lparr>local_us = t, utc_offset = Some 0\<rparr>) =
    Inr \<lparr>sv_signal_id = ''out'', sv_value = Fin 0, sv_unit = ''V'', sv_age_ms = age, sv_valid = True, sv_absolute_error = Some (Fin 0)\<rparr>"
proof -
  have "elapsed_ms 0 = Fin 0" "elapsed_ms 1000000 = Fin 1000" "py_float (JInt 0) = Inr (Fin 0)"
    by (simp_all add: elapsed_ms_def calm_float float_of_int_def)
  with assms show ?thesis
    by (auto simp: signal_of_def calm_signal_def calm_reading_def signal_reading_def calm_moment instant_def whole_ms_def
        nonnegative_float_def)
qed

lemma calm_poll:
  fixes s :: 's
  assumes "e = 0 \<or> e = 1000000000"
  shows "poll_once calm_world [calm_signal] [BooleanCond ''low'' ''out'' False] dl (calm_clock e ws, s) =
    (Inr [], (calm_clock e ws, s))"
proof -
  have ans: "w_dispatch calm_world ''psu'' (request_read i ''out'') dl (calm_clock e ws, s) =
      ((calm_clock e ws, s), result_ok i READ (AReading calm_reading))" for i
    by (simp add: calm_world_def sim_world_def meter_plugin_def request_read_def tc_advance_def calm_reading_def)
  have plain: "plain_reading (result_ok i READ (AReading calm_reading)) = Some calm_reading" for i
    by (simp add: plain_reading_def result_ok_def mk_result_def mk_reading_def calm_reading_def)
  obtain t where t: "w_wall calm_world (calm_clock e ws, s) = ((calm_clock e ws, s), t)"
      "wall_utc t \<in> {Some \<lparr>local_us = 1789084800000000, utc_offset = Some 0\<rparr>, Some \<lparr>local_us = 1789084801000000, utc_offset = Some 0\<rparr>}"
    using assms by (auto simp: calm_world_def sim_world_def calm_wall calm_moment)
  then obtain age where "signal_of calm_signal (Some calm_reading) (wall_utc t) =
    Inr \<lparr>sv_signal_id = ''out'', sv_value = Fin 0, sv_unit = ''V'', sv_age_ms = age, sv_valid = True, sv_absolute_error = Some (Fin 0)\<rparr>"
    using calm_signal_of by fastforce
  moreover have "w_has (calm_world :: (test_clock \<times> 's) world) ''psu''" "sg_device calm_signal = ''psu''" "sg_kind calm_signal = ''parameter''"
    "sg_parameter calm_signal = ''out''" "sg_id calm_signal = ''out''"
    by (simp_all add: calm_world_def sim_world_def calm_signal_def)
  ultimately have "read_signal calm_world dl calm_signal (calm_clock e ws, s) =
      (Inr \<lparr>sv_signal_id = ''out'', sv_value = Fin 0, sv_unit = ''V'', sv_age_ms = age, sv_valid = True,
        sv_absolute_error = Some (Fin 0)\<rparr>, (calm_clock e ws, s))"
    by (simp add: read_signal_def ans plain t(1))
  then show ?thesis
    by (simp add: poll_once_def read_signal_values_def boolean_violation_def calm_signal_def)
qed

lemma calm_enter:
  "enter calm_world (\<lambda>_. []) calm_transition [calm_signal] [] 1000000000 fresh_engine (calm_clock 0 [], s) =
     Some (Inr \<lparr>px_safe_state = Verified, px_reasons = [], px_actions = [\<lparr>ar_id = ''off'', ar_device = ''psu'',
         ar_deadline = 1050000000, ar_status = StOk, ar_error = None\<rparr>], px_entered_at = 1000000000, px_deadline = 5000000000\<rparr>,
       \<lparr>g_reasons = [], g_actions = [\<lparr>ar_id = ''off'', ar_device = ''psu'',
         ar_deadline = 1050000000, ar_status = StOk, ar_error = None\<rparr>], g_entered = Some 1000000000,
         g_deadline = Some 5000000000, g_standing = Some Verified, g_in_transition = False\<rparr>,
       (calm_clock 1000000000 [1000000000], s))"
proof -
  have world: "w_now calm_world (c, s) = ((c, s), tc_now_ns c)" "w_wait calm_world d (c, s) = ((tc_wait_ns d c, s), None)"
    "w_has calm_world dev = True" for c d dev s
    by (simp_all add: calm_world_def sim_world_def)
  have off: "w_dispatch calm_world ''psu'' \<lparr>q_id = i, q_verb = INVOKE, q_args = as\<rparr> t (c, s) =
      ((tc_advance 0 c, s), Inr \<lparr>r_id = i, r_verb = INVOKE, r_status = StOk, r_data = Raw JNull, r_error = None\<rparr>)" for i as t c s
    by (simp add: calm_world_def sim_world_def meter_plugin_def result_ok_def mk_result_def)
  have poll: "bench_poll_ns [calm_signal] = 1000000000"
    by (simp add: bench_poll_ns_def calm_signal_def map_filter_simps)
  have loop1: "verify_loop calm_world [calm_signal] [BooleanCond ''low'' ''out'' False] 1000000000 1000000000 5000000000
      (Some 1000000000) (calm_clock 1000000000 [1000000000], s) = Some (Inr Verified, (calm_clock 1000000000 [1000000000], s))"
    by (subst verify_loop.simps) (simp add: world tc_now_ns_def calm_poll)
  have loop: "verify_loop calm_world [calm_signal] [BooleanCond ''low'' ''out'' False] 1000000000 1000000000 5000000000
      None (calm_clock 0 [], s) = Some (Inr Verified, (calm_clock 1000000000 [1000000000], s))"
    by (subst verify_loop.simps) (simp add: world tc_now_ns_def calm_poll tc_wait_ns_def tc_advance_def loop1)
  show ?thesis
    by (simp add: enter_def calm_transition_def protective_deadline_def fresh_engine_def add_reasons_def dispatch_action_def
        world safe_action_request_def off action_outcome_def note_action_def tc_now_ns_def tc_advance_def poll loop
        snapshot_result_def Let_def)
qed

lemma protection_returns_witness:
  "\<exists>r g' w'. enter calm_world (\<lambda>_. []) calm_transition [calm_signal] [] 0 fresh_engine (tc_init, ()) = Some (r, g', w')"
  unfolding calm_world_def by (rule protection_returns [OF sim.timed_world_axioms])

lemma verified_means_held_witness:
  "\<exists>s t w. clean_polls (calm_world :: (test_clock \<times> unit) world) [calm_signal] (tr_verify calm_transition) (bench_poll_ns [calm_signal])
      (protective_deadline calm_transition 1000000000) s t w \<and> 1000000000 \<le> t - s"
  using verified_means_held [OF calm_enter, of "()"] by (auto simp: calm_transition_def)

lemma later_entry_only_appends_witness:
  "list_ex (\<lambda>g. g_standing g = Some Verified \<and> (case enter calm_world (\<lambda>_. []) calm_transition [calm_signal] [GatewayStop] 7 g
      (tc_init, ()) of Some (Inr res, g', w) \<Rightarrow> px_reasons res = [GatewayStop] \<and> w = (tc_init, ()) | _ \<Rightarrow> False))
     [\<lparr>g_reasons = [], g_actions = [\<lparr>ar_id = ''off'', ar_device = ''psu'',
         ar_deadline = 1050000000, ar_status = StOk, ar_error = None\<rparr>], g_entered = Some 1000000000,
         g_deadline = Some 5000000000, g_standing = Some Verified, g_in_transition = False\<rparr>]"
  using later_entry_only_appends [OF calm_enter, of calm_world "\<lambda>_. []" calm_transition "[calm_signal]" "[GatewayStop]" 7 "(tc_init, ())"]
  by simp

lemma timed_recorded:
  assumes "timed_world W time"
  shows "timed_world (recorded W) (\<lambda>w. time (fst w))"
proof
  fix w w' t d dev q dl
  show "w_now (recorded W) w = (w', t) \<Longrightarrow> time (fst w) \<le> t \<and> t \<le> time (fst w')"
    by (cases w) (auto simp: recorded_simps split: prod.splits dest: timed_world.now_le [OF assms])
  show "0 \<le> d \<Longrightarrow> w_wait (recorded W) d w = (w', None) \<Longrightarrow> time (fst w) + d \<le> time (fst w')"
    by (cases w) (auto simp: recorded_simps split: prod.splits dest: timed_world.wait_adv [OF assms])
  show "0 \<le> d \<Longrightarrow> time (fst w) \<le> time (fst (fst (w_wait (recorded W) d w)))"
    using timed_world.wait_mono [OF assms, of d "fst w"] by (cases w) (auto simp: recorded_simps split: prod.splits)
  show "time (fst w) \<le> time (fst (fst (w_wall (recorded W) w)))"
    using timed_world.wall_mono [OF assms, of "fst w"] by (cases w) (auto simp: recorded_simps split: prod.splits)
  show "time (fst w) \<le> time (fst (fst (w_dispatch (recorded W) dev q dl w)))"
    using timed_world.dispatch_mono [OF assms, of "fst w" dev q dl] by (cases w) (auto simp: recorded_simps split: prod.splits)
qed

lemma safe_actions_all_attempted_witness:
  "\<exists>r g w acts reads. enter (recorded calm_world) (\<lambda>_. []) calm_transition [calm_signal] [] 0 fresh_engine ((tc_init, ()), []) =
      Some (r, g, (w, acts @ reads)) \<and>
    sent acts = [(''psu'', \<lparr>q_id = ''protect:off'', q_verb = INVOKE, q_args = [(''action_id'', JStr ''off''), (''input'', JObj [])]\<rparr>)] \<and>
    signal_reads [calm_signal] reads \<and> map ar_id (g_actions g) = [''off'']"
proof -
  have "timed_world (recorded calm_world) (\<lambda>w. sim_time (fst w))"
    unfolding calm_world_def by (rule timed_recorded [OF sim.timed_world_axioms])
  then obtain r g w l where run: "enter (recorded calm_world) (\<lambda>_. []) calm_transition [calm_signal] [] 0 fresh_engine
      ((tc_init, ()), []) = Some (r, g, (w, l))"
    using enter_returns by (metis prod.exhaust)
  from safe_actions_all_attempted [OF run] obtain acts reads where "l = acts @ reads"
      "sent acts = concat (map (command_of (calm_world :: (test_clock \<times> unit) world)) (tr_actions calm_transition))" "signal_reads [calm_signal] reads"
      "map ar_id (g_actions g) = map sa_id (tr_actions calm_transition)"
    by (elim exE conjE) (rule that)
  moreover have "concat (map (command_of (calm_world :: (test_clock \<times> unit) world)) (tr_actions calm_transition)) =
      [(''psu'', \<lparr>q_id = ''protect:off'', q_verb = INVOKE, q_args = [(''action_id'', JStr ''off''), (''input'', JObj [])]\<rparr>)]"
    "map sa_id (tr_actions calm_transition) = [''off'']"
    by (simp_all add: command_of_def safe_action_request_def calm_transition_def calm_world_def sim_world_def)
  ultimately show ?thesis using run by (intro exI conjI) (simp, simp_all)
qed

end
