(* ===== verification/Evolve.thy ===== *)
theory Evolve
  imports Protection
begin

text \<open>
  The engine touches the world only through its five operations. \<open>evolves W w w'\<close> is the least relation that
  allows this, and bodies and protective transitions are proved to stay inside it; a fact about the world
  then carries over to a whole run by showing it for one operation.
\<close>

inductive evolves :: "'w world \<Rightarrow> 'w \<Rightarrow> 'w \<Rightarrow> bool" for W where
  none: "evolves W w w"
| now: "evolves W w w1 \<Longrightarrow> evolves W w (fst (w_now W w1))"
| wait: "evolves W w w1 \<Longrightarrow> evolves W w (fst (w_wait W d w1))"
| wall: "evolves W w w1 \<Longrightarrow> evolves W w (fst (w_wall W w1))"
| send: "evolves W w w1 \<Longrightarrow> evolves W w (fst (w_dispatch W dev q dl w1))"

lemma evolves_trans: "evolves W a b \<Longrightarrow> evolves W b c \<Longrightarrow> evolves W a c"
  by (rotate_tac, induction rule: evolves.induct) (auto intro: evolves.intros)

lemma evolves_ops:
  "evolves W w (fst (w_now W w))" "evolves W w (fst (w_wait W d w))" "evolves W w (fst (w_wall W w))"
  "evolves W w (fst (w_dispatch W dev q dl w))"
  by (auto intro: evolves.intros)

lemma evolves_invariant:
  assumes "evolves W w w'" "P w"
    and "\<And>w. P w \<Longrightarrow> P (fst (w_now W w))" "\<And>d w. P w \<Longrightarrow> P (fst (w_wait W d w))" "\<And>w. P w \<Longrightarrow> P (fst (w_wall W w))"
    and "\<And>dev q dl w. P w \<Longrightarrow> P (fst (w_dispatch W dev q dl w))"
  shows "P w'"
  using assms(1,2) by (induction rule: evolves.induct) (simp_all add: assms(3-6))

text \<open>A relation the operations respect holds along a whole run.\<close>

lemma evolves_relation:
  assumes "evolves W w w'" and "\<And>x. R x x" and "\<And>x y z. R x y \<Longrightarrow> R y z \<Longrightarrow> R x z"
    and "\<And>w. R w (fst (w_now W w))" "\<And>d w. R w (fst (w_wait W d w))" "\<And>w. R w (fst (w_wall W w))"
    and "\<And>dev q dl w. R w (fst (w_dispatch W dev q dl w))"
  shows "R w w'"
  using assms(1)
proof (induction rule: evolves.induct)
  case (none w)
  show ?case by (rule assms(2))
next
  case (now w w1)
  from assms(3) [OF now.IH assms(4)] show ?case .
next
  case (wait w w1 d)
  from assms(3) [OF wait.IH assms(5)] show ?case .
next
  case (wall w w1)
  from assms(3) [OF wall.IH assms(6)] show ?case .
next
  case (send w w1 dev q dl)
  from assms(3) [OF send.IH assms(7)] show ?case .
qed

section \<open>A body\<close>

abbreviation moves :: "'w world \<Rightarrow> 'w exec \<Rightarrow> 'w exec \<Rightarrow> bool" where
  "moves W x y \<equiv> evolves W (x_world x) (x_world y)"

lemma world_kept [simp]:
  "x_world (terminate oc r x) = x_world x" "x_world (upd_event a f x) = x_world x" "x_world (fail_event a c x) = x_world x"
  "x_world (deny i a dn x) = x_world x" "x_world (unresolved i a se x) = x_world x" "x_world (enter_operation a op x) = x_world x"
  "x_world (snd (enter_digest a v x)) = x_world x" "x_world (contain err x) = x_world x" "x_world (fresh_body x) = x_world x"
  "x_world (snd (resolve_input C run scope role i path v a x)) = x_world x" "x_world (snd (open_event ev x)) = x_world x"
  "x_world (record_leaf occ s a sv x) = x_world x" "x_world (snd (replay_end en x)) = x_world x" "x_world (replay_event en x) = x_world x"
  "x_world (snd (apply_derivation C dev q i a x)) = x_world x"
  by (simp_all add: terminate_def upd_event_def fail_event_def deny_def unresolved_def enter_operation_def enter_digest_def
      contain_def fresh_body_def resolve_input_def open_event_def record_leaf_def replay_end_def replay_event_def
      apply_derivation_def Let_def split: sum.split option.split prod.split op_data.split pyval.split)

lemma moves_now [simp]: "moves W x (snd (now_ns W x))"
  using evolves_ops(1) [of W "x_world x"] by (simp add: now_ns_def split_beta)

lemma moves_wall [simp]: "moves W x (snd (now_wall W x))"
  using evolves_ops(3) [of W "x_world x"] by (simp add: now_wall_def split_beta)

lemma moves_bind: "moves W x (snd m) \<Longrightarrow> (\<And>v y. moves W y (snd (f v y))) \<Longrightarrow> moves W x (snd (bind_x m f))"
  by (cases m; cases "fst m") (auto simp: bind_x_def intro: evolves_trans)

lemma moves_dispatch: "moves W x (snd (dispatch W deadline dev q i timeout a x))"
proof (cases "w_has W dev")
  case False
  then show ?thesis by (simp add: dispatch_def evolves.none)
next
  case True
  obtain t x1 where n: "now_ns W x = (t, x1)" by fastforce
  have m1: "moves W x x1" using moves_now [of W x] n by simp
  obtain w ans where d: "w_dispatch W dev q (min (t + timeout * 1000000) deadline) (x_world x1) = (w, ans)" by fastforce
  have m2: "evolves W (x_world x1) w" using evolves_ops(4) [of W "x_world x1"] d by (metis fst_conv)
  have "evolves W w (x_world (settle_failure W deadline i a r err (x1\<lparr>x_world := w\<rparr>)))" for r err
  proof -
    define y where "y = upd_event a (\<lambda>e. e\<lparr>ev_status := status_event (r_status r),
            ev_code := Some (DispatchCode (er_code err)), ev_dispatch := er_state err\<rparr>) (x1\<lparr>x_world := w\<rparr>)"
    have "x_world y = w" by (simp add: y_def)
    then have "evolves W w (x_world (snd (now_ns W y)))" using moves_now [of W y] by simp
    with \<open>x_world y = w\<close> show ?thesis
      by (simp add: settle_failure_def flip: y_def) (simp add: split_beta evolves.none Let_def)
  qed
  with True n d m1 m2 show ?thesis
    by (auto simp: dispatch_def Let_def split: sum.split option.split intro: evolves_trans)
qed

lemma moves_guarded: "moves W x (snd (guarded_dispatch W C deadline i dev kind target payload q timeout a x))"
  using moves_dispatch [of W x deadline dev q i timeout a]
  by (simp add: guarded_dispatch_def split_beta evolves.none split: sum.split)

lemma moves_same: "x_world y = x_world x \<Longrightarrow> moves W x y"
  by (simp add: evolves.none)

lemma moves_input: "moves W x (snd (case resolve_input C run scope role i path v a x of (None, y) \<Rightarrow> (Inr VNone, y) | (Some w, y) \<Rightarrow> f w y))"
  if "\<And>w y. moves W y (snd (f w y))"
proof -
  obtain r y where r: "resolve_input C run scope role i path v a x = (r, y)" by fastforce
  then have "x_world y = x_world x" using world_kept(10) [of C run scope role i path v a x] by simp
  then have "moves W x (snd (f w y))" for w using that [of y w] by simp
  with r \<open>x_world y = x_world x\<close> show ?thesis by (cases r) (simp_all add: evolves.none)
qed

lemma moves_invoke: "moves W x (snd (step_invoke W C dl run scope path i role action input timeout a x))"
proof -
  have "moves W y (snd (guarded_dispatch W C dl i dev ''invoke'' action v q timeout a (enter_operation a op y)))" for dev v q op y
    using moves_guarded [of W "enter_operation a op y" C dl i dev "''invoke''" action v q timeout a] by simp
  moreover have "moves W y (snd (bind_x (apply_derivation C dev q i a y) (\<lambda>q' x. (Inr (VOp q'), x))))" for dev q y
    by (rule moves_bind) (simp_all add: evolves.none)
  ultimately show ?thesis
    unfolding step_invoke_def Let_def
    by (intro moves_bind moves_input) (auto simp: evolves.none intro!: moves_bind split: option.split)
qed

lemma moves_write: "moves W x (snd (step_write W C dl run scope path i role parameter v timeout a x))"
proof -
  have "moves W y (snd (guarded_dispatch W C dl i dev ''write'' parameter w q timeout a (enter_operation a op y)))" for dev w q op y
    using moves_guarded [of W "enter_operation a op y" C dl i dev "''write''" parameter w q timeout a] by simp
  then show ?thesis
    unfolding step_write_def Let_def
    by (intro moves_bind moves_input) (auto simp: evolves.none intro!: moves_bind)
qed

lemma moves_capture: "moves W x (snd (step_capture W C dl run path i role fmt samples bytes timeout a x))"
proof -
  have "moves W y (snd (guarded_dispatch W C dl i dev ''capture'' fmt w q timeout a (y\<lparr>x_issued := b\<rparr>)))" for dev w q b y
    using moves_guarded [of W "y\<lparr>x_issued := b\<rparr>" C dl i dev "''capture''" fmt w q timeout a] by simp
  then show ?thesis
    unfolding step_capture_def Let_def
    by (intro moves_bind) (auto simp: evolves.none intro!: moves_bind)
qed

lemma moves_read: "moves W x (snd (step_read W C dl run scope path i role parameter timeout a x))"
proof -
  obtain r b where r: "read_parameter C run scope role i path (JStr parameter) (x_issued x (run, i, path)) = (r, b)"
    by fastforce
  have "moves W y (snd (dispatch W dl dev q i timeout a (enter_operation a op y)))" for dev q op y
    using moves_dispatch [of W "enter_operation a op y" dl dev q i timeout a] by simp
  then have "moves W y (snd (bind_x (lookup_key (rv_device (cf_binding C)) role, y) (\<lambda>dev x.
      bind_x (enter_digest a (JObj [(''parameter'', JStr p)]) x) (\<lambda>_ x.
        bind_x (dispatch W dl dev (request_read (operation_id run i path) p) i timeout a (enter_operation a (operation_id run i path) x))
          (\<lambda>q x. (Inr (VOp q), x))))))" for y p
    by (intro moves_bind) (auto simp: evolves.none intro!: moves_bind)
  from this [of "x\<lparr>x_issued := (x_issued x)((run, i, path) := b)\<rparr>"] show ?thesis
    by (simp add: step_read_def r Let_def evolves.none split: sum.split)
qed

lemma moves_delay: "moves W x (snd (step_delay W dl d a x))"
proof -
  have "moves W y (snd (case now_ns W y of (t, z) \<Rightarrow>
      (let wait = min (d * 1000000) (dl - t) in
       if 0 < wait then (case w_wait W wait (x_world z) of (w, raised) \<Rightarrow>
           (case raised of None \<Rightarrow> Inr VNone | Some e \<Rightarrow> Inl e, z\<lparr>x_world := w\<rparr>))
       else (Inr VNone, z))))" for y
  proof -
    obtain t z where n: "now_ns W y = (t, z)" by fastforce
    then have "moves W y z" using moves_now [of W y] by simp
    moreover have "evolves W (x_world z) (fst (w_wait W wt (x_world z)))" for wt by (rule evolves_ops)
    ultimately show ?thesis by (auto simp: n Let_def split_beta intro: evolves_trans)
  qed
  then show ?thesis unfolding step_delay_def by (intro moves_bind) (simp_all add: evolves.none)
qed

lemma moves_sample: "moves W x (snd (step_sample W scope i src var u m req a x))"
proof -
  have "moves W y (snd (case now_wall W y of (wall, z) \<Rightarrow>
      (case select_sample var u m req (map_of scope src) wall of
         Inl e \<Rightarrow> (Inl e, z)
       | Inr oc \<Rightarrow> (Inr (VSample oc), case so_invalid oc of
             None \<Rightarrow> z
           | Some f \<Rightarrow> terminate ExecutionError (InvalidSample i f) (fail_event a SampleCode z)))))" for y
    using moves_wall [of W y] by (simp add: split_beta split: sum.split option.split)
  then show ?thesis unfolding step_sample_def by (intro moves_bind) (simp_all add: evolves.none)
qed

lemma moves_eval [simp]: "moves W x (snd (eval_predicate W scope p x))"
  using moves_wall [of W x] by (simp add: eval_predicate_def split_beta)

lemma moves_assert: "moves W x (snd (step_assert W scope i p a x))"
  unfolding step_assert_def
  by (intro moves_bind) (simp_all add: evolves.none split: option.split bool.split prod.split)

lemma moves_leaf: "moves W x (snd (run_leaf W C dl run scope path s a x))"
  by (cases s) (simp_all add: run_leaf_def moves_invoke moves_read moves_write moves_capture moves_delay moves_sample
    moves_assert evolves.none)

lemma moves_exec: "moves W x (snd (exec_leaf W C dl run scope path s x))"
proof (cases "x_ledger x (run, step_id s, path)")
  case (Some en)
  then show ?thesis by (simp add: exec_leaf_def evolves.none)
next
  case None
  obtain a y where o: "open_event (new_event (run, step_id s, path) (step_kind s) NoDigest) x = (a, y)" by fastforce
  then have "x_world y = x_world x" using world_kept(11) [of "new_event (run, step_id s, path) (step_kind s) NoDigest" x] by simp
  moreover have "moves W y (snd (bind_x (run_leaf W C dl run scope path s a y) (\<lambda>v x. (Inr v, record_leaf oc s a v x))))" for oc
    by (intro moves_bind moves_leaf) (simp add: evolves.none)
  moreover have "exec_leaf W C dl run scope path s x = (case s of
      OtherStep i k \<Rightarrow> (Inr VNone, terminate ExecutionError (UnknownKind k i) y)
    | _ \<Rightarrow> bind_x (run_leaf W C dl run scope path s a y) (\<lambda>v x. (Inr v, record_leaf (run, step_id s, path) s a v x)))"
    by (simp only: exec_leaf_def None o Let_def option.case prod.case)
  ultimately show ?thesis
    by (cases s) (simp_all add: evolves.none)
qed

lemma moves_if: "moves W x (snd (if_head W run scope path i p x))"
proof -
  let ?oc = "(run, i, path)"
  have rep: "x_world (snd (case replay_end en (replay_event en x) of (ended, x) \<Rightarrow> (f ended, x))) = x_world x"
    for en and f :: "bool \<Rightarrow> 'b"
    by (simp add: split_beta)
  show ?thesis
  proof (cases "x_ledger x ?oc")
    case (Some en)
    then show ?thesis by (simp add: if_head_def split_beta evolves.none)
  next
    case None
    show ?thesis
    proof (cases "sha256 (predicate_value p)")
      case (Inl e)
      with None show ?thesis by (simp add: if_head_def evolves.none)
    next
      case (Inr d)
      obtain a y where o: "open_event (new_event ?oc ''if'' d) x = (a, y)" by fastforce
      then have w: "x_world y = x_world x" using world_kept(11) [of "new_event ?oc ''if'' d" x] by simp
      have "moves W y (snd (bind_x (eval_predicate W scope p y) (\<lambda>(held, stale) x.
                 case held of
                   None \<Rightarrow>
                     (let x = terminate ExecutionError (InvalidPredicate i (pr_sample p) stale) (fail_event a SampleCode x) in
                      (Inr None, x\<lparr>x_ledger := (x_ledger x)(?oc \<mapsto> \<lparr>en_event = a, en_result = VNone, en_issued = [],
                         en_end = Some (the (x_outcome x), last (x_reasons x))\<rparr>)\<rparr>))
                 | Some b \<Rightarrow>
                     (Inr (Some b), x\<lparr>x_ledger := (x_ledger x)(?oc \<mapsto>
                        \<lparr>en_event = a, en_result = VBool b, en_issued = [], en_end = None\<rparr>)\<rparr>))))"
        by (intro moves_bind) (simp_all add: Let_def evolves.none split: prod.split option.split)
      with None Inr o w show ?thesis by (simp add: if_head_def Let_def)
    qed
  qed
qed

lemma moves_repeat: "moves W x (snd (repeat_head run path i n x))"
  by (simp add: repeat_head_def Let_def split_beta evolves.none split: option.split)

lemma moves_checked: "moves W x (snd (before_step W dl s x))"
proof -
  obtain t y where n: "now_ns W x = (t, y)" by fastforce
  with moves_now [of W x] show ?thesis by (simp add: before_step_def evolves.none)
qed

lemma post_same: "post R R x m = R x (snd m)"
  by (cases m; cases "fst m") auto

interpretation travel: body_relation "moves W" "moves W" W C dl run UNIV for W C dl run
proof
  show "post (moves W) (moves W) x (exec_leaf W C dl run scope path s x)" for s scope path x
    using moves_exec [of W x C dl run scope path s] by (simp add: post_same)
  show "post (moves W) (moves W) x (if_head W run scope path i p x)" for i p scope path x
    using moves_if [of W x run scope path i p] by (simp add: post_same)
qed (auto intro: evolves.none evolves_trans moves_checked moves_repeat)

lemma block_evolves: "moves W x (snd (run_block W C dl run scope path steps x))"
  using travel.block_post [of steps W x C dl run scope path] by (simp add: post_same)

theorem body_evolves: "moves W x (snd (run_body W C steps run dl x))"
proof -
  have "moves W (fresh_body x) (snd (run_block W C dl run [] [] steps (fresh_body x)))"
    by (rule block_evolves)
  then show ?thesis
    by (auto simp: run_body_def Let_def split: prod.splits sum.splits)
qed

section \<open>A protective transition\<close>

lemma read_signal_evolves: "evolves W w (snd (read_signal W dl sg w))"
proof -
  have wall: "evolves W a (fst (w_wall W a))" for a by (rule evolves_ops)
  have "evolves W w (fst (w_wall W (fst (w_dispatch W dev q dl w))))" for dev q
    using evolves_trans [OF evolves_ops(4) wall] .
  with wall show ?thesis by (simp add: read_signal_def split_beta)
qed

lemma read_signals_evolves: "evolves W w (snd (read_signals W dl sgs snap w))"
proof (induction sgs arbitrary: snap w)
  case (Cons sg sgs)
  obtain r w1 where r: "read_signal W dl sg w = (r, w1)" by fastforce
  have "evolves W w w1" using read_signal_evolves [of W w dl sg] r by simp
  with Cons.IH r show ?case by (cases r) (auto intro: evolves_trans)
qed (simp add: evolves.none)

lemma poll_once_evolves: "evolves W w (snd (poll_once W signals conds dl w))"
  using read_signals_evolves [of W w dl signals "\<lambda>_. None"]
  by (simp add: poll_once_def read_signal_values_def split_beta split: sum.split)

lemma verify_loop_evolves:
  assumes "verify_loop W signals conds hold_ns poll dl since w = Some res"
  shows "evolves W w (snd res)"
proof (rule verify_loop.raw_induct [where P = "\<lambda>W signals conds hold_ns poll dl since w res. evolves W w (snd res)",
    OF _ assms], goal_cases)
  case (1 f W signals conds hold_ns poll dl since w res)
  note IH = 1(1) and body = 1(2)
  obtain w1 now where n: "w_now W w = (w1, now)" by fastforce
  obtain r w2 where p: "poll_once W signals conds dl w1 = (r, w2)" by fastforce
  have "evolves W w w1" "evolves W w1 w2"
    using evolves_ops(1) [of W w] poll_once_evolves [of W w1 signals conds dl] n p by simp_all
  then have w2: "evolves W w w1" "evolves W w w2" by (auto intro: evolves_trans)
  let ?start = "case since of None \<Rightarrow> now | Some t \<Rightarrow> t"
  consider "dl - now \<le> 0" | e where "r = Inl e" | viols where "\<not> dl - now \<le> 0" "r = Inr viols" by (cases r) auto
  then show ?case
  proof cases
    case 3
    let ?d = "if viols = [] then min poll (min (hold_ns - (now - ?start)) (dl - now)) else min poll (dl - now)"
    obtain w3 e where wt: "w_wait W ?d w2 = (w3, e)" by fastforce
    have w3: "evolves W w w3" using evolves_trans [OF w2(2) evolves_ops(2)] wt by (metis fst_conv)
    show ?thesis
    proof (cases "(viols = [] \<and> hold_ns \<le> now - ?start) \<or> e \<noteq> None")
      case True
      with body n p 3 wt w2 w3 show ?thesis by (auto simp: Let_def split: option.splits if_splits)
    next
      case False
      then have "f W signals conds hold_ns poll dl (if viols = [] then Some ?start else None) w3 = Some res"
        using body n p 3 wt by (auto simp: Let_def split: if_splits)
      with IH w3 show ?thesis by (blast intro: evolves_trans)
    qed
  qed (use body n p w2 in \<open>auto split: if_splits\<close>)
qed

lemma dispatch_actions_evolves: "evolves W w (snd (dispatch_actions W later dl as g w))"
proof (induction as arbitrary: g w)
  case (Cons a as)
  obtain r w1 where r: "dispatch_action W dl a w = (r, w1)" by fastforce
  have "evolves W w (fst (w_dispatch W dev q t (fst (w_now W w))))" for dev q t
    by (rule evolves_trans [OF evolves_ops(1) evolves_ops(4)])
  moreover have "evolves W w (fst (w_now W w))" by (rule evolves_ops)
  ultimately have "evolves W w (snd (dispatch_action W dl a w))"
    by (simp add: dispatch_action_def split_beta Let_def split: option.split)
  with r Cons.IH show ?case by (auto intro: evolves_trans)
qed (simp add: evolves.none)

theorem enter_evolves:
  assumes "enter W later tr signals reasons t0 g w = Some (r, g', w')"
  shows "evolves W w w'"
proof (cases "g_entered g")
  case (Some t)
  with assms show ?thesis by (simp add: enter_def Let_def evolves.none)
next
  case None
  let ?g = "(add_reasons reasons g)\<lparr>g_entered := Some t0, g_deadline := Some (protective_deadline tr t0), g_in_transition := True\<rparr>"
  obtain g3 w1 where a: "dispatch_actions W later (protective_deadline tr t0) (tr_actions tr) ?g w = (g3, w1)" by fastforce
  with assms None obtain v where v: "verify_loop W signals (tr_verify tr) (tr_stable_ms tr * 1000000) (bench_poll_ns signals)
      (protective_deadline tr t0) None w1 = Some (v, w')"
    by (auto simp: enter_def Let_def split: option.splits sum.splits)
  have "evolves W w w1" using dispatch_actions_evolves [of W w later "protective_deadline tr t0" "tr_actions tr" ?g] a by simp
  with verify_loop_evolves [OF v] show ?thesis by (auto intro: evolves_trans)
qed

end
