(* ===== verification/Monitor.thy ===== *)
theory Monitor
  imports Evolve Execution
begin

text \<open>
  Run monitoring, \<open>_RunMonitor\<close>, \<open>_MonitoringPlugin\<close> and \<open>_MonitoringClock\<close> of \<open>control/coordinator.py\<close>. The
  monitor looks at the bench before and after every dispatch and once per slice of a wait; in the
  body a violation, a cancellation or a lost lease latches a cause, and the latched cause blocks the next
  dispatch. The coordinator lives in a site: the outside world together with the durable store, which
  other requests may change whenever the world runs. Snapshot retention (\<open>retain\<close>, set by the run
  worker) and the stream host are not attached. Ticks never nest, because the monitor reads through
  the plain plugins, so \<open>in_tick\<close> needs no state.
\<close>

section \<open>The site\<close>

text \<open>
  \<open>e_cancels\<close>: the run ids \<open>cancel\<close> was called with since the last look, from the threads that serve
  requests. \<open>e_reason\<close> is the text of a reason; reasons with the same text count as one, so texts are taken
  to be as different as the reasons.
\<close>

record 's env =
  e_world :: "'s world"
  e_store :: "'s \<Rightarrow> store"
  e_set_store :: "store \<Rightarrow> 's \<Rightarrow> 's"
  e_cancels :: "'s \<Rightarrow> 's \<times> string list"
  e_reason :: "run_reason \<Rightarrow> string"

record watch =
  wa_bench :: string
  wa_signals :: "bench_signal list"
  wa_conditions :: "condition list"

section \<open>The monitor\<close>

datatype phase = Idle | InBody | Protecting

datatype cause = CauseTripped | CauseCancelled

record monitor =
  mo_run :: string
  mo_lease :: nat
  mo_phase :: phase
  mo_violations :: "violation list"
  mo_cause :: "cause option"
  mo_cause_reasons :: "run_reason list"
  mo_blocked :: bool
  mo_cancelled :: bool
  mo_later :: "run_reason list"

definition fresh_monitor :: "string \<Rightarrow> nat \<Rightarrow> monitor" where
  "fresh_monitor run lease = \<lparr>mo_run = run, mo_lease = lease, mo_phase = Idle, mo_violations = [], mo_cause = None,
     mo_cause_reasons = [], mo_blocked = False, mo_cancelled = False, mo_later = []\<rparr>"

text \<open>\<open>RunCoordinator.cancel\<close>: honoured only while the body of that run can still dispatch.\<close>

definition cancel :: "string \<Rightarrow> monitor \<Rightarrow> monitor" where
  "cancel run m = (if mo_phase m = InBody \<and> mo_run m = run then m\<lparr>mo_cancelled := True\<rparr> else m)"

definition set_cause :: "cause \<Rightarrow> run_reason list \<Rightarrow> monitor \<Rightarrow> monitor" where
  "set_cause c rs m = (if mo_cause m = None then m\<lparr>mo_cause := Some c, mo_cause_reasons := rs\<rparr> else m)"

definition check_body_phase :: "'s env \<Rightarrow> watch \<Rightarrow> 's \<times> monitor \<Rightarrow> 's \<times> monitor" where
  "check_body_phase E C = (\<lambda>(s, m).
     if mo_cancelled m then (s, set_cause CauseCancelled [CancelledByPrincipal (mo_run m)] m)
     else case get_active_lease (wa_bench C) (e_store E s) of
         None \<Rightarrow> (s, set_cause CauseCancelled [LeaseLost (mo_lease m)] m)
       | Some l \<Rightarrow>
           (if ls_seq l \<noteq> mo_lease m then (s, set_cause CauseCancelled [LeaseLost (mo_lease m)] m)
            else case w_wall (e_world E) s of (s1, now) \<Rightarrow>
              (case (wall_utc (ls_expires l), wall_utc now) of
                 (Some expiry, Some t) \<Rightarrow>
                   (s1, if instant expiry < instant t then set_cause CauseCancelled [LeaseExpired (ls_expires l)] m else m)
               | _ \<Rightarrow> (s1, m))))"

text \<open>New violations; during protection they enter the engine, which reads the clock first.\<close>

definition observe :: "'s env \<Rightarrow> violation list \<Rightarrow> 's \<times> monitor \<Rightarrow> 's \<times> monitor" where
  "observe E found = (\<lambda>(s, m).
     let new = filter (\<lambda>v. v \<notin> set (mo_violations m)) found in
     if new = [] then (s, m)
     else let m1 = m\<lparr>mo_violations := mo_violations m @ new\<rparr> in
       case mo_phase m of
         InBody \<Rightarrow> (s, set_cause CauseTripped (map Violated (mo_violations m1)) m1)
       | Protecting \<Rightarrow> (fst (w_now (e_world E) s), m1\<lparr>mo_later := mo_later m @ map Violated new\<rparr>)
       | Idle \<Rightarrow> (s, m1))"

definition look :: "'s env \<Rightarrow> watch \<Rightarrow> 's \<times> monitor \<Rightarrow> (exn + unit) \<times> 's \<times> monitor" where
  "look E C = (\<lambda>(s, m).
     case w_now (e_world E) s of (s1, t) \<Rightarrow>
       (case read_signal_values (e_world E) (t + bench_poll_ns (wa_signals C)) (wa_signals C) s1 of
          (Inl e, s2) \<Rightarrow> (Inl e, s2, m)
        | (Inr snap, s2) \<Rightarrow> (case evaluate_conditions (wa_conditions C) snap of
            Inl e \<Rightarrow> (Inl e, s2, m)
          | Inr found \<Rightarrow> (Inr (), observe E found (s2, m)))))"

text \<open>One tick. The calls of \<open>cancel\<close> that arrived since the last one are seen first.\<close>

definition tick :: "'s env \<Rightarrow> watch \<Rightarrow> 's \<times> monitor \<Rightarrow> (exn + unit) \<times> 's \<times> monitor" where
  "tick E C = (\<lambda>(s, m).
     if mo_phase m = Idle then (Inr (), s, m)
     else case e_cancels E s of (s1, runs) \<Rightarrow>
       (let m1 = fold cancel runs m in
        look E C (if mo_phase m = InBody then check_body_phase E C (s1, m1) else (s1, m1))))"

section \<open>Blocking\<close>

definition cancel_result :: "op_request \<Rightarrow> string \<Rightarrow> exn + op_result" where
  "cancel_result q reason = bind_res (mk_op_error CANCELLED reason NotDispatched) (\<lambda>e.
     mk_result \<lparr>r_id = q_id q, r_verb = q_verb q, r_status = StCancelled, r_data = NoData, r_error = Some e\<rparr>)"

definition block_result :: "'s env \<Rightarrow> op_request \<Rightarrow> monitor \<Rightarrow> (exn + op_result) option \<times> monitor" where
  "block_result E q m = (if mo_phase m \<noteq> InBody then (None, m)
     else case mo_cause m of
         None \<Rightarrow> (None, m)
       | Some CauseCancelled \<Rightarrow>
           (Some (cancel_result q (''run '' @ mo_run m @ '' cancelled before dispatch'')), m\<lparr>mo_blocked := True\<rparr>)
       | Some CauseTripped \<Rightarrow>
           (Some (result_failure (q_id q) (q_verb q) DEVICE_REJECTED (''protection trip: '' @
              py_join ''; '' (map (e_reason E) (mo_cause_reasons m))) NotDispatched), m\<lparr>mo_blocked := True\<rparr>))"

text \<open>\<open>_MonitoringPlugin.dispatch\<close>.\<close>

definition watched_dispatch :: "'s env \<Rightarrow> watch \<Rightarrow> string \<Rightarrow> op_request \<Rightarrow> int \<Rightarrow> 's \<times> monitor \<Rightarrow>
    ('s \<times> monitor) \<times> (exn + op_result)" where
  "watched_dispatch E C dev q dl x = (case tick E C x of
      (Inl e, x1) \<Rightarrow> (x1, Inl e)
    | (Inr _, (s1, m1)) \<Rightarrow> (case block_result E q m1 of
        (Some r, m2) \<Rightarrow> ((s1, m2), r)
      | (None, m2) \<Rightarrow> (case w_dispatch (e_world E) dev q dl s1 of
          (s2, Inl e) \<Rightarrow> ((s2, m2), Inl e)
        | (s2, Inr r) \<Rightarrow> (case tick E C (s2, m2) of
            (Inl e, x3) \<Rightarrow> (x3, Inl e)
          | (Inr _, x3) \<Rightarrow> (x3, Inr r)))))"

text \<open>\<open>_MonitoringClock.wait_ns\<close>: one tick per slice and one at the end; a cause ends the wait early.\<close>

function watched_wait :: "'s env \<Rightarrow> watch \<Rightarrow> int \<Rightarrow> 's \<times> monitor \<Rightarrow> ('s \<times> monitor) \<times> exn option" where
  "watched_wait E C d x =
     (case tick E C x of
        (Inl e, x1) \<Rightarrow> (x1, Some e)
      | (Inr _, (s1, m1)) \<Rightarrow>
          (if d \<le> 0 \<or> mo_cause m1 \<noteq> None then ((s1, m1), None)
           else let slice = min (max 1 (bench_poll_ns (wa_signals C))) d in
             (case w_wait (e_world E) slice s1 of
                (s2, Some e) \<Rightarrow> ((s2, m1), Some e)
              | (s2, None) \<Rightarrow> watched_wait E C (d - slice) (s2, m1))))"
  by pat_completeness auto
termination
  by (relation "measure (\<lambda>(E, C, d, x). nat d)") (auto simp: min_def max_def)

declare watched_wait.simps [simp del]

text \<open>The world of the executor, and that of the protective transition, whose clock is the plain one.\<close>

definition body_world :: "'s env \<Rightarrow> watch \<Rightarrow> ('s \<times> monitor) world" where
  "body_world E C = \<lparr>w_has = w_has (e_world E),
     w_now = (\<lambda>(s, m). case w_now (e_world E) s of (s1, t) \<Rightarrow> ((s1, m), t)),
     w_wait = watched_wait E C,
     w_wall = (\<lambda>(s, m). case w_wall (e_world E) s of (s1, t) \<Rightarrow> ((s1, m), t)),
     w_dispatch = watched_dispatch E C\<rparr>"

definition protect_world :: "'s env \<Rightarrow> watch \<Rightarrow> ('s \<times> monitor) world" where
  "protect_world E C = (body_world E C)\<lparr>
     w_wait := (\<lambda>d (s, m). case w_wait (e_world E) d s of (s1, e) \<Rightarrow> ((s1, m), e))\<rparr>"

section \<open>What the monitor keeps\<close>

text \<open>A monitor only moves forward: violations accumulate, and the first cause stays.\<close>

definition mon_le :: "monitor \<Rightarrow> monitor \<Rightarrow> bool" where
  "mon_le m m' \<longleftrightarrow> mo_run m' = mo_run m \<and> mo_lease m' = mo_lease m \<and> mo_phase m' = mo_phase m \<and>
     prefix (mo_violations m) (mo_violations m') \<and> prefix (mo_later m) (mo_later m') \<and>
     (mo_cause m \<noteq> None \<longrightarrow> mo_cause m' = mo_cause m \<and> mo_cause_reasons m' = mo_cause_reasons m) \<and>
     (mo_blocked m \<longrightarrow> mo_blocked m')"

definition mon_inv :: "monitor \<Rightarrow> bool" where
  "mon_inv m \<longleftrightarrow> (mo_blocked m \<longrightarrow> mo_cause m \<noteq> None) \<and> (mo_cause m = None \<longrightarrow> mo_cause_reasons m = []) \<and>
     (mo_cause m \<noteq> None \<longrightarrow> mo_cause_reasons m \<noteq> []) \<and>
     (mo_cause m = Some CauseTripped \<longrightarrow> set (mo_cause_reasons m) \<subseteq> Violated ` set (mo_violations m)) \<and>
     (mo_phase m = InBody \<longrightarrow> mo_violations m \<noteq> [] \<longrightarrow> mo_cause m \<noteq> None)"

text \<open>Violations of the protective phase are all handed to the engine.\<close>

definition handed :: "monitor \<Rightarrow> monitor \<Rightarrow> bool" where
  "handed m m' \<longleftrightarrow> (mo_phase m = Protecting \<longrightarrow>
     (\<forall>v \<in> set (mo_violations m'). v \<in> set (mo_violations m) \<or> Violated v \<in> set (mo_later m')))"

definition mon_rel :: "monitor \<Rightarrow> monitor \<Rightarrow> bool" where
  "mon_rel m m' \<longleftrightarrow> mon_le m m' \<and> (mon_inv m \<longrightarrow> mon_inv m') \<and> handed m m'"

lemma mon_le_refl [simp]: "mon_le m m"
  by (simp add: mon_le_def)

lemma mon_le_trans: "mon_le a b \<Longrightarrow> mon_le b c \<Longrightarrow> mon_le a c"
  unfolding mon_le_def by (cases "mo_cause a") (auto intro: prefix_order.trans)

lemma mon_rel_refl [simp]: "mon_rel m m"
  by (simp add: mon_rel_def handed_def)

lemma mon_rel_trans: "mon_rel a b \<Longrightarrow> mon_rel b c \<Longrightarrow> mon_rel a c"
proof -
  assume ab: "mon_rel a b" and bc: "mon_rel b c"
  have "mo_phase b = mo_phase a" "prefix (mo_later b) (mo_later c)"
    using ab bc by (simp_all add: mon_rel_def mon_le_def)
  moreover have "set (mo_later b) \<subseteq> set (mo_later c)"
    using calculation(2) by (rule set_mono_prefix)
  moreover have "handed a b" "handed b c" using ab bc by (simp_all add: mon_rel_def)
  ultimately have "handed a c"
    by (cases "mo_phase a") (auto simp: handed_def subset_eq)
  moreover have "mon_le a c" using ab bc mon_le_trans [of a b c] by (simp add: mon_rel_def)
  ultimately show ?thesis using ab bc by (simp add: mon_rel_def)
qed

lemma mon_rel_phase: "mon_rel a b \<Longrightarrow> mo_phase b = mo_phase a"
  by (simp add: mon_rel_def mon_le_def)

lemma set_cause_rel:
  "rs \<noteq> [] \<Longrightarrow> (c = CauseTripped \<Longrightarrow> set rs \<subseteq> Violated ` set (mo_violations m)) \<Longrightarrow> mon_rel m (set_cause c rs m)"
  by (simp add: mon_rel_def mon_le_def mon_inv_def set_cause_def handed_def)

lemma cancel_rel: "mon_rel m (fold cancel runs m)"
proof (induction runs arbitrary: m)
  case (Cons r runs)
  have "mon_rel m (cancel r m)"
    by (simp add: mon_rel_def mon_le_def mon_inv_def cancel_def handed_def)
  from mon_rel_trans [OF this Cons [of "cancel r m"]] show ?case by simp
qed simp

lemma check_body_rel: "mon_rel m (snd (check_body_phase E C (s, m)))"
proof -
  have "mon_rel m (set_cause CauseCancelled [r] m)" for r
    by (rule set_cause_rel) simp_all
  then show ?thesis
    unfolding check_body_phase_def by (simp split: option.split prod.split)
qed

lemma observe_rel: "mon_rel m (snd (observe E found (s, m)))"
proof -
  define new where "new = filter (\<lambda>v. v \<notin> set (mo_violations m)) found"
  define m1 where "m1 = m\<lparr>mo_violations := mo_violations m @ new\<rparr>"
  have obs: "observe E found (s, m) = (if new = [] then (s, m) else case mo_phase m of
         InBody \<Rightarrow> (s, set_cause CauseTripped (map Violated (mo_violations m1)) m1)
       | Protecting \<Rightarrow> (fst (w_now (e_world E) s), m1\<lparr>mo_later := mo_later m @ map Violated new\<rparr>)
       | Idle \<Rightarrow> (s, m1))"
    unfolding observe_def new_def m1_def Let_def by simp
  show ?thesis
  proof (cases "new = []")
    case False
    then have "mo_violations m1 \<noteq> []" by (simp add: m1_def)
    then show ?thesis
      by (cases "mo_phase m"; cases "mo_cause m")
        (auto simp: obs m1_def mon_rel_def mon_le_def mon_inv_def handed_def set_cause_def)
  qed (simp add: obs)
qed

lemma look_rel: "mon_rel m (snd (snd (look E C (s, m))))"
  unfolding look_def by (simp add: observe_rel split: prod.split sum.split)

lemma tick_rel: "mon_rel m (snd (snd (tick E C (s, m))))"
proof -
  obtain s1 runs where c: "e_cancels E s = (s1, runs)" by fastforce
  let ?m = "fold cancel runs m"
  have 1: "mon_rel m ?m" by (rule cancel_rel)
  then have phase: "mo_phase ?m = mo_phase m" by (rule mon_rel_phase)
  obtain s2 m2 where b: "(if mo_phase m = InBody then check_body_phase E C (s1, ?m) else (s1, ?m)) = (s2, m2)" by fastforce
  have "mon_rel ?m m2"
    using check_body_rel [of ?m E C s1] b by (cases "mo_phase m = InBody") simp_all
  with 1 have "mon_rel m (snd (snd (look E C (s2, m2))))"
    by (rule mon_rel_trans [OF mon_rel_trans look_rel])
  then show ?thesis by (simp add: tick_def c Let_def phase b)
qed

lemma block_rel: "mon_rel m (snd (block_result E q m))"
  by (auto simp: block_result_def mon_rel_def mon_le_def mon_inv_def handed_def split: option.split cause.split)

lemma watched_dispatch_rel: "mon_rel m (snd (fst (watched_dispatch E C dev q dl (s, m))))"
proof -
  obtain r s1 m1 where t: "tick E C (s, m) = (r, s1, m1)" by (metis prod.exhaust)
  with tick_rel [of m E C s] have 1: "mon_rel m m1" by simp
  obtain a m2 where b: "block_result E q m1 = (a, m2)" by fastforce
  with block_rel [of m1 E q] have "mon_rel m1 m2" by simp
  with 1 have 2: "mon_rel m m2" by (rule mon_rel_trans)
  obtain s2 ans where d: "w_dispatch (e_world E) dev q dl s1 = (s2, ans)" by fastforce
  have "mon_rel m (snd (snd (tick E C (s2, m2))))" by (rule mon_rel_trans [OF 2 tick_rel])
  with t b d 1 2 show ?thesis
    by (auto simp: watched_dispatch_def split: sum.split option.split prod.split)
qed

lemma watched_wait_rel: "mon_rel m (snd (fst (watched_wait E C d (s, m))))"
proof (induction "nat d" arbitrary: d s m rule: less_induct)
  case less
  obtain r s1 m1 where t: "tick E C (s, m) = (r, s1, m1)" by (metis prod.exhaust)
  with tick_rel [of m E C s] have r1: "mon_rel m m1" by simp
  show ?case
  proof (cases "isl r \<or> d \<le> 0 \<or> mo_cause m1 \<noteq> None")
    case True
    with t r1 show ?thesis by (subst watched_wait.simps) (auto split: sum.split)
  next
    case False
    define slice where "slice = min (max 1 (bench_poll_ns (wa_signals C))) d"
    with False have "nat (d - slice) < nat d" by (simp add: min_def max_def)
    from less [OF this] have rest: "mon_rel m1 (snd (fst (watched_wait E C (d - slice) (s2, m1))))" for s2 .
    obtain s2 e where w: "w_wait (e_world E) slice s1 = (s2, e)" by fastforce
    have "watched_wait E C d (s, m) = (case e of Some e \<Rightarrow> ((s2, m1), Some e) | None \<Rightarrow> watched_wait E C (d - slice) (s2, m1))"
      using False t w by (subst watched_wait.simps) (cases r, auto simp: Let_def slice_def [symmetric] split: option.split)
    with r1 mon_rel_trans [OF r1 rest [of s2]] show ?thesis by (cases e) simp_all
  qed
qed

text \<open>Both worlds the coordinator runs on keep the monitor's invariants.\<close>

theorem monitor_kept:
  assumes "evolves (body_world E C) (s, m) (s', m') \<or> evolves (protect_world E C) (s, m) (s', m')"
  shows "mon_rel m m'"
proof -
  have plain: "mon_rel (snd x) (snd (fst (w_now (body_world E C) x)))" "mon_rel (snd x) (snd (fst (w_wall (body_world E C) x)))"
    "mon_rel (snd x) (snd (fst (w_wait (protect_world E C) d x)))" for x d
    by (cases x; simp add: body_world_def protect_world_def split_beta)+
  have ops: "mon_rel (snd x) (snd (fst (w_wait (body_world E C) d x)))"
    "mon_rel (snd x) (snd (fst (w_dispatch (body_world E C) dev q dl x)))" for x d dev q dl
    by (cases x; simp add: body_world_def watched_wait_rel watched_dispatch_rel)+
  have pr: "w_now (protect_world E C) = w_now (body_world E C)" "w_wall (protect_world E C) = w_wall (body_world E C)"
    "w_dispatch (protect_world E C) = w_dispatch (body_world E C)"
    by (simp_all add: protect_world_def)
  from assms have "mon_rel (snd (s, m)) (snd (s', m'))"
  proof
    assume "evolves (body_world E C) (s, m) (s', m')"
    then show ?thesis
      by (rule evolves_relation [where R = "\<lambda>x y. mon_rel (snd x) (snd y)"]) (auto intro: plain ops mon_rel_trans)
  next
    assume "evolves (protect_world E C) (s, m) (s', m')"
    then show ?thesis
      by (rule evolves_relation [where R = "\<lambda>x y. mon_rel (snd x) (snd y)"]) (auto simp: pr intro: plain ops mon_rel_trans)
  qed
  then show ?thesis by simp
qed

section \<open>A latched cause stops the body\<close>

text \<open>The site with a log of what reaches the devices.\<close>

definition record_env :: "'s env \<Rightarrow> ('s \<times> dispatch_record list) env" where
  "record_env E = \<lparr>e_world = recorded (e_world E), e_store = (\<lambda>(s, l). e_store E s),
     e_set_store = (\<lambda>st (s, l). (e_set_store E st s, l)),
     e_cancels = (\<lambda>(s, l). case e_cancels E s of (s', runs) \<Rightarrow> ((s', l), runs)), e_reason = e_reason E\<rparr>"

lemma record_env_simps [simp]:
  "e_world (record_env E) = recorded (e_world E)" "e_store (record_env E) (s, l) = e_store E s"
  "e_set_store (record_env E) st (s, l) = (e_set_store E st s, l)"
  "e_cancels (record_env E) (s, l) = (case e_cancels E s of (s', runs) \<Rightarrow> ((s', l), runs))"
  "e_reason (record_env E) = e_reason E"
  by (simp_all add: record_env_def)

abbreviation looks_only :: "watch \<Rightarrow> dispatch_record list \<Rightarrow> dispatch_record list \<Rightarrow> bool" where
  "looks_only C l l' \<equiv> \<exists>lg. l' = l @ lg \<and> signal_reads (wa_signals C) lg"

lemma looks_only_refl [simp]: "looks_only C l l"
  by simp

lemma looks_only_trans: "looks_only C x y \<Longrightarrow> looks_only C y z \<Longrightarrow> looks_only C x z"
  by (elim exE conjE) simp

lemma check_body_log:
  assumes "check_body_phase (record_env E) C ((s, l), m) = ((s', l'), m')"
  shows "l' = l"
proof -
  obtain s1 t where "w_wall (e_world E) s = (s1, t)" by fastforce
  with assms show ?thesis
    by (auto simp: check_body_phase_def recorded_simps split: if_splits option.splits)
qed

lemma observe_log:
  assumes "observe (record_env E) found ((s, l), m) = ((s', l'), m')"
  shows "l' = l"
proof -
  obtain s1 t where "w_now (e_world E) s = (s1, t)" by fastforce
  with assms show ?thesis
    by (cases "mo_phase m") (auto simp: observe_def recorded_simps Let_def split: if_splits)
qed

lemma look_log:
  assumes "look (record_env E) C ((s, l), m) = (r, (s', l'), m')"
  shows "looks_only C l l'"
proof -
  obtain s1 t where n: "w_now (e_world E) s = (s1, t)" by fastforce
  obtain v s2 l2 where v: "read_signals (recorded (e_world E)) (t + bench_poll_ns (wa_signals C)) (wa_signals C) (\<lambda>_. None) (s1, l) =
      (v, (s2, l2))" by (metis prod.exhaust)
  from read_signals_log [OF v subset_refl] have log: "looks_only C l l2" by blast
  show ?thesis
  proof (cases v)
    case (Inl e)
    with assms n v log show ?thesis by (simp add: look_def recorded_simps read_signal_values_def)
  next
    case (Inr snap)
    show ?thesis
    proof (cases "evaluate_conditions (wa_conditions C) snap")
      case (Inl e)
      with assms n v \<open>v = Inr snap\<close> log show ?thesis by (simp add: look_def recorded_simps read_signal_values_def)
    next
      case (Inr found)
      with assms n v \<open>v = Inr snap\<close> have "observe (record_env E) found ((s2, l2), m) = ((s', l'), m')"
        by (simp add: look_def recorded_simps read_signal_values_def)
      from observe_log [OF this] log show ?thesis by simp
    qed
  qed
qed

lemma tick_log:
  assumes "tick (record_env E) C ((s, l), m) = (r, (s', l'), m')"
  shows "looks_only C l l'"
proof (cases "mo_phase m = Idle")
  case True
  with assms show ?thesis by (simp add: tick_def)
next
  case False
  obtain s1 runs where c: "e_cancels E s = (s1, runs)" by fastforce
  let ?m = "fold cancel runs m"
  obtain s2 l2 m2 where b: "(if mo_phase m = InBody then check_body_phase (record_env E) C ((s1, l), ?m) else ((s1, l), ?m)) =
      ((s2, l2), m2)" by (metis prod.exhaust)
  then have "l2 = l" using check_body_log [of E C s1 l ?m s2 l2 m2] by (simp split: if_splits)
  with assms False c b show ?thesis
    using look_log [of E C s2 l m2 r s' l' m'] by (simp add: tick_def Let_def)
qed

text \<open>A dispatch under a latched cause: refused, with nothing sent but what the monitor reads.\<close>

lemma latched_dispatch:
  assumes "mo_phase m = InBody" "mo_cause m \<noteq> None"
    and "watched_dispatch (record_env E) C dev q dl ((s, l), m) = (((s', l'), m'), ans)"
  shows "looks_only C l l' \<and> (case ans of Inl _ \<Rightarrow> True | Inr r \<Rightarrow> r_status r \<noteq> StOk \<and> mo_blocked m')"
proof -
  obtain r s1 l1 m1 where t: "tick (record_env E) C ((s, l), m) = (r, (s1, l1), m1)" by (metis prod.exhaust)
  have log: "looks_only C l l1" using tick_log [OF t] .
  have "mon_rel m m1" using tick_rel [of m "record_env E" C "(s, l)"] t by simp
  then have m1: "mo_phase m1 = InBody" "mo_cause m1 \<noteq> None" using assms(1,2) by (simp_all add: mon_rel_def mon_le_def)
  have refused: "r_status x \<noteq> StOk" if "cancel_result q why = Inr x" for x why
    using that by (auto simp: cancel_result_def mk_op_error_def mk_result_def split: if_splits)
  have failed: "r_status x \<noteq> StOk" if "result_failure i v c why NotDispatched = Inr x" for x why i v c
    using that by (auto simp: result_failure_def mk_op_error_def mk_result_def split: if_splits)
  obtain c where c: "mo_cause m1 = Some c" using m1(2) by blast
  define b where "b = the (fst (block_result (record_env E) q m1))"
  have b: "block_result (record_env E) q m1 = (Some b, m1\<lparr>mo_blocked := True\<rparr>)" "b = Inr x \<Longrightarrow> r_status x \<noteq> StOk" for x
    using m1(1) c refused failed by (cases c; simp add: block_result_def b_def)+
  show ?thesis
  proof (cases r)
    case (Inl e)
    with assms(3) t log show ?thesis by (auto simp: watched_dispatch_def)
  next
    case (Inr u)
    with assms(3) t b(1) have "((s', l'), m') = ((s1, l1), m1\<lparr>mo_blocked := True\<rparr>)" "ans = b"
      by (simp_all add: watched_dispatch_def)
    with log b(2) show ?thesis by (cases b) auto
  qed
qed

lemma latched_wait:
  assumes "watched_wait (record_env E) C d ((s, l), m) = (((s', l'), m'), e)" "mo_cause m \<noteq> None"
  shows "looks_only C l l'"
proof -
  obtain r s1 l1 m1 where t: "tick (record_env E) C ((s, l), m) = (r, (s1, l1), m1)" by (metis prod.exhaust)
  have log: "looks_only C l l1" using tick_log [OF t] .
  have "mon_rel m m1" using tick_rel [of m "record_env E" C "(s, l)"] t by simp
  then have "mo_cause m1 \<noteq> None" using assms(2) by (simp add: mon_rel_def mon_le_def)
  with assms(1) t log show ?thesis
    by (subst (asm) watched_wait.simps) (auto split: sum.splits)
qed

lemma latched_world:
  assumes "evolves (body_world (record_env E) C) ((s, l), m) x" "mo_phase m = InBody" "mo_cause m \<noteq> None"
  shows "looks_only C l (snd (fst x))"
proof -
  let ?P = "\<lambda>x. mo_phase (snd x) = InBody \<and> mo_cause (snd x) \<noteq> None \<and> looks_only C l (snd (fst x))"
  let ?W = "body_world (record_env E) C"
  have keep: "mo_phase m2 = InBody \<and> mo_cause m2 \<noteq> None"
    if "mo_phase m1 = InBody" "mo_cause m1 \<noteq> None" "mon_rel m1 m2" for m1 m2
    using that by (simp add: mon_rel_def mon_le_def)
  have "?P x"
    using assms(1)
  proof (rule evolves_invariant [where P = ?P], goal_cases)
    case 1
    show ?case using assms by simp
  next
    case (2 x)
    obtain s1 l1 m1 where "x = ((s1, l1), m1)" by (metis prod.exhaust)
    with 2 show ?case by (cases "w_now (e_world E) s1") (simp add: body_world_def recorded_simps)
  next
    case (3 d x)
    obtain s1 l1 m1 where x: "x = ((s1, l1), m1)" by (metis prod.exhaust)
    obtain s2 l2 m2 e where y: "watched_wait (record_env E) C d ((s1, l1), m1) = (((s2, l2), m2), e)" by (metis prod.exhaust)
    from 3 x have l: "looks_only C l l1" "mo_phase m1 = InBody" "mo_cause m1 \<noteq> None" by simp_all
    have "mon_rel m1 m2" using watched_wait_rel [of m1 "record_env E" C d "(s1, l1)"] y by simp
    from keep [OF l(2,3) this] looks_only_trans [OF l(1) latched_wait [OF y l(3)]] show ?case
      by (simp add: body_world_def x y)
  next
    case (4 x)
    obtain s1 l1 m1 where "x = ((s1, l1), m1)" by (metis prod.exhaust)
    with 4 show ?case by (cases "w_wall (e_world E) s1") (simp add: body_world_def recorded_simps)
  next
    case (5 dev q dl x)
    obtain s1 l1 m1 where x: "x = ((s1, l1), m1)" by (metis prod.exhaust)
    obtain s2 l2 m2 a where y: "watched_dispatch (record_env E) C dev q dl ((s1, l1), m1) = (((s2, l2), m2), a)"
      by (metis prod.exhaust)
    from 5 x have l: "looks_only C l l1" "mo_phase m1 = InBody" "mo_cause m1 \<noteq> None" by simp_all
    have "mon_rel m1 m2" using watched_dispatch_rel [of m1 "record_env E" C dev q dl "(s1, l1)"] y by simp
    moreover have "looks_only C l1 l2" using latched_dispatch [OF l(2,3) y] by simp
    ultimately show ?case using keep [OF l(2,3)] looks_only_trans [OF l(1)] by (simp add: body_world_def x y)
  qed
  then show ?thesis by simp
qed

text \<open>
  Claim C17. Once the monitor has latched a cause, a violation, a cancellation or a lost lease, the body
  sends nothing more: whatever steps remain, from whatever interpreter state they go on, the devices only
  see the monitor's own signal reads.
\<close>

theorem tripped_body_sends_nothing:
  assumes "x_world x = ((s, l), m)" "mo_phase m = InBody" "mo_cause m \<noteq> None"
  shows "\<exists>lg. snd (fst (x_world (snd (run_block (body_world (record_env E) C) X dl run scope path steps x)))) = l @ lg \<and>
    signal_reads (wa_signals C) lg"
proof -
  have "moves (body_world (record_env E) C) x (snd (run_block (body_world (record_env E) C) X dl run scope path steps x))"
    using block_evolves .
  from latched_world [OF this [unfolded assms(1)] assms(2,3)] show ?thesis .
qed

section \<open>A simulated site\<close>

text \<open>The bench of \<open>Protection\<close> with a store beside it; the meter reads \<open>v\<close>.\<close>

definition meter_env :: "pyval \<Rightarrow> (test_clock \<times> store) env" where
  "meter_env v = \<lparr>e_world = sim_world (\<lambda>_. True) (meter_plugin v), e_store = snd, e_set_store = (\<lambda>st (c, _). (c, st)),
     e_cancels = (\<lambda>s. (s, [])), e_reason = (\<lambda>_. [])\<rparr>"

definition meter_watch :: watch where
  "meter_watch = \<lparr>wa_bench = ''b'', wa_signals = [calm_signal], wa_conditions = [BooleanCond ''low'' ''out'' False]\<rparr>"

lemma tripped_body_sends_nothing_witness:
  "\<exists>lg. snd (fst (x_world (snd (run_block (body_world (record_env (meter_env (JInt 0))) meter_watch) demo_config 2000000000 ''r''
      [] [] demo_body (fresh_exec (((tc_init, empty_store), []), (fresh_monitor ''r'' 1)\<lparr>mo_phase := InBody,
        mo_cause := Some CauseTripped\<rparr>)))))) = lg \<and> signal_reads [calm_signal] lg"
  using tripped_body_sends_nothing [of "fresh_exec (((tc_init, empty_store), []), (fresh_monitor ''r'' 1)\<lparr>mo_phase := InBody,
        mo_cause := Some CauseTripped\<rparr>)" "(tc_init, empty_store)" "[]" "(fresh_monitor ''r'' 1)\<lparr>mo_phase := InBody,
        mo_cause := Some CauseTripped\<rparr>" "meter_env (JInt 0)" meter_watch demo_config 2000000000 "''r''" "[]" "[]" demo_body]
  by (simp add: fresh_exec_def meter_watch_def)

section \<open>A tick that raises\<close>

lemma huge_signal:
  assumes "2 ^ 1024 \<le> i"
  shows "signal_of calm_signal (Some (calm_reading\<lparr>rd_value := JInt i\<rparr>)) (Some \<lparr>local_us = 1789084800000000, utc_offset = Some 0\<rparr>) =
    Inl OverflowError"
proof -
  have "elapsed_ms 0 = Fin 0" by (simp add: elapsed_ms_def calm_float)
  with assms show ?thesis
    by (simp add: signal_of_def calm_signal_def calm_reading_def signal_reading_def calm_moment instant_def whole_ms_def
        float_of_int_overflow)
qed

text \<open>The least integer \<open>float\<close> refuses.\<close>

definition huge :: int where "huge = 2 ^ 1024"

abbreviation huge_env :: "(test_clock \<times> store) env" where
  "huge_env \<equiv> meter_env (JInt huge)"

lemma huge_site:
  "w_now (e_world huge_env) (c, st) = ((c, st), tc_now_ns c)" "w_has (e_world huge_env) dev = True"
  "e_cancels huge_env x = (x, [])"
  by (simp_all add: meter_env_def sim_world_def)

lemma huge_read:
  "read_signal (recorded (e_world huge_env)) dl calm_signal ((calm_clock 0 ws, st), l) =
    (Inl OverflowError, ((calm_clock 0 ws, st), l @ [(''psu'', request_read ''signal:out'' ''out'', dl)]))"
proof -
  let ?r = "calm_reading\<lparr>rd_value := JInt huge\<rparr>"
  have ans: "w_dispatch (e_world huge_env) ''psu'' (request_read i ''out'') dl (calm_clock 0 ws, st) =
      ((calm_clock 0 ws, st), result_ok i READ (AReading ?r))" for i
    by (simp add: meter_env_def sim_world_def meter_plugin_def request_read_def tc_advance_def calm_reading_def)
  have plain: "plain_reading (result_ok i READ (AReading ?r)) = Some ?r" for i
    by (simp add: plain_reading_def result_ok_def mk_result_def mk_reading_def calm_reading_def)
  have wall: "w_wall (e_world huge_env) (calm_clock 0 ws, st) = ((calm_clock 0 ws, st), ''2026-09-11T00:00:00Z'')"
    by (simp add: meter_env_def sim_world_def calm_wall)
  have "sg_device calm_signal = ''psu''" "sg_kind calm_signal = ''parameter''"
    "sg_parameter calm_signal = ''out''" "sg_id calm_signal = ''out''"
    by (simp_all add: calm_signal_def)
  then show ?thesis
    using huge_signal [OF order_refl, folded huge_def]
    by (simp add: read_signal_def recorded_simps huge_site ans plain wall calm_moment)
qed

definition protecting :: monitor where
  "protecting = (fresh_monitor ''r'' 1)\<lparr>mo_phase := Protecting\<rparr>"

lemma huge_tick:
  "tick (record_env huge_env) meter_watch (((calm_clock 0 ws, st), l), protecting) =
    (Inl OverflowError, ((calm_clock 0 ws, st), l @ [(''psu'', request_read ''signal:out'' ''out'',
      tc_now_ns (calm_clock 0 ws) + bench_poll_ns [calm_signal])]), protecting)"
  by (simp add: tick_def look_def meter_watch_def protecting_def recorded_simps huge_site huge_read read_signal_values_def)

text \<open>
  A reading no float can hold disarms the protection: the monitor's tick raises in front of
  every safe action, outside any guard of its own, so no safe action reaches a device; each is recorded as
  raised and the transition ends unknown.
\<close>

theorem failing_tick_stops_safe_actions:
  "case enter (protect_world (record_env huge_env) meter_watch) (\<lambda>x. mo_later (snd x))
      (calm_transition\<lparr>tr_max_duration_ms := 1000\<rparr>) [calm_signal] []
      1000000000 fresh_engine (((calm_clock 0 [], empty_store), []), protecting) of
     Some (Inr res, g, ((s, lg), m)) \<Rightarrow> px_safe_state res = SafeUnknown \<and> signal_reads [calm_signal] lg \<and>
       map ar_id (px_actions res) = [''off''] \<and> map ar_error (px_actions res) = [Some (ActionRaised OverflowError)]
   | _ \<Rightarrow> False"
proof -
  let ?W = "protect_world (record_env huge_env) meter_watch"
  let ?look = "(''psu'', request_read ''signal:out'' ''out'', 2000000000 :: int)"
  have poll_ns: "bench_poll_ns [calm_signal] = 1000000000"
    by (simp add: bench_poll_ns_def calm_signal_def map_filter_simps)
  have now: "w_now ?W (((c, st), l), m) = ((((c, st), l), m), tc_now_ns c)"
    and wait: "w_wait ?W d (((c, st), l), m) = ((((tc_wait_ns d c, st), l), m), None)" for c st l m d
    by (simp_all add: protect_world_def body_world_def recorded_simps huge_site) (simp add: meter_env_def sim_world_def)
  have has: "w_has ?W dev = True" for dev by (simp add: protect_world_def body_world_def recorded_simps huge_site)
  have dis: "w_dispatch ?W dev q dl (((calm_clock 0 [], st), l), protecting) =
      ((((calm_clock 0 [], st), l @ [?look]), protecting), Inl OverflowError)" for dev q dl st l
    by (simp add: protect_world_def body_world_def watched_dispatch_def huge_tick poll_ns tc_now_ns_def)
  have wall: "fst (w_wall ?W (((c, st), l), m)) = (((c, st), l), m)" for c st l m
    by (simp add: protect_world_def body_world_def recorded_simps) (simp add: meter_env_def sim_world_def)
  have blind: "\<exists>v. signal_of calm_signal None t = Inr v \<and> \<not> sv_valid v" for t
    by (cases t) (simp_all add: signal_of_def nonnegative_float_def calm_signal_def float_of_int_def calm_float)
  have read: "\<exists>v. read_signal ?W dl calm_signal (((calm_clock 0 [], st), l), protecting) =
      (Inr v, (((calm_clock 0 [], st), l @ [?look]), protecting)) \<and> \<not> sv_valid v" for dl st l
  proof -
    obtain t where t: "w_wall ?W (((calm_clock 0 [], st), l @ [?look]), protecting) =
        ((((calm_clock 0 [], st), l @ [?look]), protecting), t)"
      using wall by (metis prod.collapse)
    obtain v where "signal_of calm_signal None (wall_utc t) = Inr v" "\<not> sv_valid v" using blind by blast
    then show ?thesis
      by (simp add: read_signal_def has dis plain_reading_def t calm_signal_def)
  qed
  have poll: "poll_once ?W [calm_signal] [BooleanCond ''low'' ''out'' False] dl (((calm_clock 0 [], st), l), protecting) =
      (Inr [Violation ''low'' (SignalInvalid ''out'')], ((((calm_clock 0 [], st), l @ [?look]), protecting)))" for dl st l
    using read [of dl st l] by (auto simp: poll_once_def read_signal_values_def boolean_violation_def calm_signal_def)
  have acts: "dispatch_actions ?W later dl (tr_actions calm_transition) g (((calm_clock 0 [], st), l), protecting) =
      (note_action \<lparr>ar_id = ''off'', ar_device = ''psu'', ar_deadline = min 1050000000 dl, ar_status = StError,
         ar_error = Some (ActionRaised OverflowError)\<rparr> (add_reasons (later (((calm_clock 0 [], st), l @ [?look]), protecting)) g),
       (((calm_clock 0 [], st), l @ [?look]), protecting))" for later dl g st l
    by (simp add: calm_transition_def dispatch_action_def now has safe_action_request_def dis action_outcome_def tc_now_ns_def Let_def)
  have over: "verify_loop ?W [calm_signal] conds h 1000000000 2000000000 None (((calm_clock 1000000000 ws, st), l), m) =
      Some (Inr SafeUnknown, (((calm_clock 1000000000 ws, st), l), m))" for conds h ws st l m
    by (subst verify_loop.simps) (simp add: now tc_now_ns_def)
  have loop: "verify_loop ?W [calm_signal] [BooleanCond ''low'' ''out'' False] h 1000000000 2000000000 None
        (((calm_clock 0 [], st), l), protecting) =
      Some (Inr SafeUnknown, (((calm_clock 1000000000 [1000000000], st), l @ [?look]), protecting))" for h st l
    by (subst verify_loop.simps) (simp add: now tc_now_ns_def poll wait tc_wait_ns_def tc_advance_def over)
  have tr: "tr_verify calm_transition = [BooleanCond ''low'' ''out'' False]" by (simp add: calm_transition_def)
  have look: "signal_reads [calm_signal] [?look, ?look]"
    by (simp add: signal_reads_def calm_signal_def)
  show ?thesis
    by (simp add: enter_def fresh_engine_def add_reasons_def acts tr poll_ns loop protective_deadline_def Let_def
        snapshot_result_def note_action_def append_reason_def protecting_def [symmetric]) (simp add: look protecting_def fresh_monitor_def)
qed

end
