(* ===== verification/Records.thy ===== *)
theory Records
  imports Monitor Corpus
begin

text \<open>
  What a run leaves behind, \<open>control/coordinator.py\<close>: step events as JSON and read back, the terminal
  truth table, and the terminal record with its validation. SHA-256 is the parameter \<open>hex\<close>.
\<close>

section \<open>Texts\<close>

fun body_text :: "body_outcome \<Rightarrow> string" where
  "body_text Completed = ''completed''"
| "body_text AssertionFailed = ''assertion_failed''"
| "body_text BodyCancelled = ''cancelled''"
| "body_text TimedOut = ''timed_out''"
| "body_text Tripped = ''tripped''"
| "body_text ExecutionError = ''execution_error''"
| "body_text OutcomeUnknown = ''outcome_unknown''"

fun event_status_text :: "event_status \<Rightarrow> string" where
  "event_status_text EvOk = ''ok''"
| "event_status_text EvError = ''error''"
| "event_status_text EvUnknown = ''unknown''"
| "event_status_text EvCancelled = ''cancelled''"
| "event_status_text EvFailed = ''failed''"

fun dispatch_text :: "dispatch_state \<Rightarrow> string" where
  "dispatch_text NotDispatched = ''not_dispatched''"
| "dispatch_text Dispatched = ''dispatched''"
| "dispatch_text DispatchUnknown = ''unknown''"

fun error_code_text :: "error_code \<Rightarrow> string" where
  "error_code_text INVALID_ARGUMENT = ''INVALID_ARGUMENT''"
| "error_code_text UNSUPPORTED = ''UNSUPPORTED''"
| "error_code_text IDENTITY_MISMATCH = ''IDENTITY_MISMATCH''"
| "error_code_text DEVICE_REJECTED = ''DEVICE_REJECTED''"
| "error_code_text TRANSPORT_ERROR = ''TRANSPORT_ERROR''"
| "error_code_text TIMEOUT = ''TIMEOUT''"
| "error_code_text PROTOCOL_ERROR = ''PROTOCOL_ERROR''"
| "error_code_text RESOURCE_LIMIT = ''RESOURCE_LIMIT''"
| "error_code_text CANCELLED = ''CANCELLED''"
| "error_code_text INTERNAL_ERROR = ''INTERNAL_ERROR''"

fun event_code_text :: "event_code \<Rightarrow> string" where
  "event_code_text UnresolvedCode = ''UNRESOLVED_REFERENCE''"
| "event_code_text PolicyCode = ''POLICY_DENIED''"
| "event_code_text DerivationCode = ''DERIVATION_INVALID''"
| "event_code_text SampleCode = ''INVALID_SAMPLE''"
| "event_code_text (DispatchCode c) = error_code_text c"

fun safe_text :: "safe_state \<Rightarrow> string" where
  "safe_text Verified = ''verified''"
| "safe_text SafeUnknown = ''unknown''"

text \<open>Reading a text back: the first of the candidates that has it.\<close>

definition named :: "('a \<Rightarrow> string) \<Rightarrow> 'a list \<Rightarrow> string \<Rightarrow> 'a option" where
  "named f xs s = List.find (\<lambda>x. f x = s) xs"

definition event_statuses :: "event_status list" where
  "event_statuses = [EvOk, EvError, EvUnknown, EvCancelled, EvFailed]"

definition dispatch_states :: "dispatch_state list" where
  "dispatch_states = [NotDispatched, Dispatched, DispatchUnknown]"

definition event_codes :: "event_code list" where
  "event_codes = [UnresolvedCode, PolicyCode, DerivationCode, SampleCode] @ map DispatchCode [INVALID_ARGUMENT, UNSUPPORTED,
     IDENTITY_MISMATCH, DEVICE_REJECTED, TRANSPORT_ERROR, TIMEOUT, PROTOCOL_ERROR, RESOURCE_LIMIT, CANCELLED, INTERNAL_ERROR]"

section \<open>Step events\<close>

definition digest_text :: "(pyval \<Rightarrow> string) \<Rightarrow> digest \<Rightarrow> string" where
  "digest_text hex d = (case d of NoDigest \<Rightarrow> [] | Sha256 v \<Rightarrow> hex v | HexDigest s \<Rightarrow> s)"

text \<open>The event dictionary; members the step never set are absent.\<close>

definition event_json :: "(pyval \<Rightarrow> string) \<Rightarrow> (exn \<Rightarrow> string) \<Rightarrow> step_event \<Rightarrow> obj" where
  "event_json hex show_exn e = (case ev_occurrence e of (run, step, path) \<Rightarrow>
     [(''occurrence'', JList [JStr run, JStr step, JList (map (\<lambda>n. JInt (int n)) path)]),
      (''kind'', JStr (ev_kind e)),
      (''resolved_input_sha256'', JStr (digest_text hex (ev_digest e))),
      (''operation_id'', case ev_operation e of None \<Rightarrow> JNull | Some i \<Rightarrow> JStr i),
      (''status'', JStr (event_status_text (ev_status e))),
      (''dispatch_state'', JStr (dispatch_text (ev_dispatch e)))] @
     (case ev_code e of None \<Rightarrow> [] | Some c \<Rightarrow> [(''error_code'', JStr (event_code_text c))]) @
     (case ev_derivation e of None \<Rightarrow> [] | Some x \<Rightarrow> [(''derivation_error'', JStr (show_exn x))]))"

fun int_path :: "pyval list \<Rightarrow> nat list option" where
  "int_path [] = Some []"
| "int_path (v # vs) = (case (int_like v, int_path vs) of (Some n, Some ns) \<Rightarrow> Some (nat n # ns) | _ \<Rightarrow> None)"

text \<open>The occurrence an event of this run names; other events do not count.\<close>

definition event_occurrence :: "string \<Rightarrow> obj \<Rightarrow> occurrence option" where
  "event_occurrence run e = (case obj_get e ''occurrence'' of
      JList [JStr r, JStr step, JList path] \<Rightarrow>
        (if r = run then map_option (\<lambda>ns. (r, step, ns)) (int_path path) else None)
    | _ \<Rightarrow> None)"

fun text_of :: "pyval \<Rightarrow> string" where
  "text_of (JStr s) = s"
| "text_of _ = []"

text \<open>The dictionary read back as an event, for events the coordinator wrote.\<close>

definition stored_event :: "occurrence \<Rightarrow> obj \<Rightarrow> step_event" where
  "stored_event oc e = \<lparr>ev_occurrence = oc, ev_kind = text_of (obj_get e ''kind''),
     ev_digest = (let s = text_of (obj_get e ''resolved_input_sha256'') in if s = [] then NoDigest else HexDigest s),
     ev_operation = (case obj_get e ''operation_id'' of JStr i \<Rightarrow> Some i | _ \<Rightarrow> None),
     ev_status = (case named event_status_text event_statuses (text_of (obj_get e ''status'')) of
        None \<Rightarrow> EvUnknown | Some s \<Rightarrow> s),
     ev_code = named event_code_text event_codes (text_of (obj_get e ''error_code'')),
     ev_dispatch = (case named dispatch_text dispatch_states (text_of (obj_get e ''dispatch_state'')) of
        None \<Rightarrow> DispatchUnknown | Some s \<Rightarrow> s),
     ev_derivation = (case obj_get e ''derivation_error'' of JStr s \<Rightarrow> Some (ValueError s) | _ \<Rightarrow> None)\<rparr>"

text \<open>\<open>_rebuild_ledger_from_events\<close>: \<open>setdefault\<close> of every occurrence, with no result.\<close>

record memory =
  my_heap :: "step_event list"
  my_ledger :: "occurrence \<Rightarrow> entry option"

definition remember :: "string \<Rightarrow> obj \<Rightarrow> memory \<Rightarrow> memory" where
  "remember run e mem = (case event_occurrence run e of
      None \<Rightarrow> mem
    | Some oc \<Rightarrow> (case my_ledger mem oc of
        Some _ \<Rightarrow> mem
      | None \<Rightarrow> \<lparr>my_heap = my_heap mem @ [stored_event oc e],
          my_ledger = (my_ledger mem)(oc \<mapsto> \<lparr>en_event = length (my_heap mem), en_result = VNone, en_issued = [],
            en_end = None\<rparr>)\<rparr>))"

definition rebuild_ledger :: "string \<Rightarrow> store \<Rightarrow> memory \<Rightarrow> memory" where
  "rebuild_ledger run st mem = fold (remember run) (read_events (''run:'' @ run) st) mem"

section \<open>The terminal truth\<close>

definition outcome_by_body :: "(string \<times> string) list" where
  "outcome_by_body = [(''completed'', ''passed''), (''assertion_failed'', ''assertion_failed''),
     (''cancelled'', ''cancelled''), (''timed_out'', ''timed_out''), (''tripped'', ''tripped''),
     (''execution_error'', ''execution_error'')]"

definition terminal_outcome :: "string \<Rightarrow> string \<Rightarrow> string" where
  "terminal_outcome body safe =
     (if body = ''interrupted'' then ''interrupted''
      else if body = ''outcome_unknown'' \<or> safe \<noteq> ''verified'' then ''outcome_unknown''
      else case map_of outcome_by_body body of None \<Rightarrow> body | Some out \<Rightarrow> out)"

section \<open>The terminal record\<close>

record pinned =
  pn_id :: string
  pn_version :: string
  pn_sha :: string

record terminal_record =
  tm_version :: string
  tm_run :: string
  tm_binding :: pinned
  tm_who :: string
  tm_started :: string
  tm_ended :: string
  tm_body :: string
  tm_outcome :: string
  tm_safe :: string
  tm_reasons :: "run_reason list"
  tm_refs :: "pinned list"

definition pinned_json :: "pinned \<Rightarrow> pyval" where
  "pinned_json p = JObj [(''id'', JStr (pn_id p)), (''version'', JStr (pn_version p)), (''sha256'', JStr (pn_sha p))]"

definition record_json :: "(run_reason \<Rightarrow> string) \<Rightarrow> terminal_record \<Rightarrow> pyval" where
  "record_json show_reason r = JObj [(''contract_version'', JStr (tm_version r)), (''run_id'', JStr (tm_run r)),
     (''binding'', pinned_json (tm_binding r)), (''principal_id'', JStr (tm_who r)), (''started_at'', JStr (tm_started r)),
     (''ended_at'', JStr (tm_ended r)), (''body_outcome'', JStr (tm_body r)), (''outcome'', JStr (tm_outcome r)),
     (''safe_state'', JStr (tm_safe r)), (''reasons'', JList (map (\<lambda>x. JStr (show_reason x)) (tm_reasons r))),
     (''evidence_refs'', JList (map pinned_json (tm_refs r)))]"

definition build_terminal_record :: "corpus \<Rightarrow> (run_reason \<Rightarrow> string) \<Rightarrow> string option \<Rightarrow> terminal_record \<Rightarrow> exn + terminal_record" where
  "build_terminal_record K show_reason version draft =
     (let label = (case version of None \<Rightarrow> cp_name K | Some v \<Rightarrow> v) in
      bind_res (record_validator K label) (\<lambda>(valid, const).
       let r = draft\<lparr>tm_version := const, tm_outcome := terminal_outcome (tm_body draft) (tm_safe draft)\<rparr> in
       if is_release label \<and> const \<noteq> label then Inl (ValueError ''swept-wrong const'')
       else if valid (record_json show_reason r) then Inr r
       else Inl (ValueError ''terminal record failed run-record schema'')))"

section \<open>Events survive the store\<close>

lemma obj_get_stored:
  assumes "json_column (JObj kvs) = Inr (JObj body)"
  shows "obj_get body k = sort_members (obj_get kvs k)"
proof -
  have body: "body = sort_key fst (map (map_prod id sort_members) kvs)"
    using assms by (auto simp: json_column_def split: if_splits)
  have "map_of (map (map_prod id sort_members) xs) k = map_option sort_members (map_of xs k)" for xs :: obj
    by (induction xs) auto
  then show ?thesis
    by (simp add: body obj_get_def map_of_sort_key split: option.split)
qed

lemma obj_get_update: "k \<noteq> j \<Longrightarrow> obj_get (AList.update j v kvs) k = obj_get kvs k"
  by (simp add: obj_get_def update_conv')

lemma append_event_reads:
  assumes "append_event k e s = (Inr n, s')" "stream_ok (tabs s)"
  shows "\<exists>body. read_events k s' = read_events k s @ [body] \<and>
    (\<forall>j. j \<noteq> ''sequence'' \<longrightarrow> obj_get body j = sort_members (obj_get e j)) \<and>
    (\<forall>i. i \<noteq> k \<longrightarrow> read_events i s' = read_events i s)"
proof -
  let ?seq = "Suc (max_seq (event_seqs (tabs s) k))"
  let ?env = "AList.update ''sequence'' (JStr (show_nat ?seq)) e"
  obtain body where c: "json_column (JObj ?env) = Inr (JObj body)"
      and s': "tabs s' = (tabs s)\<lparr>t_events := t_events (tabs s) @ [\<lparr>ev_stream = k, ev_seq = ?seq, ev_body = body\<rparr>]\<rparr>"
    using assms(1) by (auto simp: append_event_def immediate_eq Let_def split: option.splits sum.splits pyval.splits)
  have ok: "stream_ok (tabs s')"
    using append_event_keeps [OF assms(2), of k e] assms(1) by simp
  have "read_events i t = map ev_body (filter (\<lambda>r. ev_stream r = i) (t_events (tabs t)))" if "stream_ok (tabs t)" for t i
    using that by (simp add: read_events_def stream_ok_def stream_rows_append_order)
  from this [OF ok] this [OF assms(2)] s' obj_get_stored [OF c] obj_get_update [of _ "''sequence''"]
  show ?thesis by (intro exI [of _ body]) auto
qed

lemma find_named: "x \<in> set xs \<Longrightarrow> inj_on f (set xs) \<Longrightarrow> named f xs (f x) = Some x"
proof -
  assume x: "x \<in> set xs" and f: "inj_on f (set xs)"
  have "find (\<lambda>y. f y = f x) ys = (if x \<in> set ys then Some x else None)" if "set ys \<subseteq> set xs" for ys
    using that
  proof (induction ys)
    case (Cons y ys)
    with f x show ?case by (auto dest: inj_onD)
  qed simp
  with x show ?thesis by (simp add: named_def)
qed

lemma named_texts:
  "named event_status_text event_statuses (event_status_text s) = Some s"
  "named dispatch_text dispatch_states (dispatch_text d) = Some d"
  "named event_code_text event_codes (event_code_text c) = Some c"
  "named event_code_text event_codes [] = None"
proof -
  show "named event_status_text event_statuses (event_status_text s) = Some s"
    by (cases s) (simp_all add: named_def event_statuses_def)
  show "named dispatch_text dispatch_states (dispatch_text d) = Some d"
    by (cases d) (simp_all add: named_def dispatch_states_def)
  show "named event_code_text event_codes (event_code_text c) = Some c"
  proof (cases c)
    case (DispatchCode x)
    then show ?thesis by (cases x) (simp_all add: named_def event_codes_def)
  qed (simp_all add: named_def event_codes_def)
  show "named event_code_text event_codes [] = None"
    by (simp add: named_def event_codes_def)
qed

lemma int_path_nats [simp]: "int_path (map (\<lambda>n. JInt (int n)) ns) = Some ns"
  by (induction ns) simp_all

text \<open>The digest as it comes back: its text.\<close>

definition hexed :: "(pyval \<Rightarrow> string) \<Rightarrow> digest \<Rightarrow> digest" where
  "hexed hex d = (if digest_text hex d = [] then NoDigest else HexDigest (digest_text hex d))"

lemma event_members:
  fixes hex show_exn e
  defines "j \<equiv> obj_get (event_json hex show_exn e)"
  shows "j ''kind'' = JStr (ev_kind e)" "j ''resolved_input_sha256'' = JStr (digest_text hex (ev_digest e))"
    "j ''operation_id'' = (case ev_operation e of None \<Rightarrow> JNull | Some i \<Rightarrow> JStr i)"
    "j ''status'' = JStr (event_status_text (ev_status e))" "j ''dispatch_state'' = JStr (dispatch_text (ev_dispatch e))"
    "j ''error_code'' = (case ev_code e of None \<Rightarrow> JNull | Some c \<Rightarrow> JStr (event_code_text c))"
    "j ''derivation_error'' = (case ev_derivation e of None \<Rightarrow> JNull | Some x \<Rightarrow> JStr (show_exn x))"
    "j ''occurrence'' = (case ev_occurrence e of (run, step, path) \<Rightarrow>
       JList [JStr run, JStr step, JList (map (\<lambda>n. JInt (int n)) path)])"
  unfolding j_def by (auto simp: event_json_def obj_get_def split: prod.splits option.splits)

text \<open>
  A step event survives the durable stream: appended as JSON, it is the last event read back,
  it names the same occurrence, and read as an event it is the one that was written, its digest as text.
\<close>

theorem event_round_trip:
  assumes "store_steps empty_store st" and "append_event k (event_json hex show_exn e) st = (Inr n, st')"
    and "ev_occurrence e = (run, step, path)"
  shows "\<exists>body. read_events k st' = read_events k st @ [body] \<and> event_occurrence run body = Some (run, step, path) \<and>
    stored_event (run, step, path) body = e\<lparr>ev_digest := hexed hex (ev_digest e),
      ev_derivation := map_option (ValueError \<circ> show_exn) (ev_derivation e)\<rparr>"
proof -
  have "stream_ok (tabs st)" using reachable_stream_ok [OF assms(1)] .
  from append_event_reads [OF assms(2) this] obtain body where body: "read_events k st' = read_events k st @ [body]"
      and get: "\<And>j. j \<noteq> ''sequence'' \<Longrightarrow> obj_get body j = sort_members (obj_get (event_json hex show_exn e) j)"
    by blast
  have "event_occurrence run body = Some (run, step, path)"
    by (simp add: event_occurrence_def get event_members assms(3) comp_def)
  moreover have "stored_event (run, step, path) body = e\<lparr>ev_digest := hexed hex (ev_digest e),
      ev_derivation := map_option (ValueError \<circ> show_exn) (ev_derivation e)\<rparr>"
    using assms(3) by (cases "ev_operation e"; cases "ev_code e"; cases "ev_derivation e")
      (simp_all add: stored_event_def get event_members named_texts hexed_def Let_def)
  ultimately show ?thesis using body by blast
qed

lemma event_round_trip_witness:
  "\<exists>body. read_events ''run:r'' (snd (append_event ''run:r'' (event_json (\<lambda>_. ''ab'') (\<lambda>_. []) (new_event (''r'', ''arm'', [0, 2])
      ''invoke'' (Sha256 JNull))) empty_store)) = [body] \<and> event_occurrence ''r'' body = Some (''r'', ''arm'', [0, 2])"
proof -
  let ?e = "new_event (''r'', ''arm'', [0, 2]) ''invoke'' (Sha256 JNull)"
  have "\<exists>n st'. append_event ''run:r'' (event_json (\<lambda>_. ''ab'') (\<lambda>_. []) ?e) empty_store = (Inr n, st')"
    by (simp add: append_event_def immediate_eq empty_store_def json_column_def event_json_def new_event_def digest_text_def Let_def)
  then obtain n st' where st': "append_event ''run:r'' (event_json (\<lambda>_. ''ab'') (\<lambda>_. []) ?e) empty_store = (Inr n, st')" by blast
  have "ev_occurrence ?e = (''r'', ''arm'', [0, 2])" by (simp add: new_event_def)
  from event_round_trip [OF store_steps.start st' this] st' show ?thesis
    by (auto simp: read_events_def stream_rows_def empty_store_def empty_tables_def)
qed

section \<open>The rebuilt ledger\<close>

lemma remember_keeps: "my_ledger mem oc \<noteq> None \<Longrightarrow> my_ledger (fold (remember run) es mem) oc = my_ledger mem oc"
proof (induction es arbitrary: mem)
  case (Cons e es)
  then have "my_ledger (remember run e mem) oc = my_ledger mem oc"
    by (auto simp: remember_def split: option.split)
  with Cons show ?case by simp
qed simp

lemma remember_enters: "event_occurrence run e = Some oc \<Longrightarrow> my_ledger (remember run e mem) oc \<noteq> None"
  by (auto simp: remember_def split: option.split)

lemma rebuilt:
  assumes "e \<in> set (read_events (''run:'' @ run) st)" "event_occurrence run e = Some oc"
  shows "my_ledger (rebuild_ledger run st mem) oc \<noteq> None"
proof -
  from assms(1) obtain xs ys where "read_events (''run:'' @ run) st = xs @ e # ys" by (metis split_list)
  then have "rebuild_ledger run st mem = fold (remember run) ys (remember run e (fold (remember run) xs mem))"
    by (simp add: rebuild_ledger_def)
  with remember_keeps [OF remember_enters [OF assms(2)]] remember_enters [OF assms(2)] show ?thesis by metis
qed

text \<open>Terminal truth.\<close>

lemma passed_iff:
  "terminal_outcome (body_text b) (safe_text s) = ''passed'' \<longleftrightarrow> b = Completed \<and> s = Verified"
  by (cases b; cases s) (simp_all add: terminal_outcome_def outcome_by_body_def)

text \<open>
  The terminal truth table: a run passes exactly when its body completed and the safe state
  was verified; an uncertain body or an unverified safe state never yields anything but
  \<open>outcome_unknown\<close>; with a verified safe state every other body outcome is the terminal outcome.
\<close>

theorem terminal_truth:
  "(terminal_outcome (body_text b) (safe_text s) = ''passed'' \<longleftrightarrow> b = Completed \<and> s = Verified) \<and>
   (terminal_outcome (body_text b) (safe_text s) = ''outcome_unknown'' \<longleftrightarrow> b = OutcomeUnknown \<or> s = SafeUnknown) \<and>
   (b \<noteq> Completed \<and> s = Verified \<longrightarrow> terminal_outcome (body_text b) (safe_text s) = body_text b) \<and>
   terminal_outcome ''interrupted'' t = ''interrupted''"
  by (cases b; cases s) (simp_all add: terminal_outcome_def outcome_by_body_def)

lemma terminal_truth_witness: "terminal_outcome (body_text Tripped) (safe_text Verified) = ''tripped''"
  using terminal_truth [of Tripped Verified "[]"] by simp

end
