(* ===== verification/Coordinator.thy ===== *)
theory Coordinator
  imports Records
begin

text \<open>
  The run lifecycle, \<open>RunCoordinator\<close> of \<open>control/coordinator.py\<close>: acceptance, the monitored body, the
  protective transition, the terminal record, and the release of the lease. A call returns a value or
  the exception that leaves it, beside the site at that moment; \<open>None\<close> is a protective transition that never
  ends. All exceptions are \<open>Exception\<close>s: process-control ones (\<open>KeyboardInterrupt\<close>), re-raised after the
  record lands, are not modelled. No stream host is attached.
\<close>

section \<open>The admitted lattice\<close>

record descriptor_pin =
  dp_version :: string
  dp_conformance :: string
  dp_deprecated :: bool
  dp_note :: "string option"
  dp_acknowledgement :: "obj option"

definition pin_evidence :: "descriptor_pin \<Rightarrow> pyval" where
  "pin_evidence p = JObj ([(''otdp_version'', JStr (dp_version p)), (''conformance'', JStr (dp_conformance p))] @
     (if dp_deprecated p then [(''deprecation'', case dp_note p of None \<Rightarrow> JNull | Some n \<Rightarrow> JStr n)] else []) @
     (case dp_acknowledgement p of None \<Rightarrow> [] | Some a \<Rightarrow> [(''acknowledgement'', JObj a)]))"

text \<open>
  What the coordinator holds for its whole life: the site, the admitted documents with their pins, the
  corpus, the parameters of the executor, SHA-256, the text of an exception, the content store by digest, and
  \<open>str\<close> of a value that is no string.
\<close>

record 's coordinator =
  co_env :: "'s env"
  co_docs :: documents
  co_binding :: pinned
  co_procedure :: pinned
  co_bench :: pinned
  co_policy :: pinned
  co_commissioning :: pinned
  co_pins :: "(string \<times> descriptor_pin) list"
  co_grants :: "(string \<times> obj) list"
  co_version :: string
  co_corpus :: corpus
  co_validate :: validator
  co_derive :: "string \<Rightarrow> (obj \<Rightarrow> exn + obj) option"
  co_hex :: "pyval \<Rightarrow> string"
  co_exn :: "exn \<Rightarrow> string"
  co_content :: "string \<Rightarrow> obj option"
  co_text :: "pyval \<Rightarrow> string"

datatype run_error =
    Raised exn
  | AlreadyAccepted string string
  | NotAdmitted admission_error
  | NotBound binding_error

record prepared =
  pr_run :: string
  pr_who :: string
  pr_ns :: int
  pr_iso :: string
  pr_reservation :: reservation

definition watch_of :: "documents \<Rightarrow> watch" where
  "watch_of d = \<lparr>wa_bench = d_bench d, wa_signals = d_signals d, wa_conditions = d_conditions d\<rparr>"

definition transition_of :: "documents \<Rightarrow> transition" where
  "transition_of d = \<lparr>tr_max_duration_ms = d_transition_ms d, tr_actions = d_actions d, tr_verify = d_verify d,
     tr_stable_ms = d_stable_ms d\<rparr>"

section \<open>Calls on the store and the clocks\<close>

definition on_store :: "'s coordinator \<Rightarrow> (store \<Rightarrow> (exn + 'a) \<times> store) \<Rightarrow> 's \<Rightarrow> (exn + 'a) \<times> 's" where
  "on_store K f s = (case f (e_store (co_env K) s) of (r, st) \<Rightarrow> (r, e_set_store (co_env K) st s))"

definition wall_at :: "'s coordinator \<Rightarrow> 's \<Rightarrow> string \<times> 's" where
  "wall_at K s = (case w_wall (e_world (co_env K)) s of (s', t) \<Rightarrow> (t, s'))"

definition ns_at :: "'s coordinator \<Rightarrow> 's \<Rightarrow> int \<times> 's" where
  "ns_at K s = (case w_now (e_world (co_env K)) s of (s', t) \<Rightarrow> (t, s'))"

text \<open>\<open>_iso_plus_ms\<close>.\<close>

definition iso_plus_ms :: "string \<Rightarrow> int \<Rightarrow> exn + string" where
  "iso_plus_ms stamp ms = (case wall_utc stamp of
      None \<Rightarrow> Inl (ValueError ''invalid wall timestamp'')
    | Some t \<Rightarrow> bind_res (plus_us t (ms * 1000)) (\<lambda>t'. Inr (isoformat_z t')))"

definition run_stream :: "string \<Rightarrow> string" where
  "run_stream run = ''run:'' @ run"

section \<open>Acceptance\<close>

definition pins_event :: "'s coordinator \<Rightarrow> obj" where
  "pins_event K = [(''kind'', JStr ''devices_pinned''),
     (''devices'', JObj (map (\<lambda>(d, p). (d, pin_evidence p)) (sort_key fst (co_pins K))))]"

definition grants_event :: "'s coordinator \<Rightarrow> obj" where
  "grants_event K = [(''kind'', JStr ''provider_granted''),
     (''devices'', JObj (map (\<lambda>(d, f). (d, JObj f)) (sort_key fst (co_grants K))))]"

text \<open>The writes after the lease is taken, in order; the first exception ends them.\<close>

definition open_run :: "'s coordinator \<Rightarrow> string \<Rightarrow> string \<Rightarrow> string \<Rightarrow> 's \<Rightarrow> (exn + unit) \<times> 's" where
  "open_run K run who stamp s =
     (case (if get_run run (e_store (co_env K) s) = None
            then on_store K (create_run run (pinned_json (co_binding K)) who stamp) s else (Inr (), s)) of
        (Inl e, s) \<Rightarrow> (Inl e, s)
      | (Inr _, s) \<Rightarrow> (case on_store K (append_event (run_stream run) (pins_event K)) s of
          (Inl e, s) \<Rightarrow> (Inl e, s)
        | (Inr _, s) \<Rightarrow>
            (if co_grants K = [] then (Inr (), s)
             else case on_store K (append_event (run_stream run) (grants_event K)) s of
                 (Inl e, s) \<Rightarrow> (Inl e, s) | (Inr _, s) \<Rightarrow> (Inr (), s))))"

definition prepare_run :: "'s coordinator \<Rightarrow> string \<Rightarrow> string \<Rightarrow> 's \<Rightarrow> (run_error + prepared \<times> monitor) \<times> 's" where
  "prepare_run K run who s =
     (case wall_at K s of (stamp, s) \<Rightarrow> case ns_at K s of (ns, s) \<Rightarrow>
      case on_store K (accept_request (pn_id (co_binding K)) (pn_sha (co_binding K)) run stamp) s of
        (Inl e, s) \<Rightarrow> (Inl (Raised e), s)
      | (Inr (Duplicate r), s) \<Rightarrow> (Inl (AlreadyAccepted (pn_id (co_binding K)) r), s)
      | (Inr (Accepted _), s) \<Rightarrow>
          (case check_semantics (co_docs K) stamp of
             Inl e \<Rightarrow> (Inl (NotAdmitted e), s)
           | Inr _ \<Rightarrow>
               (case iso_plus_ms stamp (d_max_body_ms (co_docs K) + d_max_protection_ms (co_docs K)) of
                  Inl e \<Rightarrow> (Inl (Raised e), s)
                | Inr horizon \<Rightarrow>
                    (case reserve (co_docs K) (d_bench (co_docs K)) (run_stream run) horizon stamp (e_store (co_env K) s) of
                       (Inl e, st) \<Rightarrow> (Inl (NotBound e), e_set_store (co_env K) st s)
                     | (Inr rsv, st) \<Rightarrow>
                         (case open_run K run who stamp (e_set_store (co_env K) st s) of
                            (Inl e, s) \<Rightarrow> (case wall_at K s of (now, s) \<Rightarrow> (case on_store K (release rsv now) s of
                                (Inl e', s) \<Rightarrow> (Inl (Raised e'), s) | (Inr _, s) \<Rightarrow> (Inl (Raised e), s)))
                          | (Inr _, s) \<Rightarrow>
                              (case tick (co_env K) (watch_of (co_docs K))
                                 (s, (fresh_monitor run (ls_seq (rsv_lease rsv)))\<lparr>mo_phase := InBody\<rparr>) of
                                 (Inl e, s, m) \<Rightarrow> (Inl (Raised e), s)
                               | (Inr _, s, m) \<Rightarrow> (Inr (\<lparr>pr_run = run, pr_who = who, pr_ns = ns, pr_iso = stamp,
                                   pr_reservation = rsv\<rparr>, m), s)))))))"

section \<open>The body and its events\<close>

fun append_events :: "'s coordinator \<Rightarrow> string \<Rightarrow> step_event list \<Rightarrow> 's \<Rightarrow> (exn + unit) \<times> 's" where
  "append_events K stream [] s = (Inr (), s)"
| "append_events K stream (e # es) s = (case on_store K (append_event stream (event_json (co_hex K) (co_exn K) e)) s of
      (Inl x, s1) \<Rightarrow> (Inl x, s1)
    | (Inr _, s1) \<Rightarrow> append_events K stream es s1)"

definition start_exec :: "memory \<Rightarrow> 'w \<Rightarrow> 'w exec" where
  "start_exec mem w = \<lparr>x_world = w, x_heap = my_heap mem, x_events = [], x_reasons = [], x_outcome = None, x_flight = None,
     x_ledger = my_ledger mem, x_issued = (\<lambda>_. [])\<rparr>"

definition memory_of :: "'w exec \<Rightarrow> memory" where
  "memory_of x = \<lparr>my_heap = x_heap x, my_ledger = x_ledger x\<rparr>"

definition config_of :: "'s coordinator \<Rightarrow> resolved \<Rightarrow> exec_config" where
  "config_of K r = \<lparr>cf_binding = r, cf_rules = d_rules (co_docs K), cf_validate = co_validate K, cf_derive = co_derive K\<rparr>"

definition body_deadline :: "'s coordinator \<Rightarrow> prepared \<Rightarrow> int" where
  "body_deadline K p = pr_ns p + d_max_body_ms (co_docs K) * 1000000"

text \<open>\<open>BindingError\<close> is no \<open>exn\<close> of the store; its text is all that would be seen of it here.\<close>

definition binding_exn :: "binding_error \<Rightarrow> exn" where
  "binding_exn e = (case e of BindEscaped x \<Rightarrow> x | _ \<Rightarrow> PluginRaised ''BindingError'' [])"

definition run_and_record :: "'s coordinator \<Rightarrow> prepared \<Rightarrow> memory \<Rightarrow> 's \<times> monitor \<Rightarrow>
    (exn + body_result) \<times> memory \<times> 's \<times> monitor" where
  "run_and_record K p mem x = (case resolve_binding (co_docs K) of
      Inl e \<Rightarrow> (Inl (binding_exn e), mem, x)
    | Inr r \<Rightarrow>
        (case run_body (body_world (co_env K) (watch_of (co_docs K))) (config_of K r) (d_steps (co_docs K)) (pr_run p)
            (body_deadline K p) (start_exec mem x) of
           (b, y) \<Rightarrow>
             (case tick (co_env K) (watch_of (co_docs K)) (x_world y) of
                (Inl e, x1) \<Rightarrow> (Inl e, memory_of y, x1)
              | (Inr _, (s1, m1)) \<Rightarrow>
                  (case append_events K (run_stream (pr_run p)) (br_events b) s1 of
                     (Inl e, s2) \<Rightarrow> (Inl e, memory_of y, s2, m1)
                   | (Inr _, s2) \<Rightarrow> (Inr b, memory_of y, s2, m1)))))"

text \<open>\<open>_body_truth\<close>.\<close>

definition body_truth :: "monitor \<Rightarrow> body_result \<Rightarrow> body_outcome \<times> run_reason list" where
  "body_truth m b = (let own = map FromBody (br_reasons b); seen = map Violated (mo_violations m) in
     if mo_cause m = Some CauseTripped \<and> (mo_blocked m \<or> br_outcome b = Completed) then
       (Tripped, add_new (if mo_blocked m then mo_cause_reasons m else add_new (mo_cause_reasons m) own) seen)
     else if mo_blocked m \<and> mo_cause m = Some CauseCancelled then
       (BodyCancelled, add_new (mo_cause_reasons m) seen)
     else (br_outcome b, add_new (add_new own (mo_cause_reasons m)) seen))"

section \<open>Evidence and the end of a run\<close>

definition events_ref :: "'s coordinator \<Rightarrow> string \<Rightarrow> 's \<Rightarrow> pinned" where
  "events_ref K run s = \<lparr>pn_id = ''events:'' @ run, pn_version = ''1'',
     pn_sha = co_hex K (sort_members (JList (map JObj (read_events (run_stream run) (e_store (co_env K) s)))))\<rparr>"

definition evidence_refs :: "'s coordinator \<Rightarrow> string \<Rightarrow> 's \<Rightarrow> pinned list" where
  "evidence_refs K run s = [co_binding K, co_procedure K, co_bench K, co_policy K, co_commissioning K, events_ref K run s]"

definition failed_body :: "exn \<Rightarrow> body_result" where
  "failed_body e = \<lparr>br_outcome = ExecutionError, br_reasons = [UncaughtException e], br_events = []\<rparr>"

definition body_of :: "exn + body_result \<Rightarrow> body_result" where
  "body_of r = (case r of Inl e \<Rightarrow> failed_body e | Inr b \<Rightarrow> b)"

text \<open>The protective ending over a body that ended, however it ended.\<close>

definition protect :: "'s coordinator \<Rightarrow> run_reason list \<Rightarrow> 's \<times> monitor \<Rightarrow>
    ((exn + protection_result) \<times> engine \<times> 's \<times> monitor) option" where
  "protect K body_reasons = (\<lambda>(s, m).
     case ns_at K s of (t, s1) \<Rightarrow>
       enter (protect_world (co_env K) (watch_of (co_docs K))) (\<lambda>x. mo_later (snd x)) (transition_of (co_docs K))
         (d_signals (co_docs K)) (if mo_cause m \<noteq> None then body_reasons else []) t fresh_engine
         (s1, m\<lparr>mo_phase := Protecting\<rparr>))"

definition final_reasons :: "'s coordinator \<Rightarrow> run_reason list \<Rightarrow> exn + protection_result \<Rightarrow> run_reason list" where
  "final_reasons K body_reasons r =
     add_new [] (body_reasons @ (case r of Inl e \<Rightarrow> [UncaughtProtection e] | Inr res \<Rightarrow> px_reasons res)) @
     (if co_version K \<noteq> cp_name (co_corpus K) then [Disclosure (cp_name (co_corpus K)) (co_version K) ''executed''] else [])"

definition final_safe :: "exn + protection_result \<Rightarrow> safe_state" where
  "final_safe r = (case r of Inl _ \<Rightarrow> SafeUnknown | Inr res \<Rightarrow> px_safe_state res)"

text \<open>Build, finalise, release; the first exception leaves.\<close>

definition conclude :: "'s coordinator \<Rightarrow> prepared \<Rightarrow> body_outcome \<Rightarrow> run_reason list \<Rightarrow> exn + protection_result \<Rightarrow> 's \<Rightarrow>
    (exn + terminal_record) \<times> 's" where
  "conclude K p out body_reasons r s =
     (case wall_at K s of (ended, s) \<Rightarrow>
      case build_terminal_record (co_corpus K) (e_reason (co_env K)) (Some (co_version K))
          \<lparr>tm_version = [], tm_run = pr_run p, tm_binding = co_binding K, tm_who = pr_who p, tm_started = pr_iso p,
            tm_ended = ended, tm_body = body_text out, tm_outcome = [], tm_safe = safe_text (final_safe r),
            tm_reasons = final_reasons K body_reasons r, tm_refs = evidence_refs K (pr_run p) s\<rparr> of
        Inl e \<Rightarrow> (Inl e, s)
      | Inr rec \<Rightarrow> (case on_store K (finalize_run (pr_run p) (record_json (e_reason (co_env K)) rec)) s of
          (Inl e, s) \<Rightarrow> (Inl e, s)
        | (Inr _, s) \<Rightarrow> (case wall_at K s of (now, s) \<Rightarrow> (case on_store K (release (pr_reservation p) now) s of
            (Inl e, s) \<Rightarrow> (Inl e, s)
          | (Inr _, s) \<Rightarrow> (Inr rec, s)))))"

definition finish_run :: "'s coordinator \<Rightarrow> prepared \<Rightarrow> memory \<Rightarrow> 's \<times> monitor \<Rightarrow>
    ((exn + terminal_record) \<times> memory \<times> 's) option" where
  "finish_run K p mem x =
     (case run_and_record K p mem x of (r, mem1, s1, m1) \<Rightarrow>
       (case body_truth m1 (body_of r) of (out, reasons) \<Rightarrow>
         (case protect K reasons (s1, m1) of
            None \<Rightarrow> None
          | Some (res, g, s2, m2) \<Rightarrow> (case conclude K p out reasons res s2 of (rec, s3) \<Rightarrow> Some (rec, mem1, s3)))))"

definition start_run :: "'s coordinator \<Rightarrow> string \<Rightarrow> string \<Rightarrow> memory \<Rightarrow> 's \<Rightarrow>
    ((run_error + terminal_record) \<times> memory \<times> 's) option" where
  "start_run K run who mem s = (case prepare_run K run who s of
      (Inl e, s1) \<Rightarrow> Some (Inl e, mem, s1)
    | (Inr (p, m), s1) \<Rightarrow> (case finish_run K p mem (s1, m) of
        None \<Rightarrow> None
      | Some (r, mem1, s2) \<Rightarrow> Some (map_sum Raised id r, mem1, s2)))"

end
