(* ===== verification/Sample_Run.thy ===== *)
theory Sample_Run
  imports Coordinator
begin

text \<open>
  A whole run on the simulated site of \<open>Monitor\<close>, evaluated stage by stage: acceptance, the monitored body,
  the protective transition, the record and the release. The theorems on whole runs are applied to it.
\<close>

section \<open>The site\<close>

text \<open>One supply whose meter reads \<open>v\<close>, and a procedure that waits.\<close>

definition site_docs :: documents where
  "site_docs = demo_docs\<lparr>d_steps := [Delay ''settle'' 0], d_max_body_ms := 500, d_max_protection_ms := 500, d_signals := [calm_signal],
     d_conditions := [], d_actions := tr_actions calm_transition, d_verify := tr_verify calm_transition, d_stable_ms := 0\<rparr>"

definition site_pin :: "string \<Rightarrow> pinned" where
  "site_pin i = \<lparr>pn_id = i, pn_version = ''1.0.0'', pn_sha = i\<rparr>"

text \<open>A corpus with one version of one schema.\<close>

definition site_corpus :: corpus where
  "site_corpus = \<lparr>cp_name = ''1.0.0'', cp_is_file = (\<lambda>f. f = ''execution/1.0.0/run-record.schema.json''),
     cp_sha = (\<lambda>_. Inr ''sha''), cp_rows = Inr [(''execution/1.0.0/run-record.schema.json'', Some ''sha'')],
     cp_json = (\<lambda>_. Inr (JObj [(''properties'', JObj [(''contract_version'', JObj [(''const'', JStr ''1.0.0'')])])])),
     cp_compile = (\<lambda>_ _. True), cp_status = (\<lambda>v. Inr (if v = ''1.0.0'' then ''served'' else ''unknown''))\<rparr>"

lemma site_validator: "record_validator site_corpus ''1.0.0'' = Inr (\<lambda>_. True, ''1.0.0'')"
  by (simp add: record_validator_def versioned_schema_path_def site_corpus_def corpus_row_pin_def)

definition site :: "pyval \<Rightarrow> (test_clock \<times> store) coordinator" where
  "site v = \<lparr>co_env = meter_env v, co_docs = site_docs, co_binding = site_pin ''req-1'', co_procedure = site_pin ''proc'',
     co_bench = site_pin ''b1'', co_policy = site_pin ''policy'', co_commissioning = site_pin ''comm'', co_pins = [], co_grants = [],
     co_version = ''1.0.0'', co_corpus = site_corpus,
     co_validate = (\<lambda>_ _. Inr None), co_derive = (\<lambda>_. None), co_hex = (\<lambda>_. ''digest''), co_exn = (\<lambda>_. []),
     co_content = (\<lambda>_. None), co_text = (\<lambda>_. [])\<rparr>"

definition no_memory :: memory where
  "no_memory = \<lparr>my_heap = [], my_ledger = (\<lambda>_. None)\<rparr>"

abbreviation dawn :: string where "dawn \<equiv> ''2026-09-11T00:00:00Z''"

abbreviation dawn_1s :: string where "dawn_1s \<equiv> ''2026-09-11T00:00:01Z''"

lemma site_fields [simp]:
  "co_env (site v) = meter_env v" "co_docs (site v) = site_docs" "co_binding (site v) = site_pin ''req-1''"
  "co_grants (site v) = []" "co_version (site v) = ''1.0.0''" "co_corpus (site v) = site_corpus" "cp_name site_corpus = ''1.0.0''"
  "co_hex (site v) = (\<lambda>_. ''digest'')" "co_exn (site v) = (\<lambda>_. [])"
  "pn_id (site_pin i) = i" "pn_sha (site_pin i) = i"
  by (simp_all add: site_def site_pin_def site_corpus_def)

lemma site_docs_fields [simp]:
  "d_bench site_docs = ''b1''" "d_max_body_ms site_docs = 500" "d_max_protection_ms site_docs = 500"
  "d_signals site_docs = [calm_signal]" "d_conditions site_docs = []" "d_steps site_docs = [Delay ''settle'' 0]"
  "watch_of site_docs = \<lparr>wa_bench = ''b1'', wa_signals = [calm_signal], wa_conditions = []\<rparr>"
  by (simp_all add: site_docs_def watch_of_def demo_docs_def)

lemma site_env [simp]:
  "w_now (e_world (meter_env v)) x = (x, tc_now_ns (fst x))" "e_store (meter_env v) = snd"
  "e_set_store (meter_env v) st (c, st') = (c, st)" "e_cancels (meter_env v) x = (x, [])"
  "w_has (e_world (meter_env v)) dev = True"
  "w_wall (e_world (meter_env v)) (calm_clock 0 ws, st) = ((calm_clock 0 ws, st), dawn)"
  by (simp_all add: meter_env_def sim_world_def calm_wall)

lemma site_world: "e_world (meter_env (JInt 0)) = calm_world"
  by (simp add: meter_env_def calm_world_def)

lemma calm_now: "w_now calm_world x = (x, tc_now_ns (fst x))"
  by (simp add: calm_world_def sim_world_def)

lemma dawn_is: "tc_init = calm_clock 0 []"
  by (simp add: tc_init_def)

section \<open>Acceptance\<close>

definition st_accepted :: store where
  "st_accepted = snd (accept_request ''req-1'' ''req-1'' ''r1'' dawn empty_store)"

definition st_reserved :: store where
  "st_reserved = snd (reserve site_docs ''b1'' ''run:r1'' dawn_1s dawn st_accepted)"

definition st_created :: store where
  "st_created = snd (create_run ''r1'' (pinned_json (site_pin ''req-1'')) ''me'' dawn st_reserved)"

definition st_open :: store where
  "st_open = snd (append_event ''run:r1'' [(''kind'', JStr ''devices_pinned''), (''devices'', JObj [])] st_created)"

lemma site_admitted: "check_semantics site_docs dawn = Inr ()"
  by code_simp

lemma site_accepts: "accept_request ''req-1'' ''req-1'' ''r1'' dawn empty_store = (Inr (Accepted ''r1''), st_accepted)"
proof -
  have "fst (accept_request ''req-1'' ''req-1'' ''r1'' dawn empty_store) = Inr (Accepted ''r1'')" by code_simp
  then show ?thesis by (simp add: st_accepted_def prod_eq_iff)
qed

lemma site_horizon: "iso_plus_ms dawn 1000 = Inr dawn_1s"
proof -
  have "min_us = -62135596800000000" "max_us = 253402300799999999" by code_simp+
  moreover have "civil_from_days 20707 = (2026, 9, 11)" by code_simp
  then have "isoformat \<lparr>local_us = 1789084801000000, utc_offset = Some 0\<rparr> = ''2026-09-11T00:00:01+00:00''"
    by (simp add: isoformat_def us_per_day_def show_clock_def pad_num_def show_nat_small show_nat_large digit_char_def Let_def)
  moreover have "replace_all ''+00:00'' ''Z'' ''2026-09-11T00:00:01+00:00'' = ''2026-09-11T00:00:01Z''" by code_simp
  ultimately show ?thesis by (simp add: iso_plus_ms_def calm_moment plus_us_def isoformat_z_def)
qed

definition site_rsv :: reservation where
  "site_rsv = (case fst (reserve site_docs ''b1'' ''run:r1'' dawn_1s dawn st_accepted) of Inr rsv \<Rightarrow> rsv)"

lemma site_reserves: "reserve site_docs ''b1'' ''run:r1'' dawn_1s dawn st_accepted = (Inr site_rsv, st_reserved)"
    "ls_seq (rsv_lease site_rsv) = 1"
proof -
  have "\<not> isl (fst (reserve site_docs ''b1'' ''run:r1'' dawn_1s dawn st_accepted))" by code_simp
  then show "reserve site_docs ''b1'' ''run:r1'' dawn_1s dawn st_accepted = (Inr site_rsv, st_reserved)"
    by (cases "fst (reserve site_docs ''b1'' ''run:r1'' dawn_1s dawn st_accepted)")
      (simp_all add: st_reserved_def site_rsv_def prod_eq_iff)
  show "ls_seq (rsv_lease site_rsv) = 1" by code_simp
qed

lemma site_creates: "get_run ''r1'' st_reserved = None"
  "create_run ''r1'' (pinned_json (site_pin ''req-1'')) ''me'' dawn st_reserved = (Inr (), st_created)"
proof -
  show "get_run ''r1'' st_reserved = None" by code_simp
  have "fst (create_run ''r1'' (pinned_json (site_pin ''req-1'')) ''me'' dawn st_reserved) = Inr ()" by code_simp
  then show "create_run ''r1'' (pinned_json (site_pin ''req-1'')) ''me'' dawn st_reserved = (Inr (), st_created)"
    by (simp add: st_created_def prod_eq_iff)
qed

lemma site_opens: "\<exists>n. append_event ''run:r1'' [(''kind'', JStr ''devices_pinned''), (''devices'', JObj [])] st_created = (Inr n, st_open)"
proof -
  have "\<not> isl (fst (append_event ''run:r1'' [(''kind'', JStr ''devices_pinned''), (''devices'', JObj [])] st_created))" by code_simp
  then obtain n where "fst (append_event ''run:r1'' [(''kind'', JStr ''devices_pinned''), (''devices'', JObj [])] st_created) = Inr n"
    by (auto simp: isl_def elim: sumE split: sum.splits) (metis sumE)
  then show ?thesis by (auto simp: st_open_def prod_eq_iff)
qed

lemma site_held: "map_option (\<lambda>l. (ls_seq l, ls_expires l)) (get_active_lease ''b1'' st_open) = Some (1, dawn_1s)"
  by code_simp

lemma site_open_run: "open_run (site v) ''r1'' ''me'' dawn (c, st_reserved) = (Inr (), (c, st_open))"
proof -
  have "pins_event (site v) = [(''kind'', JStr ''devices_pinned''), (''devices'', JObj [])]" by (simp add: pins_event_def site_def)
  with site_opens show ?thesis
    by (auto simp: open_run_def on_store_def site_creates run_stream_def)
qed

section \<open>The monitored body\<close>

abbreviation sw :: watch where
  "sw \<equiv> \<lparr>wa_bench = ''b1'', wa_signals = [calm_signal], wa_conditions = []\<rparr>"

definition armed :: monitor where
  "armed = (fresh_monitor ''r1'' 1)\<lparr>mo_phase := InBody\<rparr>"

lemma armed_fields [simp]: "mo_phase armed = InBody" "mo_cause armed = None" "mo_lease armed = 1" "mo_cancelled armed = False"
    "mo_violations armed = []" "mo_blocked armed = False" "mo_cause_reasons armed = []" "mo_later armed = []"
  by (simp_all add: armed_def fresh_monitor_def)

lemma site_look: "look (meter_env (JInt 0)) sw ((calm_clock 0 ws, st), m) = (Inr (), (calm_clock 0 ws, st), m)"
proof -
  have "\<exists>snap. read_signal_values calm_world dl [calm_signal] (calm_clock 0 ws, st) = (Inr snap, (calm_clock 0 ws, st))" for dl
    using calm_poll [of 0 dl ws st] by (auto simp: poll_once_def split: prod.splits sum.splits)
  then obtain snap where "\<And>dl. read_signal_values calm_world dl [calm_signal] (calm_clock 0 ws, st) = (Inr (snap dl), (calm_clock 0 ws, st))"
    by metis
  then show ?thesis by (simp add: look_def site_world calm_now observe_def)
qed

lemma site_body_tick:
  assumes "map_option (\<lambda>l. (ls_seq l, ls_expires l)) (get_active_lease ''b1'' st) = Some (1, dawn_1s)"
  shows "tick (meter_env (JInt 0)) sw ((calm_clock 0 ws, st), armed) = (Inr (), (calm_clock 0 ws, st), armed)"
proof -
  from assms have "check_body_phase (meter_env (JInt 0)) sw ((calm_clock 0 ws, st), armed) = ((calm_clock 0 ws, st), armed)"
    by (auto simp: check_body_phase_def calm_moment instant_def)
  then show ?thesis by (simp add: tick_def site_look)
qed

definition site_prepared :: prepared where
  "site_prepared = \<lparr>pr_run = ''r1'', pr_who = ''me'', pr_ns = 1000000000, pr_iso = dawn, pr_reservation = site_rsv\<rparr>"

lemma site_prepares: "prepare_run (site (JInt 0)) ''r1'' ''me'' (tc_init, empty_store) =
    (Inr (site_prepared, armed), (calm_clock 0 [], st_open))"
  by (simp add: prepare_run_def wall_at_def ns_at_def on_store_def dawn_is site_accepts site_admitted site_horizon
      run_stream_def site_reserves site_open_run site_body_tick [OF site_held] tc_now_ns_def site_prepared_def
      armed_def [unfolded One_nat_def, symmetric])

lemma site_resolves: "\<exists>r. resolve_binding site_docs = Inr r"
proof -
  have "\<not> isl (resolve_binding site_docs)" by code_simp
  then show ?thesis by (cases "resolve_binding site_docs") simp_all
qed

definition site_event :: step_event where
  "site_event = \<lparr>ev_occurrence = (''r1'', ''settle'', []), ev_kind = ''delay'', ev_digest = Sha256 (JObj [(''duration_ms'', JInt 0)]),
     ev_operation = None, ev_status = EvOk, ev_code = None, ev_dispatch = NotDispatched, ev_derivation = None\<rparr>"

lemma site_body: "\<exists>y. run_body (body_world (meter_env (JInt 0)) sw) X [Delay ''settle'' 0] ''r1'' 1500000000
    (start_exec no_memory ((calm_clock 0 [], st), armed)) = (\<lparr>br_outcome = Completed, br_reasons = [], br_events = [site_event]\<rparr>, y)
   \<and> x_world y = ((calm_clock 0 [], st), armed)"
  by (simp add: interpreter_defs start_exec_def no_memory_def body_world_def tc_now_ns_def site_event_def Let_def)

definition st_logged :: store where
  "st_logged = snd (append_event ''run:r1'' (event_json (\<lambda>_. ''digest'') (\<lambda>_. []) site_event) st_open)"

lemma site_logs: "\<exists>n. append_event ''run:r1'' (event_json (\<lambda>_. ''digest'') (\<lambda>_. []) site_event) st_open = (Inr n, st_logged)"
proof -
  have "\<not> isl (fst (append_event ''run:r1'' (event_json (\<lambda>_. ''digest'') (\<lambda>_. []) site_event) st_open))" by code_simp
  then show ?thesis
    by (cases "append_event ''run:r1'' (event_json (\<lambda>_. ''digest'') (\<lambda>_. []) site_event) st_open"; cases "fst (append_event ''run:r1''
      (event_json (\<lambda>_. ''digest'') (\<lambda>_. []) site_event) st_open)") (auto simp: st_logged_def)
qed

definition site_result :: body_result where
  "site_result = \<lparr>br_outcome = Completed, br_reasons = [], br_events = [site_event]\<rparr>"

lemma site_records: "\<exists>mem'. run_and_record (site (JInt 0)) site_prepared no_memory ((calm_clock 0 [], st_open), armed) =
    (Inr site_result, mem', (calm_clock 0 [], st_logged), armed)"
proof -
  obtain r where r: "resolve_binding site_docs = Inr r" using site_resolves by blast
  obtain y where y: "run_body (body_world (meter_env (JInt 0)) sw) (config_of (site (JInt 0)) r) [Delay ''settle'' 0] ''r1'' 1500000000
      (start_exec no_memory ((calm_clock 0 [], st_open), armed)) = (site_result, y)"
      "x_world y = ((calm_clock 0 [], st_open), armed)"
    using site_body [folded site_result_def] by blast
  from site_logs show ?thesis
    by (auto simp: run_and_record_def r site_prepared_def body_deadline_def y site_body_tick [OF site_held] on_store_def run_stream_def
        site_result_def)
qed

section \<open>The protective transition\<close>

lemma site_tick: "mo_phase m = Protecting \<Longrightarrow> tick (meter_env (JInt 0)) sw ((calm_clock 0 ws, st), m) = (Inr (), (calm_clock 0 ws, st), m)"
  by (simp add: tick_def site_look)

lemma calm_dispatch: "\<exists>r. w_dispatch calm_world dev q dl (calm_clock e ws, st) = ((calm_clock e ws, st), r)"
  by (simp add: calm_world_def sim_world_def meter_plugin_def tc_advance_def)

lemma site_dispatch:
  assumes "mo_phase m = Protecting" "w_dispatch calm_world dev q dl (calm_clock 0 ws, st) = ((calm_clock 0 ws, st), r)"
  shows "watched_dispatch (meter_env (JInt 0)) sw dev q dl ((calm_clock 0 ws, st), m) = (((calm_clock 0 ws, st), m), r)"
  using assms by (cases r) (simp_all add: watched_dispatch_def site_tick block_result_def site_world)

lemma protect_world_simps:
  "w_has (protect_world (meter_env v) C) dev = True"
  "w_now (protect_world (meter_env v) C) x = (x, tc_now_ns (fst (fst x)))"
  "w_wall (protect_world (meter_env v) C) ((calm_clock 0 ws, st), m) = (((calm_clock 0 ws, st), m), dawn)"
  "w_dispatch (protect_world (meter_env v) C) = watched_dispatch (meter_env v) C"
  by (simp_all add: protect_world_def body_world_def split_beta)

lemma site_poll:
  assumes "mo_phase m = Protecting"
  shows "poll_once (protect_world (meter_env (JInt 0)) sw) [calm_signal] [BooleanCond ''low'' ''out'' False] dl
      ((calm_clock 0 ws, st), m) = (Inr [], ((calm_clock 0 ws, st), m))"
proof -
  obtain r where "w_dispatch calm_world (sg_device calm_signal) (request_read (''signal:'' @ sg_id calm_signal)
      (sg_parameter calm_signal)) dl (calm_clock 0 ws, st) = ((calm_clock 0 ws, st), r)"
    by (rule exE [OF calm_dispatch])
  moreover have "w_wall calm_world (calm_clock 0 ws, st) = ((calm_clock 0 ws, st), dawn)" "w_has (calm_world :: (test_clock \<times> store) world) dev" for dev
    by (simp_all add: calm_world_def sim_world_def calm_wall)
  ultimately have "read_signal (protect_world (meter_env (JInt 0)) sw) dl calm_signal ((calm_clock 0 ws, st), m) =
      (case read_signal calm_world dl calm_signal (calm_clock 0 ws, st) of (r, s) \<Rightarrow> (r, (s, m)))"
    using assms by (simp add: read_signal_def protect_world_simps site_dispatch)
  then show ?thesis
    using calm_poll [of 0 dl ws st] by (auto simp: poll_once_def read_signal_values_def split: prod.splits sum.splits)
qed

lemma site_verifies:
  assumes "mo_phase m = Protecting"
  shows "verify_loop (protect_world (meter_env (JInt 0)) sw) [calm_signal] [BooleanCond ''low'' ''out'' False] 0 poll 1400000000 None
    ((calm_clock 0 ws, st), m) = Some (Inr Verified, ((calm_clock 0 ws, st), m))"
  by (subst verify_loop.simps) (simp add: protect_world_simps tc_now_ns_def site_poll [OF assms])

lemma site_protects:
  "\<exists>res g. protect (site (JInt 0)) [] ((calm_clock 0 [], st), armed) =
      Some (Inr res, g, (calm_clock 0 [], st), armed\<lparr>mo_phase := Protecting\<rparr>) \<and> px_safe_state res = Verified \<and> px_reasons res = []"
proof -
  let ?m = "armed\<lparr>mo_phase := Protecting\<rparr>"
  have tr: "transition_of site_docs = calm_transition\<lparr>tr_max_duration_ms := 400, tr_stable_ms := 0\<rparr>"
    by (simp add: transition_of_def site_docs_def demo_docs_def calm_transition_def)
  have off: "w_dispatch calm_world ''psu'' \<lparr>q_id = i, q_verb = INVOKE, q_args = as\<rparr> t (calm_clock 0 [], st) =
      ((calm_clock 0 [], st), Inr \<lparr>r_id = i, r_verb = INVOKE, r_status = StOk, r_data = Raw JNull, r_error = None\<rparr>)" for i as t
    by (simp add: calm_world_def sim_world_def meter_plugin_def result_ok_def mk_result_def tc_advance_def)
  have phase: "mo_phase ?m = Protecting" by simp
  show ?thesis
    by (simp add: protect_def ns_at_def tr enter_def calm_transition_def protective_deadline_def fresh_engine_def add_reasons_def
        dispatch_action_def protect_world_simps safe_action_request_def site_dispatch [OF phase off] action_outcome_def note_action_def
        tc_now_ns_def site_verifies [OF phase] snapshot_result_def Let_def)
qed

section \<open>The record\<close>

definition site_record :: terminal_record where
  "site_record = \<lparr>tm_version = ''1.0.0'', tm_run = ''r1'', tm_binding = site_pin ''req-1'', tm_who = ''me'', tm_started = dawn,
     tm_ended = dawn, tm_body = ''completed'', tm_outcome = ''passed'', tm_safe = ''verified'', tm_reasons = [],
     tm_refs = map site_pin [''req-1'', ''proc'', ''b1'', ''policy'', ''comm''] @
       [\<lparr>pn_id = ''events:r1'', pn_version = ''1'', pn_sha = ''digest''\<rparr>]\<rparr>"

definition st_final :: store where
  "st_final = snd (finalize_run ''r1'' (record_json (\<lambda>_. []) site_record) st_logged)"

definition st_released :: store where
  "st_released = snd (release site_rsv dawn st_final)"

lemma site_finalizes: "finalize_run ''r1'' (record_json (\<lambda>_. []) site_record) st_logged = (Inr (), st_final)"
    "release site_rsv dawn st_final = (Inr (), st_released)"
proof -
  have "fst (finalize_run ''r1'' (record_json (\<lambda>_. []) site_record) st_logged) = Inr ()"
    "fst (release site_rsv dawn st_final) = Inr ()" by code_simp+
  then show "finalize_run ''r1'' (record_json (\<lambda>_. []) site_record) st_logged = (Inr (), st_final)"
    "release site_rsv dawn st_final = (Inr (), st_released)"
    by (simp_all add: st_final_def st_released_def prod_eq_iff)
qed

lemma site_concludes:
  assumes "px_safe_state res = Verified" "px_reasons res = []"
  shows "conclude (site (JInt 0)) site_prepared Completed [] (Inr res) (calm_clock 0 [], st_logged) =
    (Inr site_record, (calm_clock 0 [], st_released))"
proof -
  have rel: "is_release ''1.0.0''" by code_simp
  have out: "terminal_outcome ''completed'' ''verified'' = ''passed''" by (simp add: terminal_outcome_def outcome_by_body_def)
  have show_reason: "e_reason (meter_env (JInt 0)) = (\<lambda>_. [])" by (simp add: meter_env_def)
  have refs: "evidence_refs (site (JInt 0)) ''r1'' (calm_clock 0 [], st_logged) = map site_pin [''req-1'', ''proc'', ''b1'', ''policy'', ''comm''] @
       [\<lparr>pn_id = ''events:r1'', pn_version = ''1'', pn_sha = ''digest''\<rparr>]"
    by (simp add: evidence_refs_def events_ref_def) (simp add: site_def)
  have wall: "wall_at (site (JInt 0)) (calm_clock 0 [], st) = (dawn, (calm_clock 0 [], st))" for st
    by (simp add: wall_at_def)
  have built: "build_terminal_record (co_corpus (site (JInt 0))) (e_reason (co_env (site (JInt 0)))) (Some (co_version (site (JInt 0))))
      \<lparr>tm_version = [], tm_run = pr_run site_prepared, tm_binding = co_binding (site (JInt 0)), tm_who = pr_who site_prepared,
        tm_started = pr_iso site_prepared, tm_ended = dawn, tm_body = body_text Completed, tm_outcome = [],
        tm_safe = safe_text (final_safe (Inr res)), tm_reasons = final_reasons (site (JInt 0)) [] (Inr res),
        tm_refs = evidence_refs (site (JInt 0)) (pr_run site_prepared) (calm_clock 0 [], st_logged)\<rparr> = Inr site_record"
    by (simp add: build_terminal_record_def site_validator rel out refs final_reasons_def final_safe_def assms site_prepared_def site_record_def)
  show ?thesis
    unfolding conclude_def wall prod.case built sum.case
    by (simp add: on_store_def site_prepared_def site_finalizes wall show_reason)
qed

theorem site_finishes: "\<exists>mem' res g. run_and_record (site (JInt 0)) site_prepared no_memory ((calm_clock 0 [], st_open), armed) =
      (Inr site_result, mem', (calm_clock 0 [], st_logged), armed) \<and>
    protect (site (JInt 0)) (snd (body_truth armed (body_of (Inr site_result)))) ((calm_clock 0 [], st_logged), armed) =
      Some (Inr res, g, (calm_clock 0 [], st_logged), armed\<lparr>mo_phase := Protecting\<rparr>) \<and>
    conclude (site (JInt 0)) site_prepared Completed [] (Inr res) (calm_clock 0 [], st_logged) = (Inr site_record, (calm_clock 0 [], st_released)) \<and>
    finish_run (site (JInt 0)) site_prepared no_memory ((calm_clock 0 [], st_open), armed) =
      Some (Inr site_record, mem', (calm_clock 0 [], st_released))"
proof -
  obtain mem' where r: "run_and_record (site (JInt 0)) site_prepared no_memory ((calm_clock 0 [], st_open), armed) =
      (Inr site_result, mem', (calm_clock 0 [], st_logged), armed)"
    using site_records by blast
  have t: "body_truth armed site_result = (Completed, [])"
    by (simp add: body_truth_def site_result_def)
  obtain res g where p: "protect (site (JInt 0)) [] ((calm_clock 0 [], st_logged), armed) =
      Some (Inr res, g, (calm_clock 0 [], st_logged), armed\<lparr>mo_phase := Protecting\<rparr>)"
      and res: "px_safe_state res = Verified" "px_reasons res = []"
    using site_protects [of st_logged] by blast
  have "finish_run (site (JInt 0)) site_prepared no_memory ((calm_clock 0 [], st_open), armed) =
      Some (Inr site_record, mem', (calm_clock 0 [], st_released))"
    by (simp add: finish_run_def r body_of_def t p site_concludes [OF res])
  with r p site_concludes [OF res] t show ?thesis by (auto simp: body_of_def)
qed

theorem site_run: "\<exists>mem'. start_run (site (JInt 0)) ''r1'' ''me'' no_memory (tc_init, empty_store) =
    Some (Inr site_record, mem', (calm_clock 0 [], st_released))"
  using site_finishes by (auto simp: start_run_def site_prepares)

section \<open>A reading no float can hold\<close>

text \<open>
  The look that arms the monitor stands outside the guard that releases the lease: when it raises, the run
  ends with the exception and without a record, and the bench stays held by a run that is over.
\<close>

lemma huge_plain_read:
  "read_signal (e_world huge_env) dl calm_signal (calm_clock 0 ws, st) = (Inl OverflowError, (calm_clock 0 ws, st))"
proof -
  let ?r = "calm_reading\<lparr>rd_value := JInt huge\<rparr>"
  have "w_dispatch (e_world huge_env) ''psu'' (request_read i ''out'') dl (calm_clock 0 ws, st) =
      ((calm_clock 0 ws, st), result_ok i READ (AReading ?r))" for i
    by (simp add: meter_env_def sim_world_def meter_plugin_def request_read_def tc_advance_def calm_reading_def)
  moreover have "plain_reading (result_ok i READ (AReading ?r)) = Some ?r" for i
    by (simp add: plain_reading_def result_ok_def mk_result_def mk_reading_def calm_reading_def)
  moreover have "sg_device calm_signal = ''psu''" "sg_kind calm_signal = ''parameter''" "sg_parameter calm_signal = ''out''"
    by (simp_all add: calm_signal_def)
  ultimately show ?thesis
    using huge_signal [OF order_refl, folded huge_def] by (simp add: read_signal_def calm_moment)
qed

theorem arming_tick_leaks_lease:
  "start_run (site (JInt huge)) ''r1'' ''me'' no_memory (tc_init, empty_store) =
     Some (Inl (Raised OverflowError), no_memory, (calm_clock 0 [], st_open)) \<and>
   map_option (\<lambda>l. (ls_seq l, ls_expires l)) (get_active_lease ''b1'' st_open) = Some (1, dawn_1s)"
proof -
  have "check_body_phase huge_env sw ((calm_clock 0 ws, st_open), armed) = ((calm_clock 0 ws, st_open), armed)" for ws
    using site_held by (auto simp: check_body_phase_def calm_moment instant_def)
  then have "tick huge_env sw ((calm_clock 0 ws, st_open), armed) = (Inl OverflowError, (calm_clock 0 ws, st_open), armed)" for ws
    by (simp add: tick_def look_def read_signal_values_def huge_plain_read)
  then have "prepare_run (site (JInt huge)) ''r1'' ''me'' (tc_init, empty_store) = (Inl (Raised OverflowError), (calm_clock 0 [], st_open))"
    by (simp add: prepare_run_def wall_at_def ns_at_def on_store_def dawn_is site_accepts site_admitted site_horizon
      run_stream_def site_reserves site_open_run armed_def [unfolded One_nat_def, symmetric])
  then show ?thesis by (simp add: start_run_def site_held)
qed

end
