(* ===== verification/Lifecycle.thy ===== *)
theory Lifecycle
  imports Sample_Run
begin

text \<open>
  What holds of a whole run. Two interfaces of a site carry the proofs: \<open>timed_site\<close>, whose clock never runs
  backwards, and \<open>quiet_site\<close>, whose store is what was last written while no device runs; both are
  interpreted on the simulated site.
\<close>

section \<open>Interfaces\<close>

locale timed_site = timed_world "e_world E" time for E :: "'s env" and time :: "'s \<Rightarrow> int" +
  assumes cancels_mono: "time s \<le> time (fst (e_cancels E s))"

locale quiet_site =
  fixes E :: "'s env"
  assumes get_set: "e_store E (e_set_store E st s) = st"
    and wall_keeps: "e_store E (fst (w_wall (e_world E) s)) = e_store E s"

interpretation meter_timed: timed_site "meter_env v" sim_time for v
  by unfold_locales
    (auto simp: meter_env_def sim_world_def tc_now_ns_def tc_wait_ns_def tc_advance_def split: prod.splits)

interpretation meter_quiet: quiet_site "meter_env v" for v
  by unfold_locales (auto simp: meter_env_def sim_world_def)

section \<open>A run returns\<close>

context timed_site
begin

lemma check_body_mono: "time s \<le> time (fst (check_body_phase E C (s, m)))"
proof -
  obtain s1 t where w: "w_wall (e_world E) s = (s1, t)" by fastforce
  with wall_mono [of s] have "time s \<le> time s1" by simp
  then show ?thesis
    unfolding check_body_phase_def by (auto simp: w split: option.split)
qed

lemma observe_mono: "time s \<le> time (fst (observe E found (s, m)))"
proof -
  have "time s \<le> time (fst (w_now (e_world E) s))" using now_mono by (metis prod.collapse)
  then show ?thesis by (cases "mo_phase m") (auto simp: observe_def Let_def)
qed

lemma look_mono: "time s \<le> time (fst (snd (look E C (s, m))))"
proof -
  obtain s1 t where n: "w_now (e_world E) s = (s1, t)" by fastforce
  obtain r s2 where v: "read_signal_values (e_world E) (t + bench_poll_ns (wa_signals C)) (wa_signals C) s1 = (r, s2)" by fastforce
  have "time s \<le> time s1" "time s1 \<le> time s2"
    using now_mono [OF n] read_signals_mono [of s1 "t + bench_poll_ns (wa_signals C)" "wa_signals C" "\<lambda>_. None"] v
    by (simp_all add: read_signal_values_def)
  moreover have "time s2 \<le> time (fst (observe E found (s2, m)))" for found by (rule observe_mono)
  ultimately have "time s \<le> time s2" "time s \<le> time (fst (observe E found (s2, m)))" for found
    by (auto intro: order_trans)
  then show ?thesis by (simp add: look_def n v split: sum.split)
qed

lemma tick_mono: "time s \<le> time (fst (snd (tick E C (s, m))))"
proof -
  obtain s1 runs where c: "e_cancels E s = (s1, runs)" by fastforce
  with cancels_mono [of s] have 1: "time s \<le> time s1" by simp
  let ?m = "fold cancel runs m"
  obtain s2 m2 where b: "(if mo_phase m = InBody then check_body_phase E C (s1, ?m) else (s1, ?m)) = (s2, m2)" by fastforce
  have "time s1 \<le> time s2"
    using check_body_mono [of s1 C ?m] b by (cases "mo_phase m = InBody") auto
  with 1 look_mono [of s2 C m2] show ?thesis
    by (simp add: tick_def c Let_def b)
qed

lemma watched_dispatch_mono: "time s \<le> time (fst (fst (watched_dispatch E C dev q dl (s, m))))"
proof -
  obtain r s1 m1 where t: "tick E C (s, m) = (r, s1, m1)" by (metis prod.exhaust)
  with tick_mono [of s C m] have 1: "time s \<le> time s1" by simp
  obtain a m2 where b: "block_result E q m1 = (a, m2)" by fastforce
  obtain s2 ans where d: "w_dispatch (e_world E) dev q dl s1 = (s2, ans)" by fastforce
  with dispatch_mono [of s1 dev q dl] have 2: "time s1 \<le> time s2" by simp
  have "time s2 \<le> time (fst (snd (tick E C (s2, m2))))" by (rule tick_mono)
  with t b d 1 2 show ?thesis
    by (auto simp: watched_dispatch_def split: sum.split option.split prod.split)
qed

lemma protect_timed: "timed_world (protect_world E C) (\<lambda>x. time (fst x))"
proof
  fix x y :: "'s \<times> monitor" and t d dev q dl
  obtain s m where x: "x = (s, m)" by (cases x)
  obtain s1 t1 where n: "w_now (e_world E) s = (s1, t1)" by fastforce
  obtain s2 e where w: "w_wait (e_world E) d s = (s2, e)" by fastforce
  show "w_now (protect_world E C) x = (y, t) \<Longrightarrow> time (fst x) \<le> t \<and> t \<le> time (fst y)"
    using now_le [OF n] by (auto simp: protect_world_def body_world_def x n)
  show "0 \<le> d \<Longrightarrow> w_wait (protect_world E C) d x = (y, None) \<Longrightarrow> time (fst x) + d \<le> time (fst y)"
    using wait_adv [of d s s2] by (auto simp: protect_world_def x w)
  show "0 \<le> d \<Longrightarrow> time (fst x) \<le> time (fst (fst (w_wait (protect_world E C) d x)))"
    using wait_mono [of d s] by (simp add: protect_world_def x w)
  show "time (fst x) \<le> time (fst (fst (w_wall (protect_world E C) x)))"
    using wall_mono [of s] by (simp add: protect_world_def body_world_def x split_beta)
  show "time (fst x) \<le> time (fst (fst (w_dispatch (protect_world E C) dev q dl x)))"
    using watched_dispatch_mono [of s C dev q dl m] by (simp add: protect_world_def body_world_def x)
qed

end

text \<open>
  Claim C15. Every run ends: on a clock that never runs backwards and on which a wait really waits,
  \<open>start_run\<close> always returns or raises, whatever the devices answer and whatever other requests do to
  the store meanwhile.
\<close>

theorem start_run_ends:
  assumes "timed_site (co_env K) time"
  shows "\<exists>r mem' s'. start_run K run who mem s = Some (r, mem', s')"
proof -
  have protects: "\<exists>r g s' m'. protect K reasons (s, m) = Some (r, g, s', m')" for reasons s m
  proof -
    obtain t s1 where n: "ns_at K s = (t, s1)" by fastforce
    from enter_returns [OF timed_site.protect_timed [OF assms]] show ?thesis
      by (fastforce simp: protect_def n)
  qed
  have "\<exists>r mem' s'. finish_run K p mem x = Some (r, mem', s')" for p mem x
  proof -
    obtain r mem1 s1 m1 where b: "run_and_record K p mem x = (r, mem1, s1, m1)" by (metis prod.exhaust)
    obtain out reasons where t: "body_truth m1 (body_of r) = (out, reasons)" by fastforce
    from protects [of reasons s1 m1] show ?thesis
      by (auto simp: finish_run_def b t split: prod.split)
  qed
  note finishes = this
  show ?thesis
  proof (cases "prepare_run K run who s")
    case (Pair r s1)
    show ?thesis
    proof (cases r)
      case (Inl e)
      with Pair show ?thesis by (simp add: start_run_def)
    next
      case (Inr pm)
      obtain p m where pm: "pm = (p, m)" by (cases pm)
      from finishes [of p mem "(s1, m)"] Pair Inr pm show ?thesis by (auto simp: start_run_def)
    qed
  qed
qed

lemma start_run_ends_witness:
  "\<exists>r mem' s'. start_run (site (JInt 0)) ''r1'' ''me'' no_memory (tc_init, empty_store) = Some (r, mem', s')"
proof (rule start_run_ends)
  show "timed_site (co_env (site (JInt 0))) sim_time"
    using meter_timed.timed_site_axioms by (simp add: site_def)
qed

section \<open>The stages of a run\<close>

lemma start_run_stages:
  assumes "start_run K run who mem s = Some (Inr rec, mem', s')"
  obtains p m s1 where "prepare_run K run who s = (Inr (p, m), s1)" "finish_run K p mem (s1, m) = Some (Inr rec, mem', s')"
proof (cases "prepare_run K run who s")
  case (Pair r s1)
  with assms that show ?thesis
    by (cases r) (auto simp: start_run_def map_sum_def split: option.splits sum.splits)
qed

lemma finish_run_stages:
  assumes "finish_run K p mem x = Some (r, mem', s')"
  obtains b s1 m1 res g s2 m2 where "run_and_record K p mem x = (b, mem', s1, m1)"
    "protect K (snd (body_truth m1 (body_of b))) (s1, m1) = Some (res, g, s2, m2)"
    "conclude K p (fst (body_truth m1 (body_of b))) (snd (body_truth m1 (body_of b))) res s2 = (r, s')"
proof -
  obtain b mem1 s1 m1 where b: "run_and_record K p mem x = (b, mem1, s1, m1)" by (metis prod.exhaust)
  obtain out reasons where t: "body_truth m1 (body_of b) = (out, reasons)" by fastforce
  obtain res g s2 m2 where q: "protect K reasons (s1, m1) = Some (res, g, s2, m2)"
    using assms by (auto simp: finish_run_def b t split: option.splits)
  obtain rec s3 where c: "conclude K p out reasons res s2 = (rec, s3)" by fastforce
  from assms have "mem1 = mem'" "rec = r" "s3 = s'" by (simp_all add: finish_run_def b t q c)
  with that [OF b [unfolded this(1)]] show ?thesis by (simp add: t q c \<open>rec = r\<close> \<open>s3 = s'\<close> \<open>mem1 = mem'\<close>)
qed

lemma built_record:
  assumes "build_terminal_record C sr v draft = Inr rec"
  shows "tm_outcome rec = terminal_outcome (tm_body draft) (tm_safe draft) \<and> tm_reasons rec = tm_reasons draft \<and>
    tm_refs rec = tm_refs draft \<and> tm_run rec = tm_run draft"
  using assms by (auto simp: build_terminal_record_def bind_res_Inr_iff Let_def split: if_splits)

lemma concluded:
  assumes "conclude K p out reasons res s = (Inr rec, s')"
  obtains ended s1 s2 now s3 where "wall_at K s = (ended, s1)" "tm_outcome rec = terminal_outcome (body_text out) (safe_text (final_safe res))"
    "tm_reasons rec = final_reasons K reasons res" "tm_refs rec = evidence_refs K (pr_run p) s1"
    "on_store K (finalize_run (pr_run p) (record_json (e_reason (co_env K)) rec)) s1 = (Inr (), s2)"
    "wall_at K s2 = (now, s3)" "on_store K (release (pr_reservation p) now) s3 = (Inr (), s')"
proof -
  obtain ended s1 where w: "wall_at K s = (ended, s1)" by fastforce
  obtain r where r: "build_terminal_record (co_corpus K) (e_reason (co_env K)) (Some (co_version K))
          \<lparr>tm_version = [], tm_run = pr_run p, tm_binding = co_binding K, tm_who = pr_who p, tm_started = pr_iso p,
            tm_ended = ended, tm_body = body_text out, tm_outcome = [], tm_safe = safe_text (final_safe res),
            tm_reasons = final_reasons K reasons res, tm_refs = evidence_refs K (pr_run p) s1\<rparr> = Inr r"
    using assms by (auto simp: conclude_def w split: sum.splits)
  obtain s2 where f: "on_store K (finalize_run (pr_run p) (record_json (e_reason (co_env K)) r)) s1 = (Inr (), s2)"
    using assms by (auto simp: conclude_def w r split: sum.splits prod.splits)
  obtain now s3 where w2: "wall_at K s2 = (now, s3)" by fastforce
  have l: "on_store K (release (pr_reservation p) now) s3 = (Inr (), s')" and rec: "rec = r"
    using assms by (auto simp: conclude_def w r f w2 split: sum.splits prod.splits)
  from built_record [OF r] show ?thesis
    by (intro that [OF w _ _ _ f [folded rec] w2 l]) (simp_all add: rec)
qed

section \<open>What the monitor brings through the stages\<close>

lemma mon_rel_inv: "mon_rel m m' \<Longrightarrow> mon_inv m \<Longrightarrow> mon_inv m'"
  by (simp add: mon_rel_def)

lemma prepared_monitor:
  assumes "prepare_run K run who s = (Inr (p, m), s1)"
  shows "mon_inv m \<and> mo_phase m = InBody \<and> pr_run p = run"
proof -
  have arm: "mon_inv ((fresh_monitor run n)\<lparr>mo_phase := InBody\<rparr>) \<and> mo_phase ((fresh_monitor run n)\<lparr>mo_phase := InBody\<rparr>) = InBody" for n
    by (simp add: mon_inv_def fresh_monitor_def)
  have "tick E C (t, (fresh_monitor run n)\<lparr>mo_phase := InBody\<rparr>) = (r, u, m') \<Longrightarrow> mon_inv m' \<and> mo_phase m' = InBody" for E :: "'a env" and C t n r u m'
    using tick_rel [of "(fresh_monitor run n)\<lparr>mo_phase := InBody\<rparr>" E C t] arm [of n]
    by (auto dest: mon_rel_inv mon_rel_phase)
  with assms show ?thesis
    by (auto simp: prepare_run_def split: prod.splits sum.splits accept_result.splits)
qed

lemma recorded_monitor:
  assumes "run_and_record K p mem (s, m) = (r, mem1, s1, m1)"
  shows "mon_rel m m1"
proof (cases "resolve_binding (co_docs K)")
  case (Inr b)
  obtain br y where b: "run_body (body_world (co_env K) (watch_of (co_docs K))) (config_of K b) (d_steps (co_docs K)) (pr_run p)
            (body_deadline K p) (start_exec mem (s, m)) = (br, y)" by fastforce
  obtain s2 m2 where y: "x_world y = (s2, m2)" by fastforce
  have "evolves (body_world (co_env K) (watch_of (co_docs K))) (s, m) (s2, m2)"
    using body_evolves [of "body_world (co_env K) (watch_of (co_docs K))" "start_exec mem (s, m)" "config_of K b" "d_steps (co_docs K)" "pr_run p" "body_deadline K p"]
    by (simp add: b y) (simp add: start_exec_def)
  then have "mon_rel m m2" by (rule monitor_kept [OF disjI1])
  then have "mon_rel m (snd (snd (tick (co_env K) (watch_of (co_docs K)) (s2, m2))))"
    by (rule mon_rel_trans [OF _ tick_rel])
  with assms Inr b y show ?thesis
    by (auto simp: run_and_record_def split: prod.splits sum.splits)
qed (use assms in \<open>simp add: run_and_record_def\<close>)

lemma protected_monitor:
  assumes "protect K reasons (s, m) = Some (res, g, s', m')"
  shows "mon_rel (m\<lparr>mo_phase := Protecting\<rparr>) m'" "set (mo_later m') \<subseteq> set (g_reasons g)"
proof -
  obtain t s1 where n: "ns_at K s = (t, s1)" by fastforce
  from assms have e: "enter (protect_world (co_env K) (watch_of (co_docs K))) (\<lambda>x. mo_later (snd x)) (transition_of (co_docs K))
         (d_signals (co_docs K)) (if mo_cause m \<noteq> None then reasons else []) t fresh_engine
         (s1, m\<lparr>mo_phase := Protecting\<rparr>) = Some (res, g, s', m')"
    by (simp add: protect_def n)
  from enter_evolves [OF e] show "mon_rel (m\<lparr>mo_phase := Protecting\<rparr>) m'"
    by (rule monitor_kept [OF disjI2])
  from e show "set (mo_later m') \<subseteq> set (g_reasons g)"
    by (rule enter_first) auto
qed

lemma protected_result:
  assumes "protect K reasons (s, m) = Some (Inr res, g, s', m')"
  shows "px_reasons res = g_reasons g"
proof -
  obtain t s1 where n: "ns_at K s = (t, s1)" by fastforce
  from assms have e: "enter (protect_world (co_env K) (watch_of (co_docs K))) (\<lambda>x. mo_later (snd x)) (transition_of (co_docs K))
         (d_signals (co_docs K)) (if mo_cause m \<noteq> None then reasons else []) t fresh_engine
         (s1, m\<lparr>mo_phase := Protecting\<rparr>) = Some (Inr res, g, s', m')"
    by (simp add: protect_def n)
  then show ?thesis
    by (rule enter_first) (auto simp: snapshot_result_def split: sum.splits option.splits)
qed

section \<open>A passed run\<close>

lemma body_truth_Completed:
  assumes "mon_inv m" "mo_phase m = InBody" "body_truth m b = (Completed, reasons)"
  shows "br_outcome b = Completed \<and> \<not> mo_blocked m \<and> (mo_violations m = [] \<or> mo_cause m = Some CauseCancelled)"
proof -
  have "\<not> (mo_cause m = Some CauseTripped \<and> (mo_blocked m \<or> br_outcome b = Completed))" "\<not> (mo_blocked m \<and> mo_cause m = Some CauseCancelled)"
    "br_outcome b = Completed"
    using assms(3) by (auto simp: body_truth_def Let_def split: if_splits)
  with assms(1,2) show ?thesis
    by (cases "mo_cause m"; cases "the (mo_cause m)") (auto simp: mon_inv_def)
qed

text \<open>
  Claim C18. A passed record is earned: the documents were admitted at the time of acceptance, the
  executor completed the body and nothing it asked for was blocked, the monitor saw no violation (unless a cancellation
  came too late, in the last dispatch), and the protective transition after it ended verified.
\<close>

theorem passed_is_earned:
  assumes "start_run K run who mem s = Some (Inr rec, mem', s')" and "tm_outcome rec = ''passed''"
  shows "\<exists>p m s1 b s2 m2 res g s3 m3. check_semantics (co_docs K) (fst (wall_at K s)) = Inr () \<and>
    prepare_run K run who s = (Inr (p, m), s1) \<and> run_and_record K p mem (s1, m) = (Inr b, mem', s2, m2) \<and>
    br_outcome b = Completed \<and> \<not> mo_blocked m2 \<and> (mo_violations m2 = [] \<or> mo_cause m2 = Some CauseCancelled) \<and>
    protect K (snd (body_truth m2 b)) (s2, m2) = Some (Inr res, g, s3, m3) \<and> px_safe_state res = Verified"
proof -
  obtain p m s1 where p: "prepare_run K run who s = (Inr (p, m), s1)" and f: "finish_run K p mem (s1, m) = Some (Inr rec, mem', s')"
    using assms(1) by (rule start_run_stages)
  obtain b s2 m2 res g s3 m3 where b: "run_and_record K p mem (s1, m) = (b, mem', s2, m2)"
    and q: "protect K (snd (body_truth m2 (body_of b))) (s2, m2) = Some (res, g, s3, m3)"
    and c: "conclude K p (fst (body_truth m2 (body_of b))) (snd (body_truth m2 (body_of b))) res s3 = (Inr rec, s')"
    using f by (rule finish_run_stages)
  have "tm_outcome rec = terminal_outcome (body_text (fst (body_truth m2 (body_of b)))) (safe_text (final_safe res))"
    using c by (rule concluded)
  with assms(2) have out: "fst (body_truth m2 (body_of b)) = Completed" and safe: "final_safe res = Verified"
    by (simp_all add: passed_iff)
  have "mon_rel m m2" using b by (rule recorded_monitor)
  then have m2: "mon_inv m2" "mo_phase m2 = InBody"
    using prepared_monitor [OF p] mon_rel_inv mon_rel_phase by auto
  have body: "br_outcome (body_of b) = Completed \<and> \<not> mo_blocked m2 \<and> (mo_violations m2 = [] \<or> mo_cause m2 = Some CauseCancelled)"
    using m2 out by (intro body_truth_Completed) (auto simp: prod_eq_iff)
  then obtain br where br: "b = Inr br" by (cases b) (auto simp: body_of_def failed_body_def)
  obtain r where r: "res = Inr r" using safe by (cases res) (auto simp: final_safe_def)
  have "check_semantics (co_docs K) (fst (wall_at K s)) = Inr ()"
    using p by (auto simp: prepare_run_def split: prod.splits sum.splits accept_result.splits)
  with p b q body safe show ?thesis
    by (auto simp: br r body_of_def final_safe_def)
qed

lemma passed_is_earned_witness:
  "\<exists>p m s1 b mem' s2 m2 res g s3 m3. prepare_run (site (JInt 0)) ''r1'' ''me'' (tc_init, empty_store) = (Inr (p, m), s1) \<and>
    run_and_record (site (JInt 0)) p no_memory (s1, m) = (Inr b, mem', s2, m2) \<and> br_outcome b = Completed \<and>
    protect (site (JInt 0)) (snd (body_truth m2 b)) (s2, m2) = Some (Inr res, g, s3, m3) \<and> px_safe_state res = Verified"
proof -
  obtain mem' where run: "start_run (site (JInt 0)) ''r1'' ''me'' no_memory (tc_init, empty_store) =
      Some (Inr site_record, mem', (calm_clock 0 [], st_released))"
    using site_run by blast
  have "tm_outcome site_record = ''passed''" by (simp add: site_record_def)
  from passed_is_earned [OF run this] show ?thesis by blast
qed

section \<open>No violation is lost\<close>

lemma body_truth_violations: "Violated ` set (mo_violations m) \<subseteq> set (snd (body_truth m b))"
  by (auto simp: body_truth_def Let_def)

lemma body_violations_kept:
  assumes "conclude K p out (snd (body_truth m b)) res s = (Inr rec, s')"
  shows "Violated ` set (mo_violations m) \<subseteq> set (tm_reasons rec)"
  using assms by (rule concluded) (use body_truth_violations [of m b] in \<open>auto simp: final_reasons_def\<close>)

lemma later_violations_kept:
  assumes "protect K reasons (s, m) = Some (Inr r, g, s', m')"
    and "conclude K p out reasons (Inr r) s' = (Inr rec, s'')" and "v \<in> set (mo_violations m')" "v \<notin> set (mo_violations m)"
  shows "Violated v \<in> set (tm_reasons rec)"
proof -
  have "mon_rel (m\<lparr>mo_phase := Protecting\<rparr>) m'" "set (mo_later m') \<subseteq> set (g_reasons g)"
    using protected_monitor [OF assms(1)] by auto
  with assms(3,4) have "Violated v \<in> set (g_reasons g)" by (auto simp: mon_rel_def handed_def)
  then have "Violated v \<in> set (px_reasons r)" by (simp add: protected_result [OF assms(1)])
  moreover have "tm_reasons rec = final_reasons K reasons (Inr r)" using assms(2) by (rule concluded)
  ultimately show ?thesis by (simp add: final_reasons_def)
qed

text \<open>
  Claim C19. No violation is lost: every violation the monitor saw during the body is a reason of the
  terminal record, and so is every violation it saw during the protective transition, unless that transition
  itself raised; and a body that saw a violation does not pass, unless it was cancelled first.
\<close>

theorem no_violation_lost:
  assumes "prepare_run K run who s = (Inr (p, m), s1)" and "finish_run K p mem (s1, m) = Some (Inr rec, mem', s')"
    and "run_and_record K p mem (s1, m) = (b, mem', s2, m2)"
    and "protect K (snd (body_truth m2 (body_of b))) (s2, m2) = Some (res, g, s3, m3)"
  shows "Violated ` set (mo_violations m2) \<subseteq> set (tm_reasons rec) \<and>
    (\<not> isl res \<longrightarrow> Violated ` set (mo_violations m3) \<subseteq> set (tm_reasons rec)) \<and>
    (mo_violations m2 \<noteq> [] \<longrightarrow> mo_cause m2 \<noteq> Some CauseCancelled \<longrightarrow> tm_outcome rec \<noteq> ''passed'')"
proof -
  have c: "conclude K p (fst (body_truth m2 (body_of b))) (snd (body_truth m2 (body_of b))) res s3 = (Inr rec, s')"
    using assms(2) by (rule finish_run_stages) (use assms(3,4) in simp)
  have body: "Violated ` set (mo_violations m2) \<subseteq> set (tm_reasons rec)" using c by (rule body_violations_kept)
  moreover have "Violated ` set (mo_violations m3) \<subseteq> set (tm_reasons rec)" if "res = Inr r" for r
    using later_violations_kept [OF assms(4) [unfolded that] c [unfolded that]] body by blast
  moreover have "mon_rel m m2" using assms(3) by (rule recorded_monitor)
  then have "mon_inv m2" "mo_phase m2 = InBody"
    using prepared_monitor [OF assms(1)] mon_rel_inv mon_rel_phase by auto
  then have "mo_violations m2 = [] \<or> mo_cause m2 = Some CauseCancelled" if "fst (body_truth m2 (body_of b)) = Completed"
    using body_truth_Completed [of m2 "body_of b"] that by (auto simp: prod_eq_iff)
  moreover have "tm_outcome rec = terminal_outcome (body_text (fst (body_truth m2 (body_of b)))) (safe_text (final_safe res))"
    using c by (rule concluded)
  ultimately show ?thesis by (cases res) (auto simp: passed_iff)
qed

lemma no_violation_lost_witness:
  "\<exists>mem'. finish_run (site (JInt 0)) site_prepared no_memory ((calm_clock 0 [], st_open), armed) =
      Some (Inr site_record, mem', (calm_clock 0 [], st_released)) \<and> Violated ` set (mo_violations armed) \<subseteq> set (tm_reasons site_record)"
proof -
  obtain mem' res g where "run_and_record (site (JInt 0)) site_prepared no_memory ((calm_clock 0 [], st_open), armed) =
      (Inr site_result, mem', (calm_clock 0 [], st_logged), armed)"
    "protect (site (JInt 0)) (snd (body_truth armed (body_of (Inr site_result)))) ((calm_clock 0 [], st_logged), armed) =
      Some (Inr res, g, (calm_clock 0 [], st_logged), armed\<lparr>mo_phase := Protecting\<rparr>)"
    "finish_run (site (JInt 0)) site_prepared no_memory ((calm_clock 0 [], st_open), armed) =
      Some (Inr site_record, mem', (calm_clock 0 [], st_released))"
    using site_finishes by (elim exE conjE) (rule that)
  with no_violation_lost [OF site_prepares this(3,1,2)] show ?thesis by blast
qed

section \<open>The record is durable\<close>

lemma at_most_one_hit:
  "distinct (map f (filter P xs)) \<Longrightarrow> length (filter (\<lambda>x. P x \<and> f x = q \<and> A x) xs) \<le> 1"
proof (induction xs)
  case (Cons x xs)
  show ?case
  proof (cases "P x \<and> f x = q \<and> A x")
    case True
    with Cons.prems have "filter (\<lambda>x. P x \<and> f x = q \<and> A x) xs = []"
      by (auto simp: filter_empty_conv image_iff dest: sym)
    with True show ?thesis by simp
  next
    case False
    with Cons show ?thesis by (cases "P x") auto
  qed
qed simp

lemma release_closes:
  assumes "gap_free (lease_seqs (tabs s) (ls_bench (rsv_lease r)))" and "release r now s = (x, s')"
  shows "t_runs (tabs s') = t_runs (tabs s) \<and> t_events (tabs s') = t_events (tabs s) \<and>
    (\<forall>l. get_active_lease (ls_bench (rsv_lease r)) s' = Some l \<longrightarrow> ls_seq l \<noteq> ls_seq (rsv_lease r))"
proof -
  let ?b = "ls_bench (rsv_lease r)" and ?q = "ls_seq (rsv_lease r)"
  let ?hit = "\<lambda>l. ls_bench l = ?b \<and> ls_seq l = ?q \<and> ls_state l = ''active''"
  let ?close = "\<lambda>l. if ?hit l then l\<lparr>ls_state := ''released'', ls_expires := now\<rparr> else l"
  have "distinct (map ls_seq (filter (\<lambda>l. ls_bench l = ?b) (t_leases (tabs s))))"
    using assms(1) by (metis gap_free_def lease_seqs_def distinct_upt)
  then have one: "length (filter ?hit (t_leases (tabs s))) \<le> 1" by (rule at_most_one_hit)
  have gone: "filter ?hit (map ?close ls) = []" for ls :: "lease list" by (induction ls) auto
  have "filter ?hit (t_leases (tabs s')) = [] \<and> t_runs (tabs s') = t_runs (tabs s) \<and> t_events (tabs s') = t_events (tabs s)"
  proof (cases "length (filter ?hit (t_leases (tabs s))) = 1")
    case True
    then have "s' = s\<lparr>tabs := (tabs s)\<lparr>t_leases := map ?close (t_leases (tabs s))\<rparr>\<rparr>"
      using assms(2) by (simp add: release_def release_lease_def close_lease_def autocommit_def Let_def)
    then show ?thesis using gone by simp
  next
    case False
    with one have "filter ?hit (t_leases (tabs s)) = []" by (cases "filter ?hit (t_leases (tabs s))") auto
    moreover have "s' = s"
      using assms(2) False by (auto simp: release_def release_lease_def close_lease_def autocommit_def Let_def)
    ultimately show ?thesis by simp
  qed
  moreover have "l \<in> set (t_leases (tabs s')) \<and> ls_bench l = ?b \<and> ls_state l = ''active''" if "get_active_lease ?b s' = Some l" for l
  proof -
    have "l \<in> set (rev (sort_key ls_seq (filter (\<lambda>l. ls_bench l = ?b \<and> ls_state l = ''active'') (t_leases (tabs s')))))"
      using that by (auto simp: get_active_lease_def simp del: set_rev split: list.splits)
    then show ?thesis by simp
  qed
  ultimately show ?thesis by (auto simp: filter_empty_conv)
qed

lemma finalize_run_stores:
  assumes "finalize_run run v s = (Inr (), s')"
  shows "map_option rn_terminal (get_run run s') = Some (Some (sort_members v)) \<and> t_events (tabs s') = t_events (tabs s) \<and>
    t_leases (tabs s') = t_leases (tabs s)"
  using assms by (auto simp: finalize_run_eq autocommit_ok get_run_def json_column_def update_conv' split: sum.splits option.splits if_splits)

text \<open>
  What a run reports is what stays: on a quiet site, when the coordinator returns a record, the
  run's row holds exactly that record, its evidence digest is the digest of the event stream as it is then in the
  store, and the run's lease is no longer active.
\<close>

theorem conclusion_durable:
  assumes "quiet_site (co_env K)" and "store_steps empty_store (e_store (co_env K) s)"
    and "conclude K p out reasons res s = (Inr rec, s')"
  shows "map_option rn_terminal (get_run (pr_run p) (e_store (co_env K) s')) =
      Some (Some (sort_members (record_json (e_reason (co_env K)) rec))) \<and>
    last (tm_refs rec) = events_ref K (pr_run p) s' \<and>
    (\<forall>l. get_active_lease (ls_bench (rsv_lease (pr_reservation p))) (e_store (co_env K) s') = Some l \<longrightarrow>
      ls_seq l \<noteq> ls_seq (rsv_lease (pr_reservation p)))"
proof -
  obtain ended s1 s2 now s3 where w1: "wall_at K s = (ended, s1)" and refs: "tm_refs rec = evidence_refs K (pr_run p) s1"
    and f: "on_store K (finalize_run (pr_run p) (record_json (e_reason (co_env K)) rec)) s1 = (Inr (), s2)"
    and w2: "wall_at K s2 = (now, s3)" and r: "on_store K (release (pr_reservation p) now) s3 = (Inr (), s')"
    using assms(3) by (rule concluded)
  have wall: "e_store (co_env K) b = e_store (co_env K) a" if "wall_at K a = (t, b)" for a b t
    using quiet_site.wall_keeps [OF assms(1), of a] that by (auto simp: wall_at_def split: prod.splits)
  have call: "\<exists>st. h (e_store (co_env K) a) = (v, st) \<and> e_store (co_env K) b = st" if "on_store K h a = (v, b)" for h :: "store \<Rightarrow> (exn + unit) \<times> store" and a v b
    using that quiet_site.get_set [OF assms(1)] by (auto simp: on_store_def split: prod.splits)
  have stored: "finalize_run (pr_run p) (record_json (e_reason (co_env K)) rec) (e_store (co_env K) s) = (Inr (), e_store (co_env K) s2)"
    and freed: "release (pr_reservation p) now (e_store (co_env K) s2) = (Inr (), e_store (co_env K) s')"
    using call [OF f] call [OF r] wall [OF w1] wall [OF w2] by auto
  have "gap_free (lease_seqs (tabs (e_store (co_env K) s2)) (ls_bench (rsv_lease (pr_reservation p))))"
    using reachable_leases [OF assms(2)] finalize_run_stores [OF stored] by (simp add: lease_seqs_def)
  from release_closes [OF this freed] finalize_run_stores [OF stored] wall [OF w1] show ?thesis
    by (simp add: refs evidence_refs_def events_ref_def get_run_def read_events_def stream_rows_def)
qed

lemma reserve_steps: "store_steps s0 s \<Longrightarrow> store_steps s0 (snd (reserve d b h x n s))"
  using store_steps.call [of s0 s "NextLease b (''lease-'' @ d_request d) h x"]
  by (auto simp: reserve_def outcome_def split: sum.split prod.split)

lemma site_reachable: "store_steps empty_store st_logged"
proof -
  have "store_steps empty_store st_accepted"
    using store_steps.call [OF store_steps.start, of empty_store "AcceptRequest ''req-1'' ''req-1'' ''r1'' dawn"]
    by (simp add: outcome_def st_accepted_def)
  then have "store_steps empty_store st_reserved" unfolding st_reserved_def by (rule reserve_steps)
  from store_steps.call [OF this, of "CreateRun ''r1'' (pinned_json (site_pin ''req-1'')) ''me'' dawn"]
  have "store_steps empty_store st_created" by (simp add: outcome_def st_created_def)
  from store_steps.call [OF this, of "AppendEvent ''run:r1'' [(''kind'', JStr ''devices_pinned''), (''devices'', JObj [])]"]
  have "store_steps empty_store st_open" by (simp add: outcome_def st_open_def)
  from store_steps.call [OF this, of "AppendEvent ''run:r1'' (event_json (\<lambda>_. ''digest'') (\<lambda>_. []) site_event)"]
  show ?thesis by (simp add: outcome_def st_logged_def)
qed

lemma conclusion_durable_witness:
  "map_option rn_terminal (get_run ''r1'' st_released) = Some (Some (sort_members (record_json (\<lambda>_. []) site_record))) \<and>
    (\<exists>res s. conclude (site (JInt 0)) site_prepared Completed [] res s = (Inr site_record, (calm_clock 0 [], st_released)))"
proof -
  have "\<exists>res. conclude (site (JInt 0)) site_prepared Completed [] res (calm_clock 0 [], st_logged) = (Inr site_record, (calm_clock 0 [], st_released))"
    using site_finishes by blast
  then obtain res where c: "conclude (site (JInt 0)) site_prepared Completed [] res (calm_clock 0 [], st_logged) =
      (Inr site_record, (calm_clock 0 [], st_released))" ..
  have quiet: "quiet_site (co_env (site (JInt 0)))" using meter_quiet.quiet_site_axioms by simp
  have steps: "store_steps empty_store (e_store (co_env (site (JInt 0))) (calm_clock 0 [], st_logged))" using site_reachable by simp
  have "e_reason (meter_env (JInt 0)) = (\<lambda>_. [])" by (simp add: meter_env_def)
  with conclusion_durable [OF quiet steps c] show ?thesis using c by (auto simp: site_prepared_def)
qed

end
