(* ===== verification/Recovery.thy ===== *)
theory Recovery
  imports Lifecycle
begin

text \<open>
  Recovery after a restart and the sweep at a stop, \<open>RunCoordinator.recover_interrupted\<close> and
  \<open>interrupt_queued_at_stop\<close>: which version and which binding the record of an interrupted run carries
  (\<open>_recovery_record_version\<close>), the leg over the leases and the leg over the run states. Log lines are left out;
  the reason of a containment is a value. Stored bindings are dictionaries.
\<close>

section \<open>The decision\<close>

datatype containment =
    NoContractVersion string
  | NotCarried string string
  | EchoContradicts string string
  | UnverifiedBytes string string

record decision =
  dc_version :: "string option"
  dc_pin :: obj
  dc_reasons :: "run_reason list"
  dc_containment :: "containment option"
  dc_access :: "exn option"

text \<open>\<open>str(d.get(k, other))\<close>.\<close>

definition str_of :: "'s coordinator \<Rightarrow> pyval \<Rightarrow> string" where
  "str_of K v = (case v of JStr s \<Rightarrow> s | _ \<Rightarrow> co_text K v)"

definition member_text :: "'s coordinator \<Rightarrow> obj \<Rightarrow> string \<Rightarrow> string \<Rightarrow> string" where
  "member_text K kvs k other = (case map_of kvs k of None \<Rightarrow> other | Some v \<Rightarrow> str_of K v)"

definition settle :: "string option \<Rightarrow> obj \<Rightarrow> run_reason list \<Rightarrow> decision" where
  "settle v pin rs = \<lparr>dc_version = v, dc_pin = pin, dc_reasons = rs, dc_containment = None, dc_access = None\<rparr>"

definition keep_out :: "obj \<Rightarrow> containment \<Rightarrow> decision" where
  "keep_out pin c = \<lparr>dc_version = None, dc_pin = pin, dc_reasons = [], dc_containment = Some c, dc_access = None\<rparr>"

definition put_off :: "obj \<Rightarrow> exn \<Rightarrow> decision" where
  "put_off pin e = \<lparr>dc_version = None, dc_pin = pin, dc_reasons = [], dc_containment = None, dc_access = Some e\<rparr>"

text \<open>The document decides, when it is there.\<close>

definition document_decision :: "'s coordinator \<Rightarrow> obj \<Rightarrow> string \<Rightarrow> string \<Rightarrow> obj \<Rightarrow> decision" where
  "document_decision K stored echo digest doc =
     (let C = co_corpus K; candidate = member_text K doc ''contract_version'' [];
          pin = [(''id'', JStr (member_text K doc ''request_id'' (member_text K stored ''id'' []))),
                 (''version'', JStr candidate), (''sha256'', JStr digest)];
          disagrees = (echo \<noteq> [] \<and> echo \<noteq> candidate \<and> is_carried C echo) in
      if candidate = [] then keep_out stored (NoContractVersion digest)
      else if \<not> (candidate = cp_name C \<or> is_carried C candidate) then keep_out stored (NotCarried digest candidate)
      else if candidate \<noteq> cp_name C then
        (if disagrees then keep_out pin (EchoContradicts candidate echo) else settle (Some candidate) pin [])
      else settle None pin (if disagrees then [EchoDisagrees echo candidate] else []))"

text \<open>Without it, the caller's echo, judged.\<close>

definition echo_decision :: "'s coordinator \<Rightarrow> obj \<Rightarrow> string \<Rightarrow> decision" where
  "echo_decision K stored echo =
     (let C = co_corpus K in
      if echo = cp_name C then settle None stored []
      else if echo \<noteq> [] \<and> is_carried C echo then settle (Some echo) stored []
      else if echo \<noteq> [] then (case versioned_schema_path C ''execution'' echo ''run-record.schema.json'' of
          Inl (Refused m) \<Rightarrow> if prefix ''version_unknown:'' m then settle None stored [] else keep_out stored (UnverifiedBytes echo m)
        | Inl e \<Rightarrow> put_off stored e
        | Inr _ \<Rightarrow> settle (Some echo) stored [])
      else settle None stored [])"

definition recovery_record_version :: "'s coordinator \<Rightarrow> obj \<Rightarrow> decision" where
  "recovery_record_version K stored =
     (let echo = member_text K stored ''version'' []; digest = member_text K stored ''sha256'' [] in
      case (if digest = [] then None else co_content K digest) of
        Some doc \<Rightarrow> document_decision K stored echo digest doc
      | None \<Rightarrow> echo_decision K stored echo)"

section \<open>The record of an interrupted run\<close>

definition pin_of :: "'s coordinator \<Rightarrow> obj \<Rightarrow> exn + pinned" where
  "pin_of K pin = (case (map_of pin ''id'', map_of pin ''version'', map_of pin ''sha256'') of
      (Some i, Some v, Some d) \<Rightarrow> Inr \<lparr>pn_id = str_of K i, pn_version = str_of K v, pn_sha = str_of K d\<rparr>
    | (None, _, _) \<Rightarrow> Inl (KeyError ''id'')
    | (_, None, _) \<Rightarrow> Inl (KeyError ''version'')
    | _ \<Rightarrow> Inl (KeyError ''sha256''))"

definition recovery_evidence_refs :: "'s coordinator \<Rightarrow> string \<Rightarrow> pinned \<Rightarrow> 's \<Rightarrow> pinned list" where
  "recovery_evidence_refs K run pin s = [pin, events_ref K run s]"

definition era_reasons :: "'s coordinator \<Rightarrow> run_reason \<Rightarrow> string \<Rightarrow> decision \<Rightarrow> run_reason list" where
  "era_reasons K first verb d = [first] @ dc_reasons d @ (case dc_version d of
      Some v \<Rightarrow> if v \<noteq> cp_name (co_corpus K) then [Disclosure (cp_name (co_corpus K)) v verb] else []
    | None \<Rightarrow> [])"

text \<open>Build, finalise, rebuild the ledger; the exception that ends it contains the run.\<close>

definition terminalize :: "'s coordinator \<Rightarrow> string \<Rightarrow> run_row \<Rightarrow> decision \<Rightarrow> run_reason \<Rightarrow> string \<Rightarrow> string \<Rightarrow> memory \<Rightarrow> 's \<Rightarrow>
    (exn + terminal_record) \<times> memory \<times> 's" where
  "terminalize K run row d first verb ended mem s =
     (case pin_of K (dc_pin d) of
        Inl e \<Rightarrow> (Inl e, mem, s)
      | Inr pin \<Rightarrow>
          (case build_terminal_record (co_corpus K) (e_reason (co_env K)) (dc_version d)
              \<lparr>tm_version = [], tm_run = run, tm_binding = pin, tm_who = rn_principal row, tm_started = rn_started row,
                tm_ended = ended, tm_body = ''interrupted'', tm_outcome = [], tm_safe = ''unknown'',
                tm_reasons = era_reasons K first verb d, tm_refs = recovery_evidence_refs K run pin s\<rparr> of
             Inl e \<Rightarrow> (Inl e, mem, s)
           | Inr rec \<Rightarrow> (case on_store K (finalize_run run (record_json (e_reason (co_env K)) rec)) s of
               (Inl e, s) \<Rightarrow> (Inl e, mem, s)
             | (Inr _, s) \<Rightarrow> (Inr rec, rebuild_ledger run (e_store (co_env K) s) mem, s))))"

section \<open>The sweep at a start\<close>

record sweep =
  sw_memory :: memory
  sw_recovered :: "string list"
  sw_contained :: "string list"

definition binding_of :: "run_row \<Rightarrow> obj" where
  "binding_of row = (case rn_binding row of JObj kvs \<Rightarrow> kvs | _ \<Rightarrow> [])"

definition contained :: "string \<Rightarrow> sweep \<Rightarrow> sweep" where
  "contained run w = w\<lparr>sw_contained := sw_contained w @ [run]\<rparr>"

definition recovered :: "string \<Rightarrow> sweep \<Rightarrow> sweep" where
  "recovered run w = w\<lparr>sw_recovered := sw_recovered w @ [run]\<rparr>"

text \<open>One run without a terminal record, \<open>ended\<close> at some clock; \<open>None\<close> puts it off to the next sweep, untouched.\<close>

definition recover_run :: "'s coordinator \<Rightarrow> string \<Rightarrow> run_row \<Rightarrow> ('s \<Rightarrow> string \<times> 's) \<Rightarrow> sweep \<Rightarrow> 's \<Rightarrow> sweep option \<times> 's" where
  "recover_run K run row clock w s =
     (let d = recovery_record_version K (binding_of row) in
      if dc_access d \<noteq> None then (None, s)
      else if dc_containment d \<noteq> None then (Some (contained run w), s)
      else case clock s of (ended, s) \<Rightarrow> case terminalize K run row d GatewayRestart ''recovered'' ended (sw_memory w) s of
          (Inl e, mem, s) \<Rightarrow> (Some (contained run (w\<lparr>sw_memory := mem\<rparr>)), s)
        | (Inr _, mem, s) \<Rightarrow> (Some (recovered run (w\<lparr>sw_memory := mem\<rparr>)), s))"

definition run_of_holder :: "string \<Rightarrow> string option" where
  "run_of_holder holder = (if prefix ''run:'' holder then Some (drop 4 holder) else None)"

definition free_lease :: "'s coordinator \<Rightarrow> nat \<Rightarrow> string \<Rightarrow> sweep \<Rightarrow> 's \<Rightarrow> (exn + sweep) \<times> 's" where
  "free_lease K seq now w s = (case on_store K (release_lease (d_bench (co_docs K)) seq now) s of
      (Inl e, s) \<Rightarrow> (Inl e, s)
    | (Inr _, s) \<Rightarrow> (Inr w, s))"

definition recover_lease :: "'s coordinator \<Rightarrow> lease \<Rightarrow> sweep \<Rightarrow> 's \<Rightarrow> (exn + sweep) \<times> 's" where
  "recover_lease K l w s = (case (if ls_state l = ''active'' then run_of_holder (ls_holder l) else None) of
      None \<Rightarrow> (Inr w, s)
    | Some run \<Rightarrow>
        (let found = get_run run (e_store (co_env K) s) in
         case wall_at K s of (now, s) \<Rightarrow>
           (case found of
              None \<Rightarrow> free_lease K (ls_seq l) now w s
            | Some row \<Rightarrow>
                (if rn_terminal row \<noteq> None then free_lease K (ls_seq l) now w s
                 else case recover_run K run row (\<lambda>s. (now, s)) w s of
                     (None, s) \<Rightarrow> (Inr w, s)
                   | (Some w, s) \<Rightarrow> free_lease K (ls_seq l) now w s))))"

fun recover_leases :: "'s coordinator \<Rightarrow> lease list \<Rightarrow> sweep \<Rightarrow> 's \<Rightarrow> (exn + sweep) \<times> 's" where
  "recover_leases K [] w s = (Inr w, s)"
| "recover_leases K (l # ls) w s = (case recover_lease K l w s of
      (Inl e, s) \<Rightarrow> (Inl e, s)
    | (Inr w, s) \<Rightarrow> recover_leases K ls w s)"

text \<open>The runs that still hold the bench after the first leg.\<close>

definition holders :: "lease list \<Rightarrow> string list" where
  "holders ls = List.map_filter (\<lambda>l. if ls_state l = ''active'' then run_of_holder (ls_holder l) else None) ls"

definition recover_row :: "'s coordinator \<Rightarrow> string list \<Rightarrow> string \<times> run_state_row \<Rightarrow> sweep \<Rightarrow> 's \<Rightarrow> sweep \<times> 's" where
  "recover_row K held entry w s = (case entry of (run, state) \<Rightarrow>
     if rs_state state = ''terminal'' \<or> run \<in> set (sw_recovered w) \<or> run \<in> set (sw_contained w) \<or> run \<in> set held then (w, s)
     else case get_run run (e_store (co_env K) s) of
         None \<Rightarrow> (w, s)
       | Some row \<Rightarrow>
           (if rn_tombstoned row then (w, s)
            else if rn_terminal row \<noteq> None then (recovered run w, s)
            else case recover_run K run row (wall_at K) w s of (None, s) \<Rightarrow> (w, s) | (Some w, s) \<Rightarrow> (w, s)))"

fun recover_rows :: "'s coordinator \<Rightarrow> string list \<Rightarrow> (string \<times> run_state_row) list \<Rightarrow> sweep \<Rightarrow> 's \<Rightarrow> sweep \<times> 's" where
  "recover_rows K held [] w s = (w, s)"
| "recover_rows K held (e # es) w s = (case recover_row K held e w s of (w, s) \<Rightarrow> recover_rows K held es w s)"

definition recover_interrupted :: "'s coordinator \<Rightarrow> memory \<Rightarrow> 's \<Rightarrow> (exn + sweep) \<times> 's" where
  "recover_interrupted K mem s =
     (let bench = d_bench (co_docs K) in
      case recover_leases K (list_leases bench (e_store (co_env K) s))
             \<lparr>sw_memory = mem, sw_recovered = [], sw_contained = []\<rparr> s of
        (Inl e, s) \<Rightarrow> (Inl e, s)
      | (Inr w, s) \<Rightarrow>
          (case recover_rows K (holders (list_leases bench (e_store (co_env K) s)))
              (list_run_states bench (e_store (co_env K) s)) w s of
             (w, s) \<Rightarrow> (Inr w, s)))"

section \<open>The sweep at a stop\<close>

text \<open>Every bench, by pages of a thousand.\<close>

function bench_pages :: "store \<Rightarrow> nat \<Rightarrow> string list" where
  "bench_pages st offset = (case list_benches 1000 (int offset) st of
     (items, rest) \<Rightarrow> map fst items @ (if rest then bench_pages st (offset + length items) else []))"
  by pat_completeness auto
termination
  by (relation "measure (\<lambda>(st, offset). length (t_benches (tabs st)) - offset)")
    (auto simp: list_benches_def page_def sql_limit_def sql_offset_def Let_def)

declare bench_pages.simps [simp del]

definition interrupt_row :: "'s coordinator \<Rightarrow> string \<Rightarrow> string \<times> run_state_row \<Rightarrow> memory \<times> string list \<Rightarrow> 's \<Rightarrow>
    (memory \<times> string list) \<times> 's" where
  "interrupt_row K now entry w s = (case (entry, w) of ((run, state), (mem, ended)) \<Rightarrow>
     if rs_state state \<noteq> ''accepted'' then (w, s)
     else case get_run run (e_store (co_env K) s) of
         None \<Rightarrow> (w, s)
       | Some row \<Rightarrow>
           (let d = recovery_record_version K (binding_of row) in
            if rn_tombstoned row \<or> rn_terminal row \<noteq> None \<or> dc_access d \<noteq> None \<or> dc_containment d \<noteq> None then (w, s)
            else case terminalize K run row d GatewayStop ''stopped'' now mem s of
                (Inl e, mem, s) \<Rightarrow> ((mem, ended), s)
              | (Inr _, mem, s) \<Rightarrow> ((mem, ended @ [run]), s)))"

fun interrupt_rows :: "'s coordinator \<Rightarrow> string \<Rightarrow> (string \<times> run_state_row) list \<Rightarrow> memory \<times> string list \<Rightarrow> 's \<Rightarrow>
    (memory \<times> string list) \<times> 's" where
  "interrupt_rows K now [] w s = (w, s)"
| "interrupt_rows K now (e # es) w s = (case interrupt_row K now e w s of (w, s) \<Rightarrow> interrupt_rows K now es w s)"

fun interrupt_benches :: "'s coordinator \<Rightarrow> string \<Rightarrow> string list \<Rightarrow> memory \<times> string list \<Rightarrow> 's \<Rightarrow> (memory \<times> string list) \<times> 's" where
  "interrupt_benches K now [] w s = (w, s)"
| "interrupt_benches K now (b # bs) w s =
     (case interrupt_rows K now (list_run_states b (e_store (co_env K) s)) w s of (w, s) \<Rightarrow> interrupt_benches K now bs w s)"

definition interrupt_queued_at_stop :: "'s coordinator \<Rightarrow> string \<Rightarrow> string list option \<Rightarrow> memory \<Rightarrow> 's \<Rightarrow>
    (memory \<times> string list) \<times> 's" where
  "interrupt_queued_at_stop K now benches mem s =
     interrupt_benches K now (case benches of None \<Rightarrow> bench_pages (e_store (co_env K) s) 0 | Some bs \<Rightarrow> bs) (mem, []) s"

section \<open>What one run's recovery does\<close>

abbreviation store_at :: "'s coordinator \<Rightarrow> 's \<Rightarrow> store" where
  "store_at K s \<equiv> e_store (co_env K) s"

definition interrupted_as :: "run_reason \<Rightarrow> terminal_record \<Rightarrow> bool" where
  "interrupted_as first r \<longleftrightarrow> tm_body r = ''interrupted'' \<and> tm_outcome r = ''interrupted'' \<and> tm_safe r = ''unknown'' \<and>
     (\<exists>rs. tm_reasons r = first # rs)"

lemma built_ending:
  assumes "build_terminal_record C sr v draft = Inr rec"
  shows "tm_body rec = tm_body draft \<and> tm_safe rec = tm_safe draft"
  using assms by (auto simp: build_terminal_record_def Let_def split: if_splits)

locale quiet_coordinator =
  fixes K :: "'s coordinator"
  assumes quiet: "quiet_site (co_env K)"
begin

lemma store_call: "on_store K h s = (v, s') \<Longrightarrow> h (store_at K s) = (v, store_at K s')"
  using quiet_site.get_set [OF quiet] by (auto simp: on_store_def split: prod.splits)

lemma store_wall: "wall_at K s = (t, s') \<Longrightarrow> store_at K s' = store_at K s"
  using quiet_site.wall_keeps [OF quiet, of s] by (auto simp: wall_at_def split: prod.splits)

lemma terminalize_effect:
  assumes "terminalize K run row d first verb ended mem s = (r, mem', s')"
  shows "(\<exists>e. r = Inl e \<and> mem' = mem \<and> store_at K s' = store_at K s) \<or>
    (\<exists>rec. r = Inr rec \<and> interrupted_as first rec \<and> mem' = rebuild_ledger run (store_at K s') mem \<and>
      finalize_run run (record_json (e_reason (co_env K)) rec) (store_at K s) = (Inr (), store_at K s'))"
proof (cases "pin_of K (dc_pin d)")
  case (Inr pin)
  define draft where "draft = \<lparr>tm_version = [], tm_run = run, tm_binding = pin, tm_who = rn_principal row, tm_started = rn_started row,
                tm_ended = ended, tm_body = ''interrupted'', tm_outcome = [], tm_safe = ''unknown'',
                tm_reasons = era_reasons K first verb d, tm_refs = recovery_evidence_refs K run pin s\<rparr>"
  show ?thesis
  proof (cases "build_terminal_record (co_corpus K) (e_reason (co_env K)) (dc_version d) draft")
    case built: (Inr rec)
    obtain v s2 where f: "on_store K (finalize_run run (record_json (e_reason (co_env K)) rec)) s = (v, s2)" by fastforce
    note call = store_call [OF f]
    have rec: "interrupted_as first rec"
      using built_record [OF built] built_ending [OF built]
      by (simp add: interrupted_as_def draft_def era_reasons_def terminal_outcome_def)
    have "terminalize K run row d first verb ended mem s = (case v of Inl e \<Rightarrow> (Inl e, mem, s2)
        | Inr _ \<Rightarrow> (Inr rec, rebuild_ledger run (store_at K s2) mem, s2))"
      by (simp add: terminalize_def Inr built [unfolded draft_def] f split: sum.split)
    with assms have run: "(case v of Inl e \<Rightarrow> (Inl e, mem, s2) | Inr _ \<Rightarrow> (Inr rec, rebuild_ledger run (store_at K s2) mem, s2)) = (r, mem', s')"
      by simp
    show ?thesis
    proof (cases v)
      case (Inl e)
      with call have "store_at K s2 = store_at K s" by (auto simp: finalize_run_eq autocommit_def split: sum.splits option.splits if_splits)
      with run Inl show ?thesis by auto
    qed (use run call rec in auto)
  next
    case (Inl e)
    then have "terminalize K run row d first verb ended mem s = (Inl e, mem, s)"
      by (simp add: terminalize_def \<open>pin_of K (dc_pin d) = Inr pin\<close> draft_def)
    with assms show ?thesis by auto
  qed
qed (use assms in \<open>auto simp: terminalize_def\<close>)

end

lemma finalize_run_frame:
  assumes "finalize_run run v st = (Inr (), st')"
  shows "\<exists>row. get_run run st = Some row \<and> \<not> rn_tombstoned row \<and>
    get_run run st' = Some (row\<lparr>rn_terminal := Some (sort_members v)\<rparr>) \<and> (\<forall>r. r \<noteq> run \<longrightarrow> get_run r st' = get_run r st) \<and>
    t_events (tabs st') = t_events (tabs st) \<and> t_leases (tabs st') = t_leases (tabs st) \<and>
    t_run_states (tabs st') = t_run_states (tabs st)"
  using assms
  by (auto simp: finalize_run_eq autocommit_ok get_run_def json_column_def update_conv' split: sum.splits option.splits if_splits)

section \<open>What a sweep changes\<close>

text \<open>A run the corpus defers; a ledger that answers for every recorded event of a run.\<close>

definition deferred :: "'s coordinator \<Rightarrow> string \<Rightarrow> store \<Rightarrow> bool" where
  "deferred K run st \<longleftrightarrow> (\<exists>row. get_run run st = Some row \<and> rn_terminal row = None \<and>
     dc_access (recovery_record_version K (binding_of row)) \<noteq> None)"

definition covers :: "string \<Rightarrow> store \<Rightarrow> memory \<Rightarrow> bool" where
  "covers run st mem \<longleftrightarrow> (\<forall>e \<in> set (read_events (''run:'' @ run) st). \<forall>oc. event_occurrence run e = Some oc \<longrightarrow>
     oc \<in> dom (my_ledger mem))"

text \<open>A row only changes by getting an interrupted record where it had none.\<close>

definition closed_row :: "'s coordinator \<Rightarrow> run_row \<Rightarrow> run_row \<Rightarrow> bool" where
  "closed_row K row row' \<longleftrightarrow> rn_terminal row = None \<and> \<not> rn_tombstoned row \<and>
     dc_access (recovery_record_version K (binding_of row)) = None \<and>
     dc_containment (recovery_record_version K (binding_of row)) = None \<and>
     (\<exists>rec. interrupted_as GatewayRestart rec \<and>
       row' = row\<lparr>rn_terminal := Some (sort_members (record_json (e_reason (co_env K)) rec))\<rparr>)"

definition swept :: "'s coordinator \<Rightarrow> store \<Rightarrow> store \<Rightarrow> bool" where
  "swept K st st' \<longleftrightarrow> t_events (tabs st') = t_events (tabs st) \<and> t_run_states (tabs st') = t_run_states (tabs st) \<and>
     (\<forall>run. get_run run st' = get_run run st \<or>
       (\<exists>row row'. get_run run st = Some row \<and> get_run run st' = Some row' \<and> closed_row K row row'))"

definition progress :: "'s coordinator \<Rightarrow> store \<Rightarrow> sweep \<Rightarrow> store \<Rightarrow> sweep \<Rightarrow> bool" where
  "progress K st w st' w' \<longleftrightarrow> swept K st st' \<and>
     set (sw_recovered w) \<subseteq> set (sw_recovered w') \<and> set (sw_contained w) \<subseteq> set (sw_contained w') \<and>
     dom (my_ledger (sw_memory w)) \<subseteq> dom (my_ledger (sw_memory w')) \<and>
     (\<forall>run. get_run run st' \<noteq> get_run run st \<longrightarrow> run \<in> set (sw_recovered w') \<and> covers run st' (sw_memory w')) \<and>
     (\<forall>run \<in> set (sw_recovered w'). run \<in> set (sw_recovered w) \<or> (\<exists>row. get_run run st' = Some row \<and> rn_terminal row \<noteq> None)) \<and>
     (\<forall>run \<in> set (sw_contained w'). run \<in> set (sw_contained w) \<or> (\<exists>row. get_run run st = Some row \<and> rn_terminal row = None))"

lemma swept_refl [simp]: "swept K st st"
  by (simp add: swept_def)

lemma sweptE:
  assumes "swept K st st'"
  obtains "get_run run st' = get_run run st"
    | row row' where "get_run run st = Some row" "get_run run st' = Some row'" "closed_row K row row'"
  using assms unfolding swept_def by blast

lemma swept_row:
  assumes "swept K st st'"
  shows "(get_run run st' = None) = (get_run run st = None)"
    and "get_run run st' = Some row' \<Longrightarrow> rn_terminal row' = None \<Longrightarrow> get_run run st = Some row'"
    and "get_run run st = Some row \<Longrightarrow> rn_terminal row \<noteq> None \<Longrightarrow> get_run run st' = Some row"
  using assms by (cases rule: sweptE [where run = run]; auto simp: closed_row_def)+

lemma swept_trans:
  assumes "swept K a b" "swept K b c"
  shows "swept K a c"
proof -
  have "get_run run c = get_run run a \<or> (\<exists>row row'. get_run run a = Some row \<and> get_run run c = Some row' \<and> closed_row K row row')" for run
    using assms(1)
  proof (cases rule: sweptE [where run = run])
    case 1
    from assms(2) show ?thesis by (cases rule: sweptE [where run = run]) (auto simp: 1)
  next
    case (2 row row')
    then have "rn_terminal row' \<noteq> None" by (auto simp: closed_row_def)
    with swept_row(3) [OF assms(2) 2(2)] 2 show ?thesis by auto
  qed
  with assms show ?thesis by (simp add: swept_def)
qed

lemma swept_deferred:
  assumes "swept K st st'"
  shows "deferred K run st \<longleftrightarrow> deferred K run st'"
  using assms by (cases rule: sweptE [where run = run]) (auto simp: deferred_def closed_row_def)

lemma covers_mono:
  assumes "covers run st mem" "t_events (tabs st') = t_events (tabs st)" "dom (my_ledger mem) \<subseteq> dom (my_ledger mem')"
  shows "covers run st' mem'"
proof -
  have events: "read_events (''run:'' @ run) st' = read_events (''run:'' @ run) st"
    by (simp add: read_events_def stream_rows_def assms(2))
  from assms(1) show ?thesis
    unfolding covers_def events using subsetD [OF assms(3)] by fast
qed

lemma progress_refl [simp]: "progress K st w st w"
  by (simp add: progress_def)

lemma progress_trans:
  assumes "progress K a u b v" "progress K b v c w"
  shows "progress K a u c w"
proof -
  have s: "swept K a b" "swept K b c" using assms by (simp_all add: progress_def)
  have "run \<in> set (sw_recovered w) \<and> covers run c (sw_memory w)" if ch: "get_run run c \<noteq> get_run run a" for run
  proof (cases "get_run run c = get_run run b")
    case True
    with ch assms(1) have "run \<in> set (sw_recovered v)" and cov: "covers run b (sw_memory v)" by (simp_all add: progress_def)
    moreover have "t_events (tabs c) = t_events (tabs b)" using s(2) by (simp add: swept_def)
    ultimately show ?thesis
      using assms(2) covers_mono [OF cov] unfolding progress_def by blast
  qed (use assms(2) in \<open>auto simp: progress_def\<close>)
  moreover have "run \<in> set (sw_recovered u) \<or> (\<exists>row. get_run run c = Some row \<and> rn_terminal row \<noteq> None)"
    if "run \<in> set (sw_recovered w)" for run
    using assms that swept_row(3) [OF s(2)] unfolding progress_def by blast
  moreover have "run \<in> set (sw_contained u) \<or> (\<exists>row. get_run run a = Some row \<and> rn_terminal row = None)"
    if "run \<in> set (sw_contained w)" for run
    using assms that swept_row(2) [OF s(1)] unfolding progress_def by blast
  moreover have "set (sw_recovered u) \<subseteq> set (sw_recovered w)" "set (sw_contained u) \<subseteq> set (sw_contained w)"
    "dom (my_ledger (sw_memory u)) \<subseteq> dom (my_ledger (sw_memory w))"
    using assms unfolding progress_def by blast+
  ultimately show ?thesis
    using swept_trans [OF s] unfolding progress_def by blast
qed

section \<open>One run, one lease\<close>

lemma rebuild_grows: "dom (my_ledger mem) \<subseteq> dom (my_ledger (rebuild_ledger run st mem))"
  using remember_keeps [of mem _ run "read_events (''run:'' @ run) st"] unfolding rebuild_ledger_def dom_def by fastforce

context quiet_coordinator
begin

lemma recover_run_effect:
  assumes run: "recover_run K run row clock w s = (wo, s')" and row: "get_run run (store_at K s) = Some row" "rn_terminal row = None"
    and clock: "\<And>t b. clock s = (t, b) \<Longrightarrow> store_at K b = store_at K s"
  shows "t_leases (tabs (store_at K s')) = t_leases (tabs (store_at K s)) \<and>
    (case wo of None \<Rightarrow> deferred K run (store_at K s) \<and> store_at K s' = store_at K s
     | Some w' \<Rightarrow> progress K (store_at K s) w (store_at K s') w')"
proof -
  define d where "d = recovery_record_version K (binding_of row)"
  consider "dc_access d \<noteq> None" | "dc_access d = None" "dc_containment d \<noteq> None" | "dc_access d = None" "dc_containment d = None" by blast
  then show ?thesis
  proof cases
    case 1
    with run row show ?thesis by (auto simp: recover_run_def d_def [symmetric] Let_def deferred_def)
  next
    case 2
    with run row show ?thesis by (auto simp: recover_run_def d_def [symmetric] Let_def progress_def contained_def)
  next
    case 3
    obtain ended s1 where c: "clock s = (ended, s1)" by fastforce
    note same = clock [OF c]
    obtain r mem s2 where t: "terminalize K run row d GatewayRestart ''recovered'' ended (sw_memory w) s1 = (r, mem, s2)"
      by (metis prod.exhaust)
    have out: "wo = Some (case r of Inl e \<Rightarrow> contained run (w\<lparr>sw_memory := mem\<rparr>) | Inr _ \<Rightarrow> recovered run (w\<lparr>sw_memory := mem\<rparr>))" "s' = s2"
      using run 3 c t by (auto simp: recover_run_def d_def [symmetric] Let_def split: sum.splits)
    from terminalize_effect [OF t] show ?thesis
    proof (elim disjE exE conjE)
      fix e assume "r = Inl e" "mem = sw_memory w" "store_at K s2 = store_at K s1"
      with out row same show ?thesis by (auto simp: progress_def contained_def)
    next
      fix rec assume r: "r = Inr rec" "interrupted_as GatewayRestart rec" "mem = rebuild_ledger run (store_at K s2) (sw_memory w)"
        and f: "finalize_run run (record_json (e_reason (co_env K)) rec) (store_at K s1) = (Inr (), store_at K s2)"
      from finalize_run_frame [OF f] obtain row1 where row1: "get_run run (store_at K s1) = Some row1" "\<not> rn_tombstoned row1"
          "get_run run (store_at K s2) = Some (row1\<lparr>rn_terminal := Some (sort_members (record_json (e_reason (co_env K)) rec))\<rparr>)"
        and others: "\<forall>r. r \<noteq> run \<longrightarrow> get_run r (store_at K s2) = get_run r (store_at K s1)"
        and frame: "t_events (tabs (store_at K s2)) = t_events (tabs (store_at K s1))" "t_leases (tabs (store_at K s2)) = t_leases (tabs (store_at K s1))"
          "t_run_states (tabs (store_at K s2)) = t_run_states (tabs (store_at K s1))"
        by (elim exE conjE) (rule that)
      from row1(1) row same have "row1 = row" by simp
      with row1 row 3 r(2) have closed: "closed_row K row (row\<lparr>rn_terminal := Some (sort_members (record_json (e_reason (co_env K)) rec))\<rparr>)"
        by (auto simp: closed_row_def d_def)
      have "swept K (store_at K s) (store_at K s2)"
        unfolding swept_def
      proof (intro conjI allI)
        fix r
        show "get_run r (store_at K s2) = get_run r (store_at K s) \<or>
          (\<exists>row row'. get_run r (store_at K s) = Some row \<and> get_run r (store_at K s2) = Some row' \<and> closed_row K row row')"
          using closed row row1 \<open>row1 = row\<close> others same by (cases "r = run") auto
      qed (simp_all add: frame same)
      moreover have "covers run (store_at K s2) mem" using rebuilt r(3) by (auto simp: covers_def)
      moreover have "x = run" if "get_run x (store_at K s2) \<noteq> get_run x (store_at K s)" for x
        using that others same by metis
      ultimately have "progress K (store_at K s) w (store_at K s2) (recovered run (w\<lparr>sw_memory := mem\<rparr>))"
        using rebuild_grows [of "sw_memory w" run "store_at K s2"] row1(3) r(3) unfolding progress_def recovered_def by auto
      with out r(1) frame same show ?thesis by simp
    qed
  qed
qed

end

section \<open>The leg over the leases\<close>

lemma hits_left:
  "(\<And>x. \<not> act (f x)) \<Longrightarrow> x \<in> set (map (\<lambda>x. if act x \<and> P x then f x else x) xs) \<and> act x \<longleftrightarrow> x \<in> set xs \<and> act x \<and> \<not> P x"
  by (auto split: if_splits)

lemma release_lease_hit:
  assumes gap: "gap_free (lease_seqs (tabs st) bench)" and l: "l \<in> set (t_leases (tabs st))" "ls_bench l = bench" "ls_state l = ''active''"
    and r: "release_lease bench (ls_seq l) now st = (r, st')"
  shows "r = Inr () \<and> t_runs (tabs st') = t_runs (tabs st) \<and> t_events (tabs st') = t_events (tabs st) \<and>
    t_run_states (tabs st') = t_run_states (tabs st) \<and> lease_seqs (tabs st') bench = lease_seqs (tabs st) bench \<and>
    (\<forall>l'. l' \<in> set (t_leases (tabs st')) \<and> ls_bench l' = bench \<and> ls_state l' = ''active'' \<longleftrightarrow>
      l' \<in> set (t_leases (tabs st)) \<and> ls_bench l' = bench \<and> ls_state l' = ''active'' \<and> ls_seq l' \<noteq> ls_seq l) \<and>
    (\<forall>l'. l' \<in> set (t_leases (tabs st)) \<longrightarrow> ls_seq l' \<noteq> ls_seq l \<longrightarrow> l' \<in> set (t_leases (tabs st')))"
proof -
  let ?hit = "\<lambda>l'. ls_bench l' = bench \<and> ls_seq l' = ls_seq l \<and> ls_state l' = ''active''"
  let ?close = "\<lambda>l'. if ?hit l' then l'\<lparr>ls_state := ''released'', ls_expires := now\<rparr> else l'"
  have "distinct (map ls_seq (filter (\<lambda>l. ls_bench l = bench) (t_leases (tabs st))))"
    using gap by (metis gap_free_def lease_seqs_def distinct_upt)
  then have "length (filter ?hit (t_leases (tabs st))) \<le> 1" by (rule at_most_one_hit)
  moreover have "filter ?hit (t_leases (tabs st)) \<noteq> []" using l by (auto simp: filter_empty_conv)
  ultimately have "length (filter ?hit (t_leases (tabs st))) = 1" by (cases "filter ?hit (t_leases (tabs st))") auto
  with r have st': "r = Inr ()" "st' = st\<lparr>tabs := (tabs st)\<lparr>t_leases := map ?close (t_leases (tabs st))\<rparr>\<rparr>"
    by (simp_all add: release_lease_def close_lease_def autocommit_def Let_def)
  define ls where "ls = t_leases (tabs st)"
  have seqs: "map ls_seq (filter (\<lambda>l. ls_bench l = bench) (map ?close ls)) = map ls_seq (filter (\<lambda>l. ls_bench l = bench) ls)"
    by (induction ls) auto
  have close: "?close = (\<lambda>x. if (ls_bench x = bench \<and> ls_state x = ''active'') \<and> ls_seq x = ls_seq l
      then x\<lparr>ls_state := ''released'', ls_expires := now\<rparr> else x)"
    by (rule ext) (simp add: conj_ac)
  have mem: "x \<in> set (map ?close xs) \<and> ls_bench x = bench \<and> ls_state x = ''active'' \<longleftrightarrow>
      x \<in> set xs \<and> ls_bench x = bench \<and> ls_state x = ''active'' \<and> ls_seq x \<noteq> ls_seq l" for x xs
    unfolding close by (subst hits_left) auto
  have kept: "x \<in> set xs \<longrightarrow> ls_seq x \<noteq> ls_seq l \<longrightarrow> x \<in> set (map ?close xs)" for x xs
    by (auto simp: image_iff intro: bexI [of _ x])
  have leases: "t_leases (tabs st') = map ?close ls" "t_runs (tabs st') = t_runs (tabs st)" "t_events (tabs st') = t_events (tabs st)"
    "t_run_states (tabs st') = t_run_states (tabs st)"
    by (simp_all add: st'(2) ls_def)
  show ?thesis
    unfolding lease_seqs_def leases ls_def [symmetric] by (intro conjI allI st'(1) seqs mem kept refl)
qed

lemma progress_frame:
  "t_runs (tabs st') = t_runs (tabs st) \<Longrightarrow> t_events (tabs st') = t_events (tabs st) \<Longrightarrow> t_run_states (tabs st') = t_run_states (tabs st) \<Longrightarrow>
    progress K st w st' w"
  by (simp add: progress_def swept_def get_run_def)

context quiet_coordinator
begin

lemma free_lease_effect:
  assumes gap: "gap_free (lease_seqs (tabs (store_at K s)) (d_bench (co_docs K)))"
    and l: "l \<in> set (t_leases (tabs (store_at K s)))" "ls_bench l = d_bench (co_docs K)" "ls_state l = ''active''"
  shows "\<exists>s'. free_lease K (ls_seq l) now w s = (Inr w, s') \<and> progress K (store_at K s) w (store_at K s') w \<and>
    lease_seqs (tabs (store_at K s')) (d_bench (co_docs K)) = lease_seqs (tabs (store_at K s)) (d_bench (co_docs K)) \<and>
    (\<forall>l'. l' \<in> set (t_leases (tabs (store_at K s'))) \<and> ls_bench l' = d_bench (co_docs K) \<and> ls_state l' = ''active'' \<longleftrightarrow>
      l' \<in> set (t_leases (tabs (store_at K s))) \<and> ls_bench l' = d_bench (co_docs K) \<and> ls_state l' = ''active'' \<and> ls_seq l' \<noteq> ls_seq l) \<and>
    (\<forall>l'. l' \<in> set (t_leases (tabs (store_at K s))) \<longrightarrow> ls_seq l' \<noteq> ls_seq l \<longrightarrow> l' \<in> set (t_leases (tabs (store_at K s'))))"
proof -
  obtain r s' where r: "on_store K (release_lease (d_bench (co_docs K)) (ls_seq l) now) s = (r, s')" by fastforce
  note hit = release_lease_hit [OF gap l store_call [OF r]]
  then have "free_lease K (ls_seq l) now w s = (Inr w, s')" by (simp add: free_lease_def r)
  with hit show ?thesis by (intro exI [of _ s'] conjI progress_frame) (blast, simp_all)
qed

lemma recover_lease_effect:
  assumes gap: "gap_free (lease_seqs (tabs (store_at K s)) (d_bench (co_docs K)))"
    and l: "l \<in> set (t_leases (tabs (store_at K s)))" "ls_bench l = d_bench (co_docs K)"
  shows "\<exists>w' s'. recover_lease K l w s = (Inr w', s') \<and> progress K (store_at K s) w (store_at K s') w' \<and>
    lease_seqs (tabs (store_at K s')) (d_bench (co_docs K)) = lease_seqs (tabs (store_at K s)) (d_bench (co_docs K)) \<and>
    (\<forall>l' \<in> set (t_leases (tabs (store_at K s))). ls_seq l' \<noteq> ls_seq l \<longrightarrow> l' \<in> set (t_leases (tabs (store_at K s')))) \<and>
    (\<forall>l'. l' \<in> set (t_leases (tabs (store_at K s'))) \<and> ls_bench l' = d_bench (co_docs K) \<and> ls_state l' = ''active'' \<longrightarrow>
      l' \<in> set (t_leases (tabs (store_at K s))) \<and>
      (\<forall>run. l' = l \<longrightarrow> run_of_holder (ls_holder l) = Some run \<longrightarrow> deferred K run (store_at K s')))"
proof (cases "if ls_state l = ''active'' then run_of_holder (ls_holder l) else None")
  case None
  then show ?thesis by (intro exI [of _ w] exI [of _ s]) (auto simp: recover_lease_def split: if_splits)
next
  case (Some run)
  then have act: "ls_state l = ''active''" and run: "run_of_holder (ls_holder l) = Some run" by (auto split: if_splits)
  obtain now s1 where n: "wall_at K s = (now, s1)" by fastforce
  note same = store_wall [OF n]
  have freed: ?thesis if w1: "progress K (store_at K s) w (store_at K s2) w1" "t_leases (tabs (store_at K s2)) = t_leases (tabs (store_at K s))"
    and step: "recover_lease K l w s = free_lease K (ls_seq l) now w1 s2" for w1 s2
  proof -
    have "gap_free (lease_seqs (tabs (store_at K s2)) (d_bench (co_docs K)))" "l \<in> set (t_leases (tabs (store_at K s2)))"
      using gap l w1(2) by (simp_all add: lease_seqs_def)
    from free_lease_effect [OF this l(2) act, of now w1] obtain s3 where f: "free_lease K (ls_seq l) now w1 s2 = (Inr w1, s3)"
        "progress K (store_at K s2) w1 (store_at K s3) w1"
        "lease_seqs (tabs (store_at K s3)) (d_bench (co_docs K)) = lease_seqs (tabs (store_at K s2)) (d_bench (co_docs K))"
      and act': "\<forall>l'. l' \<in> set (t_leases (tabs (store_at K s3))) \<and> ls_bench l' = d_bench (co_docs K) \<and> ls_state l' = ''active'' \<longleftrightarrow>
          l' \<in> set (t_leases (tabs (store_at K s2))) \<and> ls_bench l' = d_bench (co_docs K) \<and> ls_state l' = ''active'' \<and> ls_seq l' \<noteq> ls_seq l"
      and kept: "\<forall>l'. l' \<in> set (t_leases (tabs (store_at K s2))) \<longrightarrow> ls_seq l' \<noteq> ls_seq l \<longrightarrow> l' \<in> set (t_leases (tabs (store_at K s3)))"
      by (elim exE conjE) (rule that)
    from f(3) have "lease_seqs (tabs (store_at K s3)) (d_bench (co_docs K)) = lease_seqs (tabs (store_at K s)) (d_bench (co_docs K))"
      using w1(2) by (simp add: lease_seqs_def)
    then show ?thesis
      by (intro exI [of _ w1] exI [of _ s3] conjI) (simp_all add: step f(1) progress_trans [OF w1(1) f(2)] act' kept w1(2))
  qed
  show ?thesis
  proof (cases "get_run run (store_at K s)")
    case None
    show ?thesis by (rule freed [of s1 w]) (simp_all add: same recover_lease_def run act n None)
  next
    case found: (Some row)
    show ?thesis
    proof (cases "rn_terminal row")
      case (Some j)
      show ?thesis by (rule freed [of s1 w]) (simp_all add: same recover_lease_def run act n found Some)
    next
      case None
      obtain wo s2 where r: "recover_run K run row (\<lambda>s. (now, s)) w s1 = (wo, s2)" by fastforce
      have eff: "t_leases (tabs (store_at K s2)) = t_leases (tabs (store_at K s1)) \<and>
        (case wo of None \<Rightarrow> deferred K run (store_at K s1) \<and> store_at K s2 = store_at K s1
         | Some w' \<Rightarrow> progress K (store_at K s1) w (store_at K s2) w')"
        by (rule recover_run_effect [OF r]) (simp_all add: same found None)
      show ?thesis
      proof (cases wo)
        case (Some w1)
        show ?thesis
          by (rule freed [of s2 w1]) (use eff same in \<open>simp_all add: recover_lease_def run act n found None r Some\<close>)
      next
        case wo: None
        have "recover_lease K l w s = (Inr w, s2)" by (simp add: recover_lease_def run act n found None r wo)
        with eff wo same run show ?thesis by (intro exI [of _ w] exI [of _ s2]) auto
      qed
    qed
  qed
qed

lemma recover_leases_effect:
  assumes "gap_free (lease_seqs (tabs (store_at K s)) (d_bench (co_docs K)))" and "set ls \<subseteq> set (t_leases (tabs (store_at K s)))"
    and "\<forall>l \<in> set ls. ls_bench l = d_bench (co_docs K)" and "distinct (map ls_seq ls)"
  shows "\<exists>w' s'. recover_leases K ls w s = (Inr w', s') \<and> progress K (store_at K s) w (store_at K s') w' \<and>
    (\<forall>l'. l' \<in> set (t_leases (tabs (store_at K s'))) \<and> ls_bench l' = d_bench (co_docs K) \<and> ls_state l' = ''active'' \<longrightarrow>
      l' \<in> set (t_leases (tabs (store_at K s))) \<and>
      (\<forall>run. l' \<in> set ls \<longrightarrow> run_of_holder (ls_holder l') = Some run \<longrightarrow> deferred K run (store_at K s')))"
  using assms
proof (induction ls arbitrary: w s)
  case (Cons l ls)
  have "l \<in> set (t_leases (tabs (store_at K s)))" "ls_bench l = d_bench (co_docs K)" using Cons.prems(2,3) by auto
  from recover_lease_effect [OF Cons.prems(1) this, of w] obtain w1 s1 where one: "recover_lease K l w s = (Inr w1, s1)"
      "progress K (store_at K s) w (store_at K s1) w1"
      "lease_seqs (tabs (store_at K s1)) (d_bench (co_docs K)) = lease_seqs (tabs (store_at K s)) (d_bench (co_docs K))"
      "\<forall>l' \<in> set (t_leases (tabs (store_at K s))). ls_seq l' \<noteq> ls_seq l \<longrightarrow> l' \<in> set (t_leases (tabs (store_at K s1)))"
    and act1: "\<forall>l'. l' \<in> set (t_leases (tabs (store_at K s1))) \<and> ls_bench l' = d_bench (co_docs K) \<and> ls_state l' = ''active'' \<longrightarrow>
      l' \<in> set (t_leases (tabs (store_at K s))) \<and>
      (\<forall>run. l' = l \<longrightarrow> run_of_holder (ls_holder l) = Some run \<longrightarrow> deferred K run (store_at K s1))"
    by (elim exE conjE) (rule that)
  have sub: "set ls \<subseteq> set (t_leases (tabs (store_at K s1)))" using Cons.prems(2,4) one(4) by (force simp: image_iff)
  have gap: "gap_free (lease_seqs (tabs (store_at K s1)) (d_bench (co_docs K)))" using Cons.prems(1) one(3) by simp
  have rest: "\<forall>l \<in> set ls. ls_bench l = d_bench (co_docs K)" "distinct (map ls_seq ls)" using Cons.prems(3,4) by simp_all
  from Cons.IH [OF gap sub rest, of w1] obtain w2 s2 where two: "recover_leases K ls w1 s1 = (Inr w2, s2)" "progress K (store_at K s1) w1 (store_at K s2) w2"
    and act2: "\<forall>l'. l' \<in> set (t_leases (tabs (store_at K s2))) \<and> ls_bench l' = d_bench (co_docs K) \<and> ls_state l' = ''active'' \<longrightarrow>
      l' \<in> set (t_leases (tabs (store_at K s1))) \<and>
      (\<forall>run. l' \<in> set ls \<longrightarrow> run_of_holder (ls_holder l') = Some run \<longrightarrow> deferred K run (store_at K s2))"
    by (elim exE conjE) (rule that)
  have same: "deferred K run (store_at K s1) \<longleftrightarrow> deferred K run (store_at K s2)" for run
    by (rule swept_deferred) (use two(2) in \<open>simp add: progress_def\<close>)
  show ?case
  proof (intro exI [of _ w2] exI [of _ s2] conjI allI impI)
    show "recover_leases K (l # ls) w s = (Inr w2, s2)" using one(1) two(1) by simp
    show "progress K (store_at K s) w (store_at K s2) w2" using progress_trans [OF one(2) two(2)] .
    fix l' assume l': "l' \<in> set (t_leases (tabs (store_at K s2))) \<and> ls_bench l' = d_bench (co_docs K) \<and> ls_state l' = ''active''"
    with act2 have s1: "l' \<in> set (t_leases (tabs (store_at K s1)))" by blast
    with act1 l' show "l' \<in> set (t_leases (tabs (store_at K s)))" by blast
    fix run assume "l' \<in> set (l # ls)" "run_of_holder (ls_holder l') = Some run"
    with act1 act2 l' s1 same show "deferred K run (store_at K s2)" by auto
  qed
qed auto

lemma recover_row_effect:
  assumes "recover_row K held e w s = (w', s')"
  shows "progress K (store_at K s) w (store_at K s') w' \<and> t_leases (tabs (store_at K s')) = t_leases (tabs (store_at K s))"
proof (cases e)
  case (Pair run state)
  show ?thesis
  proof (cases "rs_state state = ''terminal'' \<or> run \<in> set (sw_recovered w) \<or> run \<in> set (sw_contained w) \<or> run \<in> set held")
    case True
    with assms Pair show ?thesis by (simp add: recover_row_def)
  next
    case live: False
    consider "get_run run (store_at K s) = None \<or> (\<exists>row. get_run run (store_at K s) = Some row \<and> rn_tombstoned row)"
      | row where "get_run run (store_at K s) = Some row" "\<not> rn_tombstoned row" "rn_terminal row \<noteq> None"
      | row where "get_run run (store_at K s) = Some row" "\<not> rn_tombstoned row" "rn_terminal row = None"
      by (cases "get_run run (store_at K s)") auto
    then show ?thesis
    proof cases
      case 1
      with assms Pair live show ?thesis by (auto simp: recover_row_def)
    next
      case 2
      with assms Pair live have "w' = recovered run w" "s' = s" by (simp_all add: recover_row_def)
      with 2 show ?thesis by (auto simp: progress_def recovered_def)
    next
      case 3
      obtain wo s2 where r: "recover_run K run row (wall_at K) w s = (wo, s2)" by fastforce
      from assms Pair live 3 r have "w' = (case wo of None \<Rightarrow> w | Some v \<Rightarrow> v)" "s' = s2"
        by (auto simp: recover_row_def split: option.splits)
      with recover_run_effect [OF r 3(1,3) store_wall] show ?thesis by (cases wo) simp_all
    qed
  qed
qed

lemma recover_rows_effect:
  "recover_rows K held es w s = (w', s') \<Longrightarrow>
    progress K (store_at K s) w (store_at K s') w' \<and> t_leases (tabs (store_at K s')) = t_leases (tabs (store_at K s))"
proof (induction es arbitrary: w s)
  case (Cons e es)
  obtain w1 s1 where r: "recover_row K held e w s = (w1, s1)" by fastforce
  from recover_row_effect [OF r] Cons.IH [of w1 s1] Cons.prems r show ?case
    by (auto intro: progress_trans)
qed simp

lemma recover_interrupted_effect:
  assumes reach: "store_steps empty_store (store_at K s)"
  shows "\<exists>w s'. recover_interrupted K mem s = (Inr w, s') \<and>
    progress K (store_at K s) \<lparr>sw_memory = mem, sw_recovered = [], sw_contained = []\<rparr> (store_at K s') w \<and>
    (\<forall>run \<in> set (holders (list_leases (d_bench (co_docs K)) (store_at K s'))). deferred K run (store_at K s'))"
proof -
  let ?b = "d_bench (co_docs K)" and ?w = "\<lparr>sw_memory = mem, sw_recovered = [], sw_contained = []\<rparr>"
  let ?ls = "list_leases ?b (store_at K s)"
  have gap: "gap_free (lease_seqs (tabs (store_at K s)) ?b)" by (rule reachable_leases [OF reach])
  have members: "l \<in> set (list_leases ?b st) \<longleftrightarrow> l \<in> set (t_leases (tabs st)) \<and> ls_bench l = ?b" for l st
    by (auto simp: list_leases_def)
  have "distinct (map ls_seq (filter (\<lambda>l. ls_bench l = ?b) (t_leases (tabs (store_at K s)))))"
    using gap by (metis gap_free_def lease_seqs_def distinct_upt)
  then have dist: "distinct (map ls_seq ?ls)" by (simp add: distinct_map list_leases_def)
  have sub: "set ?ls \<subseteq> set (t_leases (tabs (store_at K s)))" and benches: "\<forall>l \<in> set ?ls. ls_bench l = ?b"
    by (auto simp: members)
  from recover_leases_effect [OF gap sub benches dist, of ?w] obtain w1 s1 where one: "recover_leases K ?ls ?w s = (Inr w1, s1)" "progress K (store_at K s) ?w (store_at K s1) w1"
    and act: "\<forall>l'. l' \<in> set (t_leases (tabs (store_at K s1))) \<and> ls_bench l' = ?b \<and> ls_state l' = ''active'' \<longrightarrow>
      l' \<in> set (t_leases (tabs (store_at K s))) \<and>
      (\<forall>run. l' \<in> set ?ls \<longrightarrow> run_of_holder (ls_holder l') = Some run \<longrightarrow> deferred K run (store_at K s1))"
    by (elim exE conjE) (rule that)
  obtain w2 s2 where two: "recover_rows K (holders (list_leases ?b (store_at K s1))) (list_run_states ?b (store_at K s1)) w1 s1 = (w2, s2)"
    by fastforce
  note rows = recover_rows_effect [OF two]
  have "deferred K run (store_at K s2)" if "run \<in> set (holders (list_leases ?b (store_at K s2)))" for run
  proof -
    from that obtain l where l: "l \<in> set (t_leases (tabs (store_at K s1)))" "ls_bench l = ?b" "ls_state l = ''active''"
        "run_of_holder (ls_holder l) = Some run"
      using rows by (auto simp: holders_def List.map_filter_def members split: if_splits)
    with act have "deferred K run (store_at K s1)" by (auto simp: members)
    moreover have "swept K (store_at K s1) (store_at K s2)" using rows by (simp add: progress_def)
    ultimately show ?thesis using swept_deferred by blast
  qed
  moreover have "recover_interrupted K mem s = (Inr w2, s2)" by (simp add: recover_interrupted_def Let_def one(1) two)
  ultimately show ?thesis using progress_trans [OF one(2)] rows by blast
qed

end

section \<open>What a sweep promises\<close>

text \<open>
  Claim C20. Recovery never dies at a start, and leaves no bench held without a reason: on a quiet site and over
  any store that calls and crashes can leave, \<open>recover_interrupted\<close> returns, and a run that still holds the bench
  afterwards is one whose record cannot be built because the corpus could not be read.
\<close>

theorem recovery_completes:
  assumes "quiet_site (co_env K)" and "store_steps empty_store (store_at K s)"
  shows "\<exists>w s'. recover_interrupted K mem s = (Inr w, s') \<and>
    list_all (\<lambda>run. deferred K run (store_at K s')) (holders (list_leases (d_bench (co_docs K)) (store_at K s')))"
  using quiet_coordinator.recover_interrupted_effect [OF quiet_coordinator.intro [OF assms(1)] assms(2)]
  unfolding list_all_iff by blast

text \<open>
  Claim C21. Recovery invents nothing: the only thing it writes into a run's row is an interrupted record with
  unknown safe state, where there was no record, and it reports exactly those runs together with the ones that had
  ended before; a run it contains had no record. Events and projections stay as they were.
\<close>

theorem recovery_only_interrupts:
  assumes "quiet_site (co_env K)" and "store_steps empty_store (store_at K s)"
    and "recover_interrupted K mem s = (Inr w, s')"
  shows "t_events (tabs (store_at K s')) = t_events (tabs (store_at K s)) \<and>
    t_run_states (tabs (store_at K s')) = t_run_states (tabs (store_at K s)) \<and>
    (\<forall>run. get_run run (store_at K s') = get_run run (store_at K s) \<or>
      run \<in> set (sw_recovered w) \<and> (\<exists>row rec. get_run run (store_at K s) = Some row \<and> rn_terminal row = None \<and>
        interrupted_as GatewayRestart rec \<and>
        get_run run (store_at K s') = Some (row\<lparr>rn_terminal := Some (sort_members (record_json (e_reason (co_env K)) rec))\<rparr>))) \<and>
    (\<forall>run \<in> set (sw_recovered w). \<exists>row. get_run run (store_at K s') = Some row \<and> rn_terminal row \<noteq> None) \<and>
    (\<forall>run \<in> set (sw_contained w). \<exists>row. get_run run (store_at K s) = Some row \<and> rn_terminal row = None)"
proof -
  have p: "progress K (store_at K s) \<lparr>sw_memory = mem, sw_recovered = [], sw_contained = []\<rparr> (store_at K s') w"
    using quiet_coordinator.recover_interrupted_effect [OF quiet_coordinator.intro [OF assms(1)] assms(2), of mem] assms(3) by auto
  then have s: "swept K (store_at K s) (store_at K s')" by (simp add: progress_def)
  have "get_run run (store_at K s') = get_run run (store_at K s) \<or>
      run \<in> set (sw_recovered w) \<and> (\<exists>row rec. get_run run (store_at K s) = Some row \<and> rn_terminal row = None \<and>
        interrupted_as GatewayRestart rec \<and>
        get_run run (store_at K s') = Some (row\<lparr>rn_terminal := Some (sort_members (record_json (e_reason (co_env K)) rec))\<rparr>))" for run
    using s
  proof (cases rule: sweptE [where run = run])
    case (2 row row')
    then have "rn_terminal row' \<noteq> None" "rn_terminal row = None" by (auto simp: closed_row_def)
    with 2(1,2) have "get_run run (store_at K s') \<noteq> get_run run (store_at K s)" by auto
    with p have "run \<in> set (sw_recovered w)" by (simp add: progress_def)
    with 2 show ?thesis by (auto simp: closed_row_def)
  qed simp
  moreover have "\<exists>row. get_run run (store_at K s') = Some row \<and> rn_terminal row \<noteq> None" if "run \<in> set (sw_recovered w)" for run
    using p that by (auto simp: progress_def)
  moreover have "\<exists>row. get_run run (store_at K s) = Some row \<and> rn_terminal row = None" if "run \<in> set (sw_contained w)" for run
    using p that by (auto simp: progress_def)
  ultimately show ?thesis using s unfolding swept_def by blast
qed

text \<open>
  Claim C22. An interrupted run never repeats recorded work: when a sweep has closed a run, executing any body
  under that run's id with the ledger the sweep left dispatches only authorised operations of occurrences that the
  run's durable event stream does not name.
\<close>

theorem recovered_run_repeats_nothing:
  assumes "quiet_site (co_env K)" and "store_steps empty_store (store_at K s)"
    and "recover_interrupted K mem s = (Inr w, s')" and "get_run run (store_at K s') \<noteq> get_run run (store_at K s)"
  shows "list_all (\<lambda>d. \<exists>i path. authorised C dl (run, i, path) d \<and>
      (\<forall>e \<in> set (read_events (''run:'' @ run) (store_at K s')). event_occurrence run e \<noteq> Some (run, i, path)))
    (dispatches (snd (run_body (recorded W) C steps run dl (start_exec (sw_memory w) (v, [])))))"
proof -
  let ?x = "start_exec (sw_memory w) (v, [] :: dispatch_record list)"
  have cov: "covers run (store_at K s') (sw_memory w)"
    using quiet_coordinator.recover_interrupted_effect [OF quiet_coordinator.intro [OF assms(1)] assms(2), of mem] assms(3,4)
    by (auto simp: progress_def)
  from run_body_disciplined [of C dl run steps ?x W] obtain ocs new where
      1: "dispatches (snd (run_body (recorded W) C steps run dl ?x)) = dispatches (fresh_body ?x) @ new"
      "list_all2 (authorised C dl) ocs new" "set ocs \<inter> dom (x_ledger (fresh_body ?x)) = {}"
      "\<forall>oc \<in> set ocs. \<exists>s \<in> set (walk_steps steps). \<exists>path. oc = (run, step_id s, path)"
    unfolding disciplined_def by (elim exE conjE) (rule that)
  have fresh: "event_occurrence run e \<noteq> Some oc" if "oc \<in> set ocs" "e \<in> set (read_events (''run:'' @ run) (store_at K s'))" for oc e
  proof
    assume "event_occurrence run e = Some oc"
    with cov that(2) have "oc \<in> dom (my_ledger (sw_memory w))" by (simp only: covers_def)
    with 1(3) that(1) show False by (auto simp: start_exec_def fresh_body_def)
  qed
  have "list_all (\<lambda>d. \<exists>i path. authorised C dl (run, i, path) d \<and>
      (\<forall>e \<in> set (read_events (''run:'' @ run) (store_at K s')). event_occurrence run e \<noteq> Some (run, i, path))) new"
    unfolding list_all_iff
  proof
    fix d assume "d \<in> set new"
    then obtain oc where oc: "oc \<in> set ocs" "authorised C dl oc d"
      using 1(2) by (metis in_set_conv_nth list_all2_conv_all_nth)
    from 1(4) oc(1) obtain i path where "oc = (run, i, path)" by blast
    with oc fresh [OF oc(1)] show "\<exists>i path. authorised C dl (run, i, path) d \<and>
      (\<forall>e \<in> set (read_events (''run:'' @ run) (store_at K s')). event_occurrence run e \<noteq> Some (run, i, path))" by blast
  qed
  with 1(1) show ?thesis by (simp add: start_exec_def fresh_body_def)
qed

section \<open>A gateway that died in the body\<close>

text \<open>The site of \<open>Sample_Run\<close> at the moment the body's event is durable: the process dies, the next one sweeps.\<close>

interpretation site_coordinator: quiet_coordinator "site v" for v
  by (simp add: quiet_coordinator_def meter_quiet.quiet_site_axioms)

definition crashed :: "test_clock \<times> store" where
  "crashed = (calm_clock 0 [], st_logged)"

lemma crashed_snd: "snd crashed = st_logged"
  by (simp add: crashed_def)

lemma crashed_row: "map_option (\<lambda>r. (rn_terminal r, rn_tombstoned r, rn_principal r, rn_started r, binding_of r)) (get_run ''r1'' st_logged) =
    Some (None, False, ''me'', dawn, [(''id'', JStr ''req-1''), (''sha256'', JStr ''req-1''), (''version'', JStr ''1.0.0'')])"
  by code_simp

lemma crashed_lease: "map (\<lambda>l. (ls_state l, ls_holder l, ls_seq l)) (list_leases ''b1'' st_logged) = [(''active'', ''run:r1'', 1)]"
  by code_simp

definition crash_record :: "run_reason \<Rightarrow> terminal_record" where
  "crash_record first = \<lparr>tm_version = ''1.0.0'', tm_run = ''r1'', tm_binding = site_pin ''req-1'', tm_who = ''me'', tm_started = dawn,
     tm_ended = dawn, tm_body = ''interrupted'', tm_outcome = ''interrupted'', tm_safe = ''unknown'', tm_reasons = [first],
     tm_refs = [site_pin ''req-1'', \<lparr>pn_id = ''events:r1'', pn_version = ''1'', pn_sha = ''digest''\<rparr>]\<rparr>"

abbreviation req_pin :: obj where
  "req_pin \<equiv> [(''id'', JStr ''req-1''), (''sha256'', JStr ''req-1''), (''version'', JStr ''1.0.0'')]"

lemma site_decision: "recovery_record_version (site v) req_pin = settle None req_pin []"
proof -
  have "co_content (site v) = (\<lambda>_. None)" by (simp add: site_def)
  then show ?thesis by (simp add: recovery_record_version_def member_text_def str_of_def echo_decision_def Let_def)
qed

lemma settled [simp]: "dc_version (settle v p rs) = v" "dc_pin (settle v p rs) = p" "dc_reasons (settle v p rs) = rs"
    "dc_containment (settle v p rs) = None" "dc_access (settle v p rs) = None"
  by (simp_all add: settle_def)

lemma site_terminalizes:
  assumes row: "rn_principal row = ''me''" "rn_started row = dawn"
    and f: "fst (finalize_run ''r1'' (record_json (\<lambda>_. []) (crash_record first)) st) = Inr ()"
  shows "\<exists>mem' s'. terminalize (site v) ''r1'' row (settle None req_pin []) first verb dawn mem (calm_clock 0 [], st) =
      (Inr (crash_record first), mem', s')"
proof -
  let ?s = "(calm_clock 0 [], st)"
  have rel: "is_release ''1.0.0''" by code_simp
  have out: "terminal_outcome ''interrupted'' ''unknown'' = ''interrupted''" by (simp add: terminal_outcome_def)
  have pin: "pin_of (site v) req_pin = Inr (site_pin ''req-1'')"
    by (simp add: pin_of_def str_of_def site_pin_def)
  have built: "build_terminal_record (co_corpus (site v)) (e_reason (co_env (site v))) None
      \<lparr>tm_version = [], tm_run = ''r1'', tm_binding = site_pin ''req-1'', tm_who = ''me'', tm_started = dawn,
        tm_ended = dawn, tm_body = ''interrupted'', tm_outcome = [], tm_safe = ''unknown'',
        tm_reasons = [first], tm_refs = [site_pin ''req-1'', events_ref (site v) ''r1'' ?s]\<rparr> = Inr (crash_record first)"
    by (simp add: build_terminal_record_def site_validator rel out crash_record_def events_ref_def)
  have "e_reason (meter_env v) = (\<lambda>_. [])" by (simp add: meter_env_def)
  then obtain st' where "finalize_run ''r1'' (record_json (e_reason (co_env (site v))) (crash_record first)) st = (Inr (), st')"
    using f by (metis site_fields(1) prod.collapse)
  then have "on_store (site v) (finalize_run ''r1'' (record_json (e_reason (co_env (site v))) (crash_record first))) ?s = (Inr (), (calm_clock 0 [], st'))"
    by (simp add: on_store_def)
  with pin built row show ?thesis
    by (simp add: terminalize_def era_reasons_def recovery_evidence_refs_def)
qed

lemma crash_finalizes: "fst (finalize_run ''r1'' (record_json (\<lambda>_. []) (crash_record GatewayRestart)) st_logged) = Inr ()"
  by code_simp

lemma crashed_recovered:
  "\<exists>w s'. recover_interrupted (site v) no_memory crashed = (Inr w, s') \<and> ''r1'' \<in> set (sw_recovered w)"
proof -
  let ?w = "\<lparr>sw_memory = no_memory, sw_recovered = [], sw_contained = []\<rparr>"
  obtain row where row: "get_run ''r1'' st_logged = Some row" "rn_terminal row = None" "binding_of row = req_pin"
      "rn_principal row = ''me''" "rn_started row = dawn"
    using crashed_row by (cases "get_run ''r1'' st_logged") auto
  obtain l where l: "list_leases ''b1'' st_logged = [l]" "ls_state l = ''active''" "ls_holder l = ''run:r1''"
    using crashed_lease by auto
  have wall: "wall_at (site v) crashed = (dawn, crashed)" by (simp add: wall_at_def crashed_def)
  obtain mem s1 where t: "terminalize (site v) ''r1'' row (settle None req_pin []) GatewayRestart ''recovered'' dawn no_memory crashed =
      (Inr (crash_record GatewayRestart), mem, s1)"
    unfolding crashed_def using site_terminalizes [OF row(4,5) crash_finalizes] by blast
  let ?w1 = "recovered ''r1'' (?w\<lparr>sw_memory := mem\<rparr>)"
  have "recover_run (site v) ''r1'' row (\<lambda>s. (dawn, s)) ?w crashed = (Some ?w1, s1)"
    using t by (simp add: recover_run_def row(3) site_decision)
  then have "recover_lease (site v) l ?w crashed = free_lease (site v) (ls_seq l) dawn ?w1 s1"
    using l(2,3) row by (simp add: recover_lease_def run_of_holder_def crashed_snd wall)
  then have "recover_leases (site v) [l] ?w crashed = (case free_lease (site v) (ls_seq l) dawn ?w1 s1 of (Inl e, s) \<Rightarrow> (Inl e, s) | (Inr w, s) \<Rightarrow> (Inr w, s))"
    by (simp split: prod.split sum.split)
  moreover have "w' = ?w1" if "free_lease (site v) (ls_seq l) dawn ?w1 s1 = (Inr w', s')" for w' s'
    using that by (auto simp: free_lease_def split: prod.splits sum.splits)
  moreover obtain w s' where run: "recover_interrupted (site v) no_memory crashed = (Inr w, s')"
    using site_coordinator.recover_interrupted_effect [of v crashed no_memory] site_reachable by (auto simp: crashed_snd)
  ultimately obtain s2 where one: "recover_leases (site v) [l] ?w crashed = (Inr ?w1, s2)"
    by (auto simp: recover_interrupted_def Let_def crashed_snd l(1) split: prod.splits sum.splits)
  obtain w2 s3 where two: "recover_rows (site v) (holders (list_leases ''b1'' (store_at (site v) s2)))
      (list_run_states ''b1'' (store_at (site v) s2)) ?w1 s2 = (w2, s3)"
    by (metis surj_pair)
  from site_coordinator.recover_rows_effect [OF this] have "''r1'' \<in> set (sw_recovered w2)"
    by (auto simp: progress_def recovered_def)
  moreover have "recover_interrupted (site v) no_memory crashed = (Inr w2, s3)"
    using one two by (simp add: recover_interrupted_def Let_def l(1) crashed_snd)
  ultimately show ?thesis by blast
qed

lemma crashed_store: "store_steps empty_store (store_at (site v) crashed)"
  using site_reachable by (simp add: crashed_def)

lemma recovery_completes_witness:
  "\<exists>w s'. recover_interrupted (site (JInt 0)) no_memory crashed = (Inr w, s') \<and>
    list_all (\<lambda>run. deferred (site (JInt 0)) run (snd s')) (holders (list_leases ''b1'' (snd s')))"
  using recovery_completes [OF site_coordinator.quiet crashed_store, of "JInt 0" no_memory] by simp

lemma crashed_closed:
  assumes "recover_interrupted (site v) no_memory crashed = (Inr w, s')" "''r1'' \<in> set (sw_recovered w)"
  shows "get_run ''r1'' (store_at (site v) s') \<noteq> get_run ''r1'' (store_at (site v) crashed)"
proof -
  have "\<exists>row. get_run ''r1'' (store_at (site v) s') = Some row \<and> rn_terminal row \<noteq> None"
    using site_coordinator.recover_interrupted_effect [OF crashed_store, of v no_memory] assms by (auto simp: progress_def)
  moreover have "map_option rn_terminal (get_run ''r1'' st_logged) = Some None"
    using crashed_row by (cases "get_run ''r1'' st_logged") auto
  ultimately show ?thesis by (auto simp: crashed_def)
qed

lemma recovery_only_interrupts_witness:
  "\<exists>w s' row rec. recover_interrupted (site (JInt 0)) no_memory crashed = (Inr w, s') \<and> get_run ''r1'' (snd s') = Some row \<and>
    rn_terminal row = Some (sort_members (record_json (\<lambda>_. []) rec)) \<and> interrupted_as GatewayRestart rec"
proof -
  obtain w s' where r: "recover_interrupted (site (JInt 0)) no_memory crashed = (Inr w, s')" "''r1'' \<in> set (sw_recovered w)"
    using crashed_recovered by blast
  have reason: "e_reason (co_env (site (JInt 0))) = (\<lambda>_. [])" by (simp add: meter_env_def)
  from recovery_only_interrupts [OF site_coordinator.quiet crashed_store r(1)] crashed_closed [OF r]
  obtain row rec where "get_run ''r1'' (store_at (site (JInt 0)) s') = Some (row\<lparr>rn_terminal := Some (sort_members
      (record_json (e_reason (co_env (site (JInt 0)))) rec))\<rparr>)" "interrupted_as GatewayRestart rec"
    by blast
  then show ?thesis using r(1) unfolding reason by (intro exI conjI) (assumption | simp)+
qed

lemma recovered_run_repeats_nothing_witness:
  "\<exists>w s'. recover_interrupted (site (JInt 0)) no_memory crashed = (Inr w, s') \<and>
    list_all (\<lambda>d. \<exists>i path. authorised demo_config 2000000000 (''r1'', i, path) d \<and>
        list_all (\<lambda>e. event_occurrence ''r1'' e \<noteq> Some (''r1'', i, path)) (read_events ''run:r1'' (snd s')))
      (dispatches (snd (run_body (recorded (sim_world (\<lambda>_. True) (demo_plugin 0))) demo_config demo_body ''r1'' 2000000000
        (start_exec (sw_memory w) ((tc_init, 0), [])))))"
proof -
  obtain w s' where r: "recover_interrupted (site (JInt 0)) no_memory crashed = (Inr w, s')" "''r1'' \<in> set (sw_recovered w)"
    using crashed_recovered by blast
  from recovered_run_repeats_nothing [OF site_coordinator.quiet crashed_store r(1) crashed_closed [OF r], of demo_config 2000000000
      "sim_world (\<lambda>_. True) (demo_plugin 0)" demo_body "(tc_init, 0)"] r(1)
  show ?thesis by (intro exI [of _ w] exI [of _ s']) (simp add: list_all_iff)
qed

end
