(* ===== verification/Stop.thy ===== *)
theory Stop
  imports Recovery
begin

text \<open>
  The sweep at a stop, \<open>RunCoordinator.interrupt_queued_at_stop\<close> (defined in \<open>Recovery\<close>): it reaches every
  bench, page by page, and touches queued runs only. The sample is the site of \<open>Sample_Run\<close> stopped after a
  request was accepted and its run row written.
\<close>

lemma bench_pages_all: "bench_pages st offset = map fst (drop offset (sort_key fst (t_benches (tabs st))))"
proof (induction st offset rule: bench_pages.induct)
  case (1 st offset)
  let ?rows = "sort_key fst (t_benches (tabs st))"
  have page: "list_benches 1000 (int offset) st = (take 1000 (drop offset ?rows), offset + 1000 < length (t_benches (tabs st)))"
    using list_benches_window [of 1000 offset st] by simp
  show ?case
  proof (cases "offset + 1000 < length (t_benches (tabs st))")
    case True
    have "bench_pages st (offset + 1000) = map fst (drop (offset + 1000) ?rows)"
      using 1 [OF page [symmetric]] True by simp
    moreover have "drop (offset + 1000) ?rows = drop 1000 (drop offset ?rows)" by (simp add: add.commute)
    ultimately have "bench_pages st offset = map fst (take 1000 (drop offset ?rows)) @ map fst (drop 1000 (drop offset ?rows))"
      using True by (subst bench_pages.simps) (simp add: page)
    then show ?thesis by (simp only: map_append [symmetric] append_take_drop_id)
  next
    case False
    then show ?thesis by (subst bench_pages.simps) (simp add: page)
  qed
qed

definition stopped :: "'s coordinator \<Rightarrow> store \<Rightarrow> string list \<Rightarrow> store \<Rightarrow> string list \<Rightarrow> bool" where
  "stopped K st ended st' ended' \<longleftrightarrow> set ended \<subseteq> set ended' \<and> t_events (tabs st') = t_events (tabs st) \<and>
     t_leases (tabs st') = t_leases (tabs st) \<and> t_run_states (tabs st') = t_run_states (tabs st) \<and>
     (\<forall>run. get_run run st' = get_run run st \<or> run \<in> set ended' \<and>
       (\<exists>state. (run, state) \<in> set (t_run_states (tabs st)) \<and> rs_state state = ''accepted'') \<and>
       (\<exists>row rec. get_run run st = Some row \<and> rn_terminal row = None \<and> interrupted_as GatewayStop rec \<and>
         get_run run st' = Some (row\<lparr>rn_terminal := Some (sort_members (record_json (e_reason (co_env K)) rec))\<rparr>)))"

lemma stopped_refl [simp]: "stopped K st ended st ended"
  by (simp add: stopped_def)

lemma stopped_trans:
  assumes "stopped K a u b v" "stopped K b v c w"
  shows "stopped K a u c w"
proof -
  define change where "change = (\<lambda>st st' run. \<exists>row rec. get_run run st = Some row \<and> rn_terminal row = None \<and> interrupted_as GatewayStop rec \<and>
         get_run run st' = Some (row\<lparr>rn_terminal := Some (sort_members (record_json (e_reason (co_env K)) rec))\<rparr>))"
  have one: "get_run run b = get_run run a \<or> run \<in> set v \<and>
       (\<exists>state. (run, state) \<in> set (t_run_states (tabs a)) \<and> rs_state state = ''accepted'') \<and> change a b run" for run
    using assms(1) unfolding stopped_def change_def by blast
  have two: "get_run run c = get_run run b \<or> run \<in> set w \<and>
       (\<exists>state. (run, state) \<in> set (t_run_states (tabs b)) \<and> rs_state state = ''accepted'') \<and> change b c run" for run
    using assms(2) unfolding stopped_def change_def by blast
  have frame: "set u \<subseteq> set v" "set v \<subseteq> set w" "t_run_states (tabs b) = t_run_states (tabs a)" "t_run_states (tabs c) = t_run_states (tabs a)"
    "t_events (tabs c) = t_events (tabs a)" "t_leases (tabs c) = t_leases (tabs a)"
    using assms by (simp_all add: stopped_def)
  have once: "\<not> (change a b run \<and> change b c run)" for run
    by (auto simp: change_def)
  have keep: "change a c run" if "change a b run" "get_run run c = get_run run b" for run
    using that by (auto simp: change_def)
  have late: "change a c run" if "change b c run" "get_run run b = get_run run a" for run
    using that by (auto simp: change_def)
  have "get_run run c = get_run run a \<or> run \<in> set w \<and>
       (\<exists>state. (run, state) \<in> set (t_run_states (tabs a)) \<and> rs_state state = ''accepted'') \<and> change a c run" for run
    using one [of run] two [of run] frame(2,3) once [of run] keep [of run] late [of run] by auto
  with frame show ?thesis unfolding stopped_def change_def by blast
qed

context quiet_coordinator
begin

lemma interrupt_row_effect:
  assumes "interrupt_row K now entry (mem, ended) s = ((mem', ended'), s')"
    and entry: "entry \<in> set (t_run_states (tabs (store_at K s)))"
  shows "stopped K (store_at K s) ended (store_at K s') ended'"
proof -
  obtain run state where e: "entry = (run, state)" by (cases entry)
  show ?thesis
  proof (cases "get_run run (store_at K s)")
    case (Some row)
    let ?d = "recovery_record_version K (binding_of row)"
    show ?thesis
    proof (cases "rs_state state \<noteq> ''accepted'' \<or> rn_tombstoned row \<or> rn_terminal row \<noteq> None \<or> dc_access ?d \<noteq> None \<or> dc_containment ?d \<noteq> None")
      case True
      with assms(1) Some e show ?thesis by (auto simp: interrupt_row_def Let_def split: if_splits)
    next
      case False
      obtain r m2 s2 where t: "terminalize K run row ?d GatewayStop ''stopped'' now mem s = (r, m2, s2)" by (metis prod.exhaust)
      with assms(1) Some e False have out: "s' = s2" "ended' = (case r of Inl e \<Rightarrow> ended | Inr _ \<Rightarrow> ended @ [run])"
        by (auto simp: interrupt_row_def Let_def split: sum.splits)
      from terminalize_effect [OF t] show ?thesis
      proof (elim disjE exE conjE)
        fix x assume "r = Inl x" "store_at K s2 = store_at K s"
        with out show ?thesis by simp
      next
        fix rec assume r: "r = Inr rec" "interrupted_as GatewayStop rec"
          and f: "finalize_run run (record_json (e_reason (co_env K)) rec) (store_at K s) = (Inr (), store_at K s2)"
        from finalize_run_frame [OF f] Some obtain
            row': "get_run run (store_at K s2) = Some (row\<lparr>rn_terminal := Some (sort_members (record_json (e_reason (co_env K)) rec))\<rparr>)"
          and others: "\<forall>r. r \<noteq> run \<longrightarrow> get_run r (store_at K s2) = get_run r (store_at K s)"
          and frame: "t_events (tabs (store_at K s2)) = t_events (tabs (store_at K s))" "t_leases (tabs (store_at K s2)) = t_leases (tabs (store_at K s))"
            "t_run_states (tabs (store_at K s2)) = t_run_states (tabs (store_at K s))"
          by auto
        have acc: "(run, state) \<in> set (t_run_states (tabs (store_at K s))) \<and> rs_state state = ''accepted''" "rn_terminal row = None"
          using entry e False by auto
        have "get_run x (store_at K s2) = get_run x (store_at K s) \<or> x \<in> set ended' \<and>
          (\<exists>state. (x, state) \<in> set (t_run_states (tabs (store_at K s))) \<and> rs_state state = ''accepted'') \<and>
          (\<exists>row rec. get_run x (store_at K s) = Some row \<and> rn_terminal row = None \<and> interrupted_as GatewayStop rec \<and>
             get_run x (store_at K s2) = Some (row\<lparr>rn_terminal := Some (sort_members (record_json (e_reason (co_env K)) rec))\<rparr>))" for x
        proof (cases "x = run")
          case True
          then have "x \<in> set ended'" using out(2) r(1) by simp
          with True acc row' Some r(2) show ?thesis by blast
        qed (use others in simp)
        moreover have "set ended \<subseteq> set ended'" using out(2) r(1) by auto
        ultimately show ?thesis unfolding stopped_def out(1) using frame by blast
      qed
    qed
  qed (use assms(1) e in \<open>auto simp: interrupt_row_def split: if_splits\<close>)
qed

lemma interrupt_rows_effect:
  assumes "interrupt_rows K now entries (mem, ended) s = ((mem', ended'), s')" "set entries \<subseteq> set (t_run_states (tabs (store_at K s)))"
  shows "stopped K (store_at K s) ended (store_at K s') ended'"
  using assms
proof (induction entries arbitrary: mem ended s)
  case (Cons e es)
  obtain m1 d1 s1 where r: "interrupt_row K now e (mem, ended) s = ((m1, d1), s1)" by (metis prod.exhaust)
  have one: "stopped K (store_at K s) ended (store_at K s1) d1"
    using interrupt_row_effect [OF r] Cons.prems(2) by simp
  then have "set es \<subseteq> set (t_run_states (tabs (store_at K s1)))" using Cons.prems(2) by (simp add: stopped_def)
  with Cons.IH [of m1 d1 s1] Cons.prems(1) r have "stopped K (store_at K s1) d1 (store_at K s') ended'" by simp
  with one show ?case by (rule stopped_trans)
qed simp

lemma interrupt_benches_effect:
  "interrupt_benches K now bs (mem, ended) s = ((mem', ended'), s') \<Longrightarrow> stopped K (store_at K s) ended (store_at K s') ended'"
proof (induction bs arbitrary: mem ended s)
  case (Cons b bs)
  obtain m1 d1 s1 where r: "interrupt_rows K now (list_run_states b (store_at K s)) (mem, ended) s = ((m1, d1), s1)"
    by (metis prod.exhaust)
  have "set (list_run_states b (store_at K s)) \<subseteq> set (t_run_states (tabs (store_at K s)))"
    by (auto simp: list_run_states_def)
  from interrupt_rows_effect [OF r this] Cons.IH [of m1 d1 s1] Cons.prems r show ?case
    by (auto intro: stopped_trans)
qed simp

end

text \<open>
  The sweep at a stop touches queued runs only: it changes no event, lease or projection, and the
  only rows it changes are those of runs still \<open>accepted\<close> and without a record, which get an interrupted record; it
  reports each of them. Left to itself it goes through every bench.
\<close>

theorem stop_interrupts_only_queued:
  assumes "quiet_site (co_env K)" and "interrupt_queued_at_stop K now benches mem s = ((mem', ended), s')"
  shows "stopped K (store_at K s) [] (store_at K s') ended \<and> (benches = None \<longrightarrow>
    interrupt_queued_at_stop K now (Some (map fst (sort_key fst (t_benches (tabs (store_at K s)))))) mem s = ((mem', ended), s'))"
  using quiet_coordinator.interrupt_benches_effect [OF quiet_coordinator.intro [OF assms(1)], of now _ mem "[]" s mem' ended s'] assms(2)
  by (auto simp: interrupt_queued_at_stop_def bench_pages_all)

section \<open>A gateway stopped with a run in its queue\<close>

definition st_queued :: store where
  "st_queued = snd (put_run_state ''r1'' ''b1'' ''accepted'' dawn st_created)"

definition queued :: "test_clock \<times> store" where
  "queued = (calm_clock 0 [], st_queued)"

lemma queued_store: "store_at (site v) queued = st_queued"
  by (simp add: queued_def)

lemma queued_states: "map (\<lambda>(r, e). (r, rs_state e)) (list_run_states ''b1'' st_queued) = [(''r1'', ''accepted'')]"
  by code_simp

lemma queued_row: "map_option (\<lambda>r. (rn_terminal r, rn_tombstoned r, rn_principal r, rn_started r, binding_of r)) (get_run ''r1'' st_queued) =
    Some (None, False, ''me'', dawn, [(''id'', JStr ''req-1''), (''sha256'', JStr ''req-1''), (''version'', JStr ''1.0.0'')])"
  by code_simp

lemma stop_finalizes: "fst (finalize_run ''r1'' (record_json (\<lambda>_. []) (crash_record GatewayStop)) st_queued) = Inr ()"
  by code_simp

lemma queued_interrupted:
  "\<exists>mem' s'. interrupt_queued_at_stop (site v) dawn (Some [''b1'']) no_memory queued = ((mem', [''r1'']), s')"
proof -
  obtain row where row: "get_run ''r1'' st_queued = Some row" "rn_terminal row = None" "\<not> rn_tombstoned row" "binding_of row = req_pin"
      "rn_principal row = ''me''" "rn_started row = dawn"
    using queued_row by (cases "get_run ''r1'' st_queued") auto
  obtain e where e: "list_run_states ''b1'' st_queued = [(''r1'', e)]" "rs_state e = ''accepted''"
    using queued_states by auto
  obtain mem s1 where t: "terminalize (site v) ''r1'' row (settle None req_pin []) GatewayStop ''stopped'' dawn no_memory queued =
      (Inr (crash_record GatewayStop), mem, s1)"
    unfolding queued_def using site_terminalizes [OF row(5,6) stop_finalizes] by blast
  have "interrupt_row (site v) dawn (''r1'', e) (no_memory, []) queued = ((mem, [''r1'']), s1)"
    unfolding interrupt_row_def queued_store prod.case row(1) option.case
    using t e(2) row(2,3) by (simp add: row(4) site_decision)
  moreover have "snd queued = st_queued" by (simp add: queued_def)
  ultimately show ?thesis
    by (simp add: interrupt_queued_at_stop_def e(1))
qed

lemma stop_interrupts_only_queued_witness:
  "\<exists>mem' s'. interrupt_queued_at_stop (site (JInt 0)) dawn (Some [''b1'']) no_memory queued = ((mem', [''r1'']), s') \<and>
    stopped (site (JInt 0)) st_queued [] (snd s') [''r1'']"
proof -
  obtain mem' s' where i: "interrupt_queued_at_stop (site (JInt 0)) dawn (Some [''b1'']) no_memory queued = ((mem', [''r1'']), s')"
    using queued_interrupted by blast
  from stop_interrupts_only_queued [OF site_coordinator.quiet i] i show ?thesis by (auto simp: queued_def)
qed

end
