(* ===== verification/Derivation.thy ===== *)
theory Derivation
  imports Py_Text "HOL-Library.AList"
begin

text \<open>
  Derived variables, \<open>measurement/derivation.py\<close>: the tokenizer and the recursive-descent parser of the
  expression grammar, the static checks of a declaration array, and the evaluation over a dataset. A refusal is its
  class with the machine prefix and the subjects of its message; wording beyond that is left out.
\<close>

section \<open>Tokens\<close>

datatype token = TOp char | TNum string | TId string

datatype grammar_fault =
    EmptyExpression
  | TooLong nat
  | MalformedNumber string
  | IllegalCharacter char
  | NoTokens
  | UnexpectedEnd
  | TrailingToken token
  | TooDeep
  | ExpectedClose token
  | NotAnOperand token
  | ConstantOnly string

definition max_expression_length :: nat where "max_expression_length = 256"
definition max_nesting :: nat where "max_nesting = 32"
definition max_exact_int :: int where "max_exact_int = 2 ^ 53"

definition ascii_digit :: "char \<Rightarrow> bool" where
  "ascii_digit c \<longleftrightarrow> c \<in> set ''0123456789''"

definition lower :: "char \<Rightarrow> bool" where
  "lower c \<longleftrightarrow> c \<in> set ''abcdefghijklmnopqrstuvwxyz''"

definition word_char :: "char \<Rightarrow> bool" where
  "word_char c \<longleftrightarrow> lower c \<or> ascii_digit c \<or> c = CHR ''_''"

text \<open>\<open>re.fullmatch(r"[a-z][a-z0-9_]*", s)\<close>.\<close>

fun is_identifier :: "string \<Rightarrow> bool" where
  "is_identifier [] = False"
| "is_identifier (c # cs) = (lower c \<and> list_all word_char cs)"

text \<open>One turn of the loop: the token that starts here, if any, and the rest.\<close>

definition next_token :: "char \<Rightarrow> string \<Rightarrow> grammar_fault + token option \<times> string" where
  "next_token c cs =
     (if c = CHR '' '' then Inr (None, cs)
      else if c \<in> set ''+-*/()'' then Inr (Some (TOp c), cs)
      else if ascii_digit c \<or> c = CHR ''.'' then
        (let whole = takeWhile ascii_digit (c # cs); rest = dropWhile ascii_digit (c # cs) in
         if rest = [] \<or> hd rest \<noteq> CHR ''.'' then Inr (Some (TNum whole), rest)
         else let frac = takeWhile ascii_digit (tl rest) in
           if frac = [] then Inl (MalformedNumber (c # cs))
           else Inr (Some (TNum (whole @ ''.'' @ frac)), dropWhile ascii_digit (tl rest)))
      else if lower c then Inr (Some (TId (takeWhile word_char (c # cs))), dropWhile word_char (c # cs))
      else Inl (IllegalCharacter c))"

fun token_text :: "token \<Rightarrow> string" where
  "token_text (TOp c) = [c]"
| "token_text (TNum s) = s"
| "token_text (TId s) = s"

lemma word_lower: "lower c \<Longrightarrow> word_char c"
  by (simp add: word_char_def)

lemma char_classes [simp]: "\<not> ascii_digit (CHR ''.'')" "\<not> ascii_digit (CHR '' '')" "\<not> word_char (CHR '' '')"
  by (simp_all add: ascii_digit_def word_char_def lower_def)

lemma takeWhile_without: "\<not> P x \<Longrightarrow> x \<notin> set (takeWhile P xs)"
  by (auto dest: set_takeWhileD)

lemma next_token_spells:
  assumes "next_token c cs = Inr (t, r)"
  shows "case t of None \<Rightarrow> c = CHR '' '' \<and> r = cs | Some t \<Rightarrow> c # cs = token_text t @ r \<and> token_text t \<noteq> [] \<and> c \<noteq> CHR '' ''"
proof (cases "c = CHR '' '' \<or> c \<in> set ''+-*/()''")
  case True
  with assms show ?thesis by (auto simp: next_token_def)
next
  case plain: False
  show ?thesis
  proof (cases "ascii_digit c \<or> c = CHR ''.''")
    case num: True
    let ?w = "takeWhile ascii_digit (c # cs)" and ?r = "dropWhile ascii_digit (c # cs)"
    have all: "?w @ ?r = c # cs" by (rule takeWhile_dropWhile_id)
    show ?thesis
    proof (cases "?r = [] \<or> hd ?r \<noteq> CHR ''.''")
      case True
      then have "?w \<noteq> []" using num by auto
      moreover have "t = Some (TNum ?w)" "r = ?r" using assms plain num True by (simp_all add: next_token_def Let_def split: if_splits)
      ultimately show ?thesis using all plain by simp
    next
      case False
      then have dot: "?r = CHR ''.'' # tl ?r" by (metis hd_Cons_tl)
      let ?f = "takeWhile ascii_digit (tl ?r)"
      have "t = Some (TNum (?w @ ''.'' @ ?f))" "r = dropWhile ascii_digit (tl ?r)"
        using assms plain num False by (simp_all add: next_token_def Let_def split: if_splits)
      moreover have "(?w @ ''.'' @ ?f) @ dropWhile ascii_digit (tl ?r) = c # cs" using all dot by (metis append.assoc append_Cons append_Nil takeWhile_dropWhile_id)
      ultimately show ?thesis using plain by simp
    qed
  next
    case False
    with assms plain have "t = Some (TId (takeWhile word_char (c # cs)))" "r = dropWhile word_char (c # cs)" "lower c"
      by (simp_all add: next_token_def split: if_splits)
    then show ?thesis using plain word_lower [of c] by (simp del: takeWhile.simps dropWhile.simps) simp
  qed
qed

lemma next_token_shrinks: "next_token c cs = Inr (t, r) \<Longrightarrow> length r \<le> length cs"
proof -
  assume "next_token c cs = Inr (t, r)"
  from next_token_spells [OF this] show ?thesis
    by (cases t) (auto simp: Cons_eq_append_conv)
qed

fun lead :: "token option \<Rightarrow> grammar_fault + token list \<Rightarrow> grammar_fault + token list" where
  "lead None r = r"
| "lead (Some t) (Inr ts) = Inr (t # ts)"
| "lead (Some t) (Inl e) = Inl e"

function tokenize :: "string \<Rightarrow> grammar_fault + token list" where
  "tokenize [] = Inr []"
| "tokenize (c # cs) = (case next_token c cs of Inl e \<Rightarrow> Inl e | Inr (t, r) \<Rightarrow> lead t (tokenize r))"
  by pat_completeness auto
termination
  by (relation "measure length") (auto dest: next_token_shrinks)

lemma lead_Inr: "lead t r = Inr ts \<longleftrightarrow> (\<exists>us. r = Inr us \<and> ts = (case t of None \<Rightarrow> us | Some t \<Rightarrow> t # us))"
  by (cases t; cases r) auto

lemma tokenize_step:
  "tokenize (c # cs) = Inr ts \<longleftrightarrow> (\<exists>t r us. next_token c cs = Inr (t, r) \<and> tokenize r = Inr us \<and> ts = (case t of None \<Rightarrow> us | Some t \<Rightarrow> t # us))"
  by (auto simp: lead_Inr split: sum.splits prod.splits)

declare tokenize.simps(2) [simp del]

text \<open>The tokens spell the text, but for the blanks.\<close>

lemma token_no_blank: "next_token c cs = Inr (Some t, r) \<Longrightarrow> CHR '' '' \<notin> set (token_text t)"
  unfolding next_token_def Let_def
  by (simp del: takeWhile.simps dropWhile.simps set_simps split: if_splits; elim conjE; hypsubst) (simp_all add: takeWhile_without del: takeWhile.simps dropWhile.simps)

lemma tokenize_spells: "tokenize s = Inr ts \<Longrightarrow> concat (map token_text ts) = filter (\<lambda>c. c \<noteq> CHR '' '') s"
proof (induction s arbitrary: ts rule: tokenize.induct)
  case (2 c cs)
  then obtain t r us where t: "next_token c cs = Inr (t, r)" "tokenize r = Inr us" "ts = (case t of None \<Rightarrow> us | Some t \<Rightarrow> t # us)"
    by (auto simp: tokenize_step)
  note ih = 2(1) [OF t(1) refl t(2)]
  show ?case
  proof (cases t)
    case None
    with t ih next_token_spells [OF t(1)] show ?thesis by simp
  next
    case (Some u)
    with next_token_spells [OF t(1)] have "c # cs = token_text u @ r" by simp
    moreover have "filter (\<lambda>c. c \<noteq> CHR '' '') (token_text u) = token_text u"
      using token_no_blank t(1) Some by (fastforce simp: filter_id_conv)
    ultimately show ?thesis using t(3) ih Some by (metis concat.simps(2) filter_append list.simps(9) option.simps(5))
  qed
qed simp

section \<open>The parser\<close>

datatype node = Num pyfloat string | Var string | Sign char node | Bin char node node

text \<open>\<open>float(text)\<close> of a decimal literal.\<close>

definition decimal :: "string \<Rightarrow> rat" where
  "decimal s = (let whole = takeWhile (\<lambda>c. c \<noteq> CHR ''.'') s; frac = drop 1 (dropWhile (\<lambda>c. c \<noteq> CHR ''.'') s) in
     case digits_val 0 (whole @ frac) of None \<Rightarrow> 0 | Some n \<Rightarrow> of_nat n / 10 ^ length frac)"

definition literal :: "string \<Rightarrow> pyfloat" where
  "literal s = fl (decimal s)"

definition is_add :: "char \<Rightarrow> bool" where "is_add c \<longleftrightarrow> c = CHR ''+'' \<or> c = CHR ''-''"
definition is_mul :: "char \<Rightarrow> bool" where "is_mul c \<longleftrightarrow> c = CHR ''*'' \<or> c = CHR ''/''"

type_synonym parsed = "grammar_fault + node \<times> token list"

function (sequential) parse_expr :: "nat \<Rightarrow> token list \<Rightarrow> parsed"
  and expr_loop :: "nat \<Rightarrow> node \<Rightarrow> token list \<Rightarrow> parsed"
  and parse_term :: "nat \<Rightarrow> token list \<Rightarrow> parsed"
  and term_loop :: "nat \<Rightarrow> node \<Rightarrow> token list \<Rightarrow> parsed"
  and parse_factor :: "nat \<Rightarrow> token list \<Rightarrow> parsed"
  and parse_atom :: "nat \<Rightarrow> token list \<Rightarrow> parsed" where
  "parse_expr d ts = (case parse_term d ts of Inl e \<Rightarrow> Inl e | Inr (n, r) \<Rightarrow> expr_loop d n r)"
| "expr_loop d n (TOp c # ts) = (if is_add c then (case parse_term d ts of Inl e \<Rightarrow> Inl e | Inr (m, r) \<Rightarrow> expr_loop d (Bin c n m) r)
     else Inr (n, TOp c # ts))"
| "expr_loop d n ts = Inr (n, ts)"
| "parse_term d ts = (case parse_factor d ts of Inl e \<Rightarrow> Inl e | Inr (n, r) \<Rightarrow> term_loop d n r)"
| "term_loop d n (TOp c # ts) = (if is_mul c then (case parse_factor d ts of Inl e \<Rightarrow> Inl e | Inr (m, r) \<Rightarrow> term_loop d (Bin c n m) r)
     else Inr (n, TOp c # ts))"
| "term_loop d n ts = Inr (n, ts)"
| "parse_factor d (TOp c # ts) = (if is_add c then (case parse_factor d ts of Inl e \<Rightarrow> Inl e | Inr (n, r) \<Rightarrow> Inr (Sign c n, r))
     else parse_atom d (TOp c # ts))"
| "parse_factor d ts = parse_atom d ts"
| "parse_atom d [] = Inl UnexpectedEnd"
| "parse_atom d (TNum s # ts) = Inr (Num (literal s) s, ts)"
| "parse_atom d (TId s # ts) = Inr (Var s, ts)"
| "parse_atom d (TOp c # ts) =
     (if c \<noteq> CHR ''('' then Inl (NotAnOperand (TOp c))
      else if max_nesting < Suc d then Inl TooDeep
      else case parse_expr (Suc d) ts of
          Inl e \<Rightarrow> Inl e
        | Inr (n, []) \<Rightarrow> Inl UnexpectedEnd
        | Inr (n, t # r) \<Rightarrow> if t = TOp (CHR '')'') then Inr (n, r) else Inl (ExpectedClose t))"
  by pat_completeness auto

lemma shrinks:
  "parse_expr_expr_loop_parse_term_term_loop_parse_factor_parse_atom_dom (Inl (Inl (d, ts))) \<Longrightarrow> parse_expr d ts = Inr (n, r) \<Longrightarrow> length r < length ts"
  "parse_expr_expr_loop_parse_term_term_loop_parse_factor_parse_atom_dom (Inl (Inr (Inl (d, m, ts)))) \<Longrightarrow> expr_loop d m ts = Inr (n, r) \<Longrightarrow> length r \<le> length ts"
  "parse_expr_expr_loop_parse_term_term_loop_parse_factor_parse_atom_dom (Inl (Inr (Inr (d, ts)))) \<Longrightarrow> parse_term d ts = Inr (n, r) \<Longrightarrow> length r < length ts"
  "parse_expr_expr_loop_parse_term_term_loop_parse_factor_parse_atom_dom (Inr (Inl (d, m, ts))) \<Longrightarrow> term_loop d m ts = Inr (n, r) \<Longrightarrow> length r \<le> length ts"
  "parse_expr_expr_loop_parse_term_term_loop_parse_factor_parse_atom_dom (Inr (Inr (Inl (d, ts)))) \<Longrightarrow> parse_factor d ts = Inr (n, r) \<Longrightarrow> length r < length ts"
  "parse_expr_expr_loop_parse_term_term_loop_parse_factor_parse_atom_dom (Inr (Inr (Inr (d, ts)))) \<Longrightarrow> parse_atom d ts = Inr (n, r) \<Longrightarrow> length r < length ts"
proof (induction d ts and d m ts and d ts and d m ts and d ts and d ts arbitrary: n r and n r and n r and n r and n r and n r
    rule: parse_expr_expr_loop_parse_term_term_loop_parse_factor_parse_atom.pinduct)
qed (fastforce simp: parse_expr.psimps expr_loop.psimps parse_term.psimps term_loop.psimps parse_factor.psimps parse_atom.psimps
    split: sum.splits prod.splits if_splits list.splits)+

termination parse_expr
proof (relation "measure (\<lambda>x. case x of Inl (Inl (d, ts)) \<Rightarrow> 4 * length ts + 3
      | Inl (Inr (Inl (d, n, ts))) \<Rightarrow> 4 * length ts | Inl (Inr (Inr (d, ts))) \<Rightarrow> 4 * length ts + 2
      | Inr (Inl (d, n, ts)) \<Rightarrow> 4 * length ts | Inr (Inr (Inl (d, ts))) \<Rightarrow> 4 * length ts + 1 | Inr (Inr (Inr (d, ts))) \<Rightarrow> 4 * length ts)")
qed (auto dest!: shrinks)

lemmas parser_simps = parse_expr.simps expr_loop.simps parse_term.simps term_loop.simps parse_factor.simps parse_atom.simps

declare parse_expr.simps [simp del] expr_loop.simps [simp del] parse_term.simps [simp del] term_loop.simps [simp del]
  parse_factor.simps [simp del] parse_atom.simps [simp del]

definition parse_tokens :: "token list \<Rightarrow> grammar_fault + node" where
  "parse_tokens ts = (case parse_expr 0 ts of Inl e \<Rightarrow> Inl e | Inr (n, []) \<Rightarrow> Inr n | Inr (n, t # r) \<Rightarrow> Inl (TrailingToken t))"

definition parse_text :: "string \<Rightarrow> grammar_fault + node" where
  "parse_text s = (if s = [] then Inl EmptyExpression
     else if max_expression_length < length s then Inl (TooLong (length s))
     else bind_res (tokenize s) (\<lambda>ts. if ts = [] then Inl NoTokens else parse_tokens ts))"

section \<open>The grammar\<close>

text \<open>
  The grammar of the module's docstring, as derivations of token lists; \<open>d\<close> counts the parentheses around.
\<close>

inductive is_expr and is_term and is_factor and is_atom where
  one_term: "is_term d n ts \<Longrightarrow> is_expr d n ts"
| add_term: "is_expr d l a \<Longrightarrow> is_add c \<Longrightarrow> is_term d r b \<Longrightarrow> is_expr d (Bin c l r) (a @ TOp c # b)"
| one_factor: "is_factor d n ts \<Longrightarrow> is_term d n ts"
| mul_factor: "is_term d l a \<Longrightarrow> is_mul c \<Longrightarrow> is_factor d r b \<Longrightarrow> is_term d (Bin c l r) (a @ TOp c # b)"
| one_atom: "is_atom d n ts \<Longrightarrow> is_factor d n ts"
| sign_factor: "is_add c \<Longrightarrow> is_factor d n ts \<Longrightarrow> is_factor d (Sign c n) (TOp c # ts)"
| num_token: "is_atom d (Num (literal s) s) [TNum s]"
| var_token: "is_atom d (Var s) [TId s]"
| group_expr: "d < max_nesting \<Longrightarrow> is_expr (Suc d) n ts \<Longrightarrow> is_atom d n (TOp (CHR ''('') # ts @ [TOp (CHR '')'')])"

lemma parser_sound:
  "parse_expr d ts = Inr (n, r) \<Longrightarrow> \<exists>p. ts = p @ r \<and> is_expr d n p"
  "expr_loop d m ts = Inr (n, r) \<Longrightarrow> is_expr d m q \<Longrightarrow> \<exists>p. ts = p @ r \<and> is_expr d n (q @ p)"
  "parse_term d ts = Inr (n, r) \<Longrightarrow> \<exists>p. ts = p @ r \<and> is_term d n p"
  "term_loop d m ts = Inr (n, r) \<Longrightarrow> is_term d m q \<Longrightarrow> \<exists>p. ts = p @ r \<and> is_term d n (q @ p)"
  "parse_factor d ts = Inr (n, r) \<Longrightarrow> \<exists>p. ts = p @ r \<and> is_factor d n p"
  "parse_atom d ts = Inr (n, r) \<Longrightarrow> \<exists>p. ts = p @ r \<and> is_atom d n p"
proof (induction d ts and d m ts and d ts and d m ts and d ts and d ts arbitrary: n r and n r q and n r and n r q and n r and n r
    rule: parse_expr_expr_loop_parse_term_term_loop_parse_factor_parse_atom.induct)
  case (1 d ts)
  from 1(3) obtain m x where t: "parse_term d ts = Inr (m, x)" and l: "expr_loop d m x = Inr (n, r)"
    by (auto simp: parse_expr.simps split: sum.splits)
  from 1(1) [OF t] obtain p where p: "ts = p @ x" "is_term d m p" by blast
  from 1(2) [OF t refl l one_term [OF p(2)]] p(1) show ?case by auto
next
  case (2 d m c ts)
  show ?case
  proof (cases "is_add c")
    case True
    with 2(3) obtain k x where t: "parse_term d ts = Inr (k, x)" and l: "expr_loop d (Bin c m k) x = Inr (n, r)"
      by (auto simp: expr_loop.simps split: sum.splits)
    from 2(1) [OF True t] obtain p where p: "ts = p @ x" "is_term d k p" by blast
    from 2(2) [OF True t refl l add_term [OF 2(4) True p(2)]] p(1) show ?thesis by auto
  qed (use 2 in \<open>simp add: expr_loop.simps\<close>)
next
  case (4 d ts)
  from 4(3) obtain m x where t: "parse_factor d ts = Inr (m, x)" and l: "term_loop d m x = Inr (n, r)"
    by (auto simp: parse_term.simps split: sum.splits)
  from 4(1) [OF t] obtain p where p: "ts = p @ x" "is_factor d m p" by blast
  from 4(2) [OF t refl l one_factor [OF p(2)]] p(1) show ?case by auto
next
  case (5 d m c ts)
  show ?case
  proof (cases "is_mul c")
    case True
    with 5(3) obtain k x where t: "parse_factor d ts = Inr (k, x)" and l: "term_loop d (Bin c m k) x = Inr (n, r)"
      by (auto simp: term_loop.simps split: sum.splits)
    from 5(1) [OF True t] obtain p where p: "ts = p @ x" "is_factor d k p" by blast
    from 5(2) [OF True t refl l mul_factor [OF 5(4) True p(2)]] p(1) show ?thesis by auto
  qed (use 5 in \<open>simp add: term_loop.simps\<close>)
next
  case (7 d c ts)
  show ?case
  proof (cases "is_add c")
    case True
    with 7(3) obtain k where t: "parse_factor d ts = Inr (k, r)" "n = Sign c k"
      by (auto simp: parse_factor.simps split: sum.splits)
    from 7(1) [OF True t(1)] obtain p where "ts = p @ r" "is_factor d k p" by blast
    with sign_factor [OF True] t(2) show ?thesis by (intro exI [of _ "TOp c # p"]) simp
  next
    case False
    with 7(3) have "parse_atom d (TOp c # ts) = Inr (n, r)" by (simp add: parse_factor.simps)
    from 7(2) [OF False this] show ?thesis using one_atom by blast
  qed
next
  case (12 d c ts)
  then obtain t x where c: "c = CHR ''(''" "d < max_nesting" and e: "parse_expr (Suc d) ts = Inr (n, t # x)" and t: "t = TOp (CHR '')'')" "x = r"
    by (auto simp: parse_atom.simps split: if_splits sum.splits list.splits)
  from 12(1) e c obtain p where "ts = p @ t # x" "is_expr (Suc d) n p" by fastforce
  with group_expr [OF c(2)] c(1) t show ?case by (intro exI [of _ "TOp c # p @ [t]"]) simp
qed (auto simp: parser_simps intro: one_atom num_token var_token)

definition no_mul :: "token list \<Rightarrow> bool" where
  "no_mul ts \<longleftrightarrow> (case ts of TOp c # _ \<Rightarrow> \<not> is_mul c | _ \<Rightarrow> True)"

lemma ops_apart [simp]: "is_add c \<Longrightarrow> \<not> is_mul c" "\<not> is_add (CHR ''('')" "\<not> is_add (CHR '')'')" "\<not> is_mul (CHR '')'')"
  by (auto simp: is_add_def is_mul_def)

lemma term_loop_stop: "no_mul rest \<Longrightarrow> term_loop d n rest = Inr (n, rest)"
  by (auto simp: no_mul_def term_loop.simps split: list.splits token.splits)

lemma expr_loop_close: "expr_loop d n (TOp (CHR '')'') # r) = Inr (n, TOp (CHR '')'') # r)"
  by (simp add: expr_loop.simps)

lemma parser_complete:
  "is_expr d n a \<Longrightarrow> no_mul rest \<longrightarrow> parse_expr d (a @ rest) = expr_loop d n rest"
  "is_term d n a \<Longrightarrow> parse_term d (a @ rest) = term_loop d n rest"
  "is_factor d n a \<Longrightarrow> parse_factor d (a @ rest) = Inr (n, rest)"
  "is_atom d n a \<Longrightarrow> parse_atom d (a @ rest) = Inr (n, rest) \<and> parse_factor d (a @ rest) = parse_atom d (a @ rest)"
proof (induction arbitrary: rest and rest and rest and rest rule: is_expr_is_term_is_factor_is_atom.inducts)
  case (one_term d n ts)
  then show ?case by (simp add: parse_expr.simps term_loop_stop)
next
  case (add_term d l a c r b)
  have "parse_expr d ((a @ TOp c # b) @ rest) = expr_loop d l (TOp c # b @ rest)"
    using add_term.IH(1) [of "TOp c # b @ rest"] add_term.hyps(2) by (simp add: no_mul_def)
  with add_term show ?case by (simp add: expr_loop.simps term_loop_stop)
next
  case (one_factor d n ts)
  then show ?case by (simp add: parse_term.simps)
next
  case (mul_factor d l a c r b)
  then show ?case by (simp add: term_loop.simps)
next
  case (sign_factor c d n ts)
  then show ?case by (simp add: parse_factor.simps)
next
  case (group_expr d n ts)
  let ?close = "TOp (CHR '')'') # rest"
  have "parse_expr (Suc d) (ts @ ?close) = Inr (n, ?close)"
    using group_expr.IH [of ?close] by (simp add: no_mul_def expr_loop_close)
  with group_expr.hyps(1) show ?case by (simp add: parse_atom.simps parse_factor.simps)
qed (simp_all add: parse_atom.simps parse_factor.simps)

text \<open>
  Claim C23. The parser decides the grammar: a token list parses to a tree exactly when the grammar derives the
  tree from it, with at most 32 parentheses around any part; so the grammar is unambiguous.
\<close>

theorem parser_exact: "parse_tokens ts = Inr n \<longleftrightarrow> is_expr 0 n ts"
proof
  assume "parse_tokens ts = Inr n"
  then have "parse_expr 0 ts = Inr (n, [])" by (auto simp: parse_tokens_def split: sum.splits list.splits)
  from parser_sound(1) [OF this] show "is_expr 0 n ts" by simp
next
  assume "is_expr 0 n ts"
  from parser_complete(1) [OF this, of "[]"] show "parse_tokens ts = Inr n"
    by (simp add: no_mul_def expr_loop.simps parse_tokens_def)
qed

section \<open>Python equality and text\<close>

text \<open>
  \<open>==\<close> of JSON values: numbers by value, \<open>True\<close> and \<open>False\<close> as 1 and 0, dictionaries in any order. (What
  Python compares by identity, a NaN inside a list or an object that is not JSON, is taken as another object.)
\<close>

fun number_of :: "pyval \<Rightarrow> pyfloat option" where
  "number_of (JBool b) = Some (Fin (if b then 1 else 0))"
| "number_of v = num_val v"

fun py_eq :: "pyval \<Rightarrow> pyval \<Rightarrow> bool" and py_eqs :: "pyval list \<Rightarrow> pyval list \<Rightarrow> bool" and py_members :: "obj \<Rightarrow> obj \<Rightarrow> bool" where
  "py_eq JNull w = (w = JNull)"
| "py_eq (JStr s) w = (w = JStr s)"
| "py_eq (JList vs) w = (case w of JList ws \<Rightarrow> py_eqs vs ws | _ \<Rightarrow> False)"
| "py_eq (JObj kvs) w = (case w of JObj kws \<Rightarrow> length kvs = length kws \<and> py_members kvs kws | _ \<Rightarrow> False)"
| "py_eq (JOther t) w = False"
| "py_eq v w = (case (number_of v, number_of w) of (Some a, Some b) \<Rightarrow> fle a b \<and> fle b a | _ \<Rightarrow> False)"
| "py_eqs [] ws = (ws = [])"
| "py_eqs (v # vs) ws = (case ws of [] \<Rightarrow> False | w # ws \<Rightarrow> py_eq v w \<and> py_eqs vs ws)"
| "py_members [] kws = True"
| "py_members ((k, v) # kvs) kws = ((case map_of kws k of None \<Rightarrow> False | Some w \<Rightarrow> py_eq v w) \<and> py_members kvs kws)"

text \<open>\<open>str(x)\<close>; the \<open>repr\<close> of floats and containers is the parameter \<open>txt\<close>.\<close>

fun py_str :: "(pyval \<Rightarrow> string) \<Rightarrow> pyval \<Rightarrow> string" where
  "py_str txt JNull = ''None''"
| "py_str txt (JBool b) = (if b then ''True'' else ''False'')"
| "py_str txt (JInt i) = (if i < 0 then ''-'' @ show_nat (nat (- i)) else show_nat (nat i))"
| "py_str txt (JStr s) = s"
| "py_str txt v = txt v"

text \<open>\<open>for x in v\<close>.\<close>

fun iterate :: "pyval \<Rightarrow> exn + pyval list" where
  "iterate (JList vs) = Inr vs"
| "iterate (JStr s) = Inr (map (\<lambda>c. JStr [c]) s)"
| "iterate (JObj kvs) = Inr (map (JStr \<circ> fst) kvs)"
| "iterate _ = Inl (TypeError ''not iterable'')"

fun falsy :: "pyval \<Rightarrow> bool" where
  "falsy JNull = True"
| "falsy (JBool b) = (\<not> b)"
| "falsy (JInt i) = (i = 0)"
| "falsy (JFloat f) = (f = Fin 0)"
| "falsy (JStr s) = (s = [])"
| "falsy (JList vs) = (vs = [])"
| "falsy (JObj kvs) = (kvs = [])"
| "falsy (JOther t) = False"

section \<open>Declarations\<close>

text \<open>\<open>DerivationRejected\<close>, \<open>DerivationRefused\<close>, and any other exception that escapes.\<close>

datatype derivation_fault =
    Shape string
  | Grammar grammar_fault
  | DuplicateId string
  | SelfReference string
  | DerivationCycle string string
  | MarkerMismatch pyval
  | DatasetMalformed
  | DuplicateVariable "string list"
  | IdCollision string
  | DtypeMismatch string
  | ShapeMismatch string string
  | UnitMismatch "(string \<times> char \<times> string) list"
  | Escaped exn

fun describe :: "node \<Rightarrow> string" where
  "describe (Num _ s) = s"
| "describe (Var x) = x"
| "describe (Sign c n) = c # describe n"
| "describe (Bin c l r) = describe l @ '' '' @ [c] @ '' '' @ describe r"

fun identifiers :: "node \<Rightarrow> string list \<Rightarrow> string list" where
  "identifiers (Var x) ordered = add_new ordered [x]"
| "identifiers (Num _ _) ordered = ordered"
| "identifiers (Sign _ n) ordered = identifiers n ordered"
| "identifiers (Bin _ l r) ordered = identifiers r (identifiers l ordered)"

abbreviation operands :: "node \<Rightarrow> string list" where
  "operands n \<equiv> identifiers n []"

record derived_decl =
  dl_id :: string
  dl_expression :: string
  dl_node :: node
  dl_operands :: "string list"

fun grammar :: "grammar_fault + 'a \<Rightarrow> derivation_fault + 'a" where
  "grammar (Inl g) = Inl (Grammar g)"
| "grammar (Inr x) = Inr x"

definition text_field :: "obj \<Rightarrow> string \<Rightarrow> derivation_fault + string" where
  "text_field kvs f = (case obj_get kvs f of
      JStr s \<Rightarrow> if f \<noteq> ''expression'' \<and> s = [] then Inl (Shape f) else Inr s
    | _ \<Rightarrow> Inl (Shape f))"

definition check_declaration :: "pyval \<Rightarrow> derivation_fault + derived_decl" where
  "check_declaration entry = (case entry of
      JObj kvs \<Rightarrow>
        bind_res (text_field kvs ''id'') (\<lambda>i. bind_res (text_field kvs ''quantity'') (\<lambda>_. bind_res (text_field kvs ''unit'') (\<lambda>_.
        bind_res (text_field kvs ''expression'') (\<lambda>e.
        if \<not> is_identifier i then Inl (Shape i)
        else bind_res (grammar (parse_text e)) (\<lambda>n.
          if operands n = [] then Inl (Grammar (ConstantOnly e))
          else Inr \<lparr>dl_id = i, dl_expression = e, dl_node = n, dl_operands = operands n\<rparr>)))))
    | _ \<Rightarrow> Inl (Shape ''declaration''))"

fun check_all :: "pyval list \<Rightarrow> derivation_fault + derived_decl list" where
  "check_all [] = Inr []"
| "check_all (e # es) = bind_res (check_declaration e) (\<lambda>d. bind_res (check_all es) (\<lambda>ds. Inr (d # ds)))"

fun check_order :: "string list \<Rightarrow> derived_decl list \<Rightarrow> derivation_fault + unit" where
  "check_order earlier [] = Inr ()"
| "check_order earlier (d # later) =
     (if dl_id d \<in> set earlier then Inl (DuplicateId (dl_id d))
      else if dl_id d \<in> set (dl_operands d) then Inl (SelfReference (dl_id d))
      else bind_res (check_each (\<lambda>x. if x \<in> set earlier then Inr ()
          else guard_res (x \<notin> dl_id ` set later) (DerivationCycle (dl_id d) x)) (dl_operands d))
        (\<lambda>_. check_order (earlier @ [dl_id d]) later))"

definition check_derived_variables :: "pyval list \<Rightarrow> derivation_fault + derived_decl list" where
  "check_derived_variables derived =
     bind_res (check_all derived) (\<lambda>ds. bind_res (check_order [] ds) (\<lambda>_. Inr ds))"

section \<open>Recorded markers\<close>

fun str_list :: "pyval list \<Rightarrow> string list option" where
  "str_list [] = Some []"
| "str_list (JStr s # vs) = map_option (\<lambda>ss. s # ss) (str_list vs)"
| "str_list _ = None"

text \<open>A marker a variable already carries must be the projection of its own expression.\<close>

definition marker_ok :: "pyval \<Rightarrow> bool" where
  "marker_ok marker = (case marker of
      JNull \<Rightarrow> True
    | JObj m \<Rightarrow> (case (obj_get m ''kind'', obj_get m ''expression'', obj_get m ''operand_ids'') of
        (JStr kind, JStr e, JList ids) \<Rightarrow> kind = ''expression'' \<and> (case str_list ids of
            None \<Rightarrow> False
          | Some names \<Rightarrow> names \<noteq> [] \<and> distinct names \<and> list_all is_identifier names \<and>
              (case parse_text e of Inl _ \<Rightarrow> False | Inr n \<Rightarrow> set names = set (operands n)))
      | _ \<Rightarrow> False)
    | _ \<Rightarrow> False)"

definition check_recorded_marker :: "obj \<Rightarrow> derivation_fault + unit" where
  "check_recorded_marker v = guard_res (marker_ok (obj_get v ''derivation'')) (MarkerMismatch (obj_get v ''id''))"

section \<open>Evaluation\<close>

fun element_is_readable :: "pyval \<Rightarrow> bool" where
  "element_is_readable JNull = True"
| "element_is_readable (JInt i) = (- max_exact_int \<le> i \<and> i \<le> max_exact_int)"
| "element_is_readable (JFloat f) = isfinite f"
| "element_is_readable _ = False"

definition member :: "(string \<times> 'a) list \<Rightarrow> string \<Rightarrow> derivation_fault + 'a" where
  "member kvs k = (case map_of kvs k of None \<Rightarrow> Inl (Escaped (KeyError k)) | Some v \<Rightarrow> Inr v)"

text \<open>The units of two variables that are added or subtracted directly.\<close>

fun unit_violations :: "(string \<times> obj) list \<Rightarrow> node \<Rightarrow> derivation_fault + (string \<times> char \<times> string) list" where
  "unit_violations ops (Bin c l r) =
     bind_res (unit_violations ops l) (\<lambda>vl. bind_res (unit_violations ops r) (\<lambda>vr.
       case (l, r) of
         (Var x, Var y) \<Rightarrow>
           (if \<not> is_add c then Inr (vl @ vr)
            else bind_res (member ops x) (\<lambda>a. bind_res (member ops y) (\<lambda>b.
              Inr (vl @ vr @ (if py_eq (obj_get a ''unit'') (obj_get b ''unit'') then [] else [(x, c, y)])))))
       | _ \<Rightarrow> Inr (vl @ vr)))"
| "unit_violations ops _ = Inr []"

definition arith :: "char \<Rightarrow> pyfloat \<Rightarrow> pyfloat \<Rightarrow> pyfloat" where
  "arith c a b = (if c = CHR ''+'' then fadd a b else if c = CHR ''-'' then fsub a b
     else if c = CHR ''*'' then fmul a b else fdiv a b)"

text \<open>One element; \<open>None\<close> is a failed one, with its cause noted.\<close>

fun eval_node :: "obj \<Rightarrow> node \<Rightarrow> string list \<Rightarrow> derivation_fault + pyfloat option \<times> string list" where
  "eval_node row (Num v s) causes = Inr (Some v, causes)"
| "eval_node row (Var x) causes = bind_res (member row x) (\<lambda>v. if v = JNull then Inr (None, causes)
     else case py_float v of
         Inl OverflowError \<Rightarrow> Inl (DtypeMismatch x)
       | Inl (ValueError _) \<Rightarrow> Inl (DtypeMismatch x)
       | Inl e \<Rightarrow> Inl (Escaped e)
       | Inr f \<Rightarrow> Inr (Some f, causes))"
| "eval_node row (Sign c n) causes = bind_res (eval_node row n causes) (\<lambda>(child, causes).
     Inr (map_option (\<lambda>f. if c = CHR ''-'' then fneg f else f) child, causes))"
| "eval_node row (Bin c l r) causes = bind_res (eval_node row l causes) (\<lambda>(left, causes). case left of
       None \<Rightarrow> Inr (None, causes)
     | Some a \<Rightarrow> bind_res (eval_node row r causes) (\<lambda>(right, causes). case right of
         None \<Rightarrow> Inr (None, causes)
       | Some b \<Rightarrow>
           if c \<notin> set ''+-*'' \<and> b = Fin 0 then
             Inr (None, add_new causes [''derivation_division_by_zero: '' @ describe (Bin c l r)])
           else if \<not> isfinite (arith c a b) then
             Inr (None, add_new causes [''derivation_non_finite_result: '' @ describe (Bin c l r)])
           else Inr (Some (arith c a b), causes)))"

fun null_cause :: "obj \<Rightarrow> node \<Rightarrow> string list \<Rightarrow> derivation_fault + string list" where
  "null_cause row (Num v s) acc = Inr acc"
| "null_cause row (Var x) acc = bind_res (member row x) (\<lambda>v. Inr (if v = JNull then add_new acc [x] else acc))"
| "null_cause row (Sign c n) acc = null_cause row n acc"
| "null_cause row (Bin c l r) acc = bind_res (null_cause row l acc) (null_cause row r)"

text \<open>One row: its value, with the null operands as the cause when there are any.\<close>

definition eval_row :: "node \<Rightarrow> obj \<Rightarrow> string list \<Rightarrow> derivation_fault + pyval \<times> string list" where
  "eval_row n row causes = bind_res (null_cause row n []) (\<lambda>nulls. bind_res (eval_node row n causes) (\<lambda>(v, causes).
     Inr (case v of
         None \<Rightarrow> (JNull, if nulls = [] then causes
            else add_new causes [''derivation_null_operand: '' @ py_join '', '' (sort nulls)])
       | Some f \<Rightarrow> (JFloat f, causes))))"

fun eval_rows :: "node \<Rightarrow> obj list \<Rightarrow> string list \<Rightarrow> derivation_fault + pyval list \<times> string list" where
  "eval_rows n [] causes = Inr ([], causes)"
| "eval_rows n (row # rows) causes = bind_res (eval_row n row causes) (\<lambda>(v, causes).
     bind_res (eval_rows n rows causes) (\<lambda>(vs, causes). Inr (v # vs, causes)))"

section \<open>One derived variable\<close>

definition marker_of :: "string \<Rightarrow> node \<Rightarrow> pyval" where
  "marker_of e n = JObj [(''kind'', JStr ''expression''), (''expression'', JStr e), (''operand_ids'', JList (map JStr (operands n)))]"

definition unknown_status :: pyval where
  "unknown_status = JObj [(''status'', JStr ''unknown'')]"

definition values_of :: "obj \<Rightarrow> pyval list" where
  "values_of v = (case obj_get v ''values'' of JList vs \<Rightarrow> vs | _ \<Rightarrow> [])"

definition check_operand :: "string \<times> obj \<Rightarrow> derivation_fault + unit" where
  "check_operand op = (case op of (x, v) \<Rightarrow>
     guard_res (obj_get v ''dtype'' = JStr ''float64'' \<and> (case obj_get v ''values'' of JList vs \<Rightarrow> list_all element_is_readable vs | _ \<Rightarrow> False))
       (DtypeMismatch x))"

definition check_shape :: "string \<Rightarrow> pyval \<Rightarrow> nat \<Rightarrow> string \<times> obj \<Rightarrow> derivation_fault + unit" where
  "check_shape first dims len op = (case op of (x, v) \<Rightarrow>
     guard_res (py_eq (obj_get v ''dimensions'') dims \<and> length (values_of v) = len) (ShapeMismatch first x))"

fun escape :: "exn + 'a \<Rightarrow> derivation_fault + 'a" where
  "escape (Inl e) = Inl (Escaped e)"
| "escape (Inr x) = Inr x"

fun add_channels :: "pyval list \<Rightarrow> pyval list \<Rightarrow> pyval list" where
  "add_channels acc [] = acc"
| "add_channels acc (c # cs) = add_channels (if list_ex (py_eq c) acc then acc else acc @ [c]) cs"

fun channel_ids :: "pyval list \<Rightarrow> (string \<times> obj) list \<Rightarrow> derivation_fault + pyval list" where
  "channel_ids acc [] = Inr acc"
| "channel_ids acc ((x, v) # ops) = bind_res (escape (iterate (case map_of v ''channel_ids'' of None \<Rightarrow> JList [] | Some c \<Rightarrow> c)))
     (\<lambda>cs. channel_ids (add_channels acc cs) ops)"

definition rows_of :: "(string \<times> obj) list \<Rightarrow> nat \<Rightarrow> obj list" where
  "rows_of ops len = map (\<lambda>i. map (\<lambda>(x, v). (x, values_of v ! i)) ops) [0..<len]"

definition derived_variable :: "string \<Rightarrow> obj \<Rightarrow> pyval list \<Rightarrow> pyval list \<Rightarrow> pyval list \<Rightarrow> string \<Rightarrow> pyval \<Rightarrow> obj" where
  "derived_variable i entry channels dims vs status marker =
     [(''id'', JStr i), (''quantity'', obj_get entry ''quantity''), (''unit'', obj_get entry ''unit''),
      (''channel_ids'', JList channels), (''dtype'', JStr ''float64''), (''dimensions'', JList dims), (''values'', JList vs),
      (''uncertainty'', unknown_status), (''calibration'', unknown_status), (''status'', JStr status), (''derivation'', marker)]"

definition status_of :: "pyval list \<Rightarrow> string" where
  "status_of vs = (let failed = length (filter (\<lambda>v. v = JNull) vs) in
     if failed = 0 then ''valid'' else if failed = length vs then ''invalid'' else ''partial'')"

text \<open>When every operand resolves: the checks, then the rows.\<close>

definition derive_resolved :: "string \<Rightarrow> string \<Rightarrow> obj \<Rightarrow> node \<Rightarrow> (string \<times> obj) list \<Rightarrow> derivation_fault + obj" where
  "derive_resolved i e entry n ops =
     (let dims = obj_get (snd (hd ops)) ''dimensions''; len = length (values_of (snd (hd ops))) in
      bind_res (check_each check_operand ops) (\<lambda>_.
      bind_res (check_each (check_shape (fst (hd ops)) dims len) ops) (\<lambda>_.
      bind_res (unit_violations ops n) (\<lambda>bad. if bad \<noteq> [] then Inl (UnitMismatch bad) else
      bind_res (channel_ids [] ops) (\<lambda>channels.
      bind_res (eval_rows n (rows_of ops len) []) (\<lambda>(vs, causes).
      bind_res (if falsy dims then Inr [] else escape (iterate dims)) (\<lambda>dims.
        let v = derived_variable i entry channels dims vs (status_of vs) (marker_of e n) in
        Inr (if status_of vs = ''valid'' then v else v @ [(''status_reason'', JStr (py_join ''; '' (sort causes)))]))))))))"

text \<open>
  \<open>_derive_one\<close>, over the variables with the text of their ids. The invalid variable of an unresolved operand
  carries its reason before the marker.
\<close>

definition derive_one :: "obj \<Rightarrow> (string \<times> obj) list \<Rightarrow> derivation_fault + obj" where
  "derive_one entry vars =
     (case (obj_get entry ''id'', obj_get entry ''expression'') of (JStr i, JStr e) \<Rightarrow>
        bind_res (grammar (parse_text e)) (\<lambda>n.
          let missing = filter (\<lambda>x. x \<notin> fst ` set vars) (operands n) in
          if missing \<noteq> [] then
            Inr (butlast (derived_variable i entry [] [] [] ''invalid'' JNull) @
              [(''status_reason'', JStr (''derivation_operand_missing: '' @ py_join '', '' (sort missing))), (''derivation'', marker_of e n)])
          else derive_resolved i e entry n (map (\<lambda>x. (x, the (map_of vars x))) (operands n)))
      | _ \<Rightarrow> Inl (Escaped (TypeError ''declaration'')))"

section \<open>A dataset\<close>

fun objects :: "pyval list \<Rightarrow> obj list option" where
  "objects [] = Some []"
| "objects (JObj v # vs) = map_option (\<lambda>ws. v # ws) (objects vs)"
| "objects _ = None"

definition keyed :: "(pyval \<Rightarrow> string) \<Rightarrow> obj \<Rightarrow> string \<times> obj" where
  "keyed txt v = (py_str txt (obj_get v ''id''), v)"

fun derive_all :: "obj list \<Rightarrow> (string \<times> obj) list \<Rightarrow> derivation_fault + (string \<times> obj) list" where
  "derive_all [] vars = Inr vars"
| "derive_all (entry # entries) vars = (case obj_get entry ''id'' of
      JStr i \<Rightarrow> if i \<in> fst ` set vars then Inl (IdCollision i)
        else bind_res (derive_one entry vars) (\<lambda>v. derive_all entries (vars @ [(i, v)]))
    | _ \<Rightarrow> Inl (Escaped (TypeError ''declaration'')))"

definition entries :: "pyval list \<Rightarrow> obj list" where
  "entries derived = List.map_filter (\<lambda>e. case e of JObj d \<Rightarrow> Some d | _ \<Rightarrow> None) derived"

definition derive_dataset_variables :: "(pyval \<Rightarrow> string) \<Rightarrow> obj \<Rightarrow> pyval list \<Rightarrow> derivation_fault + obj" where
  "derive_dataset_variables txt dataset derived =
     bind_res (check_derived_variables derived) (\<lambda>_. case obj_get dataset ''variables'' of
         JList vs \<Rightarrow> (case objects vs of
             None \<Rightarrow> Inl DatasetMalformed
           | Some variables \<Rightarrow> bind_res (check_each check_recorded_marker variables) (\<lambda>_.
               let vars = map (keyed txt) variables in
               if \<not> distinct (map fst vars) then
                 Inl (DuplicateVariable (sort (remdups (filter (\<lambda>k. 1 < count_list (map fst vars) k) (map fst vars)))))
               else bind_res (derive_all (entries derived) vars) (\<lambda>vars.
                 Inr (AList.update ''variables'' (JList (map (JObj \<circ> snd) vars)) dataset))))
       | _ \<Rightarrow> Inl DatasetMalformed)"

section \<open>Accepted declarations\<close>

lemma check_all_forall: "check_all derived = Inr ds \<longleftrightarrow> list_all2 (\<lambda>e d. check_declaration e = Inr d) derived ds"
  by (induction derived arbitrary: ds) (auto simp: list_all2_Cons1)

lemma check_order_iff:
  "distinct earlier \<Longrightarrow> check_order earlier ds = Inr () \<longleftrightarrow> distinct (earlier @ map dl_id ds) \<and>
    (\<forall>i < length ds. \<forall>x \<in> set (dl_operands (ds ! i)). x \<in> dl_id ` set ds \<longrightarrow> x \<in> set earlier \<union> dl_id ` set (take i ds))"
proof (induction ds arbitrary: earlier)
  case (Cons d ds)
  let ?id = "dl_id d"
  let ?P = "\<lambda>i. \<forall>x \<in> set (dl_operands ((d # ds) ! i)). x \<in> dl_id ` set (d # ds) \<longrightarrow>
      x \<in> set earlier \<union> dl_id ` set (take i (d # ds))"
  have all: "(\<forall>i < length (d # ds). ?P i) \<longleftrightarrow> ?P 0 \<and> (\<forall>i < length ds. ?P (Suc i))"
    by (simp only: length_Cons All_less_Suc2)
  have tail: "(\<forall>i < length ds. ?P (Suc i)) \<longleftrightarrow> (\<forall>i < length ds. \<forall>x \<in> set (dl_operands (ds ! i)).
      x \<in> dl_id ` set ds \<longrightarrow> x \<in> set (earlier @ [?id]) \<union> dl_id ` set (take i ds))"
    by auto
  show ?case
  proof (cases "?id \<in> set earlier")
    case False
    then have "distinct (earlier @ [?id])" using Cons.prems by simp
    note ih = Cons.IH [OF this]
    have "check_order earlier (d # ds) = Inr () \<longleftrightarrow> ?P 0 \<and> ?id \<notin> set earlier \<and> check_order (earlier @ [?id]) ds = Inr ()"
      using False by (auto simp: check_each_Inr_iff)
    also have "\<dots> \<longleftrightarrow> distinct (earlier @ map dl_id (d # ds)) \<and> ?P 0 \<and> (\<forall>i < length ds. ?P (Suc i))"
      unfolding tail ih using False Cons.prems by auto
    finally show ?thesis unfolding all .
  qed simp
qed simp

text \<open>
  The static check accepts an array of declarations exactly when each is well formed, the ids are distinct and
  an operand that names a derived variable names an earlier one: the declaration order is an evaluation order.
\<close>

theorem declarations_ordered:
  "check_derived_variables derived = Inr ds \<longleftrightarrow>
    list_all2 (\<lambda>e d. check_declaration e = Inr d) derived ds \<and> distinct (map dl_id ds) \<and>
    list_all (\<lambda>i. list_all (\<lambda>x. x \<notin> dl_id ` set (drop i ds)) (dl_operands (ds ! i))) [0..<length ds]"
proof -
  have later: "x \<in> dl_id ` set (take i ds) \<longleftrightarrow> x \<notin> dl_id ` set (drop i ds)"
    if "distinct (map dl_id ds)" "x \<in> dl_id ` set ds" for x i
  proof -
    have "distinct (map dl_id (take i ds) @ map dl_id (drop i ds))"
      using that(1) by (metis append_take_drop_id map_append)
    moreover have "dl_id ` set ds = dl_id ` set (take i ds) \<union> dl_id ` set (drop i ds)"
      by (metis append_take_drop_id image_Un set_append)
    ultimately show ?thesis using that(2) by auto
  qed
  have sub: "x \<in> dl_id ` set (drop i ds) \<Longrightarrow> x \<in> dl_id ` set ds" for x i
    using set_drop_subset [of i ds] by blast
  have "check_order [] ds = Inr () \<longleftrightarrow> distinct (map dl_id ds) \<and>
    (\<forall>i < length ds. \<forall>x \<in> set (dl_operands (ds ! i)). x \<notin> dl_id ` set (drop i ds))"
    unfolding check_order_iff [OF distinct.simps(1) [THEN iffD2, OF TrueI]]
    by (rule conj_cong) (use later sub in \<open>auto; blast\<close>)+
  moreover have "(\<forall>i < length ds. \<forall>x \<in> set (dl_operands (ds ! i)). x \<notin> dl_id ` set (drop i ds)) \<longleftrightarrow>
      list_all (\<lambda>i. list_all (\<lambda>x. x \<notin> dl_id ` set (drop i ds)) (dl_operands (ds ! i))) [0..<length ds]"
    unfolding list_all_iff set_upt by (simp only: atLeastLessThan_iff le0 simp_thms Ball_def)
  moreover have "check_derived_variables derived = Inr ds \<longleftrightarrow>
      list_all2 (\<lambda>e d. check_declaration e = Inr d) derived ds \<and> check_order [] ds = Inr ()"
    by (auto simp: check_derived_variables_def check_all_forall)
  ultimately show ?thesis by (simp only:)
qed

section \<open>Literals are finite\<close>

lemma digits_val_bound: "digits_val acc s = Some n \<Longrightarrow> n < Suc acc * 10 ^ length s"
proof (induction s arbitrary: acc)
  case (Cons c cs)
  then obtain d where d: "digit_val c = Some d" "digits_val (10 * acc + d) cs = Some n"
    by (auto split: option.splits)
  from d(1) have "Suc (10 * acc + d) \<le> 10 * Suc acc" by (auto simp: Let_def split: if_splits)
  then have "Suc (10 * acc + d) * 10 ^ length cs \<le> 10 * Suc acc * 10 ^ length cs" by (rule mult_right_mono) simp
  also have "\<dots> = Suc acc * 10 ^ length (c # cs)" by (simp only: length_Cons power_Suc mult.assoc mult.left_commute)
  finally show ?case using Cons.IH [OF d(2)] by (rule less_le_trans [rotated])
qed simp

lemma decimal_bounds: "0 \<le> decimal s" "decimal s \<le> 10 ^ length s"
proof -
  let ?w = "takeWhile (\<lambda>c. c \<noteq> CHR ''.'') s" and ?f = "drop 1 (dropWhile (\<lambda>c. c \<noteq> CHR ''.'') s)"
  have "length (?w @ ?f) \<le> length s"
    by (metis append_take_drop_id drop_drop length_append length_drop takeWhile_dropWhile_id add_le_cancel_left diff_le_self)
  then have p: "(10 :: rat) ^ length (?w @ ?f) \<le> 10 ^ length s" by (rule power_increasing) simp
  show "0 \<le> decimal s" by (auto simp: decimal_def Let_def split: option.splits)
  show "decimal s \<le> 10 ^ length s"
  proof (cases "digits_val 0 (?w @ ?f)")
    case (Some n)
    then have "n < 10 ^ length (?w @ ?f)" using digits_val_bound [of 0] by fastforce
    then have "of_nat n < (10 :: rat) ^ length (?w @ ?f)" by (metis of_nat_less_iff of_nat_numeral of_nat_power)
    moreover have "of_nat n / 10 ^ length ?f \<le> (of_nat n :: rat)" by (simp add: divide_le_eq mult_le_cancel_left1)
    ultimately have "of_nat n / 10 ^ length ?f \<le> (10 :: rat) ^ length s" using p by linarith
    then show ?thesis using Some by (simp add: decimal_def Let_def)
  qed (simp add: decimal_def Let_def)
qed

lemma fl_finite: "\<bar>x\<bar> \<le> 2 ^ 1000 \<Longrightarrow> isfinite (fl x)"
proof -
  assume "\<bar>x\<bar> \<le> 2 ^ 1000"
  then have "flmag \<bar>x\<bar> \<le> 2 ^ 1000" using flmag_mono [of "\<bar>x\<bar>" "2 ^ 1000"] flmag_power [of 1000] by simp
  also have "(2 :: rat) ^ 1000 < 2 ^ 1024" by (rule power_strict_increasing) simp_all
  finally show ?thesis by (simp add: fl_def Let_def)
qed

lemma literal_finite: "length s \<le> max_expression_length \<Longrightarrow> isfinite (literal s)"
proof -
  assume "length s \<le> max_expression_length"
  then have "(10 :: rat) ^ length s \<le> 10 ^ 256" by (intro power_increasing) (simp_all add: max_expression_length_def)
  also have "\<dots> \<le> 2 ^ 1000" by simp
  finally show ?thesis using decimal_bounds [of s] by (simp add: literal_def fl_finite)
qed

section \<open>Trees and their tokens\<close>

fun spelled :: "token set \<Rightarrow> node \<Rightarrow> bool" where
  "spelled T (Num v s) = (v = literal s \<and> TNum s \<in> T)"
| "spelled T (Var x) = (TId x \<in> T)"
| "spelled T (Sign c n) = spelled T n"
| "spelled T (Bin c l r) = (spelled T l \<and> spelled T r)"

lemma spelled_mono: "spelled T n \<Longrightarrow> T \<subseteq> U \<Longrightarrow> spelled U n"
  by (induction n) auto

lemma derivation_spelled:
  "is_expr d n ts \<Longrightarrow> spelled (set ts) n"
  "is_term d n ts \<Longrightarrow> spelled (set ts) n"
  "is_factor d n ts \<Longrightarrow> spelled (set ts) n"
  "is_atom d n ts \<Longrightarrow> spelled (set ts) n"
  by (induction rule: is_expr_is_term_is_factor_is_atom.inducts) (auto elim: spelled_mono)

lemma next_token_kind:
  assumes "next_token c cs = Inr (Some t, r)"
  shows "case t of TId w \<Rightarrow> is_identifier w | _ \<Rightarrow> True"
  using assms by (auto simp: next_token_def Let_def list_all_iff word_lower split: if_splits dest: set_takeWhileD)

lemma tokenize_tokens: "tokenize s = Inr ts \<Longrightarrow> t \<in> set ts \<Longrightarrow>
    length (token_text t) \<le> length s \<and> (case t of TId w \<Rightarrow> is_identifier w | _ \<Rightarrow> True)"
proof (induction s arbitrary: ts rule: tokenize.induct)
  case (2 c cs)
  then obtain u r us where u: "next_token c cs = Inr (u, r)" "tokenize r = Inr us" "ts = (case u of None \<Rightarrow> us | Some t \<Rightarrow> t # us)"
    by (auto simp: tokenize_step)
  show ?case
  proof (cases "t \<in> set us")
    case True
    from 2(1) [OF u(1) refl u(2) True] next_token_shrinks [OF u(1)] show ?thesis by simp
  next
    case False
    with 2 u(3) have "u = Some t" by (cases u) auto
    with next_token_spells [OF u(1)] have "c # cs = token_text t @ r" by simp
    then have "length (token_text t) \<le> length (c # cs)" by simp
    with next_token_kind u(1) \<open>u = Some t\<close> show ?thesis by blast
  qed
qed simp

text \<open>What an accepted text gives: literals are finite, names are identifiers.\<close>

fun sound_node :: "node \<Rightarrow> bool" where
  "sound_node (Num v s) = isfinite v"
| "sound_node (Var x) = is_identifier x"
| "sound_node (Sign c n) = sound_node n"
| "sound_node (Bin c l r) = (sound_node l \<and> sound_node r)"

lemma spelled_sound:
  "spelled T n \<Longrightarrow> \<forall>t \<in> T. length (token_text t) \<le> max_expression_length \<and> (case t of TId w \<Rightarrow> is_identifier w | _ \<Rightarrow> True) \<Longrightarrow> sound_node n"
  by (induction n) (force intro!: literal_finite)+

lemma parse_text_sound: "parse_text e = Inr n \<Longrightarrow> sound_node n"
proof -
  assume p: "parse_text e = Inr n"
  then obtain ts where ts: "length e \<le> max_expression_length" "tokenize e = Inr ts" "parse_tokens ts = Inr n"
    by (auto simp: parse_text_def split: if_splits)
  have "spelled (set ts) n" using ts(3) derivation_spelled(1) unfolding parser_exact by blast
  moreover have "\<forall>t \<in> set ts. length (token_text t) \<le> max_expression_length \<and> (case t of TId w \<Rightarrow> is_identifier w | _ \<Rightarrow> True)"
    using tokenize_tokens [OF ts(2)] ts(1) le_trans by blast
  ultimately show ?thesis by (rule spelled_sound)
qed

lemma set_identifiers: "set (identifiers n acc) = set acc \<union> set (operands n)"
proof (induction n arbitrary: acc)
  case (Bin c l r)
  show ?case using Bin(1) [of acc] Bin(2) [of "identifiers l acc"] Bin(2) [of "operands l"] by (simp only: identifiers.simps) blast
next
  case (Sign c n)
  show ?case using Sign [of acc] by (simp only: identifiers.simps)
qed auto

lemma operands_Bin: "set (operands (Bin c l r)) = set (operands l) \<union> set (operands r)"
  using set_identifiers [of r "operands l"] by simp

lemma distinct_identifiers: "distinct acc \<Longrightarrow> distinct (identifiers n acc)"
  by (induction n arbitrary: acc) auto

lemma identifiers_sound: "sound_node n \<Longrightarrow> list_all is_identifier acc \<Longrightarrow> list_all is_identifier (identifiers n acc)"
  by (induction n arbitrary: acc) auto

lemma str_list_map [simp]: "str_list (map JStr xs) = Some xs"
  by (induction xs) auto

lemma marker_of_ok: "parse_text e = Inr n \<Longrightarrow> operands n \<noteq> [] \<Longrightarrow> marker_ok (marker_of e n)"
  using distinct_identifiers [of "[]" n] identifiers_sound [of n "[]"] parse_text_sound [of e n]
  by (simp add: marker_of_def marker_ok_def obj_get_def)

section \<open>Evaluation is contained\<close>

definition readable :: "obj \<Rightarrow> bool" where
  "readable row \<longleftrightarrow> list_all (\<lambda>(k, v). element_is_readable v) row"

lemma readable_member: "readable row \<Longrightarrow> map_of row k = Some v \<Longrightarrow> element_is_readable v"
  by (auto simp: readable_def list_all_iff dest!: map_of_SomeD)

lemma readable_float: "element_is_readable v \<Longrightarrow> v \<noteq> JNull \<Longrightarrow> \<exists>r. py_float v = Inr (Fin r)"
proof (cases v)
  case (JInt i)
  assume "element_is_readable v"
  with JInt have "\<bar>i\<bar> \<le> 2 ^ 53" by (simp add: max_exact_int_def abs_le_iff)
  then have "of_int \<bar>i\<bar> \<le> (of_int (2 ^ 53) :: rat)" by (rule of_int_le_iff [THEN iffD2])
  then have "\<bar>of_int i\<bar> \<le> (2 ^ 53 :: rat)" by simp
  also have "\<dots> \<le> 2 ^ 1000" by simp
  finally have "isfinite (fl (of_int i))" by (rule fl_finite)
  then show ?thesis using JInt by (cases "fl (of_int i)") (auto simp: float_of_int_def)
next
  case (JFloat f)
  assume "element_is_readable v"
  with JFloat show ?thesis by (cases f) auto
qed simp_all

lemma eval_node_total:
  assumes "sound_node n" "set (operands n) \<subseteq> fst ` set row" "readable row"
  shows "\<exists>v causes'. eval_node row n causes = Inr (v, causes') \<and> (\<forall>f. v = Some f \<longrightarrow> isfinite f)"
  using assms
proof (induction n arbitrary: causes)
  case (Var x)
  then obtain v where v: "map_of row x = Some v" by (metis Var.prems(2) identifiers.simps(1) add_new.simps(2) map_of_eq_None_iff option.exhaust
        set_add_new Un_iff list.set_intros(1) subsetD empty_iff add_new.simps(1))
  show ?case
  proof (cases "v = JNull")
    case False
    from readable_float [OF readable_member [OF Var.prems(3) v] False] v False show ?thesis by (auto simp: member_def)
  qed (simp add: v member_def)
next
  case (Sign c n)
  then obtain v cs where "eval_node row n causes = Inr (v, cs)" "\<forall>f. v = Some f \<longrightarrow> isfinite f" by fastforce
  moreover have "isfinite (fneg f) = isfinite f" for f by (cases f) auto
  ultimately show ?case by auto
next
  case (Bin c l r)
  from Bin.prems(2) have sub: "set (operands l) \<subseteq> fst ` set row" "set (operands r) \<subseteq> fst ` set row"
    unfolding operands_Bin by auto
  obtain a cs where l: "eval_node row l causes = Inr (a, cs)" "\<forall>f. a = Some f \<longrightarrow> isfinite f"
    using Bin.IH(1) [OF _ sub(1) Bin.prems(3)] Bin.prems(1) by fastforce
  obtain b cs' where r: "eval_node row r cs = Inr (b, cs')" "\<forall>f. b = Some f \<longrightarrow> isfinite f"
    using Bin.IH(2) [OF _ sub(2) Bin.prems(3)] Bin.prems(1) by fastforce
  show ?case by (cases a; cases b) (use l r in auto)
qed auto

lemma null_cause_total: "set (operands n) \<subseteq> fst ` set row \<Longrightarrow> \<exists>ns. null_cause row n acc = Inr ns"
proof (induction n arbitrary: acc)
  case (Var x)
  then have "map_of row x \<noteq> None" by (simp add: map_of_eq_None_iff)
  then show ?case by (auto simp: member_def)
next
  case (Bin c l r)
  then have "set (operands l) \<subseteq> fst ` set row" "set (operands r) \<subseteq> fst ` set row"
    unfolding operands_Bin by auto
  with Bin.IH show ?case by fastforce
qed auto

definition cell :: "pyval \<Rightarrow> bool" where
  "cell v \<longleftrightarrow> v = JNull \<or> (\<exists>r. v = JFloat (Fin r))"

lemma isfinite_Fin: "isfinite f \<longleftrightarrow> (\<exists>r. f = Fin r)"
  by (cases f) auto

lemma eval_rows_total:
  assumes "sound_node n" "list_all (\<lambda>row. set (operands n) \<subseteq> fst ` set row \<and> readable row) rows"
  shows "\<exists>vs causes'. eval_rows n rows causes = Inr (vs, causes') \<and> length vs = length rows \<and> list_all cell vs"
  using assms(2)
proof (induction rows arbitrary: causes)
  case (Cons row rows)
  then have row: "set (operands n) \<subseteq> fst ` set row" "readable row" by auto
  obtain ns where ns: "null_cause row n [] = Inr ns" using null_cause_total [OF row(1)] by blast
  obtain v cs where v: "eval_node row n causes = Inr (v, cs)" "\<forall>f. v = Some f \<longrightarrow> isfinite f"
    using eval_node_total [OF assms(1) row] by blast
  obtain c cs' where "eval_row n row causes = Inr (c, cs')" "cell c"
    using ns v by (cases v) (auto simp: eval_row_def cell_def isfinite_Fin)
  with Cons show ?case by fastforce
qed simp

section \<open>One derived variable, again\<close>

text \<open>Members a variable is asked to iterate over can be iterated over; the operands that resolve.\<close>

definition iterable :: "obj \<Rightarrow> bool" where
  "iterable v \<longleftrightarrow> (case map_of v ''channel_ids'' of None \<Rightarrow> True | Some c \<Rightarrow> \<not> isl (iterate c)) \<and>
     (falsy (obj_get v ''dimensions'') \<or> \<not> isl (iterate (obj_get v ''dimensions'')))"

fun escapes :: "derivation_fault \<Rightarrow> bool" where
  "escapes (Escaped e) = True"
| "escapes _ = False"

fun contained_fault :: "derivation_fault + 'a \<Rightarrow> bool" where
  "contained_fault (Inl f) = (\<not> escapes f)"
| "contained_fault (Inr x) = True"

lemma contained_bind: "contained_fault r \<Longrightarrow> (\<And>x. r = Inr x \<Longrightarrow> contained_fault (f x)) \<Longrightarrow> contained_fault (bind_res r f)"
  by (cases r) auto

lemma contained_guard [simp]: "contained_fault (guard_res b f) \<longleftrightarrow> b \<or> \<not> escapes f"
  by (simp add: guard_res_def)

lemma contained_each: "(\<And>x. x \<in> set xs \<Longrightarrow> contained_fault (f x)) \<Longrightarrow> contained_fault (check_each f xs)"
  by (induction xs) (auto intro!: contained_bind)

lemma contained_grammar [simp]: "contained_fault (grammar r)"
  by (cases r) auto

lemma contained_units: "set (operands n) \<subseteq> fst ` set ops \<Longrightarrow> contained_fault (unit_violations ops n)"
proof (induction n)
  case (Bin c l r)
  have sub: "set (operands l) \<subseteq> fst ` set ops" "set (operands r) \<subseteq> fst ` set ops"
    using Bin.prems unfolding operands_Bin by auto
  have known: "contained_fault (member ops x)" if "x \<in> fst ` set ops" for x
    using that by (cases "map_of ops x") (auto simp: member_def map_of_eq_None_iff)
  show ?case using Bin.IH sub by (auto intro!: contained_bind known split: node.split)
qed simp_all

lemma contained_channels: "list_all (\<lambda>(x, v). iterable v) ops \<Longrightarrow> contained_fault (channel_ids acc ops)"
proof (induction ops arbitrary: acc)
  case (Cons op ops)
  obtain x v where op: "op = (x, v)" by (cases op)
  with Cons.prems have "\<not> isl (iterate (case map_of v ''channel_ids'' of None \<Rightarrow> JList [] | Some c \<Rightarrow> c))"
    by (auto simp: iterable_def split: option.splits)
  then obtain cs where "iterate (case map_of v ''channel_ids'' of None \<Rightarrow> JList [] | Some c \<Rightarrow> c) = Inr cs"
    by (cases "iterate (case map_of v ''channel_ids'' of None \<Rightarrow> JList [] | Some c \<Rightarrow> c)") auto
  with Cons op show ?case by simp
qed simp

lemma rows_total:
  assumes "\<forall>(x, v) \<in> set ops. check_operand (x, v) = Inr () \<and> length (values_of v) = len"
  shows "list_all (\<lambda>row. fst ` set row = fst ` set ops \<and> readable row) (rows_of ops len)"
proof -
  have "element_is_readable (values_of v ! i)" if "(x, v) \<in> set ops" "i < len" for x v i
  proof -
    from assms that have v: "check_operand (x, v) = Inr ()" "i < length (values_of v)" by auto
    then show ?thesis
      by (auto simp: check_operand_def values_of_def list_all_iff split: pyval.splits intro: nth_mem)
  qed
  moreover have "fst ` (\<lambda>(x, v). (x, values_of v ! i)) ` set ops = fst ` set ops" for i by (force simp: image_iff)
  ultimately show ?thesis by (auto simp: rows_of_def list_all_iff readable_def)
qed

text \<open>What an entry must be, and what one derivation then gives.\<close>

definition entry_ok :: "obj \<Rightarrow> derived_decl \<Rightarrow> bool" where
  "entry_ok entry d \<longleftrightarrow> obj_get entry ''id'' = JStr (dl_id d) \<and> obj_get entry ''expression'' = JStr (dl_expression d) \<and>
     parse_text (dl_expression d) = Inr (dl_node d) \<and> dl_operands d = operands (dl_node d) \<and> dl_operands d \<noteq> []"

lemma check_declaration_entry: "check_declaration e = Inr d \<Longrightarrow> \<exists>entry. e = JObj entry \<and> entry_ok entry d"
proof -
  assume "check_declaration e = Inr d"
  moreover have "grammar r = Inr n \<longleftrightarrow> r = Inr n" for r :: "grammar_fault + node" and n by (cases r) auto
  ultimately show ?thesis
    by (auto simp: check_declaration_def text_field_def entry_ok_def split: pyval.splits if_splits)
qed

text \<open>A derived variable: its id and marker, cells for values, and a status that says whether all are there.\<close>

definition derived_ok :: "derived_decl \<Rightarrow> obj \<Rightarrow> bool" where
  "derived_ok d v \<longleftrightarrow> obj_get v ''id'' = JStr (dl_id d) \<and> obj_get v ''derivation'' = marker_of (dl_expression d) (dl_node d) \<and>
     (\<exists>vs. obj_get v ''values'' = JList vs \<and> list_all cell vs \<and> (obj_get v ''status'' = JStr ''valid'' \<longrightarrow> JNull \<notin> set vs)) \<and> iterable v"

lemma derived_variable_get:
  "obj_get (derived_variable i entry channels dims vs status marker @ rest) ''id'' = JStr i"
  "obj_get (derived_variable i entry channels dims vs status marker @ rest) ''values'' = JList vs"
  "obj_get (derived_variable i entry channels dims vs status marker @ rest) ''status'' = JStr status"
  "obj_get (derived_variable i entry channels dims vs status marker @ rest) ''derivation'' = marker"
  "iterable (derived_variable i entry channels dims vs status marker @ rest)"
  by (simp_all add: obj_get_def derived_variable_def iterable_def)

lemma status_valid: "status_of vs = ''valid'' \<longleftrightarrow> JNull \<notin> set vs"
  by (auto simp: status_of_def Let_def filter_empty_conv)

lemma derive_one_ok:
  assumes ok: "entry_ok entry d" and it: "list_all (\<lambda>(x, v). iterable v) vars"
  shows "contained_fault (derive_one entry vars) \<and> (\<forall>v. derive_one entry vars = Inr v \<longrightarrow> derived_ok d v)"
proof -
  let ?n = "dl_node d"
  define missing where "missing = filter (\<lambda>x. x \<notin> fst ` set vars) (operands ?n)"
  define ops where "ops = map (\<lambda>x. (x, the (map_of vars x))) (operands ?n)"
  define dims where "dims = obj_get (snd (hd ops)) ''dimensions''"
  define len where "len = length (values_of (snd (hd ops)))"
  from ok have entry: "obj_get entry ''id'' = JStr (dl_id d)" "obj_get entry ''expression'' = JStr (dl_expression d)"
      "parse_text (dl_expression d) = Inr ?n" "operands ?n \<noteq> []"
    by (auto simp: entry_ok_def)
  show ?thesis
  proof (cases "missing = []")
    case False
    then have "derive_one entry vars = Inr (butlast (derived_variable (dl_id d) entry [] [] [] ''invalid'' JNull) @
        [(''status_reason'', JStr (''derivation_operand_missing: '' @ py_join '', '' (sort missing))), (''derivation'', marker_of (dl_expression d) ?n)])"
      by (simp add: derive_one_def entry missing_def Let_def)
    then show ?thesis by (simp add: derived_ok_def derived_variable_def obj_get_def iterable_def)
  next
    case True
    then have in_vars: "map_of vars x \<noteq> None" if "x \<in> set (operands ?n)" for x
      using that by (auto simp: missing_def filter_empty_conv map_of_eq_None_iff)
    then have from_vars: "(x, the (map_of vars x)) \<in> set vars" if "x \<in> set (operands ?n)" for x
      using in_vars [OF that] by (auto dest: map_of_SomeD)
    have keys: "fst ` set ops = set (operands ?n)" by (auto simp: ops_def image_iff)
    have it_ops: "list_all (\<lambda>(x, v). iterable v) ops" using it from_vars by (fastforce simp: ops_def list_all_iff)
    define tail where "tail = bind_res (unit_violations ops ?n) (\<lambda>bad. if bad \<noteq> [] then Inl (UnitMismatch bad) else
            bind_res (channel_ids [] ops) (\<lambda>channels.
            bind_res (eval_rows ?n (rows_of ops len) []) (\<lambda>(vs, causes).
            bind_res (if falsy dims then Inr [] else escape (iterate dims)) (\<lambda>dims.
              let v = derived_variable (dl_id d) entry channels dims vs (status_of vs) (marker_of (dl_expression d) ?n) in
              Inr (if status_of vs = ''valid'' then v else v @ [(''status_reason'', JStr (py_join ''; '' (sort causes)))])))))"
    have "derive_one entry vars = derive_resolved (dl_id d) (dl_expression d) entry ?n ops"
      using True by (simp add: derive_one_def entry missing_def ops_def)
    then have one: "derive_one entry vars = bind_res (check_each check_operand ops) (\<lambda>_.
        bind_res (check_each (check_shape (fst (hd ops)) dims len) ops) (\<lambda>_. tail))"
      unfolding derive_resolved_def tail_def dims_def len_def Let_def .
    show ?thesis
    proof (cases "check_each check_operand ops = Inr () \<and> check_each (check_shape (fst (hd ops)) dims len) ops = Inr ()")
      case False
      have "contained_fault (check_each check_operand ops)" "contained_fault (check_each (check_shape (fst (hd ops)) dims len) ops)"
        by (rule contained_each, auto simp: check_operand_def check_shape_def)+
      with False one show ?thesis
        by (cases "check_each check_operand ops"; cases "check_each (check_shape (fst (hd ops)) dims len) ops") auto
    next
      case checked: True
      then have "\<forall>(x, v) \<in> set ops. check_operand (x, v) = Inr () \<and> length (values_of v) = len"
        by (auto simp: check_each_Inr_iff check_shape_def)
      from rows_total [OF this] have rows: "list_all (\<lambda>row. set (operands ?n) \<subseteq> fst ` set row \<and> readable row) (rows_of ops len)"
        by (auto simp: list_all_iff keys)
      obtain vs causes where vs: "eval_rows ?n (rows_of ops len) [] = Inr (vs, causes)" "list_all cell vs"
        using eval_rows_total [OF parse_text_sound [OF entry(3)] rows] by blast
      have "hd ops \<in> set ops" using entry(4) by (intro hd_in_set) (simp add: ops_def)
      then have "iterable (snd (hd ops))" using it_ops by (auto simp: list_all_iff split_beta)
      then have "falsy dims \<or> \<not> isl (iterate dims)" by (simp add: iterable_def dims_def)
      then obtain ds where ds: "(if falsy dims then Inr [] else escape (iterate dims)) = Inr ds"
        by (cases "falsy dims"; cases "iterate dims") auto
      have units: "contained_fault (unit_violations ops ?n)" by (rule contained_units) (simp add: keys)
      have channels: "contained_fault (channel_ids [] ops)" by (rule contained_channels [OF it_ops])
      have "contained_fault tail"
        unfolding tail_def vs ds by (intro contained_bind units) (auto intro!: contained_bind channels simp: Let_def)
      moreover have "derived_ok d v" if "tail = Inr v" for v
        using that status_valid [of vs] vs(2) derived_variable_get [where rest = "[]"] derived_variable_get
        unfolding tail_def vs ds by (auto simp: derived_ok_def Let_def split: if_splits)
      ultimately show ?thesis using one checked by simp
    qed
  qed
qed

section \<open>A whole dataset, again\<close>

lemma derive_one_cong:
  assumes "entry_ok entry d" "\<And>x. x \<in> set (dl_operands d) \<Longrightarrow> map_of vars x = map_of vars' x"
  shows "derive_one entry vars = derive_one entry vars'"
proof -
  let ?n = "dl_node d"
  from assms have same: "map_of vars x = map_of vars' x" if "x \<in> set (operands ?n)" for x using that by (simp add: entry_ok_def)
  have "filter (\<lambda>x. x \<notin> fst ` set vars) (operands ?n) = filter (\<lambda>x. x \<notin> fst ` set vars') (operands ?n)"
    using same by (intro filter_cong refl) (simp add: map_of_eq_None_iff [symmetric])
  moreover have "map (\<lambda>x. (x, the (map_of vars x))) (operands ?n) = map (\<lambda>x. (x, the (map_of vars' x))) (operands ?n)"
    using same by simp
  ultimately show ?thesis
    using assms(1) unfolding entry_ok_def derive_one_def
    by (simp only: prod.case pyval.case grammar.simps bind_res.simps)
qed

lemma derive_all_contained:
  assumes "list_all2 entry_ok es ds" "list_all (\<lambda>(x, v). iterable v) vars"
  shows "contained_fault (derive_all es vars)"
  using assms
proof (induction es ds arbitrary: vars rule: list_all2_induct)
  case (Cons e es d ds)
  from derive_one_ok [OF Cons.hyps(1) Cons.prems] have one: "contained_fault (derive_one e vars)"
    and v: "\<And>v. derive_one e vars = Inr v \<Longrightarrow> iterable v" by (auto simp: derived_ok_def)
  from Cons.hyps(1) show ?case
    by (auto simp: entry_ok_def Cons.prems intro!: contained_bind one Cons.IH v)
qed simp

text \<open>The variables that join, in order; each derives again to itself over the finished list.\<close>

lemma derive_all_appends:
  assumes "list_all2 entry_ok es ds" "derive_all es vars = Inr vars'" "list_all (\<lambda>(x, v). iterable v) vars"
  shows "\<exists>new. vars' = vars @ new \<and> map fst new = map dl_id ds \<and> list_all2 (\<lambda>d (i, v). derived_ok d v) ds new \<and>
    (distinct (map fst vars) \<longrightarrow> distinct (map fst vars')) \<and>
    ((\<forall>i < length ds. \<forall>x \<in> set (dl_operands (ds ! i)). x \<notin> dl_id ` set (drop i ds)) \<longrightarrow>
       list_all2 (\<lambda>e (i, v). derive_one e vars' = Inr v) es new)"
  using assms
proof (induction es ds arbitrary: vars rule: list_all2_induct)
  case (Cons e es d ds)
  from Cons.hyps(1) have i: "obj_get e ''id'' = JStr (dl_id d)" by (simp add: entry_ok_def)
  with Cons.prems(1) obtain v where fresh: "dl_id d \<notin> fst ` set vars" and v: "derive_one e vars = Inr v"
    and rest: "derive_all es (vars @ [(dl_id d, v)]) = Inr vars'"
    by (auto split: if_splits)
  have ok: "derived_ok d v" using derive_one_ok [OF Cons.hyps(1) Cons.prems(2)] v by blast
  then have "list_all (\<lambda>(x, v). iterable v) (vars @ [(dl_id d, v)])" using Cons.prems(2) by (simp add: derived_ok_def)
  from Cons.IH [OF rest this] obtain new where new: "vars' = vars @ (dl_id d, v) # new" "map fst new = map dl_id ds"
      "list_all2 (\<lambda>d (i, v). derived_ok d v) ds new"
      "distinct (map fst (vars @ [(dl_id d, v)])) \<longrightarrow> distinct (map fst vars')"
      "(\<forall>i < length ds. \<forall>x \<in> set (dl_operands (ds ! i)). x \<notin> dl_id ` set (drop i ds)) \<longrightarrow>
         list_all2 (\<lambda>e (i, v). derive_one e vars' = Inr v) es new"
    by (elim exE conjE) simp
  have "list_all2 (\<lambda>e (i, v). derive_one e vars' = Inr v) (e # es) ((dl_id d, v) # new)"
    if order: "\<forall>i < length (d # ds). \<forall>x \<in> set (dl_operands ((d # ds) ! i)). x \<notin> dl_id ` set (drop i (d # ds))"
  proof -
    have "map_of vars x = map_of vars' x" if "x \<in> set (dl_operands d)" for x
    proof -
      have "x \<notin> dl_id ` set (d # ds)" using order that by (metis drop0 length_greater_0_conv list.discI nth_Cons_0)
      then have "x \<notin> fst ` set ((dl_id d, v) # new)" using new(2) by (metis list.map(2) list.set_map fst_conv)
      then have "map_of ((dl_id d, v) # new) x = None" by (simp only: map_of_eq_None_iff) simp
      then show ?thesis unfolding new(1) by (auto simp: map_of_append map_add_def split: option.split)
    qed
    then have "derive_one e vars' = Inr v" using derive_one_cong [OF Cons.hyps(1), of vars vars'] v by simp
    moreover have "\<forall>i < length ds. \<forall>x \<in> set (dl_operands (ds ! i)). x \<notin> dl_id ` set (drop i ds)"
    proof (intro allI impI)
      fix i assume "i < length ds"
      with order [rule_format, of "Suc i"] show "\<forall>x \<in> set (dl_operands (ds ! i)). x \<notin> dl_id ` set (drop i ds)" by auto
    qed
    ultimately show ?thesis using new(5) by simp
  qed
  with new fresh ok show ?case by (intro exI [of _ "(dl_id d, v) # new"]) auto
qed auto

lemma checked_entries: "list_all2 (\<lambda>e d. check_declaration e = Inr d) derived ds \<Longrightarrow> list_all2 entry_ok (entries derived) ds"
proof (induction derived ds rule: list_all2_induct)
  case (Cons e es d ds)
  from check_declaration_entry [OF Cons.hyps(1)] obtain entry where "e = JObj entry" "entry_ok entry d" by blast
  with Cons.IH show ?case by (simp add: entries_def)
qed (simp add: entries_def)

text \<open>Every variable of a dataset can be iterated over where that is asked.\<close>

definition well_shaped :: "obj \<Rightarrow> bool" where
  "well_shaped dataset \<longleftrightarrow> (case obj_get dataset ''variables'' of
     JList vs \<Rightarrow> list_all (\<lambda>v. case v of JObj kvs \<Rightarrow> iterable kvs | _ \<Rightarrow> True) vs | _ \<Rightarrow> True)"

lemma objects_shaped: "objects vs = Some variables \<Longrightarrow> vs = map JObj variables"
  by (induction vs arbitrary: variables rule: objects.induct) auto

lemma dataset_contained:
  assumes "check_derived_variables derived = Inr ds" and "well_shaped dataset"
  shows "contained_fault (derive_dataset_variables txt dataset derived)"
proof -
  have es: "list_all2 entry_ok (entries derived) ds"
    using checked_entries assms(1) by (auto simp: check_derived_variables_def check_all_forall)
  show ?thesis
  proof (cases "obj_get dataset ''variables''")
    case (JList vs)
    show ?thesis
    proof (cases "objects vs")
      case (Some variables)
      then have "list_all iterable variables" using assms(2) JList objects_shaped [OF Some] by (simp add: well_shaped_def list_all_iff)
      then have it: "list_all (\<lambda>(x, v). iterable v) (map (keyed txt) variables)" by (simp add: keyed_def list_all_iff)
      have "contained_fault (check_each check_recorded_marker variables)"
        by (rule contained_each) (simp add: check_recorded_marker_def)
      then show ?thesis
        unfolding derive_dataset_variables_def assms(1) JList
        using derive_all_contained [OF es it] Some by (auto intro!: contained_bind simp: Let_def)
    qed (simp add: derive_dataset_variables_def assms(1) JList)
  qed (simp_all add: derive_dataset_variables_def assms(1))
qed

text \<open>What a successful derivation is made of.\<close>

lemma derive_dataset_Inr:
  assumes "derive_dataset_variables txt dataset derived = Inr out"
  obtains ds variables vars' where "check_derived_variables derived = Inr ds" "obj_get dataset ''variables'' = JList (map JObj variables)"
    "check_each check_recorded_marker variables = Inr ()" "distinct (map fst (map (keyed txt) variables))"
    "derive_all (entries derived) (map (keyed txt) variables) = Inr vars'"
    "out = AList.update ''variables'' (JList (map (JObj \<circ> snd) vars')) dataset"
  using assms
  by (fastforce simp: derive_dataset_variables_def Let_def dest: objects_shaped split: pyval.splits option.splits if_splits)

lemma get_update [simp]: "obj_get (AList.update k v kvs) k = v"
  by (simp add: obj_get_def update_conv')

lemma get_update_other: "k' \<noteq> k \<Longrightarrow> obj_get (AList.update k v kvs) k' = obj_get kvs k'"
  by (simp add: obj_get_def update_conv')

text \<open>
  What a derived variable is like beside the variables \<open>vars\<close>: finite numbers or null, one for each value of every operand, in the
  dimensions of the first operand, to which those of the others are equal, and with the status that says whether all, some or none
  of the values are there; nothing at all, and invalid, when an operand is missing.
\<close>

definition member_of :: "(string \<times> obj) list \<Rightarrow> string \<Rightarrow> string \<Rightarrow> pyval" where
  "member_of vars x k = obj_get (the (map_of vars x)) k"

definition typed_beside :: "(string \<times> obj) list \<Rightarrow> derived_decl \<Rightarrow> obj \<Rightarrow> bool" where
  "typed_beside vars d v \<longleftrightarrow> obj_get v ''dtype'' = JStr ''float64'' \<and>
     (\<exists>vs. obj_get v ''values'' = JList vs \<and> (\<forall>c \<in> set vs. c = JNull \<or> (\<exists>r. c = JFloat (Fin r))) \<and>
       (if set (dl_operands d) \<subseteq> fst ` set vars
        then (\<forall>x \<in> set (dl_operands d). \<exists>ws. member_of vars x ''values'' = JList ws \<and> length ws = length vs \<and>
               py_eq (member_of vars x ''dimensions'') (member_of vars (hd (dl_operands d)) ''dimensions'')) \<and>
             (\<forall>ds. member_of vars (hd (dl_operands d)) ''dimensions'' = JList ds \<longrightarrow> obj_get v ''dimensions'' = JList ds) \<and>
             obj_get v ''status'' = JStr (if JNull \<notin> set vs then ''valid'' else if set vs = {JNull} then ''invalid'' else ''partial'')
        else vs = [] \<and> obj_get v ''status'' = JStr ''invalid''))"

lemma status_of_cells: "status_of vs = (if JNull \<notin> set vs then ''valid'' else if set vs = {JNull} then ''invalid'' else ''partial'')"
proof -
  have none: "length (filter (\<lambda>v. v = JNull) vs) = 0 \<longleftrightarrow> JNull \<notin> set vs" by (auto simp: filter_empty_conv)
  have "length (filter (\<lambda>v. v = JNull) vs) = length vs \<longleftrightarrow> (\<forall>v \<in> set vs. v = JNull)"
    by (metis (mono_tags, lifting) filter_True length_filter_less less_irrefl)
  with none show ?thesis by (auto simp: status_of_def Let_def)
qed

lemma derived_variable_fields:
  "obj_get (derived_variable i entry channels dims vs status marker @ rest) ''dtype'' = JStr ''float64''"
  "obj_get (derived_variable i entry channels dims vs status marker @ rest) ''dimensions'' = JList dims"
  by (simp_all add: obj_get_def derived_variable_def)

lemma derive_resolved_Inr:
  assumes "derive_resolved i e entry n ops = Inr v"
  obtains channels vs causes ds rest where "check_each check_operand ops = Inr ()"
    "check_each (check_shape (fst (hd ops)) (obj_get (snd (hd ops)) ''dimensions'') (length (values_of (snd (hd ops))))) ops = Inr ()"
    "eval_rows n (rows_of ops (length (values_of (snd (hd ops))))) [] = Inr (vs, causes)"
    "(if falsy (obj_get (snd (hd ops)) ''dimensions'') then Inr [] else escape (iterate (obj_get (snd (hd ops)) ''dimensions''))) = Inr ds"
    "v = derived_variable i entry channels ds vs (status_of vs) (marker_of e n) @ rest"
proof -
  define fin where "fin channels ds vs causes =
     (let v = derived_variable i entry channels ds vs (status_of vs) (marker_of e n) in
      if status_of vs = ''valid'' then v else v @ [(''status_reason'', JStr (py_join ''; '' (sort causes)))])" for channels ds vs causes
  have app: "\<exists>rest. fin channels ds vs causes = derived_variable i entry channels ds vs (status_of vs) (marker_of e n) @ rest"
    for channels ds vs causes
    by (auto simp: fin_def Let_def)
  have r: "derive_resolved i e entry n ops = (let dims = obj_get (snd (hd ops)) ''dimensions''; len = length (values_of (snd (hd ops))) in
      bind_res (check_each check_operand ops) (\<lambda>_. bind_res (check_each (check_shape (fst (hd ops)) dims len) ops) (\<lambda>_.
      bind_res (unit_violations ops n) (\<lambda>bad. if bad \<noteq> [] then Inl (UnitMismatch bad) else
      bind_res (channel_ids [] ops) (\<lambda>channels. bind_res (eval_rows n (rows_of ops len) []) (\<lambda>(vs, causes).
      bind_res (if falsy dims then Inr [] else escape (iterate dims)) (\<lambda>ds. Inr (fin channels ds vs causes))))))))"
    unfolding derive_resolved_def fin_def Let_def ..
  obtain bad where bad: "bad = []" and m: "check_each check_operand ops = Inr ()"
      "check_each (check_shape (fst (hd ops)) (obj_get (snd (hd ops)) ''dimensions'') (length (values_of (snd (hd ops))))) ops = Inr ()"
      "bind_res (channel_ids [] ops) (\<lambda>channels. bind_res (eval_rows n (rows_of ops (length (values_of (snd (hd ops))))) []) (\<lambda>(vs, causes).
        bind_res (if falsy (obj_get (snd (hd ops)) ''dimensions'') then Inr [] else escape (iterate (obj_get (snd (hd ops)) ''dimensions'')))
          (\<lambda>ds. Inr (fin channels ds vs causes)))) = Inr v"
    using assms unfolding r Let_def bind_res_Inr_iff by (elim exE conjE) (simp split: if_splits)
  from m(3) obtain channels vs causes ds where "eval_rows n (rows_of ops (length (values_of (snd (hd ops))))) [] = Inr (vs, causes)"
      "(if falsy (obj_get (snd (hd ops)) ''dimensions'') then Inr [] else escape (iterate (obj_get (snd (hd ops)) ''dimensions''))) = Inr ds"
      "v = fin channels ds vs causes"
    unfolding bind_res_Inr_iff split_beta by (elim exE conjE) (metis Inr_inject prod.collapse)
  with app [of channels ds vs causes] m(1,2) that show thesis by blast
qed

lemma derive_one_typed:
  assumes ok: "entry_ok entry d" and one: "derive_one entry vars = Inr v"
  shows "typed_beside vars d v"
proof -
  let ?n = "dl_node d"
  define ops where "ops = map (\<lambda>x. (x, the (map_of vars x))) (operands ?n)"
  from ok have entry: "obj_get entry ''id'' = JStr (dl_id d)" "obj_get entry ''expression'' = JStr (dl_expression d)"
      "parse_text (dl_expression d) = Inr ?n" "operands ?n \<noteq> []" "dl_operands d = operands ?n"
    by (auto simp: entry_ok_def)
  show ?thesis
  proof (cases "filter (\<lambda>x. x \<notin> fst ` set vars) (operands ?n) = []")
    case False
    then have "\<not> set (operands ?n) \<subseteq> fst ` set vars" by (auto simp: filter_empty_conv)
    moreover from False one have "v = butlast (derived_variable (dl_id d) entry [] [] [] ''invalid'' JNull) @
        [(''status_reason'', JStr (''derivation_operand_missing: '' @ py_join '', '' (sort (filter (\<lambda>x. x \<notin> fst ` set vars) (operands ?n))))),
         (''derivation'', marker_of (dl_expression d) ?n)]"
      by (simp add: derive_one_def entry Let_def)
    ultimately show ?thesis by (simp add: typed_beside_def entry(5) derived_variable_def obj_get_def)
  next
    case True
    then have sub: "set (operands ?n) \<subseteq> fst ` set vars" by (auto simp: filter_empty_conv)
    from True one have res: "derive_resolved (dl_id d) (dl_expression d) entry ?n ops = Inr v"
      by (simp add: derive_one_def entry ops_def)
    let ?dims = "obj_get (snd (hd ops)) ''dimensions''" and ?len = "length (values_of (snd (hd ops)))"
    obtain channels vs causes ds rest where checked: "check_each check_operand ops = Inr ()"
        "check_each (check_shape (fst (hd ops)) ?dims ?len) ops = Inr ()"
      and vs: "eval_rows ?n (rows_of ops ?len) [] = Inr (vs, causes)"
      and ds: "(if falsy ?dims then Inr [] else escape (iterate ?dims)) = Inr ds"
      and v: "v = derived_variable (dl_id d) entry channels ds vs (status_of vs) (marker_of (dl_expression d) ?n) @ rest"
      by (rule derive_resolved_Inr [OF res])
    have each: "\<forall>(x, w) \<in> set ops. check_operand (x, w) = Inr () \<and> length (values_of w) = ?len"
      using checked by (auto simp: check_each_Inr_iff check_shape_def)
    have keys: "fst ` set ops = set (operands ?n)" by (auto simp: ops_def image_iff)
    from rows_total [OF each] have rows: "list_all (\<lambda>row. set (operands ?n) \<subseteq> fst ` set row \<and> readable row) (rows_of ops ?len)"
      by (auto simp: list_all_iff keys)
    from eval_rows_total [OF parse_text_sound [OF entry(3)] rows, of "[]"] vs
    have cells: "length vs = ?len" "list_all cell vs" by (auto simp: rows_of_def)
    have hd: "snd (hd ops) = the (map_of vars (hd (operands ?n)))" using entry(4) by (simp add: ops_def hd_map)
    have "\<exists>ws. member_of vars x ''values'' = JList ws \<and> length ws = length vs \<and>
        py_eq (member_of vars x ''dimensions'') (member_of vars (hd (operands ?n)) ''dimensions'')" if x: "x \<in> set (operands ?n)" for x
    proof -
      have m: "(x, the (map_of vars x)) \<in> set ops" using x by (auto simp: ops_def)
      from each m have c: "check_operand (x, the (map_of vars x)) = Inr ()" "length (values_of (the (map_of vars x))) = ?len" by auto
      then obtain ws where "obj_get (the (map_of vars x)) ''values'' = JList ws"
        by (auto simp: check_operand_def split: pyval.splits)
      moreover have "py_eq (obj_get (the (map_of vars x)) ''dimensions'') ?dims"
        using checked(2) m by (force simp: check_each_Inr_iff check_shape_def)
      ultimately show ?thesis using c(2) cells(1) hd by (simp add: member_of_def values_of_def)
    qed
    moreover have "obj_get v ''dimensions'' = JList es" if "member_of vars (hd (operands ?n)) ''dimensions'' = JList es" for es
      using that ds hd by (cases es) (auto simp: member_of_def v derived_variable_fields)
    ultimately show ?thesis
      using sub cells(2) unfolding typed_beside_def entry(5)
      by (auto simp: v derived_variable_fields derived_variable_get status_of_cells list_all_iff cell_def)
  qed
qed

lemma derived_appended:
  assumes "derive_dataset_variables txt dataset derived = Inr out" and "well_shaped dataset"
  shows "\<exists>ds vars new. check_derived_variables derived = Inr ds \<and>
    obj_get dataset ''variables'' = JList (map (JObj \<circ> snd) vars) \<and>
    obj_get out ''variables'' = JList (map (JObj \<circ> snd) (vars @ new)) \<and>
    list_all2 (\<lambda>d (i, v). i = dl_id d \<and> derived_ok d v) ds new \<and>
    list_all2 (\<lambda>e (i, v). derive_one e (vars @ new) = Inr v) (entries derived) new"
proof -
  obtain ds variables vars' where d: "check_derived_variables derived = Inr ds" "obj_get dataset ''variables'' = JList (map JObj variables)"
      "distinct (map fst (map (keyed txt) variables))" "derive_all (entries derived) (map (keyed txt) variables) = Inr vars'"
      "out = AList.update ''variables'' (JList (map (JObj \<circ> snd) vars')) dataset"
    using derive_dataset_Inr [OF assms(1)] by metis
  let ?vars = "map (keyed txt) variables"
  have es: "list_all2 entry_ok (entries derived) ds"
    using checked_entries d(1) by (auto simp: check_derived_variables_def check_all_forall)
  have "list_all (\<lambda>(x, v). iterable v) ?vars"
    using assms(2) d(2) by (auto simp: well_shaped_def list_all_iff keyed_def)
  from derive_all_appends [OF es d(4) this] obtain new where new: "vars' = ?vars @ new" "map fst new = map dl_id ds"
      "list_all2 (\<lambda>d (i, v). derived_ok d v) ds new"
      "(\<forall>i < length ds. \<forall>x \<in> set (dl_operands (ds ! i)). x \<notin> dl_id ` set (drop i ds)) \<longrightarrow>
         list_all2 (\<lambda>e (i, v). derive_one e vars' = Inr v) (entries derived) new"
    by blast
  have "\<forall>i < length ds. \<forall>x \<in> set (dl_operands (ds ! i)). x \<notin> dl_id ` set (drop i ds)"
    using d(1) unfolding declarations_ordered by (auto simp: list_all_iff)
  with new(4) have replay: "list_all2 (\<lambda>e (i, v). derive_one e vars' = Inr v) (entries derived) new" by blast
  have "list_all2 (\<lambda>d (i, v). i = dl_id d \<and> derived_ok d v) ds new"
    using new(2,3) by (auto simp: list_all2_conv_all_nth split_beta) (metis nth_map)
  with replay d new(1) show ?thesis by (intro exI [of _ ds] exI [of _ ?vars] exI [of _ new]) (simp add: keyed_def comp_def)
qed

text \<open>
  Claim C25. Derivation only appends and can be replayed: the variables of the plugin stay as they are and in front,
  each declaration adds one variable with its id, in order, whose recorded marker is truthful, whose values are null or finite,
  and which is valid only without nulls; and deriving it again from the finished dataset gives it again.
\<close>

theorem derivation_replays:
  assumes "derive_dataset_variables txt dataset derived = Inr out" and "well_shaped dataset"
  shows "\<exists>ds vars new. check_derived_variables derived = Inr ds \<and>
    obj_get dataset ''variables'' = JList (map (JObj \<circ> snd) vars) \<and>
    obj_get out ''variables'' = JList (map (JObj \<circ> snd) (vars @ new)) \<and>
    list_all2 (\<lambda>d (i, v). i = dl_id d \<and> derived_ok d v \<and> marker_ok (obj_get v ''derivation'')) ds new \<and>
    list_all2 (\<lambda>e (i, v). derive_one e (vars @ new) = Inr v) (entries derived) new"
proof -
  from derived_appended [OF assms] obtain ds vars new where d: "check_derived_variables derived = Inr ds"
      "obj_get dataset ''variables'' = JList (map (JObj \<circ> snd) vars)" "obj_get out ''variables'' = JList (map (JObj \<circ> snd) (vars @ new))"
      "list_all2 (\<lambda>d (i, v). i = dl_id d \<and> derived_ok d v) ds new"
      "list_all2 (\<lambda>e (i, v). derive_one e (vars @ new) = Inr v) (entries derived) new"
    by auto
  have es: "list_all2 entry_ok (entries derived) ds"
    using checked_entries d(1) by (auto simp: check_derived_variables_def check_all_forall)
  have "marker_ok (obj_get v ''derivation'')" if "derived_ok d v" "d \<in> set ds" for d v
  proof -
    from that(2) es obtain e where "entry_ok e d" by (auto simp: list_all2_conv_all_nth in_set_conv_nth)
    with that(1) show ?thesis by (auto simp: entry_ok_def derived_ok_def intro: marker_of_ok)
  qed
  then have "list_all2 (\<lambda>d (i, v). i = dl_id d \<and> derived_ok d v \<and> marker_ok (obj_get v ''derivation'')) ds new"
    using d(4) by (auto simp: list_all2_conv_all_nth split_beta)
  with d show ?thesis by blast
qed

text \<open>
  Claim C24. Type soundness of derived variables: once the declarations of a device are accepted, deriving over any
  dataset whose \<open>channel_ids\<close> and \<open>dimensions\<close> are lists (or may be read as one) ends with the larger dataset or a
  typed refusal; no lookup, conversion or arithmetic raises anything else. In the larger dataset every derived variable is well typed
  beside the others: null or finite, as many values as each operand has, in its dimensions, with a status that counts the nulls.
\<close>

theorem derivation_contained:
  assumes "check_derived_variables derived = Inr ds" and "well_shaped dataset"
  shows "contained_fault (derive_dataset_variables txt dataset derived) \<and>
    (\<forall>out. derive_dataset_variables txt dataset derived = Inr out \<longrightarrow> (\<exists>vars new.
       obj_get dataset ''variables'' = JList (map (JObj \<circ> snd) vars) \<and>
       obj_get out ''variables'' = JList (map (JObj \<circ> snd) (vars @ new)) \<and>
       list_all2 (\<lambda>d (i, v). i = dl_id d \<and> typed_beside (vars @ new) d v) ds new))"
proof (intro conjI allI impI)
  show "contained_fault (derive_dataset_variables txt dataset derived)" using assms by (rule dataset_contained)
  fix out assume "derive_dataset_variables txt dataset derived = Inr out"
  from derived_appended [OF this assms(2)] assms(1) obtain vars new where new: "obj_get dataset ''variables'' = JList (map (JObj \<circ> snd) vars)"
      "obj_get out ''variables'' = JList (map (JObj \<circ> snd) (vars @ new))" "list_all2 (\<lambda>d (i, v). i = dl_id d \<and> derived_ok d v) ds new"
      "list_all2 (\<lambda>e (i, v). derive_one e (vars @ new) = Inr v) (entries derived) new"
    by auto
  have "list_all2 entry_ok (entries derived) ds"
    using checked_entries assms(1) by (auto simp: check_derived_variables_def check_all_forall)
  with new(3,4) have "list_all2 (\<lambda>d (i, v). i = dl_id d \<and> typed_beside (vars @ new) d v) ds new"
    by (auto simp: list_all2_conv_all_nth split_beta intro: derive_one_typed)
  with new(1,2) show "\<exists>vars new. obj_get dataset ''variables'' = JList (map (JObj \<circ> snd) vars) \<and>
      obj_get out ''variables'' = JList (map (JObj \<circ> snd) (vars @ new)) \<and>
      list_all2 (\<lambda>d (i, v). i = dl_id d \<and> typed_beside (vars @ new) d v) ds new" by blast
qed

section \<open>A dataset\<close>

text \<open>Two plugin variables and two declarations, the second over the first; the divisor is zero.\<close>

definition sample_variable :: "string \<Rightarrow> pyval \<Rightarrow> pyval" where
  "sample_variable i x = JObj [(''id'', JStr i), (''dtype'', JStr ''float64''), (''unit'', JStr ''V''), (''values'', JList [x, JNull])]"

definition sample_readings :: obj where
  "sample_readings = [(''variables'', JList [sample_variable ''a'' (JFloat (Fin 6)), sample_variable ''b'' (JFloat (Fin 0))])]"

definition sample_declaration :: "string \<Rightarrow> string \<Rightarrow> pyval" where
  "sample_declaration i e = JObj [(''id'', JStr i), (''quantity'', JStr ''q''), (''unit'', JStr ''V''), (''expression'', JStr e)]"

definition sample_derived :: "pyval list" where
  "sample_derived = [sample_declaration ''n'' ''-a'', sample_declaration ''r'' ''(n + a) / b'']"

definition sample_out :: obj where
  "sample_out = (case derive_dataset_variables (\<lambda>_. []) sample_readings [hd sample_derived] of Inr out \<Rightarrow> out | Inl _ \<Rightarrow> [])"

lemma sample_checked: "\<exists>ds. check_derived_variables sample_derived = Inr ds"
proof -
  have "case check_derived_variables sample_derived of Inr ds \<Rightarrow> True | Inl _ \<Rightarrow> False" by code_simp
  then show ?thesis by (auto split: sum.splits)
qed

lemma sample_shaped: "well_shaped sample_readings"
  by code_simp

lemma sample_derives: "derive_dataset_variables (\<lambda>_. []) sample_readings [hd sample_derived] = Inr sample_out"
proof -
  have "case derive_dataset_variables (\<lambda>_. []) sample_readings [hd sample_derived] of Inr ds \<Rightarrow> True | Inl _ \<Rightarrow> False" by code_simp
  then show ?thesis by (auto simp: sample_out_def split: sum.splits)
qed

lemma derivation_contained_witness: "contained_fault (derive_dataset_variables (\<lambda>_. []) sample_readings sample_derived)"
  using derivation_contained [OF _ sample_shaped] sample_checked by blast

lemma derivation_replays_witness:
  "\<exists>vars new. obj_get sample_out ''variables'' = JList (map (JObj \<circ> snd) (vars @ new)) \<and> length new = 1 \<and>
    list_all2 (\<lambda>e (i, v). derive_one e (vars @ new) = Inr v) (entries [hd sample_derived]) new"
proof -
  from derivation_replays [OF sample_derives sample_shaped] obtain vars new where
    out: "obj_get sample_out ''variables'' = JList (map (JObj \<circ> snd) (vars @ new))" and
    new: "list_all2 (\<lambda>e (i, v). derive_one e (vars @ new) = Inr v) (entries [hd sample_derived]) new"
    by (elim exE conjE)
  have "length (entries [hd sample_derived]) = 1" by code_simp
  with list_all2_lengthD [OF new] have "length new = 1" by simp
  with out new show ?thesis by (intro exI conjI)
qed

lemma sample_negated: "obj_get sample_out ''variables'' =
  JList [sample_variable ''a'' (JFloat (Fin 6)), sample_variable ''b'' (JFloat (Fin 0)),
    JObj (derived_variable ''n'' [(''quantity'', JStr ''q''), (''unit'', JStr ''V'')] [] [] [JFloat (Fin (- 6)), JNull] ''partial''
      (marker_of ''-a'' (Sign (CHR ''-'') (Var ''a''))) @ [(''status_reason'', JStr ''derivation_null_operand: a'')])]"
  by code_simp

text \<open>
  Channels that are null escape as a \<open>TypeError\<close>: of the structural faults the module lists, this one is not refused.
\<close>

lemma null_channels_escape:
  "derive_dataset_variables (\<lambda>_. []) [(''variables'', JList [JObj [(''id'', JStr ''a''), (''dtype'', JStr ''float64''),
     (''values'', JList []), (''channel_ids'', JNull)]])] [sample_declaration ''n'' ''-a''] = Inl (Escaped (TypeError ''not iterable''))"
  by code_simp

section \<open>At the executor\<close>

text \<open>The parameter \<open>cf_derive\<close> of the executor: nothing where a device declares nothing, else the derivation.\<close>

fun fault_exn :: "derivation_fault \<Rightarrow> exn" where
  "fault_exn (Escaped e) = e"
| "fault_exn f = ValueError ''derivation''"

definition derive_for :: "(pyval \<Rightarrow> string) \<Rightarrow> (string \<Rightarrow> pyval list) \<Rightarrow> string \<Rightarrow> (obj \<Rightarrow> exn + obj) option" where
  "derive_for txt declared device = (if declared device = [] then None
     else Some (\<lambda>payload. case derive_dataset_variables txt payload (declared device) of
         Inl f \<Rightarrow> Inl (fault_exn f) | Inr out \<Rightarrow> Inr out))"

end
