(* ===== verification/Content.thy ===== *)
theory Content
  imports Py_Text "HOL-Library.AList"
begin

text \<open>
  The content tables of the store, \<open>content/store.py\<close>: documents, artifacts and evidence. Tables are association
  lists in \<open>rowid\<close> order; bytes are strings; SHA-256 is the parameter \<open>hex\<close> (the hexadecimal digest of some bytes) and
  fresh \<open>uuid\<close> ids are arguments. Every call runs under the write gate on the one connection, so a call is a function of the
  tables that raises or returns them changed.
\<close>

section \<open>Rows\<close>

record document_row =
  dr_raw :: string
  dr_content :: pyval
  dr_schema :: string
  dr_stored :: string

record artifact_row =
  af_data :: string
  af_stored :: string

record evidence_row =
  vi_kind :: string
  vi_ref :: pyval
  vi_artifact :: "string option"
  vi_context :: "string option"
  vi_stored :: string

datatype capture_state = Staged | Finalised | Aborted

record capture_row =
  cs_context :: string
  cs_state :: capture_state
  cs_reserved :: int
  cs_charged :: int
  cs_format :: string
  cs_samples :: "int option"
  cs_artifact :: "string option"
  cs_started :: "string option"
  cs_created :: string
  cs_updated :: string

record chunk_row =
  ck_capture :: string
  ck_seq :: nat
  ck_data :: string

text \<open>A row of \<open>dispositions\<close>: the members of its decision envelope, and the address and digest of that envelope.\<close>

record disposition_row =
  di_envelope :: obj
  di_decision :: string
  di_sha :: string

record invocation_row =
  in_id :: string
  in_at :: string
  in_actor :: string
  in_path :: string
  in_sha :: string
  in_bench :: "string option"
  in_counts :: obj

record content =
  ct_documents :: "(string \<times> document_row) list"
  ct_artifacts :: "(string \<times> artifact_row) list"
  ct_evidence :: "(string \<times> evidence_row) list"
  ct_captures :: "(string \<times> capture_row) list"
  ct_chunks :: "chunk_row list"
  ct_dispositions :: "disposition_row list"
  ct_invocations :: "invocation_row list"

definition no_content :: content where
  "no_content = \<lparr>ct_documents = [], ct_artifacts = [], ct_evidence = [], ct_captures = [], ct_chunks = [],
     ct_dispositions = [], ct_invocations = []\<rparr>"

datatype capture_reject =
    IdTaken
  | UnknownCapture
  | TerminalCapture capture_state
  | WrongSession string
  | NoLiveDigest
  | DigestMismatch
  | ZeroBytes
  | ShortCapture int int
  | EmptyAppend

datatype content_fault =
    BadDigest string
  | NotJson exn
  | BadLength
  | UnknownArtifact string
  | BeyondEnd int nat
  | EvidenceQuota int
  | NoContextKey
  | NotConfigured
  | CaptureRejected capture_reject
  | CaptureQuota int
  | ReservationExceeded int
  | ChangedUnderPlan string
  | IdCollides string

text \<open>\<open>INSERT OR REPLACE\<close>: the row of that key goes, the new one comes last.\<close>

definition replace_row :: "'k \<Rightarrow> 'v \<Rightarrow> ('k \<times> 'v) list \<Rightarrow> ('k \<times> 'v) list" where
  "replace_row k v xs = AList.delete k xs @ [(k, v)]"

lemma map_of_replace_row [simp]: "map_of (replace_row k v xs) j = (if j = k then Some v else map_of xs j)"
  by (auto simp: replace_row_def map_add_def delete_conv' split: option.split)

lemma keys_replace_row [simp]: "fst ` set (replace_row k v xs) = insert k (fst ` set xs)"
  by (auto simp: replace_row_def AList.delete_eq image_iff)

lemma distinct_replace_row: "distinct (map fst xs) \<Longrightarrow> distinct (map fst (replace_row k v xs))"
  by (auto simp: replace_row_def AList.delete_eq distinct_map_filter)

section \<open>Documents\<close>

definition put_document :: "(string \<Rightarrow> string) \<Rightarrow> string \<Rightarrow> string \<Rightarrow> pyval \<Rightarrow> string \<Rightarrow> string \<Rightarrow> content \<Rightarrow>
    (content_fault + unit) \<times> content" where
  "put_document hex raw sha content schema now t =
     (if hex raw \<noteq> sha then (Inl (BadDigest sha), t)
      else case json_column content of
        Inl e \<Rightarrow> (Inl (NotJson e), t)
      | Inr j \<Rightarrow> (Inr (), if sha \<in> fst ` set (ct_documents t) then t
          else t\<lparr>ct_documents := ct_documents t @ [(sha, \<lparr>dr_raw = raw, dr_content = j, dr_schema = schema, dr_stored = now\<rparr>)]\<rparr>))"

definition get_document :: "string \<Rightarrow> content \<Rightarrow> document_row option" where
  "get_document sha t = map_of (ct_documents t) sha"

text \<open>SQL \<open>LIKE\<close>: the two wildcards, and no difference between upper and lower case of ASCII letters.\<close>

definition ascii_lower :: "char \<Rightarrow> char" where
  "ascii_lower c = (let n = of_char c :: nat in if 65 \<le> n \<and> n \<le> 90 then char_of (n + 32) else c)"

function sql_like :: "string \<Rightarrow> string \<Rightarrow> bool" where
  "sql_like [] s = (s = [])"
| "sql_like (p # ps) s =
     (if p = CHR ''%'' then sql_like ps s \<or> (if s = [] then False else sql_like (p # ps) (tl s))
      else if s = [] then False
      else (p = CHR ''_'' \<or> ascii_lower p = ascii_lower (hd s)) \<and> sql_like ps (tl s))"
  by pat_completeness auto
termination
  by (relation "measure (\<lambda>(p, s). length p + length s)") (auto simp: neq_Nil_conv)

declare sql_like.simps(2) [simp del]

definition documents_by_schema_suffix :: "string \<Rightarrow> content \<Rightarrow> (string \<times> document_row) list" where
  "documents_by_schema_suffix sfx t = rev (filter (\<lambda>(_, d). sql_like (CHR ''%'' # sfx) (dr_schema d)) (ct_documents t))"

section \<open>Artifacts\<close>

definition artifact_address :: "(string \<Rightarrow> string) \<Rightarrow> string \<Rightarrow> string" where
  "artifact_address hex bs = ''art-'' @ hex bs"

definition put_artifact :: "(string \<Rightarrow> string) \<Rightarrow> string \<Rightarrow> string \<Rightarrow> content \<Rightarrow> string \<times> content" where
  "put_artifact hex bs now t = (let a = artifact_address hex bs in
     (a, t\<lparr>ct_artifacts := replace_row a \<lparr>af_data = bs, af_stored = now\<rparr> (ct_artifacts t)\<rparr>))"

text \<open>\<open>s[a:b]\<close>, negative bounds counting from the end.\<close>

definition slice_bound :: "int \<Rightarrow> nat \<Rightarrow> nat" where
  "slice_bound i n = nat (if i < 0 then max 0 (i + int n) else min i (int n))"

definition py_slice :: "int \<Rightarrow> int \<Rightarrow> 'a list \<Rightarrow> 'a list" where
  "py_slice a b xs = drop (slice_bound a (length xs)) (take (slice_bound b (length xs)) xs)"

record artifact_window =
  aw_bytes :: nat
  aw_total :: nat
  aw_sha :: string
  aw_data :: string
  aw_eof :: bool

definition max_chunk_bytes :: int where "max_chunk_bytes = 65536"

definition artifact_chunk :: "(string \<Rightarrow> string) \<Rightarrow> string \<Rightarrow> int \<Rightarrow> int \<Rightarrow> content \<Rightarrow> content_fault + artifact_window" where
  "artifact_chunk hex a offset len t =
     (if len < 1 then Inl BadLength
      else case map_of (ct_artifacts t) a of
        None \<Rightarrow> Inl (UnknownArtifact a)
      | Some row \<Rightarrow>
          (let bs = af_data row; window = py_slice offset (offset + min len max_chunk_bytes) bs in
           if int (length bs) < offset then Inl (BeyondEnd offset (length bs))
           else Inr \<lparr>aw_bytes = length window, aw_total = length bs, aw_sha = hex bs, aw_data = window,
               aw_eof = (int (length bs) \<le> offset + int (length window))\<rparr>))"

section \<open>Evidence\<close>

definition evidence_count :: "string \<Rightarrow> string \<Rightarrow> content \<Rightarrow> nat" where
  "evidence_count ctx kind t = length (filter (\<lambda>(_, v). vi_context v = Some ctx \<and> vi_kind v = kind) (ct_evidence t))"

definition over_quota :: "int option \<Rightarrow> string option \<Rightarrow> string \<Rightarrow> content \<Rightarrow> bool" where
  "over_quota quota ctx kind t = (case (quota, ctx) of
      (Some q, Some c) \<Rightarrow> q \<le> int (evidence_count c kind t) | _ \<Rightarrow> False)"

definition put_evidence :: "string \<Rightarrow> string \<Rightarrow> pyval \<Rightarrow> string option \<Rightarrow> string option \<Rightarrow> string \<Rightarrow> int option \<Rightarrow> content \<Rightarrow>
    (content_fault + string) \<times> content" where
  "put_evidence fresh kind ref artifact ctx now quota t =
     (if over_quota quota ctx kind t then (Inl (EvidenceQuota (the quota)), t)
      else case json_column ref of
        Inl e \<Rightarrow> (Inl (NotJson e), t)
      | Inr j \<Rightarrow> (Inr fresh, t\<lparr>ct_evidence := replace_row fresh
          \<lparr>vi_kind = kind, vi_ref = j, vi_artifact = artifact, vi_context = ctx, vi_stored = now\<rparr> (ct_evidence t)\<rparr>))"

definition get_evidence :: "string \<Rightarrow> content \<Rightarrow> evidence_row option" where
  "get_evidence e t = map_of (ct_evidence t) e"

text \<open>Newest first: by landing stamp, then by row.\<close>

definition evidence_rows_by_context :: "string \<Rightarrow> int \<Rightarrow> content \<Rightarrow> (string \<times> evidence_row) list" where
  "evidence_rows_by_context ctx limit t = sql_limit limit (rev (sort_key (vi_stored \<circ> snd)
     (filter (\<lambda>(_, v). vi_context v = Some ctx \<and> vi_kind v = ''event_log'') (ct_evidence t))))"

text \<open>\<open>RetainingServices\<close>: the blob is the JSON text \<open>blob\<close> of the payload.\<close>

definition retain_evidence :: "(string \<Rightarrow> string) \<Rightarrow> string \<Rightarrow> string \<Rightarrow> string \<Rightarrow> int \<Rightarrow> string \<Rightarrow> content \<Rightarrow>
    (content_fault + string) \<times> content" where
  "retain_evidence hex fresh key blob quota now t = (case put_artifact hex blob now t of (a, t) \<Rightarrow>
     put_evidence fresh ''dataset'' (JObj [(''id'', JStr key), (''version'', JStr ''1''), (''sha256'', JStr (hex blob))])
       (Some a) (Some key) now (Some quota) t)"

definition emit_event :: "(string \<Rightarrow> string) \<Rightarrow> string \<Rightarrow> string \<Rightarrow> string option \<Rightarrow> string \<Rightarrow> string \<Rightarrow> int \<Rightarrow> string \<Rightarrow> content \<Rightarrow>
    (content_fault + string) \<times> content" where
  "emit_event hex fresh event_id ctx kind blob quota stamp t = (case ctx of
      None \<Rightarrow> (Inl NoContextKey, t)
    | Some c \<Rightarrow> (case put_artifact hex blob stamp t of (a, t) \<Rightarrow>
        put_evidence fresh ''event_log'' (JObj [(''id'', JStr event_id), (''version'', JStr ''1''), (''sha256'', JStr (hex blob)),
          (''kind'', JStr kind), (''host_received_at'', JStr stamp)]) (Some a) (Some c) stamp (Some quota) t))"

section \<open>What the tables keep\<close>

text \<open>A digest is admitted once: admitting it again changes nothing, and what is admitted stays.\<close>

lemma put_document_first:
  assumes "put_document hex raw sha content schema now t = (r, t')" "map_of (ct_documents t) d = Some row"
  shows "map_of (ct_documents t') d = Some row"
  using assms by (auto simp: put_document_def split: if_splits sum.splits)

text \<open>\<open>LIKE '%s'\<close> finds the schema ids that end in \<open>s\<close>, when \<open>s\<close> has no wildcard, up to the case of letters.\<close>

lemma sql_like_char: "p \<noteq> CHR ''%'' \<Longrightarrow> sql_like (p # ps) s \<longleftrightarrow>
    (\<exists>c cs. s = c # cs \<and> (p = CHR ''_'' \<or> ascii_lower p = ascii_lower c) \<and> sql_like ps cs)"
  by (subst sql_like.simps) (auto simp: neq_Nil_conv)

lemma sql_like_percent: "sql_like (CHR ''%'' # ps) s \<longleftrightarrow> sql_like ps s \<or> (\<exists>c cs. s = c # cs \<and> sql_like (CHR ''%'' # ps) cs)"
  by (subst sql_like.simps) (auto simp: neq_Nil_conv)

lemma sql_like_plain: "CHR ''%'' \<notin> set ps \<Longrightarrow> CHR ''_'' \<notin> set ps \<Longrightarrow> sql_like ps s \<longleftrightarrow> map ascii_lower s = map ascii_lower ps"
proof (induction ps arbitrary: s)
  case (Cons p ps)
  then have "p \<noteq> CHR ''%''" "p \<noteq> CHR ''_''" by auto
  with Cons show ?case by (auto simp: sql_like_char Cons_eq_map_conv)
qed simp

lemma sql_like_suffix:
  assumes "CHR ''%'' \<notin> set ps" "CHR ''_'' \<notin> set ps"
  shows "sql_like (CHR ''%'' # ps) s \<longleftrightarrow> suffix (map ascii_lower ps) (map ascii_lower s)"
proof (induction s)
  case Nil
  show ?case by (subst sql_like_percent) (simp add: sql_like_plain [OF assms])
next
  case (Cons c cs)
  then show ?case by (subst sql_like_percent) (auto simp: suffix_Cons sql_like_plain [OF assms])
qed

text \<open>Reading an artifact window by window, each as long as asked for, gives back its bytes.\<close>

lemma slice_window: "py_slice (int i) (int i + int k) xs = take k (drop i xs)"
  by (simp add: py_slice_def slice_bound_def min_def nat_add_distrib drop_take)

lemma windows_tile: "0 < k \<Longrightarrow> concat (map (\<lambda>i. take k (drop (i * k) xs)) [0..<n]) = take (n * k) xs"
proof (induction n)
  case (Suc n)
  have "take (Suc n * k) xs = take (n * k) xs @ take k (drop (n * k) xs)" by (simp only: mult_Suc add.commute [of k] take_add)
  with Suc show ?case by simp
qed simp

lemma artifact_windows:
  assumes row: "map_of (ct_artifacts t') a = Some \<lparr>af_data = bs, af_stored = now\<rparr>" and "0 < k" "int k \<le> max_chunk_bytes"
  shows "concat (map (\<lambda>i. case artifact_chunk hex a (int (i * k)) (int k) t' of Inr w \<Rightarrow> aw_data w | Inl e \<Rightarrow> [])
    [0..<Suc (length bs div k)]) = bs"
proof -
  have "(case artifact_chunk hex a (int (i * k)) (int k) t' of Inr w \<Rightarrow> aw_data w | Inl e \<Rightarrow> []) = take k (drop (i * k) bs)"
    if "i \<le> length bs div k" for i
  proof -
    have "i * k \<le> length bs" using that assms(2) by (metis div_times_less_eq_dividend mult_le_mono1 order_trans)
    then have "\<not> int (length bs) < int (i * k)" by linarith
    then show ?thesis using assms(2,3) slice_window [of "i * k" k bs]
      by (simp add: artifact_chunk_def row Let_def del: of_nat_mult)
  qed
  then have "concat (map (\<lambda>i. case artifact_chunk hex a (int (i * k)) (int k) t' of Inr w \<Rightarrow> aw_data w | Inl e \<Rightarrow> [])
    [0..<Suc (length bs div k)]) = take (Suc (length bs div k) * k) bs"
    by (subst windows_tile [OF assms(2), symmetric]) (intro arg_cong [of _ _ concat] map_cong refl, auto)
  also have "\<dots> = bs"
    using dividend_less_div_times [OF assms(2), of "length bs"] by (simp add: add.commute)
  finally show ?thesis .
qed

lemma artifact_round_trip:
  assumes "put_artifact hex bs now t = (a, t')" and "0 < k" "int k \<le> max_chunk_bytes"
  shows "concat (map (\<lambda>i. case artifact_chunk hex a (int (i * k)) (int k) t' of Inr w \<Rightarrow> aw_data w | Inl e \<Rightarrow> [])
    [0..<Suc (length bs div k)]) = bs"
  using assms by (intro artifact_windows [where now = now]) (auto simp: put_artifact_def Let_def)

text \<open>The quota bounds what it counts.\<close>

lemma put_evidence_quota:
  assumes "put_evidence fresh kind ref artifact (Some c) now (Some q) t = (Inr e, t')" "fresh \<notin> fst ` set (ct_evidence t)"
  shows "int (evidence_count c kind t') \<le> q \<and> evidence_count c kind t' = Suc (evidence_count c kind t)"
proof -
  have "AList.delete fresh (ct_evidence t) = ct_evidence t" using assms(2) by (force simp: AList.delete_eq filter_id_conv)
  with assms(1) show ?thesis
    by (auto simp: put_evidence_def over_quota_def evidence_count_def replace_row_def split: if_splits sum.splits)
qed

end
