(* ===== verification/Captures.thy ===== *)
theory Captures
  imports Content Semantics
begin

text \<open>
  The staged capture writer, \<open>CaptureStagingStore\<close> of \<open>content/capture_store.py\<close>: reservation under a quota, ordered
  appends, a finalise that publishes in one transaction, abort, and the sweep after a crash in two. The state is the content
  tables and the running digests of this process, each as the bytes hashed so far. A call whose \<open>BEGIN\<close> loses the lock
  raises and changes nothing; that call is left out. Wording and the stamps of the exceptions are left out.
\<close>

type_synonym hashers = "string \<Rightarrow> string option"
type_synonym staging = "content \<times> hashers"

record envelope =
  en_capture_max :: "int option"
  en_dataset_max :: "int option"

section \<open>The ledger\<close>

definition rows_in :: "string \<Rightarrow> capture_state \<Rightarrow> content \<Rightarrow> capture_row list" where
  "rows_in ctx st t = filter (\<lambda>c. cs_context c = ctx \<and> cs_state c = st) (map snd (ct_captures t))"

definition used_bytes :: "string \<Rightarrow> content \<Rightarrow> int" where
  "used_bytes ctx t = sum_list (map cs_reserved (rows_in ctx Staged t)) + sum_list (map cs_charged (rows_in ctx Finalised t))"

definition capture_chunks :: "string \<Rightarrow> content \<Rightarrow> chunk_row list" where
  "capture_chunks c t = filter (\<lambda>k. ck_capture k = c) (ct_chunks t)"

definition staged_bytes :: "string \<Rightarrow> content \<Rightarrow> nat" where
  "staged_bytes c t = sum_list (map (\<lambda>k. length (ck_data k)) (capture_chunks c t))"

definition staged_capture :: "string \<Rightarrow> content \<Rightarrow> capture_row option" where
  "staged_capture c t = (case map_of (ct_captures t) c of
      Some r \<Rightarrow> if cs_state r = Staged then Some r else None | None \<Rightarrow> None)"

lemma chunks_frame [simp]:
  "capture_chunks c (t\<lparr>ct_captures := rows\<rparr>) = capture_chunks c t"
  "capture_chunks c (t\<lparr>ct_artifacts := arts\<rparr>) = capture_chunks c t"
  "capture_chunks c (t\<lparr>ct_evidence := evs\<rparr>) = capture_chunks c t"
  by (simp_all add: capture_chunks_def)

lemma chunks_snoc [simp]: "capture_chunks c (t\<lparr>ct_chunks := ct_chunks t @ [k]\<rparr>) =
    capture_chunks c t @ (if ck_capture k = c then [k] else [])"
  by (simp add: capture_chunks_def)

section \<open>Open\<close>

definition staged_row :: "string \<Rightarrow> int \<Rightarrow> string \<Rightarrow> int option \<Rightarrow> string \<Rightarrow> capture_row" where
  "staged_row ctx reserved fmt samples now = \<lparr>cs_context = ctx, cs_state = Staged, cs_reserved = reserved, cs_charged = 0,
     cs_format = fmt, cs_samples = samples, cs_artifact = None, cs_started = Some now, cs_created = now, cs_updated = now\<rparr>"

definition reserve_row :: "string \<Rightarrow> capture_row \<Rightarrow> staging \<Rightarrow> (content_fault + unit) \<times> staging" where
  "reserve_row c row s = (case s of (t, h) \<Rightarrow> (Inr (), (t\<lparr>ct_captures := ct_captures t @ [(c, row)]\<rparr>, h(c \<mapsto> []))))"

definition open_capture :: "envelope \<Rightarrow> string \<Rightarrow> string \<Rightarrow> string \<Rightarrow> int option \<Rightarrow> int \<Rightarrow> string \<Rightarrow> staging \<Rightarrow>
    (content_fault + unit) \<times> staging" where
  "open_capture W c ctx fmt samples max_bytes now s = (case s of (t, h) \<Rightarrow>
     case (en_capture_max W, en_dataset_max W) of
       (Some cap, Some budget) \<Rightarrow>
         (if c \<in> fst ` set (ct_captures t) then (Inl (CaptureRejected IdTaken), s)
          else let allowance = min cap (budget - used_bytes ctx t) in
            if allowance < max_bytes then (Inl (CaptureQuota allowance), s)
            else reserve_row c (staged_row ctx max_bytes fmt samples now) s)
     | _ \<Rightarrow> (Inl NotConfigured, s))"

definition open_payload :: "envelope \<Rightarrow> string \<Rightarrow> string \<Rightarrow> string \<Rightarrow> int \<Rightarrow> string \<Rightarrow> staging \<Rightarrow> (content_fault + unit) \<times> staging" where
  "open_payload W c ctx encoding byte_limit now s = (case s of (t, h) \<Rightarrow> case en_dataset_max W of
       None \<Rightarrow> (Inl NotConfigured, s)
     | Some budget \<Rightarrow>
         (if c \<in> fst ` set (ct_captures t) then (Inl (CaptureRejected IdTaken), s)
          else let allowance = budget - used_bytes ctx t in
            if allowance < byte_limit then (Inl (CaptureQuota allowance), s)
            else reserve_row c (staged_row ctx (min byte_limit allowance) encoding None now) s))"

section \<open>Append\<close>

definition next_chunk :: "string \<Rightarrow> content \<Rightarrow> nat" where
  "next_chunk c t = (case capture_chunks c t of [] \<Rightarrow> 0 | ks \<Rightarrow> Suc (Max (ck_seq ` set ks)))"

text \<open>What append and finalise check of the row first.\<close>

definition live_row :: "string \<Rightarrow> string \<Rightarrow> content \<Rightarrow> content_fault + capture_row" where
  "live_row c ctx t = (case map_of (ct_captures t) c of
      None \<Rightarrow> Inl (CaptureRejected UnknownCapture)
    | Some r \<Rightarrow> if cs_state r \<noteq> Staged then Inl (CaptureRejected (TerminalCapture (cs_state r)))
        else if cs_context r \<noteq> ctx then Inl (CaptureRejected (WrongSession (cs_context r))) else Inr r)"

definition append_chunk :: "string \<Rightarrow> string \<Rightarrow> string \<Rightarrow> staging \<Rightarrow> (content_fault + unit) \<times> staging" where
  "append_chunk c bs ctx s = (case s of (t, h) \<Rightarrow>
     if bs = [] then (Inl (CaptureRejected EmptyAppend), s)
     else case live_row c ctx t of
       Inl e \<Rightarrow> (Inl e, s)
     | Inr r \<Rightarrow>
         (if cs_reserved r < int (staged_bytes c t) + int (length bs) then (Inl (ReservationExceeded (cs_reserved r)), s)
          else (Inr (), (t\<lparr>ct_chunks := ct_chunks t @ [\<lparr>ck_capture = c, ck_seq = next_chunk c t, ck_data = bs\<rparr>]\<rparr>,
            h(c := map_option (\<lambda>hashed. hashed @ bs) (h c))))))"

section \<open>Finalise\<close>

record evidence_request =
  rq_fresh :: string
  rq_kind :: string
  rq_ref :: pyval
  rq_context :: "string option"
  rq_quota :: "int option"

record finalised =
  fi_artifact :: string
  fi_sha :: string
  fi_length :: nat

definition staged_data :: "string \<Rightarrow> content \<Rightarrow> string" where
  "staged_data c t = concat (map ck_data (sort_key ck_seq (capture_chunks c t)))"

definition drop_chunks :: "string \<Rightarrow> content \<Rightarrow> content" where
  "drop_chunks c t = t\<lparr>ct_chunks := filter (\<lambda>k. ck_capture k \<noteq> c) (ct_chunks t)\<rparr>"

definition publish :: "(string \<Rightarrow> string) \<Rightarrow> string \<Rightarrow> capture_row \<Rightarrow> string \<Rightarrow> string \<Rightarrow> evidence_request option \<Rightarrow> content \<Rightarrow>
    (content_fault + finalised) \<times> content" where
  "publish hex c r payload now evidence t0 =
     (case put_artifact hex payload now t0 of (a, t1) \<Rightarrow>
      let t2 = drop_chunks c (t1\<lparr>ct_captures := AList.update c (r\<lparr>cs_state := Finalised, cs_charged := int (length payload),
                 cs_artifact := Some a, cs_updated := now\<rparr>) (ct_captures t1)\<rparr>);
          published = Inr \<lparr>fi_artifact = a, fi_sha = hex payload, fi_length = length payload\<rparr> in
      case evidence of
        None \<Rightarrow> (published, t2)
      | Some e \<Rightarrow> (case put_evidence (rq_fresh e) (rq_kind e) (rq_ref e) (Some a) (rq_context e) now (rq_quota e) t2 of
          (Inl f, _) \<Rightarrow> (Inl f, t0)
        | (Inr _, t3) \<Rightarrow> (published, t3)))"

definition finalise :: "(string \<Rightarrow> string) \<Rightarrow> string \<Rightarrow> string \<Rightarrow> string \<Rightarrow> evidence_request option \<Rightarrow> staging \<Rightarrow>
    (content_fault + finalised) \<times> staging" where
  "finalise hex c now ctx evidence s = (case s of (t, h) \<Rightarrow> case live_row c ctx t of
       Inl e \<Rightarrow> (Inl e, s)
     | Inr r \<Rightarrow> (case h c of
         None \<Rightarrow> (Inl (CaptureRejected NoLiveDigest), s)
       | Some hashed \<Rightarrow>
           (let payload = staged_data c t; n = length payload in
            if hex payload \<noteq> hex hashed then (Inl (CaptureRejected DigestMismatch), s)
            else if n = 0 then (Inl (CaptureRejected ZeroBytes), s)
            else if cs_format r = ''waveform_f64le'' \<and> (case cs_samples r of None \<Rightarrow> False | Some k \<Rightarrow> int n \<noteq> k * 8)
            then (Inl (CaptureRejected (ShortCapture (int n) (the (cs_samples r)))), s)
            else case publish hex c r payload now evidence t of
                (Inl e, _) \<Rightarrow> (Inl e, s)
              | (Inr f, t) \<Rightarrow> (Inr f, (t, h(c := None))))))"

definition finalise_record :: "string \<Rightarrow> content \<Rightarrow> (string \<times> int) option" where
  "finalise_record c t = (case map_of (ct_captures t) c of
      Some r \<Rightarrow> if cs_state r = Finalised then map_option (\<lambda>a. (a, cs_charged r)) (cs_artifact r) else None
    | None \<Rightarrow> None)"

section \<open>Abort, and the sweep after a crash\<close>

definition abort_capture :: "string \<Rightarrow> staging \<Rightarrow> bool \<times> staging" where
  "abort_capture c s = (case s of (t, h) \<Rightarrow> case map_of (ct_captures t) c of
       Some r \<Rightarrow> if cs_state r \<noteq> Staged then (False, s)
         else (True, ((drop_chunks c t)\<lparr>ct_captures := AList.delete c (ct_captures t)\<rparr>, h(c := None)))
     | None \<Rightarrow> (False, s))"

definition mark_orphans :: "string \<Rightarrow> content \<Rightarrow> string list \<times> content" where
  "mark_orphans now t = (map fst (filter (\<lambda>(_, r). cs_state r = Staged) (ct_captures t)),
     t\<lparr>ct_captures := map (\<lambda>(c, r). (c, if cs_state r = Staged then r\<lparr>cs_state := Aborted, cs_updated := now\<rparr> else r)) (ct_captures t)\<rparr>)"

definition delete_aborted_rows :: "content \<Rightarrow> content" where
  "delete_aborted_rows t =
     (let gone = fst ` set (filter (\<lambda>(_, r). cs_state r = Aborted) (ct_captures t)) in
      t\<lparr>ct_chunks := filter (\<lambda>k. ck_capture k \<notin> gone) (ct_chunks t),
        ct_captures := filter (\<lambda>(_, r). cs_state r \<noteq> Aborted) (ct_captures t)\<rparr>)"

definition reclaim_orphans :: "string \<Rightarrow> staging \<Rightarrow> string list \<times> staging" where
  "reclaim_orphans now s = (case s of (t, h) \<Rightarrow> case mark_orphans now t of (ids, t) \<Rightarrow>
     (ids, (delete_aborted_rows t, fold (\<lambda>c h. h(c := None)) ids h)))"

section \<open>The busy-timeout windows\<close>

definition dispatch_clamp :: "int \<Rightarrow> int \<Rightarrow> int \<Rightarrow> int" where
  "dispatch_clamp open_ms deadline now = min open_ms (max 0 ((deadline - now) div 1000000))"

definition epilogue_floor :: "int \<Rightarrow> int" where
  "epilogue_floor open_ms = min capture_epilogue_floor_ms open_ms"

section \<open>Histories\<close>

text \<open>
  The calls of a writer session and what ends it: a crash loses the running digests, and one between the two transactions of a
  sweep leaves the rows marked.
\<close>

datatype capture_op =
    OpenCapture string string string "int option" int string
  | OpenPayload string string string int string
  | Append string string string
  | Finalise string string string "evidence_request option"
  | Abort string
  | Crash
  | CrashInSweep string
  | Sweep string

definition capture_do :: "(string \<Rightarrow> string) \<Rightarrow> envelope \<Rightarrow> capture_op \<Rightarrow> staging \<Rightarrow> staging" where
  "capture_do hex W oper s = (case oper of
      OpenCapture c ctx fmt samples max_bytes now \<Rightarrow> snd (open_capture W c ctx fmt samples max_bytes now s)
    | OpenPayload c ctx encoding limit now \<Rightarrow> snd (open_payload W c ctx encoding limit now s)
    | Append c bs ctx \<Rightarrow> snd (append_chunk c bs ctx s)
    | Finalise c now ctx evidence \<Rightarrow> snd (finalise hex c now ctx evidence s)
    | Abort c \<Rightarrow> snd (abort_capture c s)
    | Crash \<Rightarrow> (fst s, \<lambda>_. None)
    | CrashInSweep now \<Rightarrow> (snd (mark_orphans now (fst s)), \<lambda>_. None)
    | Sweep now \<Rightarrow> snd (reclaim_orphans now s))"

text \<open>Callers ask for a number of bytes that is not negative.\<close>

definition sensible :: "capture_op \<Rightarrow> bool" where
  "sensible oper = (case oper of OpenCapture _ _ _ _ n _ \<Rightarrow> 0 \<le> n | OpenPayload _ _ _ n _ \<Rightarrow> 0 \<le> n | _ \<Rightarrow> True)"

definition capture_run :: "(string \<Rightarrow> string) \<Rightarrow> envelope \<Rightarrow> capture_op list \<Rightarrow> staging" where
  "capture_run hex W ops = fold (capture_do hex W) ops (no_content, \<lambda>_. None)"

subsection \<open>Sums over the rows\<close>

definition weight :: "string \<Rightarrow> capture_row \<Rightarrow> int" where
  "weight ctx r = (if cs_context r \<noteq> ctx then 0 else case cs_state r of
      Staged \<Rightarrow> cs_reserved r | Finalised \<Rightarrow> cs_charged r | Aborted \<Rightarrow> 0)"

lemma used_bytes_weight: "used_bytes ctx t = sum_list (map (weight ctx \<circ> snd) (ct_captures t))"
proof -
  have "sum_list (map cs_reserved (filter (\<lambda>c. cs_context c = ctx \<and> cs_state c = Staged) (map snd xs))) +
      sum_list (map cs_charged (filter (\<lambda>c. cs_context c = ctx \<and> cs_state c = Finalised) (map snd xs))) =
      sum_list (map (weight ctx \<circ> snd) xs)" for xs :: "(string \<times> capture_row) list"
    by (induction xs) (auto simp: weight_def split: capture_state.splits)
  then show ?thesis by (simp add: used_bytes_def rows_in_def)
qed

lemma map_of_filter_rows: "distinct (map fst xs) \<Longrightarrow>
    map_of (filter (\<lambda>(_, r). P r) xs) c = Option.bind (map_of xs c) (\<lambda>r. if P r then Some r else None)"
proof (induction xs)
  case (Cons p xs)
  have "map_of (filter (\<lambda>(_, r). P r) xs) (fst p) = None" using Cons.prems
    by (auto simp: map_of_eq_None_iff)
  with Cons show ?case by (cases p) auto
qed simp

lemma map_of_mark: "map_of (map (\<lambda>(c, r). (c, f c r)) xs) c = map_option (f c) (map_of xs c)"
  by (induction xs) auto

lemma sum_rows_update:
  fixes f :: "'v \<Rightarrow> int"
  shows "map_of xs k = Some v \<Longrightarrow> distinct (map fst xs) \<Longrightarrow>
    sum_list (map (f \<circ> snd) (AList.update k w xs)) = sum_list (map (f \<circ> snd) xs) - f v + f w"
  by (induction xs) (auto split: if_splits)

lemma sum_rows_delete:
  fixes f :: "'v \<Rightarrow> int"
  shows "map_of xs k = Some v \<Longrightarrow> distinct (map fst xs) \<Longrightarrow>
    sum_list (map (f \<circ> snd) (AList.delete k xs)) = sum_list (map (f \<circ> snd) xs) - f v"
proof (induction xs)
  case (Cons p xs)
  have "AList.delete (fst p) xs = xs" using Cons.prems(2) by (auto simp: AList.delete_eq filter_id_conv image_iff)
  with Cons show ?case by (cases p) (auto split: if_splits)
qed simp

lemma sum_rows_filter:
  fixes f :: "'v \<Rightarrow> int"
  assumes "\<And>v. \<not> P v \<Longrightarrow> f v = 0"
  shows "sum_list (map (f \<circ> snd) (filter (\<lambda>(_, r). P r) xs)) = sum_list (map (f \<circ> snd) xs)"
  using assms by (induction xs) auto

subsection \<open>The invariant\<close>

definition row_ok :: "content \<Rightarrow> string \<Rightarrow> capture_row \<Rightarrow> bool" where
  "row_ok t c r \<longleftrightarrow> 0 \<le> cs_reserved r \<and> (case cs_state r of
      Staged \<Rightarrow> int (staged_bytes c t) \<le> cs_reserved r
    | Finalised \<Rightarrow> 0 < cs_charged r \<and> cs_charged r \<le> cs_reserved r \<and> capture_chunks c t = [] \<and>
        (\<exists>a. cs_artifact r = Some a \<and> a \<in> fst ` set (ct_artifacts t))
    | Aborted \<Rightarrow> True)"

definition digest_ok :: "hashers \<Rightarrow> content \<Rightarrow> string \<Rightarrow> bool" where
  "digest_ok h t c \<longleftrightarrow> map ck_seq (capture_chunks c t) = [0..<length (capture_chunks c t)] \<and>
     (map_of (ct_captures t) c = None \<longrightarrow> capture_chunks c t = []) \<and>
     (\<forall>b. h c = Some b \<longrightarrow> b = concat (map ck_data (capture_chunks c t)) \<and> (\<exists>r. staged_capture c t = Some r))"

definition capture_inv :: "(string \<Rightarrow> string) \<Rightarrow> int \<Rightarrow> staging \<Rightarrow> bool" where
  "capture_inv hex M s = (case s of (t, h) \<Rightarrow> distinct (map fst (ct_captures t)) \<and>
     (\<forall>c r. map_of (ct_captures t) c = Some r \<longrightarrow> row_ok t c r) \<and> (\<forall>c. digest_ok h t c) \<and>
     (\<forall>a row. map_of (ct_artifacts t) a = Some row \<longrightarrow> a = artifact_address hex (af_data row)) \<and>
     (\<forall>ctx. used_bytes ctx t \<le> M))"

lemma capture_invI:
  assumes "distinct (map fst (ct_captures t))"
    and "\<And>c r. map_of (ct_captures t) c = Some r \<Longrightarrow> row_ok t c r" and "\<And>c. digest_ok h t c"
    and "\<And>a row. map_of (ct_artifacts t) a = Some row \<Longrightarrow> a = artifact_address hex (af_data row)"
    and "\<And>ctx. used_bytes ctx t \<le> M"
  shows "capture_inv hex M (t, h)"
  using assms unfolding capture_inv_def prod.case by blast

lemma capture_invD:
  assumes "capture_inv hex M (t, h)"
  shows "distinct (map fst (ct_captures t))"
    and "map_of (ct_captures t) c = Some r \<Longrightarrow> row_ok t c r" and "digest_ok h t c"
    and "map_of (ct_artifacts t) a = Some row \<Longrightarrow> a = artifact_address hex (af_data row)"
    and "used_bytes ctx t \<le> M"
  using assms by (auto simp: capture_inv_def)

lemma inv_start: "0 \<le> M \<Longrightarrow> capture_inv hex M (no_content, \<lambda>_. None)"
  by (rule capture_invI) (auto simp: no_content_def digest_ok_def capture_chunks_def used_bytes_def rows_in_def)

lemma inv_reserve:
  assumes I: "capture_inv hex M (t, h)" and "c \<notin> fst ` set (ct_captures t)"
    and row: "cs_state row = Staged" "0 \<le> cs_reserved row" "used_bytes (cs_context row) t + cs_reserved row \<le> M"
  shows "capture_inv hex M (snd (reserve_row c row (t, h)))"
proof -
  have fresh: "map_of (ct_captures t) c = None" using assms(2) by (simp add: map_of_eq_None_iff)
  then have none: "capture_chunks c t = []" using capture_invD(3) [OF I, of c] by (auto simp: digest_ok_def)
  let ?t = "t\<lparr>ct_captures := ct_captures t @ [(c, row)]\<rparr>"
  have rows: "map_of (ct_captures ?t) d = (if d = c then Some row else map_of (ct_captures t) d)" for d
    using fresh by (auto simp: map_add_def split: option.splits)
  have "capture_inv hex M (?t, h(c \<mapsto> []))"
  proof (rule capture_invI)
    show "distinct (map fst (ct_captures ?t))" using capture_invD(1) [OF I] assms(2) by simp
    show "row_ok ?t d r" if "map_of (ct_captures ?t) d = Some r" for d r
      using that rows capture_invD(2) [OF I, of d r] row none
      by (auto simp: row_ok_def staged_bytes_def split: if_splits capture_state.splits)
    show "digest_ok (h(c \<mapsto> [])) ?t d" for d
      using capture_invD(3) [OF I, of d] none row fresh
      by (auto simp: digest_ok_def rows staged_capture_def split: if_splits option.splits)
    show "used_bytes ctx ?t \<le> M" for ctx
      using capture_invD(5) [OF I, of ctx] row by (auto simp: used_bytes_weight weight_def)
  qed (use capture_invD(4) [OF I] in simp)
  then show ?thesis by (simp add: reserve_row_def)
qed

lemma inv_open_capture:
  assumes "capture_inv hex M (t, h)" "en_dataset_max W = Some M" "0 \<le> n"
  shows "capture_inv hex M (snd (open_capture W c ctx fmt samples n now (t, h)))"
  using assms by (auto simp: open_capture_def Let_def staged_row_def intro!: inv_reserve split: option.splits)

lemma inv_open_payload:
  assumes "capture_inv hex M (t, h)" "en_dataset_max W = Some M" "0 \<le> n"
  shows "capture_inv hex M (snd (open_payload W c ctx encoding n now (t, h)))"
  using assms by (auto simp: open_payload_def Let_def staged_row_def intro!: inv_reserve split: option.splits)

text \<open>What \<open>live_row\<close> lets through, and what \<open>finalise\<close> and \<open>append\<close> can do.\<close>

lemma live_row_Inr: "live_row c ctx t = Inr r \<longleftrightarrow> map_of (ct_captures t) c = Some r \<and> cs_state r = Staged \<and> cs_context r = ctx"
  by (auto simp: live_row_def split: option.splits)

lemma next_chunk_length:
  assumes "map ck_seq (capture_chunks c t) = [0..<length (capture_chunks c t)]"
  shows "next_chunk c t = length (capture_chunks c t)"
proof (cases "capture_chunks c t")
  case Nil
  then show ?thesis by (simp add: next_chunk_def)
next
  case (Cons k ks)
  have "ck_seq ` set (k # ks) = {0..<length (k # ks)}" using arg_cong [OF assms, of set] unfolding Cons set_map set_upt .
  moreover have "Max {0..<Suc n} = n" for n :: nat by (rule Max_eqI) auto
  moreover have "next_chunk c t = Suc (Max (ck_seq ` set (k # ks)))" by (simp add: next_chunk_def Cons)
  ultimately show ?thesis by (simp only: Cons length_Cons)
qed

lemma staged_data_concat:
  assumes "map ck_seq (capture_chunks c t) = [0..<length (capture_chunks c t)]"
  shows "staged_data c t = concat (map ck_data (capture_chunks c t))"
  unfolding staged_data_def using assms by (simp add: sort_key_id_if_sorted)

lemma staged_bytes_length: "staged_bytes c t = length (concat (map ck_data (capture_chunks c t)))"
  by (simp add: staged_bytes_def length_concat o_def)

lemma inv_append:
  assumes I: "capture_inv hex M (t, h)"
  shows "capture_inv hex M (snd (append_chunk c bs ctx (t, h)))"
proof (cases "\<exists>r. bs \<noteq> [] \<and> live_row c ctx t = Inr r \<and> int (staged_bytes c t) + int (length bs) \<le> cs_reserved r")
  case False
  then show ?thesis using I by (auto simp: append_chunk_def not_le split: sum.splits)
next
  case True
  then obtain r where r: "bs \<noteq> []" "live_row c ctx t = Inr r" "int (staged_bytes c t) + int (length bs) \<le> cs_reserved r" by blast
  note row = r(2) [unfolded live_row_Inr]
  define n where "n = next_chunk c t"
  let ?k = "\<lparr>ck_capture = c, ck_seq = n, ck_data = bs\<rparr>"
  let ?t = "t\<lparr>ct_chunks := ct_chunks t @ [?k]\<rparr>" and ?h = "h(c := map_option (\<lambda>hashed. hashed @ bs) (h c))"
  have seqs: "map ck_seq (capture_chunks c t) = [0..<length (capture_chunks c t)]"
    using capture_invD(3) [OF I, of c] by (simp add: digest_ok_def)
  have n: "n = length (capture_chunks c t)" unfolding n_def by (rule next_chunk_length [OF seqs])
  have "capture_inv hex M (?t, ?h)"
  proof (rule capture_invI)
    show "row_ok ?t d q" if "map_of (ct_captures ?t) d = Some q" for d q
      using that capture_invD(2) [OF I, of d q] row r(3)
      by (cases "d = c") (auto simp: row_ok_def staged_bytes_def split: capture_state.splits)
    show "digest_ok ?h ?t d" for d
      using capture_invD(3) [OF I, of d] row n
      by (cases "d = c") (auto simp: digest_ok_def staged_capture_def)
    show "used_bytes u ?t \<le> M" for u using capture_invD(5) [OF I, of u] by (simp add: used_bytes_weight)
  qed (use capture_invD(1,4) [OF I] in simp_all)
  then show ?thesis using r by (simp add: append_chunk_def n_def)
qed

text \<open>Chunks of one capture go; its row changes or goes.\<close>

lemma chunks_drop: "capture_chunks d (drop_chunks c t) = (if d = c then [] else capture_chunks d t)"
  by (auto simp: capture_chunks_def drop_chunks_def filter_empty_conv intro: filter_cong)

lemma drop_frame [simp]: "ct_artifacts (drop_chunks c t) = ct_artifacts t" "ct_captures (drop_chunks c t) = ct_captures t"
  by (simp_all add: drop_chunks_def)

lemma inv_settle:
  assumes I: "capture_inv hex M (t, h)" and row: "map_of (ct_captures t) c = Some r"
    and "row_ok (drop_chunks c t\<lparr>ct_artifacts := arts\<rparr>) c r'" "cs_context r' = cs_context r" "\<And>ctx. weight ctx r' \<le> weight ctx r"
    and arts: "\<And>a row. map_of arts a = Some row \<Longrightarrow> a = artifact_address hex (af_data row)"
    and grown: "\<And>a. a \<in> fst ` set (ct_artifacts t) \<Longrightarrow> a \<in> fst ` set arts"
    and t': "ct_captures t' = AList.update c r' (ct_captures t)" "ct_chunks t' = ct_chunks (drop_chunks c t)" "ct_artifacts t' = arts"
  shows "capture_inv hex M (t', h(c := None))"
proof (rule capture_invI)
  have chunks: "capture_chunks d t' = (if d = c then [] else capture_chunks d t)" for d
    using chunks_drop [of d c t] t'(2) by (simp add: capture_chunks_def)
  have rows: "map_of (ct_captures t') d = (if d = c then Some r' else map_of (ct_captures t) d)" for d
    by (simp add: t'(1) update_conv')
  show "distinct (map fst (ct_captures t'))" using capture_invD(1) [OF I] by (simp add: t'(1) distinct_update)
  show "row_ok t' d q" if "map_of (ct_captures t') d = Some q" for d q
  proof (cases "d = c")
    case True
    then have "q = r'" using that rows by simp
    then show ?thesis using True assms(3) by (simp add: row_ok_def chunks chunks_drop staged_bytes_def t' split: capture_state.splits)
  next
    case False
    then have "row_ok t d q" using that rows capture_invD(2) [OF I] by simp
    then show ?thesis using False grown by (auto del: imageE simp: row_ok_def chunks staged_bytes_def t' split: capture_state.splits)
  qed
  show "digest_ok (h(c := None)) t' d" for d
    using capture_invD(3) [OF I, of d] by (auto simp: digest_ok_def chunks rows staged_capture_def)
  show "used_bytes ctx t' \<le> M" for ctx
    using capture_invD(5) [OF I, of ctx] assms(5) [of ctx] sum_rows_update [OF row capture_invD(1) [OF I], of "weight ctx" r']
    by (simp add: used_bytes_weight t'(1))
qed (use arts t' in auto)

lemma inv_abort:
  assumes I: "capture_inv hex M (t, h)"
  shows "capture_inv hex M (snd (abort_capture c (t, h)))"
proof (cases "\<exists>r. map_of (ct_captures t) c = Some r \<and> cs_state r = Staged")
  case False
  then show ?thesis using I by (auto simp: abort_capture_def split: option.splits)
next
  case True
  then obtain r where r: "map_of (ct_captures t) c = Some r" "cs_state r = Staged" by blast
  have row: "row_ok t c r" using capture_invD(2) [OF I r(1)] .
  let ?t = "(drop_chunks c t)\<lparr>ct_captures := AList.delete c (ct_captures t)\<rparr>"
  have rows: "map_of (ct_captures ?t) d = (if d = c then None else map_of (ct_captures t) d)" for d
    by (simp add: delete_conv')
  have "capture_inv hex M (?t, h(c := None))"
  proof (rule capture_invI)
    show "distinct (map fst (ct_captures ?t))" using capture_invD(1) [OF I] by (simp add: distinct_delete)
    show "row_ok ?t d q" if "map_of (ct_captures ?t) d = Some q" for d q
      using that capture_invD(2) [OF I, of d q] rows
      by (auto simp: row_ok_def chunks_drop staged_bytes_def split: if_splits capture_state.splits)
    show "digest_ok (h(c := None)) ?t d" for d
      using capture_invD(3) [OF I, of d] by (auto simp: digest_ok_def chunks_drop rows staged_capture_def)
    show "used_bytes ctx ?t \<le> M" for ctx
      using capture_invD(5) [OF I, of ctx] sum_rows_delete [OF r(1) capture_invD(1) [OF I], of "weight ctx"] row
      by (auto simp: used_bytes_weight row_ok_def weight_def r(2) split: if_splits)
    show "a = artifact_address hex (af_data w)" if "map_of (ct_artifacts ?t) a = Some w" for a w
      using that capture_invD(4) [OF I, of a w] by simp
  qed
  then show ?thesis using r by (simp add: abort_capture_def)
qed

text \<open>Publishing: the artifact and the evidence join the tables, the chunks go, the row is charged.\<close>

lemma put_artifact_rows:
  assumes "put_artifact hex bs now t = (a, t1)"
  shows "a = artifact_address hex bs" "t1 = t\<lparr>ct_artifacts := replace_row a \<lparr>af_data = bs, af_stored = now\<rparr> (ct_artifacts t)\<rparr>"
  using assms by (auto simp: put_artifact_def Let_def)

lemma put_evidence_frame:
  assumes "put_evidence fresh kind ref artifact ctx now quota t = (r, t')"
  shows "t' = t\<lparr>ct_evidence := ct_evidence t'\<rparr>"
  using assms by (auto simp: put_evidence_def split: if_splits sum.splits)

definition finalised_row :: "(string \<Rightarrow> string) \<Rightarrow> string \<Rightarrow> string \<Rightarrow> capture_row \<Rightarrow> capture_row" where
  "finalised_row hex payload now r = r\<lparr>cs_state := Finalised, cs_charged := int (length payload),
     cs_artifact := Some (artifact_address hex payload), cs_updated := now\<rparr>"

lemma publish_Inr:
  assumes "publish hex c r payload now evidence t = (Inr f, t')"
  shows "f = \<lparr>fi_artifact = artifact_address hex payload, fi_sha = hex payload, fi_length = length payload\<rparr>"
    and "ct_captures t' = AList.update c (finalised_row hex payload now r) (ct_captures t)"
    and "ct_chunks t' = ct_chunks (drop_chunks c t)"
    and "ct_artifacts t' = replace_row (artifact_address hex payload) \<lparr>af_data = payload, af_stored = now\<rparr> (ct_artifacts t)"
proof -
  obtain a t1 where p: "put_artifact hex payload now t = (a, t1)" by fastforce
  note p' = put_artifact_rows [OF p]
  define t2 where "t2 = drop_chunks c (t1\<lparr>ct_captures := AList.update c (finalised_row hex payload now r) (ct_captures t1)\<rparr>)"
  have t2: "ct_captures t2 = AList.update c (finalised_row hex payload now r) (ct_captures t)"
    "ct_chunks t2 = ct_chunks (drop_chunks c t)"
    "ct_artifacts t2 = replace_row (artifact_address hex payload) \<lparr>af_data = payload, af_stored = now\<rparr> (ct_artifacts t)"
    by (simp_all add: t2_def p' drop_chunks_def)
  have "f = \<lparr>fi_artifact = artifact_address hex payload, fi_sha = hex payload, fi_length = length payload\<rparr> \<and>
      t' = t2\<lparr>ct_evidence := ct_evidence t'\<rparr>"
  proof (cases evidence)
    case None
    with assms show ?thesis by (simp add: publish_def p Let_def t2_def finalised_row_def p'(1) [symmetric])
  next
    case (Some e)
    obtain q t3 where q: "put_evidence (rq_fresh e) (rq_kind e) (rq_ref e) (Some a) (rq_context e) now (rq_quota e) t2 = (q, t3)"
      by fastforce
    with assms Some show ?thesis using put_evidence_frame [OF q]
      by (cases q) (simp_all add: publish_def p Let_def t2_def finalised_row_def p'(1) [symmetric])
  qed
  then have f: "f = \<lparr>fi_artifact = artifact_address hex payload, fi_sha = hex payload, fi_length = length payload\<rparr>"
    and t': "t' = t2\<lparr>ct_evidence := ct_evidence t'\<rparr>" by blast+
  show "f = \<lparr>fi_artifact = artifact_address hex payload, fi_sha = hex payload, fi_length = length payload\<rparr>" by (fact f)
  show "ct_captures t' = AList.update c (finalised_row hex payload now r) (ct_captures t)" by (subst t') (simp add: t2)
  show "ct_chunks t' = ct_chunks (drop_chunks c t)" by (subst t') (simp add: t2)
  show "ct_artifacts t' = replace_row (artifact_address hex payload) \<lparr>af_data = payload, af_stored = now\<rparr> (ct_artifacts t)"
    by (subst t') (simp add: t2)
qed

lemma finalise_Inr:
  assumes "finalise hex c now ctx evidence (t, h) = (Inr f, s')"
  obtains r b t' where "live_row c ctx t = Inr r" "h c = Some b" "hex (staged_data c t) = hex b" "staged_data c t \<noteq> []"
    "publish hex c r (staged_data c t) now evidence t = (Inr f, t')" "s' = (t', h(c := None))"
  using assms by (auto simp: finalise_def Let_def split: sum.splits option.splits if_splits prod.splits)

lemma inv_finalise:
  assumes I: "capture_inv hex M (t, h)"
  shows "capture_inv hex M (snd (finalise hex c now ctx evidence (t, h)))"
proof (cases "fst (finalise hex c now ctx evidence (t, h))")
  case (Inl e)
  then have "snd (finalise hex c now ctx evidence (t, h)) = (t, h)"
    by (auto simp: finalise_def Let_def split: sum.splits option.splits if_splits prod.splits)
  with I show ?thesis by simp
next
  case (Inr f)
  then obtain s' where eq: "finalise hex c now ctx evidence (t, h) = (Inr f, s')" by (metis prod.collapse)
  obtain r b t' where r: "live_row c ctx t = Inr r" "staged_data c t \<noteq> []"
      "publish hex c r (staged_data c t) now evidence t = (Inr f, t')" "s' = (t', h(c := None))"
    by (rule finalise_Inr [OF eq])
  note row = r(1) [unfolded live_row_Inr] and pub = publish_Inr [OF r(3)]
  let ?d = "staged_data c t"
  have "length ?d = staged_bytes c t"
    using capture_invD(3) [OF I, of c] by (simp add: staged_data_concat staged_bytes_length digest_ok_def)
  then have len: "int (length ?d) \<le> cs_reserved r" using row capture_invD(2) [OF I, of c r] by (simp add: row_ok_def)
  have "capture_inv hex M (t', h(c := None))"
  proof (rule inv_settle [OF I _ _ _ _ _ _ pub(2,3,4)])
    show "map_of (ct_captures t) c = Some r" using row by simp
    show "row_ok (drop_chunks c t\<lparr>ct_artifacts := replace_row (artifact_address hex ?d) \<lparr>af_data = ?d, af_stored = now\<rparr> (ct_artifacts t)\<rparr>)
        c (finalised_row hex ?d now r)"
      using len r(2) row capture_invD(2) [OF I, of c r] by (simp add: row_ok_def finalised_row_def chunks_drop)
    show "weight ctx' (finalised_row hex ?d now r) \<le> weight ctx' r" for ctx'
      using len row by (simp add: weight_def finalised_row_def)
    show "a = artifact_address hex (af_data w)" if "map_of (replace_row (artifact_address hex ?d) \<lparr>af_data = ?d, af_stored = now\<rparr>
        (ct_artifacts t)) a = Some w" for a w
      using that capture_invD(4) [OF I, of a w] by (auto split: if_splits)
  qed (simp_all add: finalised_row_def)
  then show ?thesis by (simp add: eq r(4))
qed

text \<open>The sweep.\<close>

definition aborted_row :: "string \<Rightarrow> capture_row \<Rightarrow> capture_row" where
  "aborted_row now r = (if cs_state r = Staged then r\<lparr>cs_state := Aborted, cs_updated := now\<rparr> else r)"

lemma mark_orphans_rows: "mark_orphans now t = (map fst (filter (\<lambda>(_, r). cs_state r = Staged) (ct_captures t)),
    t\<lparr>ct_captures := map (\<lambda>(c, r). (c, aborted_row now r)) (ct_captures t)\<rparr>)"
  by (simp add: mark_orphans_def aborted_row_def)

lemma map_of_marked: "map_of (map (\<lambda>(c, r). (c, aborted_row now r)) rows) c = map_option (aborted_row now) (map_of rows c)"
  by (rule map_of_mark)

lemma staged_listed:
  assumes "distinct (map fst (ct_captures t))"
  shows "c \<in> set (fst (mark_orphans now t)) \<longleftrightarrow> (\<exists>r. staged_capture c t = Some r)"
proof -
  have "c \<in> set (fst (mark_orphans now t)) \<longleftrightarrow> (\<exists>r. (c, r) \<in> set (ct_captures t) \<and> cs_state r = Staged)"
    by (force simp: mark_orphans_def)
  also have "\<dots> \<longleftrightarrow> (\<exists>r. staged_capture c t = Some r)"
    unfolding map_of_eq_Some_iff [OF assms, symmetric] by (auto simp: staged_capture_def split: option.splits)
  finally show ?thesis .
qed

lemma sum_list_le: "(\<And>x. x \<in> set xs \<Longrightarrow> f x \<le> g x) \<Longrightarrow> sum_list (map f xs) \<le> sum_list (map (g :: 'a \<Rightarrow> int) xs)"
  by (rule sum_list_mono)

lemma inv_mark:
  assumes I: "capture_inv hex M (t, h)"
  shows "capture_inv hex M (snd (mark_orphans now t), \<lambda>_. None)"
proof -
  let ?t = "t\<lparr>ct_captures := map (\<lambda>(c, r). (c, aborted_row now r)) (ct_captures t)\<rparr>"
  have "capture_inv hex M (?t, \<lambda>_. None)"
  proof (rule capture_invI)
    show "distinct (map fst (ct_captures ?t))" using capture_invD(1) [OF I] by (simp add: o_def case_prod_unfold)
    show "row_ok ?t c r" if "map_of (ct_captures ?t) c = Some r" for c r
    proof -
      obtain q where q: "map_of (ct_captures t) c = Some q" "r = aborted_row now q" using \<open>map_of (ct_captures ?t) c = Some r\<close> by (auto simp: map_of_marked)
      then show ?thesis using capture_invD(2) [OF I q(1)]
        by (auto simp: row_ok_def aborted_row_def split: capture_state.splits if_splits)
    qed
    show "digest_ok (\<lambda>_. None) ?t c" for c
      using capture_invD(3) [OF I, of c] by (simp add: digest_ok_def map_of_marked)
    show "used_bytes ctx ?t \<le> M" for ctx
    proof -
      have "weight ctx (aborted_row now r) \<le> weight ctx r" if "(c, r) \<in> set (ct_captures t)" for c r
        using capture_invD(2) [OF I, of c r] map_of_is_SomeI [OF capture_invD(1) [OF I] that]
        by (auto simp: weight_def aborted_row_def row_ok_def)
      then have "used_bytes ctx ?t \<le> used_bytes ctx t"
        by (auto simp: used_bytes_weight o_def case_prod_unfold intro!: sum_list_mono)
      then show ?thesis using capture_invD(5) [OF I, of ctx] by linarith
    qed
  qed (use capture_invD(4) [OF I] in simp)
  then show ?thesis by (simp add: mark_orphans_rows)
qed

lemma delete_aborted_chunks:
  assumes "distinct (map fst (ct_captures t))"
  shows "capture_chunks c (delete_aborted_rows t) =
    (if (\<exists>r. map_of (ct_captures t) c = Some r \<and> cs_state r = Aborted) then [] else capture_chunks c t)"
proof -
  have "c \<in> fst ` set (filter (\<lambda>(_, r). cs_state r = Aborted) (ct_captures t)) \<longleftrightarrow>
      (\<exists>r. map_of (ct_captures t) c = Some r \<and> cs_state r = Aborted)"
    using map_of_eq_Some_iff [OF assms] by (force simp: image_iff)
  moreover have "capture_chunks c (delete_aborted_rows t) =
      (if c \<in> fst ` set (filter (\<lambda>(_, r). cs_state r = Aborted) (ct_captures t)) then [] else capture_chunks c t)"
    by (auto simp: capture_chunks_def delete_aborted_rows_def Let_def filter_empty_conv intro!: filter_cong)
  ultimately show ?thesis by simp
qed

lemma inv_delete_aborted:
  assumes I: "capture_inv hex M (t, h)"
  shows "capture_inv hex M (delete_aborted_rows t, h)"
proof -
  note D = capture_invD(1) [OF I]
  have rows: "map_of (ct_captures (delete_aborted_rows t)) c =
      Option.bind (map_of (ct_captures t) c) (\<lambda>r. if cs_state r \<noteq> Aborted then Some r else None)" for c
    using map_of_filter_rows [OF D, of "\<lambda>r. cs_state r \<noteq> Aborted" c] by (simp add: delete_aborted_rows_def Let_def)
  have arts: "ct_artifacts (delete_aborted_rows t) = ct_artifacts t" by (simp add: delete_aborted_rows_def Let_def)
  show ?thesis
  proof (rule capture_invI)
    show "distinct (map fst (ct_captures (delete_aborted_rows t)))" using D
      by (simp add: delete_aborted_rows_def Let_def distinct_map_filter)
    show "row_ok (delete_aborted_rows t) c r" if "map_of (ct_captures (delete_aborted_rows t)) c = Some r" for c r
    proof -
      have "map_of (ct_captures t) c = Some r" using that rows [of c] by (auto simp: bind_eq_Some_conv split: if_splits)
      with capture_invD(2) [OF I this] show ?thesis
        by (auto simp: row_ok_def staged_bytes_def delete_aborted_chunks [OF D] arts split: capture_state.splits)
    qed
    show "digest_ok h (delete_aborted_rows t) c" for c
      using capture_invD(3) [OF I, of c]
      by (auto simp: digest_ok_def delete_aborted_chunks [OF D] rows staged_capture_def split: option.splits if_splits)
    show "used_bytes ctx (delete_aborted_rows t) \<le> M" for ctx
      using capture_invD(5) [OF I, of ctx] sum_rows_filter [of "\<lambda>r. cs_state r \<noteq> Aborted" "weight ctx" "ct_captures t"]
      by (simp add: used_bytes_weight delete_aborted_rows_def Let_def weight_def)
  qed (use capture_invD(4) [OF I] arts in simp)
qed

lemma hashers_gone: "fold (\<lambda>c h. h(c := None)) ids h = (\<lambda>c. if c \<in> set ids then None else h c)"
  by (induction ids arbitrary: h) (auto simp: fun_eq_iff)

lemma reclaim_orphans_eq:
  assumes "capture_inv hex M (t, h)"
  shows "snd (reclaim_orphans now (t, h)) = (delete_aborted_rows (snd (mark_orphans now t)), \<lambda>_. None)"
proof -
  have "c \<in> set (fst (mark_orphans now t))" if "h c = Some b" for c b
    using that capture_invD(3) [OF assms, of c] staged_listed [OF capture_invD(1) [OF assms], of c now] by (auto simp: digest_ok_def)
  then have "fold (\<lambda>c h. h(c := None)) (fst (mark_orphans now t)) h = (\<lambda>_. None)"
    unfolding hashers_gone fun_eq_iff by (metis option.exhaust)
  then show ?thesis by (cases "mark_orphans now t") (simp add: reclaim_orphans_def)
qed

lemma marked_finalised: "filter (\<lambda>(_, r). cs_state r = Finalised) (map (\<lambda>(c, r). (c, aborted_row now r)) rows) =
    filter (\<lambda>(_, r). cs_state r = Finalised) rows"
proof (induction rows)
  case (Cons p rows)
  then show ?case by (cases p; cases "cs_state (snd p)") (auto simp: aborted_row_def)
qed simp

lemma marked_kept: "filter (\<lambda>(_, r). cs_state r \<noteq> Aborted) (map (\<lambda>(c, r). (c, aborted_row now r)) rows) =
    filter (\<lambda>(_, r). cs_state r = Finalised) rows"
proof (induction rows)
  case (Cons p rows)
  then show ?case by (cases p; cases "cs_state (snd p)") (auto simp: aborted_row_def)
qed simp

text \<open>The tables after both transactions.\<close>

lemma swept_tables:
  assumes I: "capture_inv hex M (t, h)"
  shows "delete_aborted_rows (snd (mark_orphans now t)) =
    t\<lparr>ct_captures := filter (\<lambda>(_, r). cs_state r = Finalised) (ct_captures t), ct_chunks := []\<rparr>"
proof -
  let ?m = "snd (mark_orphans now t)"
  have J: "capture_inv hex M (?m, \<lambda>_. None)" by (rule inv_mark [OF I])
  have "capture_chunks c (delete_aborted_rows ?m) = []" for c
  proof -
    have "capture_chunks c ?m = capture_chunks c t" by (simp add: mark_orphans_rows)
    moreover have "capture_chunks c t = [] \<or> (\<exists>r. map_of (ct_captures t) c = Some r \<and> cs_state r \<noteq> Finalised)"
      using capture_invD(2) [OF I, of c] capture_invD(3) [OF I, of c]
      by (cases "map_of (ct_captures t) c") (auto simp: digest_ok_def row_ok_def)
    moreover have "cs_state (aborted_row now r) = Aborted" if "cs_state r \<noteq> Finalised" for r
      using that by (cases "cs_state r") (auto simp: aborted_row_def)
    moreover have "map_of (ct_captures ?m) c = map_option (aborted_row now) (map_of (ct_captures t) c)"
      by (simp add: mark_orphans_rows map_of_marked)
    ultimately show ?thesis by (auto simp: delete_aborted_chunks [OF capture_invD(1) [OF J]])
  qed
  then have "ct_chunks (delete_aborted_rows ?m) = []"
    by (metis (mono_tags) capture_chunks_def filter_empty_conv list.set_intros(1) neq_Nil_conv)
  moreover have "ct_captures (delete_aborted_rows ?m) = filter (\<lambda>(_, r). cs_state r = Finalised) (ct_captures t)"
    by (simp add: delete_aborted_rows_def Let_def mark_orphans_rows marked_kept)
  moreover have "delete_aborted_rows ?m = t\<lparr>ct_captures := ct_captures (delete_aborted_rows ?m), ct_chunks := ct_chunks (delete_aborted_rows ?m)\<rparr>"
    by (simp add: delete_aborted_rows_def Let_def mark_orphans_rows)
  ultimately show ?thesis by simp
qed

lemma capture_do_inv:
  assumes "capture_inv hex M s" "en_dataset_max W = Some M" "sensible oper"
  shows "capture_inv hex M (capture_do hex W oper s)"
proof -
  obtain t h where s: "s = (t, h)" by fastforce
  show ?thesis
  proof (cases oper)
    case Crash
    then show ?thesis using assms(1) by (auto simp: s capture_do_def capture_inv_def digest_ok_def)
  next
    case (Sweep now)
    then show ?thesis using inv_delete_aborted [OF inv_mark [OF assms(1) [unfolded s], of now]]
      by (simp add: s capture_do_def reclaim_orphans_eq [OF assms(1) [unfolded s]])
  qed (use assms in \<open>auto simp: s capture_do_def sensible_def
      intro: inv_open_capture inv_open_payload inv_append inv_finalise inv_abort inv_mark\<close>)
qed

lemma capture_run_inv:
  assumes "list_all sensible ops" "en_dataset_max W = Some M" "0 \<le> M"
  shows "capture_inv hex M (capture_run hex W ops)"
proof -
  have "capture_inv hex M s \<Longrightarrow> list_all sensible ops \<Longrightarrow> capture_inv hex M (fold (capture_do hex W) ops s)" for s
    by (induction ops arbitrary: s) (simp_all add: capture_do_inv assms(2))
  then show ?thesis using assms inv_start by (simp add: capture_run_def)
qed

section \<open>Properties\<close>

text \<open>
  Claim C26. In every history of writer calls, crashes and sweeps the bytes a session holds (reserved while staged, charged once
  finalised) stay within the dataset quota, no capture stages more than it reserved, and a finalised one is charged for at least
  one byte and at most its reservation, has no chunk left and names an artifact that is stored.
\<close>

theorem capture_quota_holds:
  assumes "list_all sensible ops" "en_dataset_max W = Some M" "0 \<le> M" "capture_run hex W ops = (t, h)"
  shows "used_bytes ctx t \<le> M \<and> (\<forall>c r. map_of (ct_captures t) c = Some r \<longrightarrow> (case cs_state r of
        Staged \<Rightarrow> int (staged_bytes c t) \<le> cs_reserved r
      | Finalised \<Rightarrow> 0 < cs_charged r \<and> cs_charged r \<le> cs_reserved r \<and> capture_chunks c t = [] \<and>
          (\<exists>a. cs_artifact r = Some a \<and> a \<in> fst ` set (ct_artifacts t))
      | Aborted \<Rightarrow> True))"
proof -
  have I: "capture_inv hex M (t, h)" using capture_run_inv [OF assms(1-3), of hex] assms(4) by simp
  show ?thesis using capture_invD(2,5) [OF I] by (simp add: row_ok_def)
qed

text \<open>An envelope of ten bytes in all, and a session that stages two captures and crashes.\<close>

definition sample_envelope :: envelope where
  "sample_envelope = \<lparr>en_capture_max = Some 8, en_dataset_max = Some 10\<rparr>"

definition sample_history :: "capture_op list" where
  "sample_history = [OpenCapture ''cap:1'' ''s1'' ''raw_binary'' None 6 ''t0'', Append ''cap:1'' ''abc'' ''s1'',
     OpenPayload ''pay:1'' ''s1'' ''json'' 4 ''t1'', Append ''cap:1'' ''de'' ''s1'', Finalise ''cap:1'' ''t2'' ''s1'' None,
     Append ''pay:1'' ''xy'' ''s1'']"

lemma capture_quota_holds_witness:
  "used_bytes ''s1'' (fst (capture_run id sample_envelope sample_history)) \<le> 10 \<and>
   used_bytes ''s1'' (fst (capture_run id sample_envelope sample_history)) = 9"
proof -
  have ok: "list_all sensible sample_history" by code_simp
  obtain t h where s: "capture_run id sample_envelope sample_history = (t, h)" by fastforce
  have "used_bytes ''s1'' (fst (capture_run id sample_envelope sample_history)) \<le> 10"
    unfolding s fst_conv by (rule capture_quota_holds [OF ok _ _ s, of 10, THEN conjunct1]) (simp_all add: sample_envelope_def)
  moreover have "used_bytes ''s1'' (fst (capture_run id sample_envelope sample_history)) = 9" by code_simp
  ultimately show ?thesis by simp
qed

text \<open>
  The bytes a history hands to a capture: those of the accepted appends to it, in order, since it was last opened. They are read off
  the calls, not off the tables.
\<close>

definition hand :: "(string \<Rightarrow> string) \<Rightarrow> envelope \<Rightarrow> string \<Rightarrow> capture_op \<Rightarrow> staging \<times> string \<Rightarrow> staging \<times> string" where
  "hand hex W c oper sb = (case sb of (s, b) \<Rightarrow> (capture_do hex W oper s, case oper of
      OpenCapture d ctx fmt samples max_bytes now \<Rightarrow> if d = c \<and> \<not> isl (fst (open_capture W d ctx fmt samples max_bytes now s)) then [] else b
    | OpenPayload d ctx encoding limit now \<Rightarrow> if d = c \<and> \<not> isl (fst (open_payload W d ctx encoding limit now s)) then [] else b
    | Append d bs ctx \<Rightarrow> if d = c \<and> \<not> isl (fst (append_chunk d bs ctx s)) then b @ bs else b
    | _ \<Rightarrow> b))"

definition handed_in :: "(string \<Rightarrow> string) \<Rightarrow> envelope \<Rightarrow> string \<Rightarrow> capture_op list \<Rightarrow> string" where
  "handed_in hex W c ops = snd (fold (hand hex W c) ops ((no_content, \<lambda>_. None), []))"

definition follows_digest :: "string \<Rightarrow> staging \<times> string \<Rightarrow> bool" where
  "follows_digest c sb \<longleftrightarrow> (\<forall>hashed. snd (fst sb) c = Some hashed \<longrightarrow> hashed = snd sb)"

lemma digest_reserve:
  "reserve_row d row (t, h) = (Inr (), (t\<lparr>ct_captures := ct_captures t @ [(d, row)]\<rparr>, h(d \<mapsto> [])))"
  by (simp add: reserve_row_def)

lemma digest_finalise: "snd (snd (finalise hex d now ctx evidence (t, h))) c \<in> {h c, None}"
  by (auto simp: finalise_def Let_def split: sum.splits option.splits prod.splits)

lemma digest_reclaim: "snd (snd (reclaim_orphans now (t, h))) c \<in> {h c, None}"
  by (auto simp: reclaim_orphans_def hashers_gone split: prod.splits)

lemma hand_follows:
  assumes "follows_digest c (s, b)"
  shows "follows_digest c (hand hex W c oper (s, b))"
proof -
  obtain t h where s: "s = (t, h)" by (cases s)
  from assms have b: "h c = Some x \<Longrightarrow> x = b" for x by (simp add: follows_digest_def s)
  show ?thesis
  proof (cases oper)
    case (Finalise d now ctx evidence)
    then show ?thesis using b digest_finalise [of hex d now ctx evidence t h c] by (auto simp: follows_digest_def hand_def capture_do_def s)
  next
    case (Sweep now)
    then show ?thesis using b digest_reclaim [of now t h c] by (auto simp: follows_digest_def hand_def capture_do_def s)
  next
    case (Append d bs ctx)
    then show ?thesis using b
      by (auto simp: follows_digest_def hand_def capture_do_def append_chunk_def s split: sum.splits)
  next
    case (OpenCapture d ctx fmt samples max_bytes now)
    then show ?thesis using b
      by (auto simp: follows_digest_def hand_def capture_do_def open_capture_def digest_reserve s Let_def split: option.splits)
  next
    case (OpenPayload d ctx encoding limit now)
    then show ?thesis using b
      by (auto simp: follows_digest_def hand_def capture_do_def open_payload_def digest_reserve s Let_def split: option.splits)
  qed (use b in \<open>auto simp: follows_digest_def hand_def capture_do_def abort_capture_def s split: option.splits\<close>)
qed

lemma fold_hand:
  "fst (fold (hand hex W c) ops (s, b)) = fold (capture_do hex W) ops s \<and>
   (follows_digest c (s, b) \<longrightarrow> follows_digest c (fold (hand hex W c) ops (s, b)))"
proof (induction ops arbitrary: s b)
  case (Cons oper ops)
  obtain b' where b': "hand hex W c oper (s, b) = (capture_do hex W oper s, b')" by (simp add: hand_def)
  with Cons [of "capture_do hex W oper s" b'] hand_follows [of c s b hex W oper] show ?case by simp
qed simp

lemma digest_is_handed_in:
  assumes "capture_run hex W ops = (t, h)" "h c = Some b"
  shows "b = handed_in hex W c ops"
proof -
  have "follows_digest c (fold (hand hex W c) ops ((no_content, \<lambda>_. None), []))"
    using fold_hand [of hex W c ops "(no_content, \<lambda>_. None)" "[]"] by (simp add: follows_digest_def)
  with assms fold_hand [of hex W c ops "(no_content, \<lambda>_. None)" "[]"]
  show ?thesis by (simp add: follows_digest_def handed_in_def capture_run_def)
qed

text \<open>
  Claim C27. A finalise that succeeds publishes, under the address of their digest, exactly the bytes that the accepted appends handed
  in since the capture was opened, in order: the record then read names that artifact and its length, the chunks and the
  running digest are gone, and reading the artifact window by window gives those bytes back.
\<close>

theorem finalise_publishes:
  assumes "list_all sensible ops" "en_dataset_max W = Some M" "0 \<le> M" "capture_run hex W ops = (t, h)"
    and "finalise hex c now ctx evidence (t, h) = (Inr f, t', h')" and "0 < k" "int k \<le> max_chunk_bytes"
    and "b = handed_in hex W c ops"
  shows "b \<noteq> [] \<and> f = \<lparr>fi_artifact = artifact_address hex b, fi_sha = hex b, fi_length = length b\<rparr> \<and>
    finalise_record c t' = Some (artifact_address hex b, int (length b)) \<and> capture_chunks c t' = [] \<and> h' c = None \<and>
    concat (map (\<lambda>i. case artifact_chunk hex (fi_artifact f) (int (i * k)) (int k) t' of Inr w \<Rightarrow> aw_data w | Inl e \<Rightarrow> [])
      [0..<Suc (length b div k)]) = b"
proof -
  have I: "capture_inv hex M (t, h)" using capture_run_inv [OF assms(1-3), of hex] assms(4) by simp
  obtain r x where r: "live_row c ctx t = Inr r" "h c = Some x" "staged_data c t \<noteq> []"
      "publish hex c r (staged_data c t) now evidence t = (Inr f, t')" "h' = h(c := None)"
    by (rule finalise_Inr [OF assms(5)]) auto
  have x: "x = b" using digest_is_handed_in [OF assms(4) r(2)] assms(8) by simp
  note pub = publish_Inr [OF r(4)]
  have b: "staged_data c t = b" using capture_invD(3) [OF I, of c] r(2) by (auto simp: digest_ok_def staged_data_concat x)
  have "map_of (ct_captures t') c = Some (finalised_row hex b now r)" by (simp add: pub(2) b update_conv')
  then have rec: "finalise_record c t' = Some (artifact_address hex b, int (length b))"
    by (simp add: finalise_record_def finalised_row_def)
  have "capture_chunks c t' = capture_chunks c (drop_chunks c t)" by (simp add: capture_chunks_def pub(3))
  then have none: "capture_chunks c t' = []" by (simp add: chunks_drop)
  have row: "map_of (ct_artifacts t') (artifact_address hex b) = Some \<lparr>af_data = b, af_stored = now\<rparr>" by (simp add: pub(4) b)
  show ?thesis using r b rec none artifact_windows [OF row assms(6,7)] pub(1) by simp
qed

lemma finalise_publishes_witness:
  "concat (map (\<lambda>i. case artifact_chunk id ''art-abcde'' (int (i * 2)) 2
      (fst (snd (finalise id ''cap:1'' ''t2'' ''s1'' None (capture_run id sample_envelope (take 4 sample_history)))))
    of Inr w \<Rightarrow> aw_data w | Inl e \<Rightarrow> []) [0..<3]) = ''abcde''"
proof -
  let ?s = "capture_run id sample_envelope (take 4 sample_history)"
  let ?f = "\<lparr>fi_artifact = ''art-abcde'', fi_sha = ''abcde'', fi_length = 5\<rparr>"
  obtain t' h' where s': "snd (finalise id ''cap:1'' ''t2'' ''s1'' None ?s) = (t', h')" by fastforce
  have ok: "list_all sensible (take 4 sample_history)" by code_simp
  have b: "''abcde'' = handed_in id sample_envelope ''cap:1'' (take 4 sample_history)" by code_simp
  have "fst (finalise id ''cap:1'' ''t2'' ''s1'' None ?s) = Inr ?f" by code_simp
  then have fin: "finalise id ''cap:1'' ''t2'' ''s1'' None (fst ?s, snd ?s) = (Inr ?f, t', h')" using s' by (metis prod.collapse)
  have k: "0 < (2::nat)" "int 2 \<le> max_chunk_bytes" by (simp_all add: max_chunk_bytes_def)
  have W: "en_dataset_max sample_envelope = Some 10" "0 \<le> (10::int)" by (simp_all add: sample_envelope_def)
  have "concat (map (\<lambda>i. case artifact_chunk id (fi_artifact ?f) (int (i * 2)) (int 2) t' of Inr w \<Rightarrow> aw_data w | Inl e \<Rightarrow> [])
      [0..<Suc (length ''abcde'' div 2)]) = ''abcde''"
    by (rule finalise_publishes [OF ok W _ fin k b, THEN conjunct2, THEN conjunct2, THEN conjunct2, THEN conjunct2, THEN conjunct2]) simp
  moreover have "fst (snd (finalise id ''cap:1'' ''t2'' ''s1'' None ?s)) = t'" by (simp add: s')
  moreover have "[0..<Suc (length ''abcde'' div 2)] = [0..<3]" by code_simp
  ultimately show ?thesis by (simp only: finalised.simps of_nat_numeral)
qed

text \<open>
  The sweep at a start, whatever was lost before it and even when an earlier sweep died between its two transactions,
  leaves exactly the finalised rows, no chunk and no digest, touches no artifact, evidence or document, and gives back every
  reservation: what a session then uses is what its finalised captures were charged.
\<close>

theorem sweep_reclaims:
  assumes "list_all sensible ops" "en_dataset_max W = Some M" "0 \<le> M" "capture_run hex W ops = (t, h)"
    and "dead \<in> {[], [Crash], [CrashInSweep now']}"
  shows "capture_run hex W (ops @ dead @ [Sweep now]) =
      (t\<lparr>ct_captures := filter (\<lambda>(_, r). cs_state r = Finalised) (ct_captures t), ct_chunks := []\<rparr>, \<lambda>_. None) \<and>
    used_bytes ctx (fst (capture_run hex W (ops @ dead @ [Sweep now]))) = sum_list (map cs_charged (rows_in ctx Finalised t))"
proof -
  have I: "capture_inv hex M (t, h)" using capture_run_inv [OF assms(1-3), of hex] assms(4) by simp
  have run: "capture_run hex W (ops @ dead @ [Sweep now]) = capture_do hex W (Sweep now) (fold (capture_do hex W) dead (t, h))"
    using assms(4) by (simp add: capture_run_def)
  let ?t = "t\<lparr>ct_captures := filter (\<lambda>(_, r). cs_state r = Finalised) (ct_captures t), ct_chunks := []\<rparr>"
  have "capture_do hex W (Sweep now) (fold (capture_do hex W) dead (t, h)) = (?t, \<lambda>_. None)"
  proof -
    consider "dead = []" | "dead = [Crash]" | "dead = [CrashInSweep now']" using assms(5) by blast
    then show ?thesis
    proof cases
      case 1
      then show ?thesis using swept_tables [OF I] by (simp add: capture_do_def reclaim_orphans_eq [OF I])
    next
      case 2
      have "capture_inv hex M (t, \<lambda>_. None)" using capture_do_inv [OF I assms(2), of Crash] by (simp add: capture_do_def sensible_def)
      from reclaim_orphans_eq [OF this] swept_tables [OF this] 2 show ?thesis by (simp add: capture_do_def)
    next
      case 3
      have J: "capture_inv hex M (snd (mark_orphans now' t), \<lambda>_. None)" by (rule inv_mark [OF I])
      from reclaim_orphans_eq [OF this] swept_tables [OF this] 3 show ?thesis
        by (simp add: capture_do_def mark_orphans_rows marked_finalised)
    qed
  qed
  with run have eq: "capture_run hex W (ops @ dead @ [Sweep now]) = (?t, \<lambda>_. None)" by simp
  have "used_bytes ctx ?t = sum_list (map cs_charged (rows_in ctx Finalised t))"
  proof -
    have "sum_list (map (weight ctx \<circ> snd) (filter (\<lambda>(_, r). cs_state r = Finalised) xs)) =
      sum_list (map cs_charged (filter (\<lambda>c. cs_context c = ctx \<and> cs_state c = Finalised) (map snd xs)))" for xs :: "(string \<times> capture_row) list"
      by (induction xs) (auto simp: weight_def)
    then show ?thesis by (simp add: used_bytes_weight rows_in_def)
  qed
  with eq show ?thesis by simp
qed

lemma sweep_reclaims_witness:
  "used_bytes ''s1'' (fst (capture_run id sample_envelope (sample_history @ [CrashInSweep ''t3''] @ [Sweep ''t4'']))) = 5"
proof -
  obtain t h where s: "capture_run id sample_envelope sample_history = (t, h)" by fastforce
  have ok: "list_all sensible sample_history" by code_simp
  have "used_bytes ''s1'' (fst (capture_run id sample_envelope (sample_history @ [CrashInSweep ''t3''] @ [Sweep ''t4'']))) =
      sum_list (map cs_charged (rows_in ''s1'' Finalised t))"
    by (rule sweep_reclaims [OF ok _ _ s, of 10, THEN conjunct2]) (simp_all add: sample_envelope_def)
  moreover have "sum_list (map cs_charged (rows_in ''s1'' Finalised (fst (capture_run id sample_envelope sample_history)))) = 5"
    by code_simp
  ultimately show ?thesis by (simp add: s)
qed

end
