(* ===== verification/Dispositions.thy ===== *)
theory Dispositions
  imports Captures
begin

text \<open>
  The disposition log, \<open>DispositionLog\<close> of \<open>state/dispositions.py\<close>: one transaction that audits, deletes and collects. The
  plan is handed in, one \<open>plan_row\<close> per selected row; an archived row carries the facts its stager measured. Digests
  (\<open>hex\<close>), the canonical JSON text of an envelope (\<open>dumps\<close>) and the fresh ids of the audit rows are parameters. The test
  hook is left out.
\<close>

section \<open>Plans\<close>

record plan_row =
  pl_kind :: string
  pl_id :: string
  pl_class :: string
  pl_anchor_kind :: string
  pl_anchor_at :: string
  pl_bytes :: int
  pl_matched :: obj

record archive_facts =
  ab_artifact :: "string option"
  ab_length :: int
  ab_destination :: string
  ab_verified :: string

datatype tier = Deleted | Archived archive_facts

record invocation_head =
  ih_id :: string
  ih_actor :: string
  ih_path :: string
  ih_sha :: string
  ih_bench :: "string option"
  ih_counts :: obj
  ih_figures :: "obj option"

record disposal =
  dp_deleted :: "string list"
  dp_archived :: "string list"
  dp_collected :: nat
  dp_reclaimed :: int
  dp_charged :: int
  dp_freed :: nat

section \<open>The guarded deletes\<close>

definition removeprefix :: "string \<Rightarrow> string \<Rightarrow> string" where
  "removeprefix p s = (if prefix p s then drop (length p) s else s)"

datatype guarded_delete =
    DeleteEvidence string string string
  | DeleteCapture string string

definition current_row :: "plan_row \<Rightarrow> content \<Rightarrow> content_fault + string option \<times> guarded_delete" where
  "current_row p t = (let moved = Inl (ChangedUnderPlan (pl_id p)) in
     if pl_kind p = ''evidence''
     then (case map_of (ct_evidence t) (pl_id p) of
         None \<Rightarrow> moved
       | Some v \<Rightarrow>
           if vi_kind v \<noteq> removeprefix ''evidence:'' (pl_class p) then moved
           else if pl_anchor_kind p = ''landing'' \<and> vi_stored v \<noteq> pl_anchor_at p then moved
           else Inr (vi_artifact v, DeleteEvidence (pl_id p) (vi_kind v) (vi_stored v)))
     else (case map_of (ct_captures t) (pl_id p) of
         None \<Rightarrow> moved
       | Some r \<Rightarrow>
           if cs_state r \<noteq> Finalised then moved
           else if pl_anchor_kind p = ''landing'' \<and> cs_updated r \<noteq> pl_anchor_at p then moved
           else Inr (cs_artifact r, DeleteCapture (pl_id p) (cs_updated r))))"

text \<open>The statement, with the number of rows it removed.\<close>

definition run_delete :: "guarded_delete \<Rightarrow> content \<Rightarrow> nat \<times> content" where
  "run_delete g t = (case g of
      DeleteEvidence e kind stored \<Rightarrow>
        (let hit = (\<lambda>(i, v). i = e \<and> vi_kind v = kind \<and> vi_stored v = stored) in
         (length (filter hit (ct_evidence t)), t\<lparr>ct_evidence := filter (\<lambda>row. \<not> hit row) (ct_evidence t)\<rparr>))
    | DeleteCapture c updated \<Rightarrow>
        (let hit = (\<lambda>(i, r). i = c \<and> cs_state r = Finalised \<and> cs_updated r = updated) in
         (length (filter hit (ct_captures t)), t\<lparr>ct_captures := filter (\<lambda>row. \<not> hit row) (ct_captures t)\<rparr>)))"

section \<open>One row\<close>

definition artifact_length :: "string option \<Rightarrow> content \<Rightarrow> nat" where
  "artifact_length a t = (case Option.bind a (map_of (ct_artifacts t)) of None \<Rightarrow> 0 | Some w \<Rightarrow> length (af_data w))"

definition opt_str :: "string option \<Rightarrow> pyval" where
  "opt_str a = (case a of None \<Rightarrow> JNull | Some s \<Rightarrow> JStr s)"

text \<open>The two shapes: the archive members join the envelope of an archived row only.\<close>

definition plan_members :: "string \<Rightarrow> string \<Rightarrow> string \<Rightarrow> plan_row \<Rightarrow> obj" where
  "plan_members disposition invocation now p = [(''disposition_id'', JStr disposition), (''invocation_id'', JStr invocation),
     (''row_kind'', JStr (pl_kind p)), (''target_id'', JStr (pl_id p)), (''data_class'', JStr (pl_class p)),
     (''anchor_kind'', JStr (pl_anchor_kind p)), (''anchor_at'', JStr (pl_anchor_at p)), (''bytes'', JInt (pl_bytes p))] @
     map (\<lambda>k. (k, obj_get (pl_matched p) k)) [''context_key'', ''bench'', ''matched_selector'', ''matched_scope'',
       ''matched_rule'', ''on_disposition'', ''disposal_date''] @ [(''executed_at'', JStr now)]"

definition outcome_members :: "tier \<Rightarrow> string option \<Rightarrow> content \<Rightarrow> obj" where
  "outcome_members tier a t = (case tier of
      Deleted \<Rightarrow> [(''outcome'', JStr ''deleted''), (''deleted_artifact_id'', opt_str a),
        (''deleted_byte_length'', JInt (int (artifact_length a t)))]
    | Archived f \<Rightarrow> [(''outcome'', JStr ''archived''), (''deleted_artifact_id'', JNull), (''deleted_byte_length'', JInt 0),
        (''archived_artifact_id'', opt_str (ab_artifact f)), (''archived_byte_length'', JInt (ab_length f)),
        (''archive_destination'', JStr (ab_destination f)), (''archive_verified_at'', JStr (ab_verified f))])"

definition audit_row :: "(string \<Rightarrow> string) \<Rightarrow> string \<Rightarrow> obj \<Rightarrow> disposition_row" where
  "audit_row hex blob env = \<lparr>di_envelope = env, di_decision = artifact_address hex blob, di_sha = hex blob\<rparr>"

definition record_audit :: "(string \<Rightarrow> string) \<Rightarrow> string \<Rightarrow> obj \<Rightarrow> string \<Rightarrow> content \<Rightarrow> content" where
  "record_audit hex blob env now t = (case put_artifact hex blob now t of
     (_, t) \<Rightarrow> t\<lparr>ct_dispositions := ct_dispositions t @ [audit_row hex blob env]\<rparr>)"

definition clear_chunks :: "plan_row \<Rightarrow> content \<Rightarrow> content" where
  "clear_chunks p t = (if pl_kind p = ''capture'' then drop_chunks (pl_id p) t else t)"

definition binding_moved :: "tier \<Rightarrow> string option \<Rightarrow> bool" where
  "binding_moved tier a = (case tier of Deleted \<Rightarrow> False | Archived f \<Rightarrow> a \<noteq> ab_artifact f)"

definition dispose_row :: "(string \<Rightarrow> string) \<Rightarrow> (obj \<Rightarrow> string) \<Rightarrow> string \<Rightarrow> string \<Rightarrow> string \<Rightarrow> plan_row \<Rightarrow> tier \<Rightarrow>
    content \<times> string list \<Rightarrow> content_fault + content \<times> string list" where
  "dispose_row hex dumps invocation now disposition p tier s = (case s of (t, dropped) \<Rightarrow> case current_row p t of
      Inl e \<Rightarrow> Inl e
    | Inr (a, g) \<Rightarrow>
        if binding_moved tier a then Inl (ChangedUnderPlan (pl_id p))
        else let env = plan_members disposition invocation now p @ outcome_members tier a t in
          case run_delete g (clear_chunks p (record_audit hex (dumps env) env now t)) of (n, t1) \<Rightarrow>
            if n \<noteq> 1 then Inl (ChangedUnderPlan (pl_id p)) else Inr (t1, case a of None \<Rightarrow> dropped | Some x \<Rightarrow> x # dropped))"

fun dispose_rows :: "(string \<Rightarrow> string) \<Rightarrow> (obj \<Rightarrow> string) \<Rightarrow> string \<Rightarrow> string \<Rightarrow> (string \<times> plan_row \<times> tier) list \<Rightarrow>
    content \<times> string list \<Rightarrow> content_fault + content \<times> string list" where
  "dispose_rows hex dumps invocation now [] s = Inr s"
| "dispose_rows hex dumps invocation now ((d, p, tier) # rest) s = (case dispose_row hex dumps invocation now d p tier s of
      Inl e \<Rightarrow> Inl e | Inr s' \<Rightarrow> dispose_rows hex dumps invocation now rest s')"

section \<open>Garbage collection\<close>

definition live_references :: "string \<Rightarrow> content \<Rightarrow> nat" where
  "live_references a t = length (filter (\<lambda>(_, v). vi_artifact v = Some a) (ct_evidence t)) +
     length (filter (\<lambda>(_, r). cs_artifact r = Some a) (ct_captures t)) +
     length (filter (\<lambda>d. di_decision d = a) (ct_dispositions t))"

definition corrupt :: "(string \<Rightarrow> string) \<Rightarrow> string \<Rightarrow> content \<Rightarrow> bool" where
  "corrupt hex a t = (case map_of (ct_artifacts t) a of None \<Rightarrow> False | Some w \<Rightarrow> hex (af_data w) \<noteq> removeprefix ''art-'' a)"

definition drop_artifact :: "string \<Rightarrow> content \<Rightarrow> content" where
  "drop_artifact a t = t\<lparr>ct_artifacts := filter (\<lambda>(b, _). b \<noteq> a) (ct_artifacts t)\<rparr>"

fun collect :: "(string \<Rightarrow> string) \<Rightarrow> string list \<Rightarrow> content \<Rightarrow> content_fault + (nat \<times> nat) \<times> content" where
  "collect hex [] t = Inr ((0, 0), t)"
| "collect hex (a # rest) t =
     (if live_references a t \<noteq> 0 then collect hex rest t
      else if corrupt hex a t then Inl (ChangedUnderPlan a)
      else case collect hex rest (drop_artifact a t) of
          Inl e \<Rightarrow> Inl e
        | Inr ((n, freed), t') \<Rightarrow>
            Inr ((n + length (filter (\<lambda>(b, _). b = a) (ct_artifacts t)), freed + artifact_length (Some a) t), t'))"

definition collect_unreferenced :: "(string \<Rightarrow> string) \<Rightarrow> string list \<Rightarrow> content \<Rightarrow> content_fault + (nat \<times> nat) \<times> content" where
  "collect_unreferenced hex dropped t = collect hex (sort (remdups dropped)) t"

section \<open>The invocation\<close>

definition plan_bytes :: "(plan_row \<times> tier) list \<Rightarrow> int" where
  "plan_bytes ps = sum_list (map (pl_bytes \<circ> fst) ps)"

definition invocation_counts :: "invocation_head \<Rightarrow> nat \<Rightarrow> int \<Rightarrow> int \<Rightarrow> nat \<Rightarrow> obj" where
  "invocation_counts i archived reclaimed charged freed = foldl (\<lambda>d (k, v). AList.update k v d) (ih_counts i)
     ([(''archived'', JInt (int archived))] @
      (case ih_figures i of Some f \<Rightarrow> if f = [] then [(''archive_objects_placed'', JInt 0), (''archive_objects_deduped'', JInt 0),
            (''archive_bytes_copied'', JInt 0)] else f
        | None \<Rightarrow> [(''archive_objects_placed'', JInt 0), (''archive_objects_deduped'', JInt 0), (''archive_bytes_copied'', JInt 0)]) @
      [(''bytes_reclaimed'', JInt reclaimed), (''charged_ledger_bytes'', JInt charged), (''artifact_bytes_freed'', JInt (int freed))])"

definition work_list :: "plan_row list \<Rightarrow> (plan_row \<times> archive_facts) list \<Rightarrow> (plan_row \<times> tier) list" where
  "work_list selected archived = map (\<lambda>p. (p, Deleted)) selected @ map (\<lambda>(p, f). (p, Archived f)) archived"

definition execute_invocation :: "(string \<Rightarrow> string) \<Rightarrow> (obj \<Rightarrow> string) \<Rightarrow> (nat \<Rightarrow> string) \<Rightarrow> plan_row list \<Rightarrow>
    (plan_row \<times> archive_facts) list \<Rightarrow> invocation_head \<Rightarrow> string \<Rightarrow> content \<Rightarrow> (content_fault + disposal) \<times> content" where
  "execute_invocation hex dumps fresh selected archived i now t =
     (let work = work_list selected archived; reclaimed = plan_bytes work;
          charged = plan_bytes (filter (\<lambda>(p, _). pl_kind p = ''capture'') work) in
      case dispose_rows hex dumps (ih_id i) now (zip (map fresh [0..<length work]) work) (t, []) of
        Inl e \<Rightarrow> (Inl e, t)
      | Inr (t1, dropped) \<Rightarrow> (case collect_unreferenced hex dropped t1 of
          Inl e \<Rightarrow> (Inl e, t)
        | Inr ((n, freed), t2) \<Rightarrow>
            (Inr \<lparr>dp_deleted = map pl_id selected, dp_archived = map (pl_id \<circ> fst) archived, dp_collected = n,
                dp_reclaimed = reclaimed, dp_charged = charged, dp_freed = freed\<rparr>,
             t2\<lparr>ct_invocations := ct_invocations t2 @ [\<lparr>in_id = ih_id i, in_at = now, in_actor = ih_actor i, in_path = ih_path i,
                in_sha = ih_sha i, in_bench = ih_bench i,
                in_counts = invocation_counts i (length archived) reclaimed charged freed\<rparr>]\<rparr>)))"

section \<open>What one row does\<close>

text \<open>The artifact of the row a plan names, and the rows that stay.\<close>

definition row_artifact :: "plan_row \<Rightarrow> content \<Rightarrow> string option" where
  "row_artifact p t = (if pl_kind p = ''evidence'' then Option.bind (map_of (ct_evidence t) (pl_id p)) vi_artifact
     else Option.bind (map_of (ct_captures t) (pl_id p)) cs_artifact)"

definition row_there :: "plan_row \<Rightarrow> content \<Rightarrow> bool" where
  "row_there p t \<longleftrightarrow> (if pl_kind p = ''evidence'' then pl_id p \<in> fst ` set (ct_evidence t)
     else (\<exists>r. map_of (ct_captures t) (pl_id p) = Some r \<and> cs_state r = Finalised))"

definition keys_distinct :: "content \<Rightarrow> bool" where
  "keys_distinct t \<longleftrightarrow> distinct (map fst (ct_evidence t)) \<and> distinct (map fst (ct_captures t)) \<and> distinct (map fst (ct_artifacts t))"

definition names_row :: "content \<Rightarrow> (string \<Rightarrow> string) \<Rightarrow> (obj \<Rightarrow> string) \<Rightarrow> plan_row \<Rightarrow> tier \<Rightarrow> disposition_row \<Rightarrow> bool" where
  "names_row t hex dumps p tier d \<longleftrightarrow> obj_get (di_envelope d) ''target_id'' = JStr (pl_id p) \<and>
     obj_get (di_envelope d) ''row_kind'' = JStr (pl_kind p) \<and>
     (case tier of
        Deleted \<Rightarrow> obj_get (di_envelope d) ''outcome'' = JStr ''deleted'' \<and>
          obj_get (di_envelope d) ''deleted_artifact_id'' = opt_str (row_artifact p t)
      | Archived f \<Rightarrow> obj_get (di_envelope d) ''outcome'' = JStr ''archived'' \<and>
          obj_get (di_envelope d) ''archived_artifact_id'' = opt_str (row_artifact p t)) \<and>
     d = audit_row hex (dumps (di_envelope d)) (di_envelope d)"

lemma filter_one_key:
  assumes "distinct (map fst xs)" "map_of xs k = Some v" "P v"
  shows "filter (\<lambda>(i, w). i = k \<and> P w) xs = [(k, v)]" and "filter (\<lambda>row. \<not> (case row of (i, w) \<Rightarrow> i = k \<and> P w)) xs = AList.delete k xs"
proof -
  have only: "w = v" if "(k, w) \<in> set xs" for w using that assms(1,2) map_of_is_SomeI by fastforce
  then show "filter (\<lambda>row. \<not> (case row of (i, w) \<Rightarrow> i = k \<and> P w)) xs = AList.delete k xs"
    using assms(3) by (auto simp: AList.delete_eq intro!: filter_cong)
  show "filter (\<lambda>(i, w). i = k \<and> P w) xs = [(k, v)]" using assms
  proof (induction xs)
    case (Cons p xs)
    show ?case
    proof (cases "fst p = k")
      case True
      then have "k \<notin> fst ` set xs" using Cons.prems(1) by auto
      then have "filter (\<lambda>(i, w). i = k \<and> P w) xs = []" by (force simp: filter_empty_conv)
      then show ?thesis using True Cons.prems by (cases p) auto
    next
      case False
      then show ?thesis using Cons by (cases p) auto
    qed
  qed simp
qed

lemma keys_after_delete: "distinct (map fst xs) \<Longrightarrow> distinct (map fst (AList.delete k xs))"
  by (rule distinct_delete)

text \<open>Everything a successful row changes.\<close>

definition disposed_one :: "plan_row \<Rightarrow> content \<Rightarrow> content" where
  "disposed_one p t = (if pl_kind p = ''evidence'' then t\<lparr>ct_evidence := AList.delete (pl_id p) (ct_evidence t)\<rparr>
     else t\<lparr>ct_captures := AList.delete (pl_id p) (ct_captures t)\<rparr>)"

lemma current_row_Inr:
  assumes "current_row p t = Inr (a, g)" "keys_distinct t"
  shows "row_there p t" "a = row_artifact p t"
    and "ct_evidence u = ct_evidence t \<Longrightarrow> ct_captures u = ct_captures t \<Longrightarrow> run_delete g u = (1, disposed_one p u)"
proof -
  have "row_there p t \<and> a = row_artifact p t \<and>
    (ct_evidence u = ct_evidence t \<longrightarrow> ct_captures u = ct_captures t \<longrightarrow> run_delete g u = (1, disposed_one p u))"
  proof (cases "pl_kind p = ''evidence''")
    case True
    then obtain v where v: "map_of (ct_evidence t) (pl_id p) = Some v" "a = vi_artifact v" "g = DeleteEvidence (pl_id p) (vi_kind v) (vi_stored v)"
      using assms(1) by (auto simp: current_row_def Let_def split: option.splits if_splits)
    have "distinct (map fst (ct_evidence t))" using assms(2) by (simp add: keys_distinct_def)
    note one = filter_one_key [OF this v(1), of "\<lambda>w. vi_kind w = vi_kind v \<and> vi_stored w = vi_stored v", OF conjI [OF refl refl]]
    have "pl_id p \<in> fst ` set (ct_evidence t)" using v(1) by (force dest: map_of_SomeD)
    with True v one show ?thesis by (simp add: row_there_def row_artifact_def run_delete_def Let_def disposed_one_def)
  next
    case False
    then obtain r where r: "map_of (ct_captures t) (pl_id p) = Some r" "a = cs_artifact r" "g = DeleteCapture (pl_id p) (cs_updated r)"
      "cs_state r = Finalised"
      using assms(1) by (auto simp: current_row_def Let_def split: option.splits if_splits)
    have "distinct (map fst (ct_captures t))" using assms(2) by (simp add: keys_distinct_def)
    note one = filter_one_key [OF this r(1), of "\<lambda>w. cs_state w = Finalised \<and> cs_updated w = cs_updated r", OF conjI [OF r(4) refl]]
    with False r show ?thesis by (simp add: row_there_def row_artifact_def run_delete_def Let_def disposed_one_def)
  qed
  then show "row_there p t" "a = row_artifact p t"
    "ct_evidence u = ct_evidence t \<Longrightarrow> ct_captures u = ct_captures t \<Longrightarrow> run_delete g u = (1, disposed_one p u)" by blast+
qed

lemma dispose_row_Inr:
  assumes "dispose_row hex dumps invocation now d p tier (t, dropped) = Inr (t', dropped')" "keys_distinct t"
  shows "row_there p t" "dropped' = (case row_artifact p t of None \<Rightarrow> dropped | Some x \<Rightarrow> x # dropped)"
    and "ct_evidence t' = ct_evidence (disposed_one p t)" "ct_captures t' = ct_captures (disposed_one p t)"
    and "\<exists>q. names_row t hex dumps p tier q \<and> ct_dispositions t' = ct_dispositions t @ [q] \<and>
      ct_artifacts t' = replace_row (di_decision q) \<lparr>af_data = dumps (di_envelope q), af_stored = now\<rparr> (ct_artifacts t)"
    and "keys_distinct t'"
proof -
  obtain a g where cur: "current_row p t = Inr (a, g)" and bind: "\<not> binding_moved tier a"
    using assms(1) by (auto simp: dispose_row_def split: sum.splits if_splits)
  note c = current_row_Inr(1,2) [OF cur assms(2)]
  define env where "env = plan_members d invocation now p @ outcome_members tier a t"
  define t2 where "t2 = record_audit hex (dumps env) env now t"
  define t3 where "t3 = clear_chunks p t2"
  have t2: "ct_evidence t2 = ct_evidence t" "ct_captures t2 = ct_captures t" "ct_dispositions t2 = ct_dispositions t @ [audit_row hex (dumps env) env]"
    "ct_artifacts t2 = replace_row (artifact_address hex (dumps env)) \<lparr>af_data = dumps env, af_stored = now\<rparr> (ct_artifacts t)"
    by (simp_all add: t2_def record_audit_def put_artifact_def Let_def)
  have t3: "ct_evidence t3 = ct_evidence t" "ct_captures t3 = ct_captures t" "ct_dispositions t3 = ct_dispositions t2" "ct_artifacts t3 = ct_artifacts t2"
    by (simp_all add: t3_def t2 clear_chunks_def drop_chunks_def)
  have "run_delete g t3 = (1, disposed_one p t3)" using current_row_Inr(3) [OF cur assms(2) t3(1,2)] .
  then have res: "t' = disposed_one p t3" "dropped' = (case a of None \<Rightarrow> dropped | Some x \<Rightarrow> x # dropped)"
    using assms(1) bind by (simp_all add: dispose_row_def cur Let_def env_def [symmetric] t2_def [symmetric] t3_def [symmetric])
  show "row_there p t" "dropped' = (case row_artifact p t of None \<Rightarrow> dropped | Some x \<Rightarrow> x # dropped)" using c res by simp_all
  show "ct_evidence t' = ct_evidence (disposed_one p t)" "ct_captures t' = ct_captures (disposed_one p t)"
    using res(1) t3 by (simp_all add: disposed_one_def)
  let ?q = "audit_row hex (dumps env) env"
  have "names_row t hex dumps p tier ?q" using c(2) bind
    by (cases tier) (simp_all add: names_row_def audit_row_def env_def plan_members_def outcome_members_def obj_get_def binding_moved_def)
  moreover have "ct_dispositions t' = ct_dispositions t @ [?q]" "ct_artifacts t' = ct_artifacts t2"
    using res(1) t3 t2 by (simp_all add: disposed_one_def)
  ultimately show "\<exists>q. names_row t hex dumps p tier q \<and> ct_dispositions t' = ct_dispositions t @ [q] \<and>
      ct_artifacts t' = replace_row (di_decision q) \<lparr>af_data = dumps (di_envelope q), af_stored = now\<rparr> (ct_artifacts t)"
    using t2(4) by (intro exI [of _ ?q]) (simp add: audit_row_def)
  show "keys_distinct t'" using assms(2) res(1) t3 t2
    by (auto simp: keys_distinct_def disposed_one_def distinct_delete distinct_replace_row)
qed

section \<open>What all rows do\<close>

text \<open>The audits of a work list, and the artifact table with their envelopes added.\<close>

definition envelopes_stored :: "(string \<Rightarrow> string) \<Rightarrow> disposition_row list \<Rightarrow> content \<Rightarrow> content \<Rightarrow> bool" where
  "envelopes_stored hex qs t t' \<longleftrightarrow>
     (\<forall>q\<in>set qs. \<exists>w. map_of (ct_artifacts t') (di_decision q) = Some w \<and> artifact_address hex (af_data w) = di_decision q) \<and>
     (\<forall>a. a \<notin> di_decision ` set qs \<longrightarrow> map_of (ct_artifacts t') a = map_of (ct_artifacts t) a)"

definition named :: "string \<Rightarrow> bool \<Rightarrow> (string \<times> plan_row \<times> tier) list \<Rightarrow> bool" where
  "named i evidence ws \<longleftrightarrow> (\<exists>(d, p, tier)\<in>set ws. (pl_kind p = ''evidence'') = evidence \<and> pl_id p = i)"

lemma named_simps [simp]:
  "\<not> named i ev []"
  "named i ev ((d, p, tier) # ws) \<longleftrightarrow> ((pl_kind p = ''evidence'') = ev \<and> pl_id p = i) \<or> named i ev ws"
  by (auto simp: named_def)

lemma envelopes_stored_Cons:
  assumes "envelopes_stored hex qs u t'" "q = audit_row hex blob env"
    and "ct_artifacts u = replace_row (di_decision q) \<lparr>af_data = blob, af_stored = now\<rparr> (ct_artifacts t)"
  shows "envelopes_stored hex (q # qs) t t'"
  unfolding envelopes_stored_def
proof (intro conjI ballI allI impI)
  fix q' assume q': "q' \<in> set (q # qs)"
  show "\<exists>w. map_of (ct_artifacts t') (di_decision q') = Some w \<and> artifact_address hex (af_data w) = di_decision q'"
  proof (cases "di_decision q' \<in> di_decision ` set qs")
    case True
    then show ?thesis using assms(1) by (auto simp: envelopes_stored_def)
  next
    case False
    then have "q' = q" using q' by auto
    moreover have "map_of (ct_artifacts t') (di_decision q') = map_of (ct_artifacts u) (di_decision q')"
      using False assms(1) by (simp add: envelopes_stored_def)
    ultimately show ?thesis by (simp add: assms(2,3) audit_row_def)
  qed
qed (use assms in \<open>auto simp: envelopes_stored_def\<close>)

lemma row_kept:
  assumes "row_there p u" "ct_evidence u = ct_evidence (disposed_one p0 t)" "ct_captures u = ct_captures (disposed_one p0 t)"
  shows "row_there p t" "row_artifact p u = row_artifact p t"
proof -
  have ev: "map_of (ct_evidence t) i = Some v" if "map_of (ct_evidence u) i = Some v" for i v
    using that assms(2) by (auto simp: disposed_one_def delete_conv' split: if_splits)
  have ca: "map_of (ct_captures t) i = Some v" if "map_of (ct_captures u) i = Some v" for i v
    using that assms(3) by (auto simp: disposed_one_def delete_conv' split: if_splits)
  have there: "\<exists>v. map_of xs i = Some v" if "i \<in> fst ` set xs" for i and xs :: "(string \<times> evidence_row) list"
    using that by (metis map_of_eq_None_iff not_None_eq)
  have key: "i \<in> fst ` set xs" if "map_of xs i = Some v" for i v and xs :: "(string \<times> evidence_row) list"
    using that by (force dest: map_of_SomeD)
  show "row_there p t"
  proof (cases "pl_kind p = ''evidence''")
    case True
    then show ?thesis using assms(1) ev key there by (simp add: row_there_def) blast
  next
    case False
    then show ?thesis using assms(1) ca by (auto simp: row_there_def)
  qed
  show "row_artifact p u = row_artifact p t"
  proof (cases "pl_kind p = ''evidence''")
    case True
    then obtain v where "map_of (ct_evidence u) (pl_id p) = Some v" using assms(1) there by (auto simp: row_there_def)
    with ev [OF this] True show ?thesis by (simp add: row_artifact_def)
  next
    case False
    then obtain v where "map_of (ct_captures u) (pl_id p) = Some v" using assms(1) by (auto simp: row_there_def)
    with ca [OF this] False show ?thesis by (simp add: row_artifact_def)
  qed
qed

lemma dispose_rows_Inr:
  assumes "dispose_rows hex dumps invocation now ws (t, dropped) = Inr (t', dropped')" "keys_distinct t"
  shows "keys_distinct t' \<and> (\<forall>(d, p, tier)\<in>set ws. row_there p t) \<and>
    ct_evidence t' = filter (\<lambda>(e, _). \<not> named e True ws) (ct_evidence t) \<and>
    ct_captures t' = filter (\<lambda>(c, _). \<not> named c False ws) (ct_captures t) \<and>
    set dropped' = set dropped \<union> {a. \<exists>(d, p, tier)\<in>set ws. row_artifact p t = Some a} \<and>
    (\<exists>qs. ct_dispositions t' = ct_dispositions t @ qs \<and> list_all2 (\<lambda>(d, p, tier) q. names_row t hex dumps p tier q) ws qs \<and>
       envelopes_stored hex qs t t')"
  using assms
proof (induction ws arbitrary: t dropped)
  case Nil
  then show ?case by (simp add: envelopes_stored_def)
next
  case (Cons wk ws)
  obtain d p tier where wk: "wk = (d, p, tier)" by (metis prod.collapse)
  obtain u dr where one: "dispose_row hex dumps invocation now d p tier (t, dropped) = Inr (u, dr)"
    and rest: "dispose_rows hex dumps invocation now ws (u, dr) = Inr (t', dropped')"
    using Cons.prems(1) by (auto simp: wk split: sum.splits)
  note o = dispose_row_Inr [OF one Cons.prems(2)]
  note IH = Cons.IH [OF rest o(6)]
  obtain q where q: "names_row t hex dumps p tier q" "ct_dispositions u = ct_dispositions t @ [q]"
    "ct_artifacts u = replace_row (di_decision q) \<lparr>af_data = dumps (di_envelope q), af_stored = now\<rparr> (ct_artifacts t)"
    using o(5) by blast
  obtain qs where qs: "ct_dispositions t' = ct_dispositions u @ qs"
    "list_all2 (\<lambda>(d, p, tier) q. names_row u hex dumps p tier q) ws qs" "envelopes_stored hex qs u t'"
    using IH by blast
  have kept: "row_there p' t \<and> row_artifact p' u = row_artifact p' t" if "(d', p', tier') \<in> set ws" for d' p' tier'
    using IH that row_kept [OF _ o(3,4), of p'] by blast
  have "list_all2 (\<lambda>(d, p, tier) q. names_row t hex dumps p tier q) ws qs"
    using qs(2) by (rule list.rel_mono_strong) (use kept in \<open>force simp: names_row_def split: tier.splits\<close>)
  moreover have "envelopes_stored hex (q # qs) t t'"
    by (rule envelopes_stored_Cons [OF qs(3) _ q(3), of "di_envelope q"]) (use q(1) in \<open>simp add: names_row_def\<close>)
  ultimately have audits: "\<exists>qs. ct_dispositions t' = ct_dispositions t @ qs \<and>
      list_all2 (\<lambda>(d, p, tier) q. names_row t hex dumps p tier q) (wk # ws) qs \<and> envelopes_stored hex qs t t'"
    using q qs(1) by (intro exI [of _ "q # qs"]) (simp add: wk)
  have ev: "ct_evidence t' = filter (\<lambda>(e, _). \<not> named e True (wk # ws)) (ct_evidence t)"
    using IH o(3) by (auto simp: wk disposed_one_def AList.delete_eq split: if_splits intro!: filter_cong)
  have ca: "ct_captures t' = filter (\<lambda>(c, _). \<not> named c False (wk # ws)) (ct_captures t)"
    using IH o(4) by (auto simp: wk disposed_one_def AList.delete_eq split: if_splits intro!: filter_cong)
  have "set dr = set dropped \<union> {a. row_artifact p t = Some a}" using o(2) by (auto split: option.splits)
  moreover have "{a. \<exists>(d, p, tier)\<in>set ws. row_artifact p u = Some a} = {a. \<exists>(d, p, tier)\<in>set ws. row_artifact p t = Some a}"
    using kept by fastforce
  ultimately have dr: "set dropped' = set dropped \<union> {a. \<exists>(d, p, tier)\<in>set (wk # ws). row_artifact p t = Some a}"
    using IH by (auto simp: wk)
  show ?case using IH audits ev ca dr o(1) kept by (auto simp: wk)
qed

section \<open>What the collection does\<close>

definition artifact_bytes :: "content \<Rightarrow> int" where
  "artifact_bytes t = sum_list (map (\<lambda>(_, w). int (length (af_data w))) (ct_artifacts t))"

lemma live_drop [simp]: "live_references b (drop_artifact a t) = live_references b t"
  by (simp add: live_references_def drop_artifact_def)

lemma collect_Inr:
  "collect hex as t = Inr ((n, freed), t') \<Longrightarrow> distinct (map fst (ct_artifacts t)) \<Longrightarrow>
    t' = t\<lparr>ct_artifacts := filter (\<lambda>(b, _). b \<in> set as \<longrightarrow> live_references b t \<noteq> 0) (ct_artifacts t)\<rparr> \<and>
    artifact_bytes t' + int freed = artifact_bytes t"
proof (induction as arbitrary: t n freed)
  case Nil
  then show ?case by simp
next
  case (Cons a as)
  show ?case
  proof (cases "live_references a t = 0")
    case False
    then have "collect hex as t = Inr ((n, freed), t')" using Cons.prems(1) by simp
    from Cons.IH [OF this Cons.prems(2)] False show ?thesis by (auto intro!: filter_cong)
  next
    case True
    let ?u = "drop_artifact a t"
    have "distinct (map fst (ct_artifacts ?u))" using Cons.prems(2) by (simp add: drop_artifact_def distinct_map_filter)
    moreover obtain m f where "collect hex as ?u = Inr ((m, f), t')" "freed = f + artifact_length (Some a) t"
      using Cons.prems(1) True by (auto split: if_splits sum.splits)
    ultimately have IH: "t' = ?u\<lparr>ct_artifacts := filter (\<lambda>(b, _). b \<in> set as \<longrightarrow> live_references b ?u \<noteq> 0) (ct_artifacts ?u)\<rparr>"
      "artifact_bytes t' + int f = artifact_bytes ?u" and f: "freed = f + artifact_length (Some a) t"
      using Cons.IH by blast+
    have "artifact_bytes ?u = artifact_bytes t - int (artifact_length (Some a) t)"
    proof -
      have del: "ct_artifacts ?u = AList.delete a (ct_artifacts t)" by (auto simp: drop_artifact_def AList.delete_eq intro!: filter_cong)
      have sums: "sum_list (map (\<lambda>(_, w). int (length (af_data w))) xs) = sum_list (map ((\<lambda>w. int (length (af_data w))) \<circ> snd) xs)"
        for xs :: "(string \<times> artifact_row) list" by (simp add: comp_def case_prod_unfold)
      show ?thesis
      proof (cases "map_of (ct_artifacts t) a")
        case None
        then have "AList.delete a (ct_artifacts t) = ct_artifacts t" by (force simp: AList.delete_eq filter_id_conv map_of_eq_None_iff)
        with None show ?thesis by (simp add: artifact_bytes_def del artifact_length_def)
      next
        case (Some w)
        then show ?thesis using sum_rows_delete [OF Some Cons.prems(2), of "\<lambda>w. int (length (af_data w))"]
          by (simp add: artifact_bytes_def del artifact_length_def sums)
      qed
    qed
    moreover have "t' = t\<lparr>ct_artifacts := filter (\<lambda>(b, _). b \<in> set (a # as) \<longrightarrow> live_references b t \<noteq> 0) (ct_artifacts t)\<rparr>"
      using IH(1) True unfolding live_drop by (auto simp: drop_artifact_def intro!: arg_cong [where f = "\<lambda>xs. t\<lparr>ct_artifacts := xs\<rparr>"] filter_cong)
    ultimately show ?thesis using IH(2) f by simp
  qed
qed

section \<open>Properties\<close>

text \<open>The artifacts a governed row or an audit row still names.\<close>

definition references :: "content \<Rightarrow> string set" where
  "references t = {a. (\<exists>e v. (e, v) \<in> set (ct_evidence t) \<and> vi_artifact v = Some a) \<or>
     (\<exists>c r. (c, r) \<in> set (ct_captures t) \<and> cs_artifact r = Some a) \<or> (\<exists>d\<in>set (ct_dispositions t). di_decision d = a)}"

lemma live_iff: "live_references a t \<noteq> 0 \<longleftrightarrow> a \<in> references t"
  by (auto simp: live_references_def references_def filter_empty_conv)

definition plans :: "bool \<Rightarrow> (plan_row \<times> tier) list \<Rightarrow> string set" where
  "plans evidence work = set (map (pl_id \<circ> fst) (filter (\<lambda>(p, _). (pl_kind p = ''evidence'') = evidence) work))"

lemma named_zip: "length ids = length work \<Longrightarrow> named i ev (zip ids work) \<longleftrightarrow> i \<in> plans ev work"
proof (induction ids work rule: list_induct2)
  case (Cons d ids wk work)
  then show ?case by (cases wk) (auto simp: plans_def)
qed (simp add: plans_def)

lemma set_zip_snd: "length ids = length work \<Longrightarrow> (\<exists>(d, x, y)\<in>set (zip ids work). P x) \<longleftrightarrow> (\<exists>(x, y)\<in>set work. P x)"
  by (induction ids work rule: list_induct2) auto

lemma list_all2_zip: "length ids = length work \<Longrightarrow> list_all2 (\<lambda>(d, x, y) q. P x y q) (zip ids work) qs \<longleftrightarrow> list_all2 (\<lambda>(x, y) q. P x y q) work qs"
  by (induction ids work arbitrary: qs rule: list_induct2) (auto simp: list_all2_Cons1)

lemma map_of_filter_keyed: "map_of (filter (\<lambda>(a, _). P a) xs) k = Some w" if "P k" "map_of xs k = Some w"
  using that by (induction xs) (auto split: if_splits)

text \<open>A successful invocation: its rows, then its collection.\<close>

lemma execute_invocation_Inr:
  assumes "execute_invocation hex dumps fresh selected archived i now t = (Inr res, t')" "keys_distinct t"
    and work: "work = work_list selected archived"
  obtains t1 qs where "ct_evidence t' = ct_evidence t1" "ct_captures t' = ct_captures t1" "ct_dispositions t' = ct_dispositions t1"
    "ct_evidence t1 = filter (\<lambda>(e, _). e \<notin> plans True work) (ct_evidence t)"
    "ct_captures t1 = filter (\<lambda>(c, _). c \<notin> plans False work) (ct_captures t)"
    "ct_dispositions t1 = ct_dispositions t @ qs" "list_all2 (\<lambda>(p, tier) q. names_row t hex dumps p tier q) work qs"
    "envelopes_stored hex qs t t1"
    "ct_artifacts t' = filter (\<lambda>(a, _). (\<exists>(p, tier)\<in>set work. row_artifact p t = Some a) \<longrightarrow> a \<in> references t1) (ct_artifacts t1)"
    "artifact_bytes t' + int (dp_freed res) = artifact_bytes t1" "\<forall>(p, tier)\<in>set work. row_there p t"
proof -
  let ?ids = "map fresh [0..<length work]"
  obtain t1 dr n freed t2 log where rows: "dispose_rows hex dumps (ih_id i) now (zip ?ids work) (t, []) = Inr (t1, dr)"
    and col: "collect hex (sort (remdups dr)) t1 = Inr ((n, freed), t2)"
    and res: "dp_freed res = freed" "t' = t2\<lparr>ct_invocations := log\<rparr>"
    using assms(1) by (auto simp: execute_invocation_def work Let_def collect_unreferenced_def split: sum.splits prod.splits)
  have len: "length ?ids = length work" by simp
  note R = dispose_rows_Inr [OF rows assms(2), unfolded named_zip [OF len] set_zip_snd [OF len] list_all2_zip [OF len]]
  obtain qs where qs: "ct_dispositions t1 = ct_dispositions t @ qs" "list_all2 (\<lambda>(p, tier) q. names_row t hex dumps p tier q) work qs"
    "envelopes_stored hex qs t t1" using R by blast
  have dr: "set dr = {a. \<exists>(p, tier)\<in>set work. row_artifact p t = Some a}" using R by simp
  have "distinct (map fst (ct_artifacts t1))" using R by (simp add: keys_distinct_def)
  from collect_Inr [OF col this] have t2: "t2 = t1\<lparr>ct_artifacts := filter (\<lambda>(b, _). b \<in> set (sort (remdups dr)) \<longrightarrow> live_references b t1 \<noteq> 0) (ct_artifacts t1)\<rparr>"
    "artifact_bytes t2 + int freed = artifact_bytes t1" by blast+
  have there: "\<forall>(p, tier)\<in>set work. row_there p t"
    using R by (metis (no_types, lifting) case_prodI2 case_prod_conv in_set_impl_in_set_zip2 len)
  show thesis
  proof (rule that [OF _ _ _ _ _ qs _ _ there])
    show "ct_evidence t' = ct_evidence t1" "ct_captures t' = ct_captures t1" "ct_dispositions t' = ct_dispositions t1"
      by (simp_all add: res(2) t2(1))
    have "artifact_bytes t' = artifact_bytes t2" by (simp add: artifact_bytes_def res(2))
    then show "artifact_bytes t' + int (dp_freed res) = artifact_bytes t1" using t2(2) res(1) by simp
    have "ct_artifacts t' = ct_artifacts t2" by (simp add: res(2))
    also have "\<dots> = filter (\<lambda>(b, _). b \<in> set dr \<longrightarrow> b \<in> references t1) (ct_artifacts t1)"
      by (subst t2(1)) (simp add: live_iff [symmetric])
    finally show "ct_artifacts t' = filter (\<lambda>(a, _). (\<exists>(p, tier)\<in>set work. row_artifact p t = Some a) \<longrightarrow> a \<in> references t1) (ct_artifacts t1)"
      by (simp add: dr)
  qed (use R in \<open>simp_all\<close>)
qed


text \<open>Two evidence rows over one artifact and a capture over another; the first evidence row and the capture are disposed.\<close>

definition sample_content :: content where
  "sample_content = no_content\<lparr>
     ct_artifacts := [(''art-xy'', \<lparr>af_data = ''xy'', af_stored = ''t0''\<rparr>), (''art-z'', \<lparr>af_data = ''z'', af_stored = ''t0''\<rparr>)],
     ct_evidence := [(''e1'', \<lparr>vi_kind = ''dataset'', vi_ref = JNull, vi_artifact = Some ''art-xy'', vi_context = None, vi_stored = ''t1''\<rparr>),
       (''e2'', \<lparr>vi_kind = ''dataset'', vi_ref = JNull, vi_artifact = Some ''art-xy'', vi_context = None, vi_stored = ''t2''\<rparr>)],
     ct_captures := [(''c1'', \<lparr>cs_context = ''s1'', cs_state = Finalised, cs_reserved = 4, cs_charged = 1, cs_format = ''raw_binary'',
       cs_samples = None, cs_artifact = Some ''art-z'', cs_started = None, cs_created = ''t0'', cs_updated = ''t3''\<rparr>)]\<rparr>"

definition sample_plan :: "string \<Rightarrow> string \<Rightarrow> string \<Rightarrow> string \<Rightarrow> plan_row" where
  "sample_plan kind i cl stamp = \<lparr>pl_kind = kind, pl_id = i, pl_class = cl, pl_anchor_kind = ''landing'', pl_anchor_at = stamp,
     pl_bytes = 1, pl_matched = []\<rparr>"

definition sample_selected :: "plan_row list" where
  "sample_selected = [sample_plan ''evidence'' ''e1'' ''evidence:dataset'' ''t1'', sample_plan ''capture'' ''c1'' ''capture:raw_binary'' ''t3'']"

definition sample_invocation :: invocation_head where
  "sample_invocation = \<lparr>ih_id = ''inv'', ih_actor = ''op'', ih_path = ''p'', ih_sha = ''0'', ih_bench = None, ih_counts = [], ih_figures = None\<rparr>"

definition sample_dumps :: "obj \<Rightarrow> string" where
  "sample_dumps env = (case obj_get env ''target_id'' of JStr s \<Rightarrow> s | _ \<Rightarrow> [])"

definition sample_disposal :: "(content_fault + disposal) \<times> content" where
  "sample_disposal = execute_invocation id sample_dumps (\<lambda>i. replicate i CHR ''d'') sample_selected [] sample_invocation ''now'' sample_content"

lemma sample_disposal_runs:
  obtains res where "execute_invocation id sample_dumps (\<lambda>i. replicate i CHR ''d'') sample_selected [] sample_invocation ''now''
    sample_content = (Inr res, snd sample_disposal)"
proof -
  have "isl (fst sample_disposal) = False" by code_simp
  then obtain res where "fst sample_disposal = Inr res" by (cases "fst sample_disposal") auto
  then show thesis using that unfolding sample_disposal_def by (metis prod.collapse)
qed

lemma sample_keys: "keys_distinct sample_content" by code_simp

text \<open>
  Claim C28. A committed invocation deletes exactly the governed rows its plan names and audits each of them: one audit row per
  plan row, in order, whose envelope names the row, the tier and the artifact the row held, and whose decision artifact is stored
  and hashes to the recorded digest.
\<close>

theorem disposal_audited:
  assumes "execute_invocation hex dumps fresh selected archived i now t = (Inr res, t')" "keys_distinct t"
    and "work = work_list selected archived"
  shows "ct_evidence t' = filter (\<lambda>(e, _). e \<notin> plans True work) (ct_evidence t) \<and>
    ct_captures t' = filter (\<lambda>(c, _). c \<notin> plans False work) (ct_captures t) \<and>
    (\<exists>qs. ct_dispositions t' = ct_dispositions t @ qs \<and> list_all2 (\<lambda>(p, tier) q. names_row t hex dumps p tier q) work qs \<and>
       (\<forall>q\<in>set qs. \<exists>w. map_of (ct_artifacts t') (di_decision q) = Some w \<and> hex (af_data w) = di_sha q))"
proof -
  obtain t1 qs where X: "ct_evidence t' = ct_evidence t1" "ct_captures t' = ct_captures t1" "ct_dispositions t' = ct_dispositions t1"
    "ct_evidence t1 = filter (\<lambda>(e, _). e \<notin> plans True work) (ct_evidence t)"
    "ct_captures t1 = filter (\<lambda>(c, _). c \<notin> plans False work) (ct_captures t)"
    "ct_dispositions t1 = ct_dispositions t @ qs" "list_all2 (\<lambda>(p, tier) q. names_row t hex dumps p tier q) work qs"
    "envelopes_stored hex qs t t1"
    "ct_artifacts t' = filter (\<lambda>(a, _). (\<exists>(p, tier)\<in>set work. row_artifact p t = Some a) \<longrightarrow> a \<in> references t1) (ct_artifacts t1)"
    by (rule execute_invocation_Inr [OF assms]) blast
  have "\<exists>w. map_of (ct_artifacts t') (di_decision q) = Some w \<and> hex (af_data w) = di_sha q" if q: "q \<in> set qs" for q
  proof -
    obtain w where w: "map_of (ct_artifacts t1) (di_decision q) = Some w" "artifact_address hex (af_data w) = di_decision q"
      using X(8) q by (auto simp: envelopes_stored_def)
    have "di_decision q \<in> references t1" using q X(6) by (auto simp: references_def)
    then have "map_of (ct_artifacts t') (di_decision q) = Some w" unfolding X(9) using w(1) by (intro map_of_filter_keyed) auto
    moreover obtain p tier where "names_row t hex dumps p tier q" using X(7) q by (fastforce simp: list_all2_conv_all_nth in_set_conv_nth)
    then have "q = audit_row hex (dumps (di_envelope q)) (di_envelope q)" by (simp add: names_row_def)
    then have "di_decision q = artifact_address hex (dumps (di_envelope q))" "di_sha q = hex (dumps (di_envelope q))"
      by (metis audit_row_def disposition_row.select_convs(2), metis audit_row_def disposition_row.select_convs(3))
    ultimately show ?thesis using w(2) by (auto simp: artifact_address_def)
  qed
  with X show ?thesis by auto
qed

lemma disposal_audited_witness:
  "map fst (ct_evidence (snd sample_disposal)) = [''e2''] \<and> ct_captures (snd sample_disposal) = [] \<and>
   length (ct_dispositions (snd sample_disposal)) = 2"
proof -
  obtain res where run: "execute_invocation id sample_dumps (\<lambda>i. replicate i CHR ''d'') sample_selected [] sample_invocation ''now''
    sample_content = (Inr res, snd sample_disposal)" by (rule sample_disposal_runs)
  note D = disposal_audited [OF run sample_keys refl]
  have "map fst (filter (\<lambda>(e, _). e \<notin> plans True (work_list sample_selected [])) (ct_evidence sample_content)) = [''e2'']"
    "filter (\<lambda>(c, _). c \<notin> plans False (work_list sample_selected [])) (ct_captures sample_content) = []"
    by (auto simp: plans_def work_list_def sample_selected_def sample_plan_def sample_content_def)
  moreover obtain qs where "ct_dispositions (snd sample_disposal) = ct_dispositions sample_content @ qs"
    "list_all2 (\<lambda>(p, tier) q. names_row sample_content id sample_dumps p tier q) (work_list sample_selected []) qs" using D by blast
  then have "length (ct_dispositions (snd sample_disposal)) = 2"
    by (auto dest!: list_all2_lengthD simp: sample_content_def no_content_def work_list_def sample_selected_def)
  ultimately show ?thesis using D by simp
qed

text \<open>
  Claim C29. The collection is exact: when every artifact a row names is stored, this still holds after a committed invocation;
  an artifact that a disposed row held stays stored exactly when a surviving row or an audit row names it; and nothing else
  leaves the artifact table.
\<close>

theorem collection_exact:
  assumes "execute_invocation hex dumps fresh selected archived i now t = (Inr res, t')" "keys_distinct t"
    and "work = work_list selected archived" and refs: "references t \<subseteq> fst ` set (ct_artifacts t)"
  shows "references t' \<subseteq> fst ` set (ct_artifacts t') \<and>
    (\<forall>(p, tier)\<in>set work. \<forall>a. row_artifact p t = Some a \<longrightarrow> (a \<in> fst ` set (ct_artifacts t') \<longleftrightarrow> a \<in> references t')) \<and>
    (\<forall>a\<in>fst ` set (ct_artifacts t) - fst ` set (ct_artifacts t'). \<exists>(p, tier)\<in>set work. row_artifact p t = Some a)"
proof -
  obtain t1 qs where X: "ct_evidence t' = ct_evidence t1" "ct_captures t' = ct_captures t1" "ct_dispositions t' = ct_dispositions t1"
    "ct_evidence t1 = filter (\<lambda>(e, _). e \<notin> plans True work) (ct_evidence t)"
    "ct_captures t1 = filter (\<lambda>(c, _). c \<notin> plans False work) (ct_captures t)"
    "ct_dispositions t1 = ct_dispositions t @ qs" "envelopes_stored hex qs t t1"
    "ct_artifacts t' = filter (\<lambda>(a, _). (\<exists>(p, tier)\<in>set work. row_artifact p t = Some a) \<longrightarrow> a \<in> references t1) (ct_artifacts t1)"
    by (rule execute_invocation_Inr [OF assms(1-3)]) blast
  have same: "references t' = references t1" using X(1-3) by (simp add: references_def)
  have keys1: "fst ` set (ct_artifacts t1) = fst ` set (ct_artifacts t) \<union> di_decision ` set qs"
  proof -
    have "a \<in> fst ` set (ct_artifacts t1) \<longleftrightarrow> a \<in> fst ` set (ct_artifacts t) \<or> a \<in> di_decision ` set qs" for a
    proof (cases "a \<in> di_decision ` set qs")
      case True
      then obtain w where "map_of (ct_artifacts t1) a = Some w" using X(7) by (auto simp: envelopes_stored_def)
      then show ?thesis using True by (metis map_of_eq_None_iff option.distinct(1))
    next
      case False
      then have "map_of (ct_artifacts t1) a = map_of (ct_artifacts t) a" using X(7) by (simp add: envelopes_stored_def)
      then show ?thesis using False by (metis map_of_eq_None_iff)
    qed
    then show ?thesis by blast
  qed
  have "references t1 \<subseteq> references t \<union> di_decision ` set qs" using X(4-6) by (auto simp: references_def)
  then have "references t1 \<subseteq> fst ` set (ct_artifacts t1)" using refs keys1 by blast
  then have closed: "references t' \<subseteq> fst ` set (ct_artifacts t')" unfolding same X(8) by (force simp: image_iff)
  have exact: "a \<in> references t'" if "(p, tier) \<in> set work" "row_artifact p t = Some a" "a \<in> fst ` set (ct_artifacts t')" for p tier a
    using that unfolding same X(8) by auto
  have gone: "\<exists>(p, tier)\<in>set work. row_artifact p t = Some a" if "a \<in> fst ` set (ct_artifacts t)" "a \<notin> fst ` set (ct_artifacts t')" for a
    using that keys1 unfolding X(8) by (force simp: image_iff)
  show ?thesis using closed exact gone by blast
qed

lemma collection_exact_witness:
  "''art-xy'' \<in> fst ` set (ct_artifacts (snd sample_disposal)) \<and> ''art-z'' \<notin> fst ` set (ct_artifacts (snd sample_disposal))"
proof -
  obtain res where run: "execute_invocation id sample_dumps (\<lambda>i. replicate i CHR ''d'') sample_selected [] sample_invocation ''now''
    sample_content = (Inr res, snd sample_disposal)" by (rule sample_disposal_runs)
  have refs: "references sample_content \<subseteq> fst ` set (ct_artifacts sample_content)"
    by (auto simp: references_def sample_content_def no_content_def)
  note C = collection_exact [OF run sample_keys refl refs]
  have "(sample_plan ''evidence'' ''e1'' ''evidence:dataset'' ''t1'', Deleted) \<in> set (work_list sample_selected [])"
    "row_artifact (sample_plan ''evidence'' ''e1'' ''evidence:dataset'' ''t1'') sample_content = Some ''art-xy''"
    "(sample_plan ''capture'' ''c1'' ''capture:raw_binary'' ''t3'', Deleted) \<in> set (work_list sample_selected [])"
    "row_artifact (sample_plan ''capture'' ''c1'' ''capture:raw_binary'' ''t3'') sample_content = Some ''art-z''"
    by (simp_all add: work_list_def sample_selected_def row_artifact_def sample_plan_def sample_content_def)
  then have "''art-xy'' \<in> fst ` set (ct_artifacts (snd sample_disposal)) \<longleftrightarrow> ''art-xy'' \<in> references (snd sample_disposal)"
    "''art-z'' \<in> fst ` set (ct_artifacts (snd sample_disposal)) \<longleftrightarrow> ''art-z'' \<in> references (snd sample_disposal)"
    using C by blast+
  moreover have "live_references ''art-xy'' (snd sample_disposal) \<noteq> 0" "live_references ''art-z'' (snd sample_disposal) = 0" by code_simp+
  ultimately show ?thesis using live_iff [of _ "snd sample_disposal"] by blast
qed

end
