(* ===== verification/Streams.thy ===== *)
theory Streams
  imports Content Host
begin

text \<open>
  Event streams: the subscription registry and the landing of events, \<open>StreamController\<close> of \<open>content/stream_services.py\<close>, and
  the mediation of one poll, \<open>OTDPBridge.poll_event\<close> of \<open>host/otdp_bridge.py\<close>. The adapter's answer to a poll is an argument.
  The wall clock and \<open>uuid4\<close> are sequences of readings that the session consumes; canonical JSON texts and digests are
  parameters. Reading sinks only observe and are a list of what was delivered to them.
\<close>

section \<open>The session\<close>

datatype sub_state = Active | Ended | Closed

record subscription =
  su_parameters :: "string list"
  su_interval :: int
  su_state :: sub_state
  su_sequence :: "int option"
  su_kind :: "string option"

record stream_env =
  sv_sink :: bool
  sv_context :: string
  sv_max_subs :: int
  sv_max_batch :: int
  sv_storable :: "obj \<Rightarrow> bool"
  sv_max_evidence :: int
  sv_hex :: "string \<Rightarrow> string"
  sv_dumps :: "pyval \<Rightarrow> string"
  sv_wall :: "nat \<Rightarrow> string"
  sv_uuid :: "nat \<Rightarrow> string"

record session =
  ss_registry :: "(string \<times> subscription) list"
  ss_content :: content
  ss_delivered :: "pyval list"
  ss_wall :: nat
  ss_ids :: nat
  ss_open :: bool
  ss_failed :: bool

datatype stream_fault = DuplicateId string | SubscriptionLimit int nat | BatchBound nat | Storage content_fault

definition fresh_wall :: "stream_env \<Rightarrow> session \<Rightarrow> string \<times> session" where
  "fresh_wall E s = (sv_wall E (ss_wall s), s\<lparr>ss_wall := Suc (ss_wall s)\<rparr>)"

section \<open>The registry\<close>

definition sub_entry :: "string \<Rightarrow> session \<Rightarrow> subscription option" where
  "sub_entry i s = map_of (ss_registry s) i"

definition sub_known :: "string \<Rightarrow> session \<Rightarrow> bool" where
  "sub_known i s = (sub_entry i s \<noteq> None)"

definition is_live :: "string \<Rightarrow> session \<Rightarrow> bool" where
  "is_live i s = (case sub_entry i s of Some e \<Rightarrow> su_state e = Active | None \<Rightarrow> False)"

definition live_ids :: "session \<Rightarrow> string list" where
  "live_ids s = sort (map fst (filter (\<lambda>(_, e). su_state e = Active) (ss_registry s)))"

definition put_entry :: "string \<Rightarrow> subscription \<Rightarrow> session \<Rightarrow> session" where
  "put_entry i e s = s\<lparr>ss_registry := AList.update i e (ss_registry s)\<rparr>"

definition reserve_subscription :: "stream_env \<Rightarrow> string \<Rightarrow> string list \<Rightarrow> int \<Rightarrow> session \<Rightarrow> (stream_fault + unit) \<times> session" where
  "reserve_subscription E i params interval s =
     (if sub_known i s then (Inl (DuplicateId i), s)
      else if sv_max_subs E < int (length (live_ids s)) + 1 then (Inl (SubscriptionLimit (sv_max_subs E) (length (live_ids s))), s)
      else (Inr (), s\<lparr>ss_registry := ss_registry s @ [(i, \<lparr>su_parameters = params, su_interval = interval, su_state = Active,
          su_sequence = None, su_kind = None\<rparr>)]\<rparr>))"

definition release_subscription :: "string \<Rightarrow> session \<Rightarrow> bool \<times> session" where
  "release_subscription i s = (if is_live i s then (True, s\<lparr>ss_registry := AList.delete i (ss_registry s)\<rparr>) else (False, s))"

definition record_event :: "string \<Rightarrow> int \<Rightarrow> string \<Rightarrow> session \<Rightarrow> (exn + unit) \<times> session" where
  "record_event i seq kind s = (case sub_entry i s of
      None \<Rightarrow> (Inl (ValueError ''unknown subscription''), s)
    | Some e \<Rightarrow> (Inr (), put_entry i (e\<lparr>su_sequence := Some seq, su_kind := Some kind,
          su_state := if kind = ''ended'' then Ended else su_state e\<rparr>) s))"

definition set_state :: "string \<Rightarrow> sub_state \<Rightarrow> session \<Rightarrow> session" where
  "set_state i st s = (case sub_entry i s of None \<Rightarrow> s | Some e \<Rightarrow> put_entry i (e\<lparr>su_state := st\<rparr>) s)"

definition mark_closed :: "string \<Rightarrow> session \<Rightarrow> bool \<times> session" where
  "mark_closed i s = (if is_live i s then (True, set_state i Closed s) else (False, s))"

section \<open>Markers\<close>

text \<open>An evidence row with the next id.\<close>

definition add_evidence :: "stream_env \<Rightarrow> pyval \<Rightarrow> string \<Rightarrow> string \<Rightarrow> int option \<Rightarrow> session \<Rightarrow> (content_fault + string) \<times> session" where
  "add_evidence E ref artifact stamp quota s =
     (case put_evidence (sv_uuid E (ss_ids s)) ''event_log'' ref (Some artifact) (Some (sv_context E)) stamp quota (ss_content s) of
       (r, t) \<Rightarrow> (r, s\<lparr>ss_content := t, ss_ids := Suc (ss_ids s)\<rparr>))"

definition add_artifact :: "stream_env \<Rightarrow> string \<Rightarrow> string \<Rightarrow> session \<Rightarrow> string \<times> session" where
  "add_artifact E blob stamp s = (case put_artifact (sv_hex E) blob stamp (ss_content s) of (a, t) \<Rightarrow> (a, s\<lparr>ss_content := t\<rparr>))"

definition marker_ref :: "stream_env \<Rightarrow> string \<Rightarrow> string \<Rightarrow> string \<Rightarrow> obj \<Rightarrow> string \<Rightarrow> obj" where
  "marker_ref E i mark cause extra blob = [(''id'', JStr i), (''version'', JStr ''1''), (''sha256'', JStr (sv_hex E blob)),
     (''marker'', JStr mark), (''cause'', JStr cause)] @ extra"

definition marker :: "stream_env \<Rightarrow> string \<Rightarrow> string \<Rightarrow> string \<Rightarrow> obj \<Rightarrow> session \<Rightarrow> (content_fault + string) \<times> session" where
  "marker E i mark cause extra s =
     (let blob = sv_dumps E (JObj ([(''subscription_id'', JStr i), (''marker'', JStr mark), (''cause'', JStr cause)] @ extra)) in
      case fresh_wall E s of (now, s) \<Rightarrow> case add_artifact E blob now s of (a, s) \<Rightarrow>
        add_evidence E (JObj (marker_ref E i mark cause extra blob)) a now None s)"

text \<open>A JSON member of a marker is a string, an integer or \<open>null\<close>, so the row is always written (\<open>marker_writes\<close>).\<close>

definition mark_ended :: "stream_env \<Rightarrow> string \<Rightarrow> string \<Rightarrow> session \<Rightarrow> bool \<times> session" where
  "mark_ended E i cause s = (if is_live i s then (True, snd (marker E i ''host_ended'' cause [] (set_state i Ended s))) else (False, s))"

definition opt_int :: "int option \<Rightarrow> pyval" where
  "opt_int n = (case n of None \<Rightarrow> JNull | Some k \<Rightarrow> JInt k)"

definition mark_ended_at_boundary :: "stream_env \<Rightarrow> string \<Rightarrow> string \<Rightarrow> int option \<Rightarrow> session \<Rightarrow> bool \<times> session" where
  "mark_ended_at_boundary E i cause discarded s = (is_live i s,
     snd (marker E i ''host_ended'' cause [(''discarded_sequence'', opt_int discarded)] (if is_live i s then set_state i Ended s else s)))"

fun sweep_ids :: "stream_env \<Rightarrow> string \<Rightarrow> string list \<Rightarrow> session \<Rightarrow> session" where
  "sweep_ids E cause [] s = s"
| "sweep_ids E cause (i # is) s = sweep_ids E cause is (snd (mark_ended E i cause s))"

definition sweep_streams :: "stream_env \<Rightarrow> string \<Rightarrow> session \<Rightarrow> string list \<times> session" where
  "sweep_streams E cause s = (live_ids s, sweep_ids E cause (sort (map fst (ss_registry s))) s)"

definition note_sequence_jump :: "stream_env \<Rightarrow> string \<Rightarrow> int option \<Rightarrow> int \<Rightarrow> session \<Rightarrow> session" where
  "note_sequence_jump E i from_seq to_seq s = snd (marker E i ''sequence_jump_without_gap''
     ''forward sequence jump with no preceding gap event'' [(''from_sequence'', opt_int from_seq), (''to_sequence'', JInt to_seq)] s)"

section \<open>Landing\<close>

record landed =
  la_id :: string
  la_sequence :: int
  la_kind :: string
  la_event :: obj
  la_received :: string

definition landing_ref :: "stream_env \<Rightarrow> landed \<Rightarrow> obj" where
  "landing_ref E e = [(''id'', JStr (la_id e)), (''version'', JStr ''1''), (''sha256'', JStr (sv_hex E (sv_dumps E (JObj (la_event e))))),
     (''subscription_id'', JStr (la_id e)), (''sequence'', JInt (la_sequence e)), (''kind'', JStr (la_kind e)),
     (''host_received_at'', JStr (la_received e)), (''capture_id'', JNull), (''dataset_id'', JNull)]"

fun land_each :: "stream_env \<Rightarrow> landed list \<Rightarrow> session \<Rightarrow> (content_fault + string list) \<times> session" where
  "land_each E [] s = (Inr [], s)"
| "land_each E (e # es) s = (case add_artifact E (sv_dumps E (JObj (la_event e))) (la_received e) s of (a, s) \<Rightarrow>
     case add_evidence E (JObj (landing_ref E e)) a (la_received e) (Some (sv_max_evidence E)) s of
       (Inl f, s) \<Rightarrow> (Inl f, s)
     | (Inr i, s) \<Rightarrow> (case land_each E es s of (Inl f, s) \<Rightarrow> (Inl f, s) | (Inr is, s) \<Rightarrow> (Inr (i # is), s)))"

definition delivered :: "landed list \<Rightarrow> pyval list" where
  "delivered es = map (\<lambda>e. obj_get (la_event e) ''reading'') (filter (\<lambda>e. obj_get (la_event e) ''kind'' = JStr ''telemetry'') es)"

text \<open>Rolled back, a batch leaves the tables as they were; ids that were drawn are used up.\<close>

definition land_events :: "stream_env \<Rightarrow> landed list \<Rightarrow> session \<Rightarrow> (stream_fault + string list) \<times> session" where
  "land_events E es s =
     (if es = [] then (Inr [], s)
      else if sv_max_batch E < int (length es) then (Inl (BatchBound (length es)), s)
      else case land_each E es s of
        (Inl f, s') \<Rightarrow> (Inl (Storage f), s'\<lparr>ss_content := ss_content s\<rparr>)
      | (Inr is, s') \<Rightarrow> (Inr is, s'\<lparr>ss_delivered := ss_delivered s' @ delivered es\<rparr>))"

section \<open>Events\<close>

datatype invalid_event =
    NotAnObject | UndeclaredMember string | WrongSubscription | UnknownKind | BadSequence | AfterEnded | NotIncreasing
  | NoReading | NoCodeMessage | BadReading | BadCode | BadMessage | NotSerialisable

definition x_alnum :: "char \<Rightarrow> bool" where
  "x_alnum c = (c \<in> set ''abcdefghijklmnopqrstuvwxyz0123456789'')"

text \<open>\<open>x-[a-z0-9]+-[a-z0-9_-]+\<close>; the second hyphen is the first after the prefix.\<close>

definition is_x_key :: "string \<Rightarrow> bool" where
  "is_x_key k = (take 2 k = ''x-'' \<and> (let name = takeWhile x_alnum (drop 2 k); rest = dropWhile x_alnum (drop 2 k) in
     name \<noteq> [] \<and> take 1 rest = ''-'' \<and> drop 1 rest \<noteq> [] \<and> list_all (\<lambda>c. x_alnum c \<or> c = CHR ''_'' \<or> c = CHR ''-'') (drop 1 rest)))"

definition is_parameter :: "string \<Rightarrow> bool" where
  "is_parameter s = (case s of [] \<Rightarrow> False | c # cs \<Rightarrow> c \<in> set ''abcdefghijklmnopqrstuvwxyz'' \<and> list_all (\<lambda>c. x_alnum c \<or> c = CHR ''_'') cs)"

definition event_keys :: "string list" where
  "event_keys = [''subscription_id'', ''sequence'', ''kind'', ''reading'', ''code'', ''message'']"

definition reading_keys :: "string list" where
  "reading_keys = [''parameter'', ''value'', ''unit'', ''observed_at'', ''age_ms'', ''quality'', ''source'']"

definition event_kinds :: "string list" where
  "event_kinds = [''telemetry'', ''alarm'', ''gap'', ''ended'']"

fun scalar :: "pyval \<Rightarrow> bool" where
  "scalar (JFloat f) = isfinite f"
| "scalar (JList _) = False"
| "scalar (JObj _) = False"
| "scalar (JOther _) = False"
| "scalar _ = True"

fun nonempty_text :: "pyval \<Rightarrow> bool" where
  "nonempty_text (JStr t) = (t \<noteq> [])"
| "nonempty_text _ = False"

definition has_key :: "obj \<Rightarrow> string \<Rightarrow> bool" where
  "has_key ob k = (k \<in> fst ` set ob)"

definition reading_ok :: "pyval \<Rightarrow> bool" where
  "reading_ok v = (case v of
      JObj r \<Rightarrow> list_all (\<lambda>(k, _). k \<in> set reading_keys \<or> is_x_key k) r \<and> list_all (has_key r) reading_keys \<and>
        (case obj_get r ''parameter'' of JStr p \<Rightarrow> is_parameter p | _ \<Rightarrow> False) \<and> scalar (obj_get r ''value'') \<and>
        (case obj_get r ''unit'' of JNull \<Rightarrow> True | JStr _ \<Rightarrow> True | _ \<Rightarrow> False) \<and> nonempty_text (obj_get r ''observed_at'') \<and>
        (case obj_get r ''age_ms'' of JInt n \<Rightarrow> 0 \<le> n | _ \<Rightarrow> False) \<and>
        obj_get r ''quality'' \<in> {JStr ''valid'', JStr ''stale'', JStr ''invalid''} \<and>
        obj_get r ''source'' \<in> {JStr ''device'', JStr ''cache'', JStr ''commissioned''}
    | _ \<Rightarrow> False)"

fun undeclared :: "obj \<Rightarrow> string option" where
  "undeclared [] = None"
| "undeclared ((k, v) # rest) = (if k \<in> set event_keys \<or> is_x_key k then undeclared rest else Some k)"

definition check_members :: "string \<Rightarrow> obj \<Rightarrow> invalid_event option" where
  "check_members kind ev =
     (if kind = ''telemetry'' \<and> obj_get ev ''reading'' = JNull then Some NoReading
      else if kind \<noteq> ''telemetry'' \<and> \<not> (nonempty_text (obj_get ev ''code'') \<and> nonempty_text (obj_get ev ''message'')) then Some NoCodeMessage
      else if has_key ev ''reading'' \<and> \<not> reading_ok (obj_get ev ''reading'') then Some BadReading
      else if has_key ev ''code'' \<and> \<not> nonempty_text (obj_get ev ''code'') then Some BadCode
      else if has_key ev ''message'' \<and> \<not> nonempty_text (obj_get ev ''message'') then Some BadMessage
      else None)"

text \<open>
  The result carries the sequence number and the kind beside the event. \<open>storable\<close> says whether \<open>json.dumps(event, default=str)\<close>
  returns: an extension value can be circular or too deep, which a value of the model, a finite tree, does not show.
\<close>

definition validate_event :: "(obj \<Rightarrow> bool) \<Rightarrow> string \<Rightarrow> pyval \<Rightarrow> int option \<Rightarrow> string option \<Rightarrow> invalid_event + int \<times> string \<times> obj" where
  "validate_event storable i event last_sequence last_kind = (case event of
      JObj ev \<Rightarrow> (case undeclared ev of
          Some k \<Rightarrow> Inl (UndeclaredMember k)
        | None \<Rightarrow>
            if obj_get ev ''subscription_id'' \<noteq> JStr i then Inl WrongSubscription
            else (case obj_get ev ''kind'' of
                JStr kind \<Rightarrow>
                  if kind \<notin> set event_kinds then Inl UnknownKind
                  else (case obj_get ev ''sequence'' of
                      JInt n \<Rightarrow>
                        if n < 0 then Inl BadSequence
                        else if last_kind = Some ''ended'' then Inl AfterEnded
                        else if (case last_sequence of None \<Rightarrow> False | Some m \<Rightarrow> n \<le> m) then Inl NotIncreasing
                        else (case check_members kind ev of Some f \<Rightarrow> Inl f
                          | None \<Rightarrow> if storable ev then Inr (n, kind, ev) else Inl NotSerialisable)
                    | _ \<Rightarrow> Inl BadSequence)
              | _ \<Rightarrow> Inl UnknownKind))
    | _ \<Rightarrow> Inl NotAnObject)"

section \<open>One poll\<close>

datatype answer = Quiet | Answered pyval | Raised bool

record poll_outcome =
  po_event :: "obj option"
  po_receipt :: "string option"
  po_refusal :: "(error_code \<times> dispatch_state) option"
  po_failed :: bool

definition refused :: "error_code \<Rightarrow> dispatch_state \<Rightarrow> bool \<Rightarrow> poll_outcome" where
  "refused code d dead = \<lparr>po_event = None, po_receipt = None, po_refusal = Some (code, d), po_failed = dead\<rparr>"

definition quiet :: poll_outcome where
  "quiet = \<lparr>po_event = None, po_receipt = None, po_refusal = None, po_failed = False\<rparr>"

definition clear_streams :: "stream_env \<Rightarrow> session \<Rightarrow> session" where
  "clear_streams E s = snd (sweep_streams E ''session poisoned'' (s\<lparr>ss_failed := True\<rparr>))"

definition poison :: "stream_env \<Rightarrow> error_code \<Rightarrow> session \<Rightarrow> poll_outcome \<times> session" where
  "poison E code s = (refused code DispatchUnknown True, clear_streams E s)"

definition note_jump :: "stream_env \<Rightarrow> string \<Rightarrow> subscription \<Rightarrow> int \<Rightarrow> session \<Rightarrow> session" where
  "note_jump E i e n s = (case su_sequence e of
      None \<Rightarrow> if 0 < n then note_sequence_jump E i None n s else s
    | Some m \<Rightarrow> if m + 1 < n \<and> su_kind e \<noteq> Some ''gap'' then note_sequence_jump E i (Some m) n s else s)"

definition accept_event :: "stream_env \<Rightarrow> string \<Rightarrow> subscription \<Rightarrow> int \<times> string \<times> obj \<Rightarrow> session \<Rightarrow> poll_outcome \<times> session" where
  "accept_event E i e v s = (case v of (n, kind, ev) \<Rightarrow> case fresh_wall E s of (receipt, s) \<Rightarrow>
     case record_event i n kind (note_jump E i e n s) of
       (Inl _, s) \<Rightarrow> poison E PROTOCOL_ERROR s
     | (Inr _, s) \<Rightarrow> (case land_events E [\<lparr>la_id = i, la_sequence = n, la_kind = kind, la_event = ev, la_received = receipt\<rparr>] s of
           (Inr _, s) \<Rightarrow> (\<lparr>po_event = Some ev, po_receipt = Some receipt, po_refusal = None, po_failed = False\<rparr>, s)
         | (Inl (Storage (EvidenceQuota _)), s) \<Rightarrow>
             (refused RESOURCE_LIMIT Dispatched False, snd (mark_ended_at_boundary E i ''event quota exhausted'' (Some n) s))
         | (Inl _, s) \<Rightarrow> poison E PROTOCOL_ERROR s))"

text \<open>\<open>expired\<close>: the deadline is not a finite time ahead on the clock of the services.\<close>

definition poll_event :: "stream_env \<Rightarrow> string \<Rightarrow> bool \<Rightarrow> answer \<Rightarrow> session \<Rightarrow> poll_outcome \<times> session" where
  "poll_event E i expired ans s =
     (if \<not> ss_open s \<or> ss_failed s then (refused INTERNAL_ERROR NotDispatched True, s)
      else if \<not> sv_sink E then (refused UNSUPPORTED NotDispatched False, s)
      else case sub_entry i s of
        None \<Rightarrow> (refused INVALID_ARGUMENT NotDispatched False, s)
      | Some e \<Rightarrow>
          if su_state e \<noteq> Active then (refused INVALID_ARGUMENT NotDispatched False, s)
          else if expired then (refused TIMEOUT NotDispatched False, s)
          else (case ans of
              Quiet \<Rightarrow> (quiet, s)
            | Raised timeout \<Rightarrow> poison E (if timeout then TIMEOUT else PROTOCOL_ERROR) s
            | Answered event \<Rightarrow> (case validate_event (sv_storable E) i event (su_sequence e) (su_kind e) of
                Inl _ \<Rightarrow> poison E PROTOCOL_ERROR s
              | Inr v \<Rightarrow> accept_event E i e v s)))"

section \<open>Subscribing, unsubscribing and closing\<close>

text \<open>
  The gate past the shapes of the arguments, then the adapter: it confirms, declines (with an envelope that may poison the
  session) or raises.
\<close>

datatype stream_answer = Confirmed | Declined bool | Broken

definition subscribe :: "stream_env \<Rightarrow> string \<Rightarrow> string list \<Rightarrow> int \<Rightarrow> int \<Rightarrow> int \<Rightarrow> stream_answer \<Rightarrow> session \<Rightarrow> bool \<times> session" where
  "subscribe E i params interval least limit ans s =
     (if \<not> ss_open s \<or> ss_failed s \<or> \<not> sv_sink E \<or> interval < least \<or> limit < int (length (live_ids s)) + 1 then (False, s)
      else case reserve_subscription E i params interval s of
        (Inl _, s) \<Rightarrow> (False, s)
      | (Inr _, s) \<Rightarrow> (case ans of
          Confirmed \<Rightarrow> (True, s)
        | Declined dead \<Rightarrow> (let s = snd (release_subscription i s) in (False, if dead then clear_streams E s else s))
        | Broken \<Rightarrow> (False, clear_streams E s)))"

definition unsubscribe :: "stream_env \<Rightarrow> string \<Rightarrow> stream_answer \<Rightarrow> session \<Rightarrow> bool \<times> session" where
  "unsubscribe E i ans s =
     (if \<not> ss_open s \<or> ss_failed s \<or> \<not> sv_sink E \<or> \<not> sub_known i s then (False, s)
      else if \<not> is_live i s then (True, s)
      else case ans of
          Confirmed \<Rightarrow> (True, snd (mark_closed i s))
        | Declined dead \<Rightarrow> (False, if dead then clear_streams E s else s)
        | Broken \<Rightarrow> (False, clear_streams E s))"

definition close_streams :: "stream_env \<Rightarrow> session \<Rightarrow> session" where
  "close_streams E s = (snd (sweep_streams E ''plugin_close'' s))\<lparr>ss_open := False\<rparr>"

section \<open>Histories\<close>

datatype stream_op =
    Subscribe string "string list" int int int stream_answer
  | Unsubscribe string stream_answer
  | Poll string bool answer
  | Close

definition stream_do :: "stream_env \<Rightarrow> stream_op \<Rightarrow> session \<Rightarrow> session" where
  "stream_do E oper s = (case oper of
      Subscribe i params interval least limit ans \<Rightarrow> snd (subscribe E i params interval least limit ans s)
    | Unsubscribe i ans \<Rightarrow> snd (unsubscribe E i ans s)
    | Poll i expired ans \<Rightarrow> snd (poll_event E i expired ans s)
    | Close \<Rightarrow> close_streams E s)"

definition new_session :: session where
  "new_session = \<lparr>ss_registry = [], ss_content = no_content, ss_delivered = [], ss_wall = 0, ss_ids = 0, ss_open = True, ss_failed = False\<rparr>"

definition stream_run :: "stream_env \<Rightarrow> stream_op list \<Rightarrow> session" where
  "stream_run E ops = fold (stream_do E) ops new_session"

section \<open>What a log may say\<close>

text \<open>
  The rows of one subscription, in landing order, read by an automaton: events number upwards from zero without a gap, except
  where the event before was a \<open>gap\<close> event or a jump was announced just before; after the host's end marker there is nothing.
\<close>

datatype log_pos = Start | After int string | Announced int | Over

definition landed_at :: "log_pos \<Rightarrow> int \<Rightarrow> string \<Rightarrow> log_pos option" where
  "landed_at pos n kind = (case pos of
      Start \<Rightarrow> if n = 0 then Some (After n kind) else None
    | After m k \<Rightarrow> if k \<noteq> ''ended'' \<and> (n = m + 1 \<or> k = ''gap'' \<and> m < n) then Some (After n kind) else None
    | Announced m \<Rightarrow> if n = m then Some (After n kind) else None
    | Over \<Rightarrow> None)"

definition jump_at :: "log_pos \<Rightarrow> pyval \<Rightarrow> int \<Rightarrow> log_pos option" where
  "jump_at pos from_seq n = (case pos of
      Start \<Rightarrow> if from_seq = JNull \<and> 0 < n then Some (Announced n) else None
    | After m k \<Rightarrow> if from_seq = JInt m \<and> m + 1 < n \<and> k \<noteq> ''ended'' then Some (Announced n) else None
    | _ \<Rightarrow> None)"

definition scan :: "log_pos \<Rightarrow> obj \<Rightarrow> log_pos option" where
  "scan pos r = (case obj_get r ''marker'' of
      JNull \<Rightarrow> (case (obj_get r ''sequence'', obj_get r ''kind'') of (JInt n, JStr k) \<Rightarrow> landed_at pos n k | _ \<Rightarrow> None)
    | JStr mark \<Rightarrow>
        (if mark = ''host_ended'' then (if pos = Over then None else Some Over)
         else if mark = ''sequence_jump_without_gap''
         then (case obj_get r ''to_sequence'' of JInt n \<Rightarrow> jump_at pos (obj_get r ''from_sequence'') n | _ \<Rightarrow> None)
         else None)
    | _ \<Rightarrow> None)"

fun scan_all :: "log_pos \<Rightarrow> obj list \<Rightarrow> log_pos option" where
  "scan_all pos [] = Some pos"
| "scan_all pos (r # rs) = (case scan pos r of None \<Rightarrow> None | Some pos' \<Rightarrow> scan_all pos' rs)"

lemma scan_all_snoc: "scan_all pos (rs @ [r]) = Option.bind (scan_all pos rs) (\<lambda>p. scan p r)"
  by (induction rs arbitrary: pos) (auto split: option.splits)

fun ref_obj :: "pyval \<Rightarrow> obj" where
  "ref_obj (JObj r) = r"
| "ref_obj _ = []"

definition stream_log :: "string \<Rightarrow> session \<Rightarrow> obj list" where
  "stream_log i s = filter (\<lambda>r. obj_get r ''id'' = JStr i) (map (\<lambda>(_, v). ref_obj (vi_ref v)) (ct_evidence (ss_content s)))"

section \<open>What rows add\<close>

fun leaf :: "pyval \<Rightarrow> bool" where
  "leaf (JList _) = False"
| "leaf (JObj _) = False"
| "leaf (JOther _) = False"
| "leaf _ = True"

definition plain :: "obj \<Rightarrow> bool" where
  "plain r \<longleftrightarrow> list_all (\<lambda>(_, v). leaf v) r"

lemma leaf_json: "leaf v \<Longrightarrow> is_json v \<and> sort_members v = v"
  by (cases v) auto

lemma plain_column: "plain r \<Longrightarrow> json_column (JObj r) = Inr (JObj (sort_key fst r))"
proof -
  assume "plain r"
  then have l: "\<And>k v. (k, v) \<in> set r \<Longrightarrow> is_json v \<and> sort_members v = v" by (auto simp: plain_def list_all_iff leaf_json)
  then have "map (map_prod id sort_members) r = r" by (auto intro!: map_idI)
  moreover have "is_json (JObj r)" using l by (auto simp: list_all_iff)
  ultimately show ?thesis by (simp add: json_column_def)
qed

lemma obj_get_sorted [simp]: "obj_get (sort_key fst r) k = obj_get r k"
  by (simp add: obj_get_def map_of_sort_key)

definition keys_used :: "stream_env \<Rightarrow> session \<Rightarrow> bool" where
  "keys_used E s \<longleftrightarrow> fst ` set (ct_evidence (ss_content s)) \<subseteq> sv_uuid E ` {..<ss_ids s}"

text \<open>What a call leaves alone.\<close>

definition same_session :: "session \<Rightarrow> session \<Rightarrow> bool" where
  "same_session s s' \<longleftrightarrow> ss_registry s' = ss_registry s \<and> ss_open s' = ss_open s \<and> ss_failed s' = ss_failed s"

lemma add_evidence_row:
  assumes "add_evidence E (JObj ref) a stamp quota s = (r, s')" "plain ref" "inj (sv_uuid E)" "keys_used E s"
  shows "same_session s s'" "keys_used E s'"
    and "(case r of Inl f \<Rightarrow> (\<exists>q. quota = Some q \<and> f = EvidenceQuota q) \<and> ss_content s' = ss_content s
      | Inr _ \<Rightarrow> (\<forall>i. stream_log i s' = stream_log i s @ (if obj_get ref ''id'' = JStr i then [sort_key fst ref] else [])))"
proof -
  have "sv_uuid E (ss_ids s) \<notin> sv_uuid E ` {..<ss_ids s}" using assms(3) by (auto dest: injD)
  then have "sv_uuid E (ss_ids s) \<notin> fst ` set (ct_evidence (ss_content s))" using assms(4) unfolding keys_used_def by blast
  then have del: "AList.delete (sv_uuid E (ss_ids s)) (ct_evidence (ss_content s)) = ct_evidence (ss_content s)"
    by (force simp: AList.delete_eq filter_id_conv)
  have lt: "sv_uuid E ` {..<n} \<subseteq> sv_uuid E ` {..<Suc n}" for n by auto
  show "same_session s s'" using assms(1) by (auto simp: add_evidence_def same_session_def split: prod.splits)
  let ?row = "\<lparr>vi_kind = ''event_log'', vi_ref = JObj (sort_key fst ref), vi_artifact = Some a, vi_context = Some (sv_context E),
    vi_stored = stamp\<rparr>"
  have "s' = s\<lparr>ss_ids := Suc (ss_ids s)\<rparr> \<or> s' = s\<lparr>ss_content := (ss_content s)\<lparr>ct_evidence :=
      replace_row (sv_uuid E (ss_ids s)) ?row (ct_evidence (ss_content s))\<rparr>, ss_ids := Suc (ss_ids s)\<rparr>"
    using assms(1) plain_column [OF assms(2)] by (auto simp: add_evidence_def put_evidence_def split: if_splits)
  then show "keys_used E s'" using assms(4) lt [of "ss_ids s"]
    by (elim disjE) (simp_all add: keys_used_def)
  show "(case r of Inl f \<Rightarrow> (\<exists>q. quota = Some q \<and> f = EvidenceQuota q) \<and> ss_content s' = ss_content s
      | Inr _ \<Rightarrow> (\<forall>i. stream_log i s' = stream_log i s @ (if obj_get ref ''id'' = JStr i then [sort_key fst ref] else [])))"
    using assms(1) plain_column [OF assms(2)]
    by (auto simp: add_evidence_def put_evidence_def over_quota_def replace_row_def del stream_log_def split: if_splits option.splits)
qed

lemma keys_used_cong: "ct_evidence (ss_content s') = ct_evidence (ss_content s) \<Longrightarrow> ss_ids s' = ss_ids s \<Longrightarrow> keys_used E s' = keys_used E s"
  by (simp add: keys_used_def)

lemma add_artifact_frame:
  assumes "add_artifact E blob stamp s = (a, s')"
  shows "same_session s s'" "keys_used E s' = keys_used E s" "stream_log i s' = stream_log i s"
  using assms by (auto simp: add_artifact_def put_artifact_def Let_def same_session_def stream_log_def intro!: keys_used_cong)

lemma fresh_wall_frame:
  assumes "fresh_wall E s = (w, s')"
  shows "same_session s s'" "keys_used E s' = keys_used E s" "stream_log i s' = stream_log i s"
  using assms by (auto simp: fresh_wall_def same_session_def stream_log_def intro!: keys_used_cong)

lemma same_session_trans: "same_session s s' \<Longrightarrow> same_session s' s'' \<Longrightarrow> same_session s s''"
  by (simp add: same_session_def)

lemma scan_sorted [simp]: "scan pos (sort_key fst r) = scan pos r"
  by (simp only: scan_def obj_get_sorted)

text \<open>The rows that the calls add carry the members the automaton reads.\<close>

lemma opt_int_leaf [simp]: "leaf (opt_int n)" by (cases n) (simp_all add: opt_int_def)

lemma marker_row:
  assumes "list_all (\<lambda>(_, v). leaf v) extra" "inj (sv_uuid E)" "keys_used E s"
  shows "same_session s (snd (marker E i mark cause extra s))" "keys_used E (snd (marker E i mark cause extra s))"
    and "\<exists>blob. \<forall>j. stream_log j (snd (marker E i mark cause extra s)) =
      stream_log j s @ (if i = j then [sort_key fst (marker_ref E i mark cause extra blob)] else [])"
proof -
  obtain r s' where m: "marker E i mark cause extra s = (r, s')" by fastforce
  obtain w s1 where w: "fresh_wall E s = (w, s1)" by fastforce
  define blob where "blob = sv_dumps E (JObj ([(''subscription_id'', JStr i), (''marker'', JStr mark), (''cause'', JStr cause)] @ extra))"
  obtain a s2 where a: "add_artifact E blob w s1 = (a, s2)" by fastforce
  have row: "add_evidence E (JObj (marker_ref E i mark cause extra blob)) a w None s2 = (r, s')"
    using m w a by (simp add: marker_def Let_def blob_def)
  have p: "plain (marker_ref E i mark cause extra blob)" using assms(1) by (simp add: plain_def marker_ref_def)
  have k: "keys_used E s2" using assms(3) fresh_wall_frame(2) [OF w] add_artifact_frame(2) [OF a] by simp
  note R = add_evidence_row [OF row p assms(2) k]
  have id: "obj_get (marker_ref E i mark cause extra blob) ''id'' = JStr i" by (simp add: marker_ref_def obj_get_def)
  show "same_session s (snd (marker E i mark cause extra s))" "keys_used E (snd (marker E i mark cause extra s))"
    using R(1,2) m same_session_trans [OF fresh_wall_frame(1) [OF w] same_session_trans [OF add_artifact_frame(1) [OF a]]] by simp_all
  obtain q where "r = Inr q" using R(3) by (cases r) auto
  then show "\<exists>blob. \<forall>j. stream_log j (snd (marker E i mark cause extra s)) =
      stream_log j s @ (if i = j then [sort_key fst (marker_ref E i mark cause extra blob)] else [])"
    using R(3) m fresh_wall_frame(3) [OF w] add_artifact_frame(3) [OF a] by (intro exI [of _ blob]) (simp add: id)
qed

lemma scan_end: "pos \<noteq> Over \<Longrightarrow> scan pos (marker_ref E i ''host_ended'' cause extra blob) = Some Over"
  by (simp add: scan_def marker_ref_def obj_get_def)

lemma scan_jump: "scan pos (marker_ref E i ''sequence_jump_without_gap'' cause [(''from_sequence'', opt_int m), (''to_sequence'', JInt n)] blob) =
    jump_at pos (opt_int m) n"
  by (simp add: scan_def marker_ref_def obj_get_def)

lemma scan_landing: "scan pos (landing_ref E e) = landed_at pos (la_sequence e) (la_kind e)"
  by (simp add: scan_def landing_ref_def obj_get_def)

subsection \<open>The invariant\<close>

definition pos_ok :: "log_pos \<Rightarrow> subscription \<Rightarrow> bool" where
  "pos_ok pos e \<longleftrightarrow> (case su_sequence e of
      None \<Rightarrow> pos = Start
    | Some m \<Rightarrow> (\<exists>k. su_kind e = Some k \<and> k \<noteq> ''ended'' \<and> pos = After m k))"

definition log_ok :: "session \<Rightarrow> string \<Rightarrow> bool" where
  "log_ok s i \<longleftrightarrow> (\<exists>pos. scan_all Start (stream_log i s) = Some pos \<and> (case sub_entry i s of
      None \<Rightarrow> stream_log i s = []
    | Some e \<Rightarrow> su_state e = Active \<longrightarrow> pos_ok pos e))"

definition stream_inv :: "stream_env \<Rightarrow> session \<Rightarrow> bool" where
  "stream_inv E s \<longleftrightarrow> keys_used E s \<and> distinct (map fst (ss_registry s)) \<and> (\<forall>i. log_ok s i)"

lemma entry_put [simp]: "sub_entry i (put_entry j e s) = (if i = j then Some e else sub_entry i s)"
  by (simp add: sub_entry_def put_entry_def update_conv')

lemma put_entry_frame [simp]: "stream_log i (put_entry j e s) = stream_log i s" "keys_used E (put_entry j e s) = keys_used E s"
  "distinct (map fst (ss_registry s)) \<Longrightarrow> distinct (map fst (ss_registry (put_entry j e s)))"
  by (simp_all add: stream_log_def keys_used_def put_entry_def distinct_update)

lemma entry_same: "same_session s s' \<Longrightarrow> sub_entry i s' = sub_entry i s"
  by (simp add: same_session_def sub_entry_def)

lemma log_ok_cong: "stream_log i s' = stream_log i s \<Longrightarrow> sub_entry i s' = sub_entry i s \<Longrightarrow> log_ok s' i = log_ok s i"
  by (simp only: log_ok_def)

lemma keys_used_more: "keys_used E s \<Longrightarrow> ct_evidence (ss_content s') = ct_evidence (ss_content s) \<Longrightarrow> ss_ids s \<le> ss_ids s' \<Longrightarrow> keys_used E s'"
  unfolding keys_used_def by (metis dual_order.trans image_mono lessThan_subset_iff)

text \<open>The end of a subscription by the host.\<close>

lemma pos_ok_not_over: "pos_ok pos e \<Longrightarrow> pos \<noteq> Over"
  by (auto simp: pos_ok_def split: option.splits)

lemma inv_mark_ended:
  assumes I: "stream_inv E s" and inj: "inj (sv_uuid E)"
  shows "stream_inv E (snd (mark_ended E i cause s))"
proof (cases "is_live i s")
  case False
  then show ?thesis using I by (simp add: mark_ended_def)
next
  case True
  then obtain e where e: "sub_entry i s = Some e" "su_state e = Active" by (auto simp: is_live_def split: option.splits)
  let ?u = "put_entry i (e\<lparr>su_state := Ended\<rparr>) s"
  have u: "set_state i Ended s = ?u" by (simp add: set_state_def e)
  have k: "keys_used E ?u" using I by (simp add: stream_inv_def)
  have "list_all (\<lambda>(_, v). leaf v) []" by simp
  note M = marker_row [OF this inj k, where i = i and mark = "''host_ended''" and cause = cause]
  let ?v = "snd (marker E i ''host_ended'' cause [] ?u)"
  obtain blob where log: "\<And>j. stream_log j ?v = stream_log j s @ (if i = j then [sort_key fst (marker_ref E i ''host_ended'' cause [] blob)] else [])"
    using M(3) by auto
  have "log_ok ?v j" for j
  proof (cases "j = i")
    case True
    have "log_ok s i" using I by (simp add: stream_inv_def)
    then obtain pos where "scan_all Start (stream_log i s) = Some pos" "pos_ok pos e"
      using e by (auto simp: log_ok_def)
    then have "scan_all Start (stream_log i ?v) = Some Over"
      using scan_end [OF pos_ok_not_over] by (simp add: log scan_all_snoc)
    then show ?thesis using True by (simp add: log_ok_def entry_same [OF M(1)])
  next
    case False
    then have "log_ok ?v j = log_ok s j" by (intro log_ok_cong) (simp_all add: entry_same [OF M(1)] log)
    then show ?thesis using I by (simp add: stream_inv_def)
  qed
  then show ?thesis using M(1,2) I True
    by (simp add: stream_inv_def mark_ended_def u) (simp add: same_session_def)
qed

lemma inv_sweep_ids: "stream_inv E s \<Longrightarrow> inj (sv_uuid E) \<Longrightarrow> stream_inv E (sweep_ids E cause is s)"
  by (induction "is" arbitrary: s) (auto intro: inv_mark_ended)

lemma stream_inv_flags: "stream_inv E (s\<lparr>ss_failed := f\<rparr>) = stream_inv E s" "stream_inv E (s\<lparr>ss_open := f\<rparr>) = stream_inv E s"
proof -
  have "log_ok (s\<lparr>ss_failed := f\<rparr>) i = log_ok s i" "log_ok (s\<lparr>ss_open := f\<rparr>) i = log_ok s i" for i
    by (intro log_ok_cong; simp add: stream_log_def sub_entry_def)+
  then show "stream_inv E (s\<lparr>ss_failed := f\<rparr>) = stream_inv E s" "stream_inv E (s\<lparr>ss_open := f\<rparr>) = stream_inv E s"
    by (simp_all add: stream_inv_def keys_used_def)
qed

lemma inv_clear: "stream_inv E s \<Longrightarrow> inj (sv_uuid E) \<Longrightarrow> stream_inv E (clear_streams E s)"
  by (simp add: clear_streams_def sweep_streams_def inv_sweep_ids stream_inv_flags)

text \<open>Registering and closing.\<close>

lemma inv_stream_reserve:
  assumes I: "stream_inv E s" and "reserve_subscription E i params interval s = (r, s')"
  shows "stream_inv E s'" "r = Inr () \<Longrightarrow> sub_entry i s = None \<and> stream_log i s' = []"
proof -
  have "stream_inv E s' \<and> (r = Inr () \<longrightarrow> sub_entry i s = None \<and> stream_log i s' = [])"
  proof (cases "r = Inr ()")
    case False
    then show ?thesis using assms by (auto simp: reserve_subscription_def split: if_splits)
  next
    case True
    let ?e = "\<lparr>su_parameters = params, su_interval = interval, su_state = Active, su_sequence = None, su_kind = None\<rparr>"
    have none: "sub_entry i s = None" and s': "s' = s\<lparr>ss_registry := ss_registry s @ [(i, ?e)]\<rparr>"
      using True assms(2) by (auto simp: reserve_subscription_def sub_known_def split: if_splits)
    have "log_ok s i" using I by (simp add: stream_inv_def)
    then have log: "stream_log i s = []" using none by (simp add: log_ok_def)
    have logs: "stream_log j s' = stream_log j s" for j by (simp add: s' stream_log_def)
    have ent: "sub_entry j s' = (if j = i then Some ?e else sub_entry j s)" for j
      using none by (auto simp: s' sub_entry_def map_add_def split: option.splits)
    have "log_ok s' j" for j
    proof (cases "j = i")
      case True
      then show ?thesis using log by (simp add: log_ok_def logs ent pos_ok_def)
    next
      case False
      then have "log_ok s' j = log_ok s j" by (intro log_ok_cong) (simp_all add: logs ent)
      then show ?thesis using I by (simp add: stream_inv_def)
    qed
    moreover have "distinct (map fst (ss_registry s'))"
      using I none by (simp add: stream_inv_def s' sub_entry_def map_of_eq_None_iff)
    moreover have "keys_used E s'" using I by (simp add: stream_inv_def s' keys_used_def)
    ultimately show ?thesis using none log logs by (simp add: stream_inv_def)
  qed
  then show "stream_inv E s'" "r = Inr () \<Longrightarrow> sub_entry i s = None \<and> stream_log i s' = []" by blast+
qed

lemma inv_release:
  assumes I: "stream_inv E s" and log: "stream_log i s = []"
  shows "stream_inv E (snd (release_subscription i s))"
proof (cases "is_live i s")
  case True
  let ?s = "s\<lparr>ss_registry := AList.delete i (ss_registry s)\<rparr>"
  have logs: "stream_log j ?s = stream_log j s" for j by (simp add: stream_log_def)
  have ent: "sub_entry j ?s = (if j = i then None else sub_entry j s)" for j by (simp add: sub_entry_def delete_conv')
  have "log_ok ?s j" for j
  proof (cases "j = i")
    case True
    then show ?thesis using log by (simp add: log_ok_def logs ent)
  next
    case False
    then have "log_ok ?s j = log_ok s j" by (intro log_ok_cong) (simp_all add: logs ent)
    then show ?thesis using I by (simp add: stream_inv_def)
  qed
  moreover have "keys_used E ?s" "distinct (map fst (ss_registry ?s))" using I by (simp_all add: stream_inv_def keys_used_def distinct_delete)
  ultimately show ?thesis using True by (simp add: release_subscription_def stream_inv_def)
qed (use I in \<open>simp add: release_subscription_def\<close>)

lemma inv_subscribe:
  assumes I: "stream_inv E s" and inj: "inj (sv_uuid E)"
  shows "stream_inv E (snd (subscribe E i params interval least limit ans s))"
proof -
  obtain r s' where R: "reserve_subscription E i params interval s = (r, s')" by fastforce
  note V = inv_stream_reserve [OF I R]
  show ?thesis
  proof (cases r)
    case (Inl f)
    then have "s' = s" using R by (auto simp: reserve_subscription_def split: if_splits)
    with Inl I R show ?thesis by (simp add: subscribe_def)
  next
    case (Inr u)
    then have "stream_log i s' = []" using V(2) by simp
    with V(1) have "stream_inv E (snd (release_subscription i s'))" by (rule inv_release)
    with Inr I R V(1) inj show ?thesis by (cases ans) (simp_all add: subscribe_def Let_def inv_clear)
  qed
qed

lemma inv_unsubscribe:
  assumes I: "stream_inv E s" and inj: "inj (sv_uuid E)"
  shows "stream_inv E (snd (unsubscribe E i ans s))"
proof -
  have "stream_inv E (snd (mark_closed i s))"
  proof (cases "is_live i s")
    case True
    then obtain e where e: "sub_entry i s = Some e" by (auto simp: is_live_def split: option.splits)
    let ?s = "put_entry i (e\<lparr>su_state := Closed\<rparr>) s"
    have "log_ok ?s j" for j
    proof -
      have "log_ok s j" using I by (simp add: stream_inv_def)
      moreover have "log_ok ?s j = log_ok s j" if "j \<noteq> i" using that by (intro log_ok_cong) simp_all
      ultimately show ?thesis using e by (cases "j = i") (auto simp: log_ok_def)
    qed
    then show ?thesis using True I e by (simp add: mark_closed_def set_state_def stream_inv_def)
  qed (use I in \<open>simp add: mark_closed_def\<close>)
  with I inj show ?thesis by (cases ans) (simp_all add: unsubscribe_def inv_clear)
qed

subsection \<open>An accepted event\<close>

lemma validate_event_Inr:
  assumes "validate_event storable i event last_sequence last_kind = Inr (n, kind, ev)"
  shows "0 \<le> n" "last_kind \<noteq> Some ''ended''" "last_sequence = Some m \<Longrightarrow> m < n" "kind \<in> set event_kinds"
    "event = JObj ev" "obj_get ev ''subscription_id'' = JStr i"
  using assms by (auto simp: validate_event_def split: pyval.splits option.splits if_splits)

lemma note_jump_row:
  assumes "stream_inv E s" "inj (sv_uuid E)" "sub_entry i s = Some e" "su_state e = Active"
    and n: "0 \<le> n" "\<forall>m. su_sequence e = Some m \<longrightarrow> m < n"
  shows "same_session s (note_jump E i e n s)" "keys_used E (note_jump E i e n s)"
    and "\<exists>pos. scan_all Start (stream_log i (note_jump E i e n s)) = Some pos \<and> pos \<noteq> Over \<and> landed_at pos n kind = Some (After n kind)"
    and "j \<noteq> i \<Longrightarrow> stream_log j (note_jump E i e n s) = stream_log j s"
proof -
  have k: "keys_used E s" using assms(1) by (simp add: stream_inv_def)
  have "log_ok s i" using assms(1) by (simp add: stream_inv_def)
  then obtain pos where pos: "scan_all Start (stream_log i s) = Some pos" "pos_ok pos e" using assms(3,4) by (auto simp: log_ok_def)
  define jump where "jump m = (note_sequence_jump E i m n s)" for m
  have J: "same_session s (jump m)" "keys_used E (jump m)" "\<exists>blob. \<forall>j. stream_log j (jump m) = stream_log j s @ (if i = j
      then [sort_key fst (marker_ref E i ''sequence_jump_without_gap'' ''forward sequence jump with no preceding gap event''
        [(''from_sequence'', opt_int m), (''to_sequence'', JInt n)] blob)] else [])" for m
    unfolding jump_def note_sequence_jump_def by (intro marker_row assms(2) k; simp)+
  have cases: "note_jump E i e n s = s \<and> landed_at pos n kind = Some (After n kind) \<or>
    (\<exists>m. note_jump E i e n s = jump m \<and> jump_at pos (opt_int m) n = Some (Announced n))"
    using n pos(2) by (cases "su_sequence e") (auto simp: note_jump_def jump_def pos_ok_def landed_at_def jump_at_def opt_int_def)
  show "same_session s (note_jump E i e n s)" "keys_used E (note_jump E i e n s)"
    using cases J(1,2) k by (auto simp: same_session_def)
  have other: "stream_log j (jump m) = stream_log j s" if "j \<noteq> i" for j m using J(3) [of m] that by auto
  show "j \<noteq> i \<Longrightarrow> stream_log j (note_jump E i e n s) = stream_log j s" using cases other by auto
  show "\<exists>pos. scan_all Start (stream_log i (note_jump E i e n s)) = Some pos \<and> pos \<noteq> Over \<and> landed_at pos n kind = Some (After n kind)"
    using cases
  proof (elim disjE exE conjE)
    fix m assume m: "note_jump E i e n s = jump m" "jump_at pos (opt_int m) n = Some (Announced n)"
    obtain blob where "stream_log i (jump m) = stream_log i s @
      [sort_key fst (marker_ref E i ''sequence_jump_without_gap'' ''forward sequence jump with no preceding gap event''
        [(''from_sequence'', opt_int m), (''to_sequence'', JInt n)] blob)]" using J(3) [of m] by auto
    then have "scan_all Start (stream_log i (jump m)) = Some (Announced n)"
      by (simp add: scan_all_snoc pos(1) scan_jump m(2))
    then show ?thesis by (simp add: m(1) landed_at_def)
  qed (use pos pos_ok_not_over in auto)
qed

text \<open>Landing one event: either its row, or nothing because the quota is reached.\<close>

lemma land_one:
  assumes "land_events E [e] s = (r, s')" "1 \<le> sv_max_batch E" "inj (sv_uuid E)" "keys_used E s"
  shows "same_session s s'" "keys_used E s'"
    and "(\<exists>q. r = Inl (Storage (EvidenceQuota q)) \<and> (\<forall>j. stream_log j s' = stream_log j s)) \<or>
      (\<exists>is. r = Inr is \<and> (\<forall>j. stream_log j s' = stream_log j s @ (if la_id e = j then [sort_key fst (landing_ref E e)] else [])))"
proof -
  obtain a s1 where a: "add_artifact E (sv_dumps E (JObj (la_event e))) (la_received e) s = (a, s1)" by fastforce
  obtain x s2 where x: "add_evidence E (JObj (landing_ref E e)) a (la_received e) (Some (sv_max_evidence E)) s1 = (x, s2)" by fastforce
  have p: "plain (landing_ref E e)" by (simp add: plain_def landing_ref_def)
  have k: "keys_used E s1" using assms(4) add_artifact_frame(2) [OF a] by simp
  note R = add_evidence_row [OF x p assms(3) k]
  have id: "obj_get (landing_ref E e) ''id'' = JStr (la_id e)" by (simp add: landing_ref_def obj_get_def)
  have same: "same_session s s2" using R(1) add_artifact_frame(1) [OF a] by (rule same_session_trans [rotated])
  have ids: "ss_ids s \<le> ss_ids s2" using a x by (auto simp: add_artifact_def add_evidence_def split: prod.splits)
  have "same_session s s' \<and> keys_used E s' \<and> ((\<exists>q. r = Inl (Storage (EvidenceQuota q)) \<and> (\<forall>j. stream_log j s' = stream_log j s)) \<or>
      (\<exists>is. r = Inr is \<and> (\<forall>j. stream_log j s' = stream_log j s @ (if la_id e = j then [sort_key fst (landing_ref E e)] else []))))"
  proof (cases x)
    case (Inl f)
    then obtain q where "f = EvidenceQuota q" using R(3) by auto
    then have "r = Inl (Storage (EvidenceQuota q))" "s' = s2\<lparr>ss_content := ss_content s\<rparr>"
      using assms(1,2) Inl by (simp_all add: land_events_def a x)
    moreover have "keys_used E (s2\<lparr>ss_content := ss_content s\<rparr>)" by (rule keys_used_more [OF assms(4)]) (simp_all add: ids)
    ultimately show ?thesis using same by (simp add: same_session_def stream_log_def)
  next
    case (Inr v)
    then have "r = Inr [v]" "s' = s2\<lparr>ss_delivered := ss_delivered s2 @ delivered [e]\<rparr>"
      using assms(1,2) by (simp_all add: land_events_def a x)
    then show ?thesis using same R(2,3) Inr add_artifact_frame(3) [OF a]
      by (simp add: same_session_def stream_log_def keys_used_def id)
  qed
  then show "same_session s s'" "keys_used E s'"
    "(\<exists>q. r = Inl (Storage (EvidenceQuota q)) \<and> (\<forall>j. stream_log j s' = stream_log j s)) \<or>
      (\<exists>is. r = Inr is \<and> (\<forall>j. stream_log j s' = stream_log j s @ (if la_id e = j then [sort_key fst (landing_ref E e)] else [])))"
    by blast+
qed

lemma stream_invI:
  assumes "stream_inv E s" "keys_used E s'" "distinct (map fst (ss_registry s'))" "log_ok s' i"
    and "\<And>j. j \<noteq> i \<Longrightarrow> stream_log j s' = stream_log j s \<and> sub_entry j s' = sub_entry j s"
  shows "stream_inv E s'"
proof -
  have "log_ok s' j" for j
    using assms(1,4,5) log_ok_cong [of j s' s] by (cases "j = i") (simp_all add: stream_inv_def)
  then show ?thesis using assms(2,3) by (simp add: stream_inv_def)
qed

lemma inv_accept:
  assumes I: "stream_inv E s" and env: "inj (sv_uuid E)" "1 \<le> sv_max_batch E"
    and e: "sub_entry i s = Some e" "su_state e = Active" and v: "validate_event (sv_storable E) i event (su_sequence e) (su_kind e) = Inr (n, kind, ev)"
  shows "stream_inv E (snd (accept_event E i e (n, kind, ev) s))"
proof -
  note V = validate_event_Inr [OF v]
  obtain w s0 where w: "fresh_wall E s = (w, s0)" by fastforce
  have e0: "sub_entry j s0 = sub_entry j s" and l0: "stream_log j s0 = stream_log j s" for j
    using fresh_wall_frame(1,3) [OF w] entry_same by auto
  have "log_ok s0 j = log_ok s j" for j by (intro log_ok_cong e0 l0)
  then have I0: "stream_inv E s0" using I fresh_wall_frame(1,2) [OF w] by (simp add: stream_inv_def same_session_def)
  have i0: "sub_entry i s0 = Some e" using e(1) e0 by simp
  define s1 where "s1 = note_jump E i e n s0"
  have "\<forall>m. su_sequence e = Some m \<longrightarrow> m < n" using V(3) by blast
  note N = note_jump_row [OF I0 env(1) i0 e(2) V(1) this, folded s1_def]
  define e2 where "e2 = e\<lparr>su_sequence := Some n, su_kind := Some kind, su_state := if kind = ''ended'' then Ended else su_state e\<rparr>"
  define s2 where "s2 = put_entry i e2 s1"
  have e1: "sub_entry i s1 = Some e" using entry_same [OF N(1)] i0 by simp
  have rec: "record_event i n kind s1 = (Inr (), s2)" by (simp add: record_event_def e1 s2_def e2_def)
  have k2: "keys_used E s2" and d2: "distinct (map fst (ss_registry s2))"
    using N(1,2) I0 by (simp_all add: s2_def stream_inv_def same_session_def)
  let ?l = "\<lparr>la_id = i, la_sequence = n, la_kind = kind, la_event = ev, la_received = w\<rparr>"
  obtain r s3 where r: "land_events E [?l] s2 = (r, s3)" by fastforce
  note L = land_one [OF r env(2,1) k2]
  have ent3: "sub_entry j s3 = (if i = j then Some e2 else sub_entry j s)" for j
    using entry_same [OF L(1)] entry_same [OF N(1)] e0 by (simp add: s2_def)
  have other: "stream_log j s2 = stream_log j s" if "j \<noteq> i" for j using N(4) [OF that] l0 by (simp add: s2_def)
  obtain pos where pos: "scan_all Start (stream_log i s2) = Some pos" "pos \<noteq> Over" "landed_at pos n kind = Some (After n kind)"
    using N(3) by (auto simp: s2_def)
  have d3: "distinct (map fst (ss_registry s3))" using L(1) d2 by (simp add: same_session_def)
  from L(3) show ?thesis
  proof (elim disjE exE conjE)
    fix ids assume ok: "r = Inr ids"
      "\<forall>j. stream_log j s3 = stream_log j s2 @ (if la_id ?l = j then [sort_key fst (landing_ref E ?l)] else [])"
    have "scan_all Start (stream_log i s3) = Some (After n kind)" using ok(2) pos by (simp add: scan_all_snoc scan_landing)
    then have "log_ok s3 i" using ent3 [of i] e(2) by (auto simp: log_ok_def pos_ok_def e2_def)
    then have "stream_inv E s3" by (rule stream_invI [OF I L(2) d3]) (use ok(2) other ent3 in auto)
    then show ?thesis by (simp add: accept_event_def w s1_def [symmetric] rec r ok(1))
  next
    fix q assume full: "r = Inl (Storage (EvidenceQuota q))" "\<forall>j. stream_log j s3 = stream_log j s2"
    define s4 where "s4 = (if is_live i s3 then set_state i Ended s3 else s3)"
    have k4: "keys_used E s4" and d4: "distinct (map fst (ss_registry s4))" and l4: "stream_log j s4 = stream_log j s3" for j
      using L(2) d3 by (simp_all add: s4_def set_state_def split: option.split)
    have e4: "sub_entry j s4 = (if i = j then Some (e2\<lparr>su_state := Ended\<rparr>) else sub_entry j s)" for j
      using ent3 [of i] ent3 [of j] e(2) by (auto simp: s4_def set_state_def is_live_def e2_def)
    have "list_all (\<lambda>(_, v). leaf v) [(''discarded_sequence'', opt_int (Some n))]" by simp
    note M = marker_row [OF this env(1) k4, where i = i and mark = "''host_ended''" and cause = "''event quota exhausted''"]
    let ?s = "snd (marker E i ''host_ended'' ''event quota exhausted'' [(''discarded_sequence'', opt_int (Some n))] s4)"
    obtain blob where log: "stream_log j ?s = stream_log j s4 @ (if i = j then [sort_key fst (marker_ref E i ''host_ended''
        ''event quota exhausted'' [(''discarded_sequence'', opt_int (Some n))] blob)] else [])" for j using M(3) by auto
    have "scan_all Start (stream_log i ?s) = Some Over" using pos(1) scan_end [OF pos(2)] full(2) l4 by (simp add: log scan_all_snoc)
    then have ok: "log_ok ?s i" using e4 [of i] by (simp add: log_ok_def entry_same [OF M(1)])
    have "distinct (map fst (ss_registry ?s))" using M(1) d4 by (simp add: same_session_def)
    then have "stream_inv E ?s"
      by (rule stream_invI [OF I M(2) _ ok]) (use M(1) d4 log l4 full(2) other e4 entry_same [OF M(1)] in \<open>auto simp: same_session_def\<close>)
    then show ?thesis
      by (simp add: accept_event_def w s1_def [symmetric] rec r full(1) mark_ended_at_boundary_def s4_def)
  qed
qed

lemma stream_do_inv:
  assumes I: "stream_inv E s" and env: "inj (sv_uuid E)" "1 \<le> sv_max_batch E"
  shows "stream_inv E (stream_do E oper s)"
proof (cases oper)
  case (Poll i expired ans)
  have "stream_inv E (snd (poll_event E i expired ans s))"
  proof (cases "\<exists>e event n kind ev. sub_entry i s = Some e \<and> su_state e = Active \<and> ans = Answered event \<and>
      validate_event (sv_storable E) i event (su_sequence e) (su_kind e) = Inr (n, kind, ev)")
    case True
    then obtain e event n kind ev where "sub_entry i s = Some e" "su_state e = Active" "ans = Answered event"
      "validate_event (sv_storable E) i event (su_sequence e) (su_kind e) = Inr (n, kind, ev)" by blast
    with inv_accept [OF I env this(1,2,4)] I show ?thesis by (simp add: poll_event_def)
  next
    case False
    then show ?thesis using I inv_clear [OF I env(1)]
      by (auto simp: poll_event_def poison_def split: option.splits answer.splits sum.splits)
  qed
  then show ?thesis by (simp add: stream_do_def Poll)
next
  case Close
  then show ?thesis using inv_sweep_ids [OF I env(1)] by (simp add: stream_do_def close_streams_def sweep_streams_def stream_inv_flags)
qed (use inv_subscribe [OF I env(1)] inv_unsubscribe [OF I env(1)] in \<open>simp_all add: stream_do_def\<close>)

lemma stream_run_inv:
  assumes "inj (sv_uuid E)" "1 \<le> sv_max_batch E"
  shows "stream_inv E (stream_run E ops)"
proof -
  have "stream_inv E s \<Longrightarrow> stream_inv E (fold (stream_do E) ops s)" for s
    by (induction ops arbitrary: s) (simp_all add: stream_do_inv assms)
  moreover have "stream_inv E new_session"
    by (simp add: stream_inv_def new_session_def no_content_def keys_used_def log_ok_def stream_log_def sub_entry_def)
  ultimately show ?thesis by (simp add: stream_run_def)
qed

section \<open>Subscriptions only end\<close>

definition calmer :: "session \<Rightarrow> session \<Rightarrow> bool" where
  "calmer s s' \<longleftrightarrow> (\<forall>i. is_live i s' \<longrightarrow> is_live i s) \<and>
     (\<forall>i e. sub_entry i s = Some e \<and> su_state e \<noteq> Active \<longrightarrow> (\<exists>e'. sub_entry i s' = Some e' \<and> su_state e' \<noteq> Active))"

lemma calmer_refl [simp]: "calmer s s"
  by (simp add: calmer_def)

lemma calmer_trans: "calmer s s' \<Longrightarrow> calmer s' s'' \<Longrightarrow> calmer s s''"
  unfolding calmer_def by meson

lemma calmer_same: "same_session s s' \<Longrightarrow> calmer s s'"
  using entry_same [of s s'] by (auto simp: calmer_def is_live_def)

lemma calmer_entries: "(\<And>i. sub_entry i s' = sub_entry i s) \<Longrightarrow> calmer s s'"
  by (simp add: calmer_def is_live_def)

lemma calmer_put: "sub_entry i s = Some e \<Longrightarrow> (su_state e' = Active \<longrightarrow> su_state e = Active) \<Longrightarrow> calmer s (put_entry i e' s)"
  by (auto simp: calmer_def is_live_def split: if_splits option.splits)

lemma calmer_set_state: "st \<noteq> Active \<Longrightarrow> calmer s (set_state i st s)"
  by (cases "sub_entry i s") (simp_all add: set_state_def calmer_put)

lemma marker_same: "same_session s (snd (marker E i mark cause extra s))"
  by (auto simp: marker_def fresh_wall_def add_artifact_def add_evidence_def same_session_def Let_def split: prod.splits)

lemma land_each_same: "same_session s (snd (land_each E es s))"
proof (induction es arbitrary: s)
  case (Cons e es)
  obtain a s1 where a: "add_artifact E (sv_dumps E (JObj (la_event e))) (la_received e) s = (a, s1)" by fastforce
  obtain r s2 where r: "add_evidence E (JObj (landing_ref E e)) a (la_received e) (Some (sv_max_evidence E)) s1 = (r, s2)" by fastforce
  have "same_session s1 s2" using r by (auto simp: add_evidence_def same_session_def split: prod.splits)
  with add_artifact_frame(1) [OF a] have s2: "same_session s s2" by (rule same_session_trans)
  with same_session_trans [OF s2 Cons.IH] show ?case by (cases r) (auto simp: a r split: sum.split prod.split)
qed (simp add: same_session_def)

lemma land_events_same: "same_session s (snd (land_events E es s))"
  using land_each_same [of s E es] by (auto simp: land_events_def same_session_def split: prod.splits sum.splits)

lemma mark_ended_calmer: "calmer s (snd (mark_ended E i cause s))" "\<not> is_live i (snd (mark_ended E i cause s))"
proof -
  have "is_live j (snd (marker E i ''host_ended'' cause [] u)) = is_live j u" for j u
    using entry_same [OF marker_same] by (simp add: is_live_def)
  moreover have "is_live i s \<Longrightarrow> \<not> is_live i (set_state i Ended s)" by (auto simp: is_live_def set_state_def split: option.splits)
  ultimately show "\<not> is_live i (snd (mark_ended E i cause s))" by (simp add: mark_ended_def)
  show "calmer s (snd (mark_ended E i cause s))"
    by (auto simp: mark_ended_def intro: calmer_trans [OF calmer_set_state calmer_same [OF marker_same]])
qed

lemma sweep_ids_calmer: "calmer s (sweep_ids E cause is s) \<and> (\<forall>i\<in>set is. \<not> is_live i (sweep_ids E cause is s))"
proof (induction "is" arbitrary: s)
  case (Cons i "is")
  note IH = Cons.IH [of "snd (mark_ended E i cause s)"]
  then have "\<not> is_live i (sweep_ids E cause (i # is) s)" using mark_ended_calmer(2) by (auto simp: calmer_def)
  then show ?case using IH calmer_trans [OF mark_ended_calmer(1) conjunct1 [OF IH]] by simp
qed simp

lemma live_known: "is_live i s \<Longrightarrow> i \<in> fst ` set (ss_registry s)"
  by (force simp: is_live_def sub_entry_def dest: map_of_SomeD split: option.splits)

lemma sweep_streams_calmer: "calmer s (snd (sweep_streams E cause s))" "\<not> is_live i (snd (sweep_streams E cause s))"
proof -
  note S = sweep_ids_calmer [of s E cause "sort (map fst (ss_registry s))"]
  show "calmer s (snd (sweep_streams E cause s))" using S by (simp add: sweep_streams_def)
  show "\<not> is_live i (snd (sweep_streams E cause s))"
    using S live_known [of i s] by (auto simp: sweep_streams_def calmer_def)
qed

lemma calmer_flags: "calmer s (s\<lparr>ss_failed := f\<rparr>)" "calmer s (s\<lparr>ss_open := f\<rparr>)"
  by (rule calmer_entries; simp add: sub_entry_def)+

lemma clear_calmer: "calmer s (clear_streams E s)" "\<not> is_live i (clear_streams E s)"
  using calmer_trans [OF calmer_flags(1) sweep_streams_calmer(1)] sweep_streams_calmer(2) by (simp_all add: clear_streams_def)

lemma note_jump_same: "same_session s (note_jump E i e n s)"
  using marker_same by (auto simp: note_jump_def note_sequence_jump_def same_session_def split: option.splits)

lemma accept_calmer: "calmer s (snd (accept_event E i e v s))"
proof -
  obtain n kind ev where v: "v = (n, kind, ev)" by (metis prod.exhaust)
  obtain w s0 where w: "fresh_wall E s = (w, s0)" by fastforce
  obtain r s2 where r: "record_event i n kind (note_jump E i e n s0) = (r, s2)" by fastforce
  have "calmer s (note_jump E i e n s0)" using calmer_trans [OF calmer_same [OF fresh_wall_frame(1) [OF w]] calmer_same [OF note_jump_same]] .
  moreover have "calmer (note_jump E i e n s0) s2"
    using r by (auto simp: record_event_def intro!: calmer_put split: option.splits if_splits)
  ultimately have c2: "calmer s s2" by (rule calmer_trans)
  obtain l s3 where l: "land_events E [\<lparr>la_id = i, la_sequence = n, la_kind = kind, la_event = ev, la_received = w\<rparr>] s2 = (l, s3)" by fastforce
  have c3: "calmer s s3" using calmer_trans [OF c2 calmer_same [OF land_events_same]] l by (metis snd_conv)
  have boundary: "calmer s (snd (mark_ended_at_boundary E i cause d s3))" for cause d
    using calmer_trans [OF c3] calmer_trans [OF calmer_set_state calmer_same [OF marker_same]] calmer_same [OF marker_same]
    by (auto simp: mark_ended_at_boundary_def)
  have clear: "calmer s (clear_streams E s3)" "calmer s (clear_streams E s2)"
    using calmer_trans [OF c3 clear_calmer(1)] calmer_trans [OF c2 clear_calmer(1)] by blast+
  show ?thesis using c3 boundary clear
    by (cases r) (auto simp: accept_event_def v w r l poison_def split: sum.splits stream_fault.splits content_fault.splits)
qed

text \<open>A session that has failed or closed has no live subscription, and the ceiling holds.\<close>

definition over :: "session \<Rightarrow> bool" where
  "over s \<longleftrightarrow> ss_failed s \<or> \<not> ss_open s"

definition lives :: "session \<Rightarrow> string set" where
  "lives s = {i. is_live i s}"

lemma lives_set: "distinct (map fst (ss_registry s)) \<Longrightarrow> set (live_ids s) = lives s \<and> length (live_ids s) = card (lives s)"
proof -
  assume d: "distinct (map fst (ss_registry s))"
  have "i \<in> set (live_ids s) \<longleftrightarrow> (\<exists>e. (i, e) \<in> set (ss_registry s) \<and> su_state e = Active)" for i by (force simp: live_ids_def)
  then have "set (live_ids s) = lives s"
    unfolding map_of_eq_Some_iff [OF d, symmetric] by (auto simp: lives_def is_live_def sub_entry_def split: option.splits)
  moreover have "distinct (live_ids s)" using d by (simp add: live_ids_def distinct_map_filter)
  ultimately show ?thesis by (metis distinct_card)
qed

lemma lives_finite: "finite (lives s)"
  by (rule finite_subset [of _ "fst ` set (ss_registry s)"]) (auto simp: lives_def live_known)

definition bounded :: "stream_env \<Rightarrow> session \<Rightarrow> bool" where
  "bounded E s \<longleftrightarrow> int (card (lives s)) \<le> sv_max_subs E \<and> (over s \<longrightarrow> lives s = {})"

lemma bounded_calmer: "bounded E s \<Longrightarrow> calmer s s' \<Longrightarrow> (over s' \<longrightarrow> over s \<or> lives s' = {}) \<Longrightarrow> bounded E s'"
proof -
  assume b: "bounded E s" and c: "calmer s s'" and o: "over s' \<longrightarrow> over s \<or> lives s' = {}"
  have sub: "lives s' \<subseteq> lives s" using c by (auto simp: calmer_def lives_def)
  then have "card (lives s') \<le> card (lives s)" by (intro card_mono lives_finite)
  with b o sub show "bounded E s'" by (auto simp: bounded_def)
qed

lemma cleared: "lives (clear_streams E s) = {}"
  using clear_calmer(2) by (simp add: lives_def)

lemma over_same: "same_session s s' \<Longrightarrow> over s' = over s"
  by (simp add: over_def same_session_def)

lemma over_put [simp]: "over (put_entry i e s) = over s"
  by (simp add: over_def put_entry_def)

lemma accept_over: "over (snd (accept_event E i e v s)) \<longrightarrow> over s \<or> lives (snd (accept_event E i e v s)) = {}"
proof -
  obtain n kind ev where v: "v = (n, kind, ev)" by (metis prod.exhaust)
  obtain w s0 where w: "fresh_wall E s = (w, s0)" by fastforce
  obtain r s2 where r: "record_event i n kind (note_jump E i e n s0) = (r, s2)" by fastforce
  have "over s2 = over (note_jump E i e n s0)" using r by (auto simp: record_event_def split: option.splits)
  also have "\<dots> = over s" using over_same [OF note_jump_same] over_same [OF fresh_wall_frame(1) [OF w]] by simp
  finally have o2: "over s2 = over s" .
  obtain l s3 where l: "land_events E [\<lparr>la_id = i, la_sequence = n, la_kind = kind, la_event = ev, la_received = w\<rparr>] s2 = (l, s3)" by fastforce
  have o3: "over s3 = over s" using over_same [OF land_events_same] o2 l by (metis snd_conv)
  have "over (set_state i Ended s3) = over s3" by (simp add: set_state_def split: option.split)
  then have boundary: "over (snd (mark_ended_at_boundary E i cause d s3)) = over s" for cause d
    using over_same [OF marker_same] o3 by (simp add: mark_ended_at_boundary_def)
  show ?thesis using o2 o3 boundary
    by (cases r) (auto simp: accept_event_def v w r l poison_def cleared split: sum.splits stream_fault.splits content_fault.splits)
qed

definition settled :: "session \<Rightarrow> session \<Rightarrow> bool" where
  "settled s s' \<longleftrightarrow> (\<forall>i e. sub_entry i s = Some e \<and> su_state e \<noteq> Active \<longrightarrow> (\<exists>e'. sub_entry i s' = Some e' \<and> su_state e' \<noteq> Active))"

lemma settled_calmer: "calmer s s' \<Longrightarrow> settled s s'"
  by (simp add: calmer_def settled_def)

lemma settled_trans: "settled s s' \<Longrightarrow> settled s' s'' \<Longrightarrow> settled s s''"
  unfolding settled_def by meson

lemma release_calmer: "calmer s (snd (release_subscription i s))"
proof (cases "is_live i s")
  case True
  have ent: "sub_entry j (s\<lparr>ss_registry := AList.delete i (ss_registry s)\<rparr>) = (if j = i then None else sub_entry j s)" for j
    by (simp add: sub_entry_def delete_conv')
  show ?thesis using True by (auto simp: release_subscription_def calmer_def is_live_def ent split: if_splits)
qed (simp add: release_subscription_def)

lemma release_over: "over (snd (release_subscription i s)) = over s"
  by (simp add: release_subscription_def over_def)

lemma subscribe_step:
  assumes I: "stream_inv E s" and B: "bounded E s"
  shows "bounded E (snd (subscribe E i params interval least limit ans s)) \<and> settled s (snd (subscribe E i params interval least limit ans s))"
proof -
  obtain r s1 where R: "reserve_subscription E i params interval s = (r, s1)" by fastforce
  show ?thesis
  proof (cases "over s \<or> r \<noteq> Inr ()")
    case True
    moreover have "r \<noteq> Inr () \<Longrightarrow> s1 = s" using R by (auto simp: reserve_subscription_def split: if_splits)
    ultimately have "snd (subscribe E i params interval least limit ans s) = s"
      using R by (auto simp: subscribe_def over_def split: sum.split)
    then show ?thesis using B by (simp add: settled_def)
  next
    case False
    let ?e = "\<lparr>su_parameters = params, su_interval = interval, su_state = Active, su_sequence = None, su_kind = None\<rparr>"
    have none: "sub_entry i s = None" and room: "int (length (live_ids s)) + 1 \<le> sv_max_subs E"
      and s1: "s1 = s\<lparr>ss_registry := ss_registry s @ [(i, ?e)]\<rparr>"
      using False R by (auto simp: reserve_subscription_def sub_known_def not_less split: if_splits)
    have ent: "sub_entry j s1 = (if j = i then Some ?e else sub_entry j s)" for j
      using none by (auto simp: s1 sub_entry_def map_add_def split: option.splits)
    then have "lives s1 = insert i (lives s)" by (auto simp: lives_def is_live_def)
    moreover have "int (card (lives s)) + 1 \<le> sv_max_subs E" using room lives_set I by (simp add: stream_inv_def)
    ultimately have b1: "bounded E s1" using False lives_finite [of s]
      by (simp add: bounded_def card_insert_if over_def s1)
    have s1_settled: "settled s s1" using none by (auto simp: settled_def ent)
    have step: "calmer s1 u \<and> (over u \<longrightarrow> over s1 \<or> lives u = {})"
      if "u \<in> {s1, snd (release_subscription i s1), clear_streams E s1, clear_streams E (snd (release_subscription i s1))}" for u
      using that calmer_trans [OF release_calmer clear_calmer(1)] by (auto simp: release_calmer clear_calmer cleared release_over)
    have "bounded E u \<and> settled s u"
      if "u \<in> {s1, snd (release_subscription i s1), clear_streams E s1, clear_streams E (snd (release_subscription i s1))}" for u
    proof -
      have c: "calmer s1 u" "over u \<longrightarrow> over s1 \<or> lives u = {}" using step [OF that] by blast+
      then show ?thesis using bounded_calmer [OF b1 c] settled_trans [OF s1_settled settled_calmer [OF c(1)]] by blast
    qed
    moreover have "snd (subscribe E i params interval least limit ans s) \<in>
        {s, s1, snd (release_subscription i s1), clear_streams E s1, clear_streams E (snd (release_subscription i s1))}"
      using False R by (cases ans) (auto simp: subscribe_def Let_def)
    ultimately show ?thesis using B by (auto simp: settled_def)
  qed
qed

lemma stream_do_step:
  assumes I: "stream_inv E s" and B: "bounded E s"
  shows "bounded E (stream_do E oper s) \<and> settled s (stream_do E oper s)"
proof -
  have calm: ?thesis if "calmer s (stream_do E oper s)" "over (stream_do E oper s) \<longrightarrow> over s \<or> lives (stream_do E oper s) = {}"
    using bounded_calmer [OF B that] settled_calmer [OF that(1)] by blast
  show ?thesis
  proof (cases oper)
    case (Subscribe i params interval least limit ans)
    then show ?thesis using subscribe_step [OF I B] by (simp add: stream_do_def)
  next
    case (Unsubscribe i ans)
    have "calmer s (snd (mark_closed i s))" "over (snd (mark_closed i s)) = over s"
      by (auto simp: mark_closed_def set_state_def calmer_set_state [unfolded set_state_def] split: option.split)
    then show ?thesis using clear_calmer(1)
      by (intro calm; cases ans) (auto simp: Unsubscribe stream_do_def unsubscribe_def cleared)
  next
    case (Poll i expired ans)
    then show ?thesis using clear_calmer(1) accept_calmer accept_over
      by (intro calm) (auto simp: stream_do_def poll_event_def poison_def cleared split: option.splits answer.splits sum.splits)
  next
    case Close
    then show ?thesis using calmer_trans [OF sweep_streams_calmer(1) calmer_flags(2)] sweep_streams_calmer(2)
      by (intro calm) (auto simp: stream_do_def close_streams_def lives_def is_live_def sub_entry_def)
  qed
qed

lemma stream_fold_step:
  assumes "inj (sv_uuid E)" "1 \<le> sv_max_batch E" "stream_inv E s" "bounded E s"
  shows "bounded E (fold (stream_do E) ops s) \<and> settled s (fold (stream_do E) ops s)"
  using assms(3,4)
proof (induction ops arbitrary: s)
  case (Cons oper ops)
  note step = stream_do_step [OF Cons.prems, of oper]
  with Cons.IH [OF stream_do_inv [OF Cons.prems(1) assms(1,2)], of oper] show ?case
    using settled_trans by (metis fold_simps(2))
qed (simp add: settled_def)

section \<open>Properties\<close>

text \<open>
  Claim C30. No silent gap: whatever the adapters answer, in every history of subscriptions, polls and closes the evidence rows of a
  subscription are accepted by the log automaton, so event numbers only grow, each jump without a \<open>gap\<close> event before it is announced
  by a row of its own, and nothing follows an \<open>ended\<close> event or the end marker of the host; a live subscription has the number and
  kind of its last landed event on record.
\<close>

theorem no_silent_gap:
  assumes "inj (sv_uuid E)" "1 \<le> sv_max_batch E"
  shows "\<exists>pos. scan_all Start (stream_log i (stream_run E ops)) = Some pos \<and>
    (\<forall>e. sub_entry i (stream_run E ops) = Some e \<and> su_state e = Active \<longrightarrow> pos_ok pos e)"
proof -
  have "log_ok (stream_run E ops) i" using stream_run_inv [OF assms, of ops] by (simp add: stream_inv_def)
  then obtain pos where "scan_all Start (stream_log i (stream_run E ops)) = Some pos"
    "\<And>e. sub_entry i (stream_run E ops) = Some e \<Longrightarrow> su_state e = Active \<Longrightarrow> pos_ok pos e"
    by (auto simp: log_ok_def split: option.splits)
  then show ?thesis by blast
qed

text \<open>Two polls of one subscription, the second out of step, then the close.\<close>

definition sample_streams :: stream_env where
  "sample_streams = \<lparr>sv_sink = True, sv_context = ''run:1'', sv_max_subs = 2, sv_max_batch = 1, sv_storable = (\<lambda>_. True), sv_max_evidence = 10, sv_hex = id,
     sv_dumps = (\<lambda>v. ''j''), sv_wall = (\<lambda>n. ''t''), sv_uuid = (\<lambda>n. replicate n CHR ''u'')\<rparr>"

definition sample_alarm :: "int \<Rightarrow> pyval" where
  "sample_alarm n = JObj [(''subscription_id'', JStr ''s''), (''sequence'', JInt n), (''kind'', JStr ''alarm''), (''code'', JStr ''c''),
     (''message'', JStr ''m'')]"

definition sample_stream_ops :: "stream_op list" where
  "sample_stream_ops = [Subscribe ''s'' [''v''] 10 5 4 Confirmed, Poll ''s'' False (Answered (sample_alarm 0)), Poll ''s'' False Quiet,
     Poll ''s'' False (Answered (sample_alarm 2)), Close]"

lemma sample_streams_env: "inj (sv_uuid sample_streams)" "1 \<le> sv_max_batch sample_streams"
  by (auto simp: sample_streams_def inj_def)

lemma no_silent_gap_witness:
  "scan_all Start (stream_log ''s'' (stream_run sample_streams sample_stream_ops)) \<noteq> None \<and>
   length (stream_log ''s'' (stream_run sample_streams sample_stream_ops)) = 4"
proof
  show "scan_all Start (stream_log ''s'' (stream_run sample_streams sample_stream_ops)) \<noteq> None"
    using no_silent_gap [OF sample_streams_env, of "''s''" sample_stream_ops] by auto
  show "length (stream_log ''s'' (stream_run sample_streams sample_stream_ops)) = 4" by code_simp
qed

text \<open>
  Claim C31. Subscriptions only end: in every history the live ones stay within the host's ceiling and there is none once the
  session has failed or closed, and one that has ended or closed stays registered and is never live again, so that a later poll
  of it is refused with nothing changed, whatever the adapter would have answered.
\<close>

theorem subscription_ends_for_good:
  assumes "inj (sv_uuid E)" "1 \<le> sv_max_batch E" "0 \<le> sv_max_subs E"
  shows "int (length (live_ids (stream_run E ops))) \<le> sv_max_subs E \<and>
    (ss_failed (stream_run E ops) \<or> \<not> ss_open (stream_run E ops) \<longrightarrow> live_ids (stream_run E ops) = []) \<and>
    (\<forall>i e. sub_entry i (stream_run E ops) = Some e \<and> su_state e \<noteq> Active \<longrightarrow>
       (\<exists>e'. sub_entry i (stream_run E (ops @ later)) = Some e' \<and> su_state e' \<noteq> Active) \<and>
       (\<exists>out. \<forall>expired ans. poll_event E i expired ans (stream_run E (ops @ later)) = (out, stream_run E (ops @ later)) \<and>
          po_event out = None \<and> po_refusal out \<noteq> None))"
proof -
  let ?s = "stream_run E ops" and ?m = "stream_run E (ops @ later)"
  have I: "stream_inv E ?s" by (rule stream_run_inv [OF assms(1,2)])
  have "stream_inv E new_session" using stream_run_inv [OF assms(1,2), of "[]"] by (simp add: stream_run_def)
  moreover have "bounded E new_session" using assms(3) by (simp add: bounded_def new_session_def lives_def is_live_def sub_entry_def over_def)
  ultimately have B: "bounded E ?s" using stream_fold_step [OF assms(1,2)] unfolding stream_run_def by blast
  have "?m = fold (stream_do E) later ?s" by (simp add: stream_run_def)
  then have S: "settled ?s ?m" using stream_fold_step [OF assms(1,2) I B] by simp
  have "distinct (map fst (ss_registry ?s))" using I by (simp add: stream_inv_def)
  from lives_set [OF this] B have "int (length (live_ids ?s)) \<le> sv_max_subs E"
    "ss_failed ?s \<or> \<not> ss_open ?s \<longrightarrow> live_ids ?s = []" by (auto simp: bounded_def over_def)
  moreover have "(\<exists>e'. sub_entry i ?m = Some e' \<and> su_state e' \<noteq> Active) \<and>
      (\<exists>out. \<forall>expired ans. poll_event E i expired ans ?m = (out, ?m) \<and> po_event out = None \<and> po_refusal out \<noteq> None)"
    if ended: "sub_entry i ?s = Some e" "su_state e \<noteq> Active" for i e
  proof -
    obtain e' where e': "sub_entry i ?m = Some e'" "su_state e' \<noteq> Active" using S ended by (auto simp: settled_def)
    let ?out = "if over ?m then refused INTERNAL_ERROR NotDispatched True
      else if \<not> sv_sink E then refused UNSUPPORTED NotDispatched False else refused INVALID_ARGUMENT NotDispatched False"
    have "poll_event E i expired ans ?m = (?out, ?m)" for expired ans
      using e' by (simp add: poll_event_def over_def)
    moreover have "po_event ?out = None" "po_refusal ?out \<noteq> None" by (simp_all add: refused_def)
    ultimately show ?thesis using e' by blast
  qed
  ultimately show ?thesis by blast
qed

lemma subscription_ends_for_good_witness:
  "\<exists>e'. sub_entry ''s'' (stream_run sample_streams (sample_stream_ops @ [Poll ''s'' False (Answered (sample_alarm 3))])) = Some e' \<and>
    su_state e' \<noteq> Active"
proof -
  have "0 \<le> sv_max_subs sample_streams" by (simp add: sample_streams_def)
  note L = subscription_ends_for_good [OF sample_streams_env this, of sample_stream_ops "[Poll ''s'' False (Answered (sample_alarm 3))]"]
  have "map_option su_state (sub_entry ''s'' (stream_run sample_streams sample_stream_ops)) = Some Ended" by code_simp
  then obtain e where "sub_entry ''s'' (stream_run sample_streams sample_stream_ops) = Some e" "su_state e \<noteq> Active" by auto
  with L show ?thesis by blast
qed

end
