(* ===== verification/Polling.thy ===== *)
theory Polling
  imports Streams
begin

text \<open>
  The poll engine, \<open>StreamPollEngine\<close> of \<open>control/stream_polling.py\<close>, the poll slice of \<open>RunStreamHost\<close> in
  \<open>control/stream_host.py\<close>, and the waits of \<open>_MonitoringClock\<close> with streams (\<open>control/coordinator.py\<close>). What an engine is built
  with is the record \<open>poll_env\<close> over any state; a monitor tick and a consumer of events may raise. Arming and the teardown of
  the host are left out.
\<close>

section \<open>The engine\<close>

record 's poll_env =
  pe_poll :: "string \<Rightarrow> int \<Rightarrow> 's \<Rightarrow> poll_outcome \<times> 's"
  pe_live :: "'s \<Rightarrow> string list"
  pe_now :: "'s \<Rightarrow> 's \<times> int"
  pe_wait :: "int \<Rightarrow> 's \<Rightarrow> 's \<times> exn option"
  pe_tick :: "'s \<Rightarrow> (exn + unit) \<times> 's"
  pe_stop :: "'s \<Rightarrow> bool"
  pe_slice :: int
  pe_event :: "string \<Rightarrow> obj \<Rightarrow> string \<Rightarrow> 's \<Rightarrow> (exn + unit) \<times> 's"

text \<open>An engine remembers that its bridge session is dead.\<close>

type_synonym 's polling = "bool \<times> 's"

definition engine_slice :: "'s poll_env \<Rightarrow> int" where
  "engine_slice E = max 1 (pe_slice E)"

definition hand_on :: "'s poll_env \<Rightarrow> string \<Rightarrow> poll_outcome \<Rightarrow> 's \<Rightarrow> (exn + unit) \<times> 's" where
  "hand_on E i out s = (case po_event out of
      None \<Rightarrow> (Inr (), s)
    | Some ev \<Rightarrow> pe_event E i ev (case po_receipt out of None \<Rightarrow> [] | Some r \<Rightarrow> r) s)"

text \<open>The loop of a round; \<open>True\<close> with the refused ones when it left the round early.\<close>

fun poll_each :: "'s poll_env \<Rightarrow> int \<Rightarrow> string list \<Rightarrow> string list \<Rightarrow> 's polling \<Rightarrow> (exn + bool \<times> string list) \<times> 's polling" where
  "poll_each E deadline turned [] x = (Inr (False, turned), x)"
| "poll_each E deadline turned (i # is) (dead, s) = (case pe_tick E s of
      (Inl e, s) \<Rightarrow> (Inl e, dead, s)
    | (Inr _, s) \<Rightarrow>
        if pe_stop E s \<or> dead then (Inr (True, turned), dead, s)
        else (case pe_now E s of (s, now) \<Rightarrow>
          if deadline \<le> now then (Inr (True, turned), dead, s)
          else (case pe_poll E i (min (now + engine_slice E) deadline) s of (out, s) \<Rightarrow>
            if po_failed out then (Inr (True, turned), True, s)
            else (case hand_on E i out s of
                (Inl e, s) \<Rightarrow> (Inl e, dead, s)
              | (Inr _, s) \<Rightarrow> poll_each E deadline (if po_refusal out = None then turned else turned @ [i]) is (dead, s)))))"

definition poll_round :: "'s poll_env \<Rightarrow> int \<Rightarrow> 's polling \<Rightarrow> (exn + string list) \<times> 's polling" where
  "poll_round E deadline x = (case poll_each E deadline [] (pe_live E (snd x)) x of
      (Inl e, x) \<Rightarrow> (Inl e, x)
    | (Inr (True, turned), x) \<Rightarrow> (Inr turned, x)
    | (Inr (False, turned), (dead, s)) \<Rightarrow> (case pe_tick E s of
          (Inl e, s) \<Rightarrow> (Inl e, dead, s) | (Inr _, s) \<Rightarrow> (Inr turned, dead, s)))"

partial_function (option) poll_until :: "'s poll_env \<Rightarrow> int \<Rightarrow> string list \<Rightarrow> bool \<Rightarrow> 's \<Rightarrow> ((exn + string list) \<times> 's polling) option" where
  "poll_until E deadline turned dead s = (case pe_tick E s of
      (Inl e, s) \<Rightarrow> Some (Inl e, dead, s)
    | (Inr _, s) \<Rightarrow>
        if pe_stop E s \<or> dead then Some (Inr turned, dead, s)
        else (case pe_now E s of (s, now) \<Rightarrow>
          if deadline \<le> now \<or> pe_live E s = [] then Some (Inr turned, dead, s)
          else (case poll_round E deadline (dead, s) of
              (Inl e, y) \<Rightarrow> Some (Inl e, y)
            | (Inr again, (dead, s)) \<Rightarrow>
                if pe_stop E s then Some (Inr (turned @ again), dead, s)
                else (case pe_now E s of (s, now) \<Rightarrow>
                  if deadline - now \<le> 0 then Some (Inr (turned @ again), dead, s)
                  else (case pe_wait E (min (engine_slice E) (deadline - now)) s of
                      (s, Some e) \<Rightarrow> Some (Inl e, dead, s)
                    | (s, None) \<Rightarrow> poll_until E deadline (turned @ again) dead s)))))"

section \<open>The host of a run\<close>

record 's stream_host =
  sh_dead :: "string \<Rightarrow> bool"
  sh_failures :: nat
  sh_site :: 's

text \<open>The consumer of events, contained: a raise is counted and goes no further.\<close>

definition contained_on_event :: "(string \<Rightarrow> obj \<Rightarrow> string \<Rightarrow> 's \<Rightarrow> (exn + unit) \<times> 's) \<Rightarrow> string \<Rightarrow> obj \<Rightarrow> string \<Rightarrow> nat \<times> 's \<Rightarrow>
    (exn + unit) \<times> nat \<times> 's" where
  "contained_on_event f i ev receipt = (\<lambda>(n, s). case f i ev receipt s of (Inl e, s) \<Rightarrow> (Inr (), Suc n, s) | (Inr _, s) \<Rightarrow> (Inr (), n, s))"

definition host_env :: "'s poll_env \<Rightarrow> (nat \<times> 's) poll_env" where
  "host_env E = \<lparr>pe_poll = (\<lambda>i d (n, s). case pe_poll E i d s of (out, s) \<Rightarrow> (out, n, s)),
     pe_live = (\<lambda>(n, s). pe_live E s), pe_now = (\<lambda>(n, s). case pe_now E s of (s, t) \<Rightarrow> ((n, s), t)),
     pe_wait = (\<lambda>d (n, s). case pe_wait E d s of (s, e) \<Rightarrow> ((n, s), e)),
     pe_tick = (\<lambda>(n, s). case pe_tick E s of (r, s) \<Rightarrow> (r, n, s)), pe_stop = (\<lambda>(n, s). pe_stop E s), pe_slice = pe_slice E,
     pe_event = contained_on_event (pe_event E)\<rparr>"

fun poll_slice :: "(string \<times> 's poll_env) list \<Rightarrow> int \<Rightarrow> 's stream_host \<Rightarrow> (exn + unit) \<times> 's stream_host" where
  "poll_slice [] deadline h = (Inr (), h)"
| "poll_slice ((d, E) # devices) deadline h =
     (if sh_dead h d then poll_slice devices deadline h
      else case pe_now E (sh_site h) of (s, now) \<Rightarrow>
        if deadline \<le> now then poll_slice devices deadline (h\<lparr>sh_site := s\<rparr>)
        else (case poll_round (host_env E) deadline (False, sh_failures h, s) of (r, (dead, n, s)) \<Rightarrow>
          let h = h\<lparr>sh_dead := (sh_dead h)(d := dead), sh_failures := n, sh_site := s\<rparr> in
          case r of Inl e \<Rightarrow> (Inl e, h) | Inr _ \<Rightarrow> poll_slice devices deadline h))"

section \<open>Waits with streams\<close>

definition on_site :: "('s \<Rightarrow> 'a \<times> 's) \<Rightarrow> 's stream_host \<Rightarrow> 'a \<times> 's stream_host" where
  "on_site f h = (case f (sh_site h) of (a, s) \<Rightarrow> (a, h\<lparr>sh_site := s\<rparr>))"

definition swap :: "'s \<times> 'a \<Rightarrow> 'a \<times> 's" where
  "swap p = (snd p, fst p)"

definition wait_slice :: "'s poll_env \<Rightarrow> (string \<times> 's poll_env) list \<Rightarrow> int \<Rightarrow> 's stream_host \<Rightarrow> exn option \<times> 's stream_host" where
  "wait_slice E devices slice h = (case on_site (swap \<circ> pe_now E) h of (start, h) \<Rightarrow>
     case poll_slice devices (start + slice) h of
       (Inl e, h) \<Rightarrow> (Some e, h)
     | (Inr _, h) \<Rightarrow> (case on_site (swap \<circ> pe_now E) h of (now, h) \<Rightarrow>
         if now - start < slice then on_site (swap \<circ> pe_wait E (slice - (now - start))) h else (None, h)))"

text \<open>\<open>E\<close> has the plain clock and the monitor of the run; its stop is that a cause is latched.\<close>

function streamed_wait :: "'s poll_env \<Rightarrow> (string \<times> 's poll_env) list \<Rightarrow> int \<Rightarrow> 's stream_host \<Rightarrow> exn option \<times> 's stream_host" where
  "streamed_wait E devices remaining h = (case on_site (pe_tick E) h of
      (Inl e, h) \<Rightarrow> (Some e, h)
    | (Inr _, h) \<Rightarrow>
        if remaining \<le> 0 \<or> pe_stop E (sh_site h) then (None, h)
        else let slice = min (engine_slice E) remaining in
          (case wait_slice E devices slice h of
             (Some e, h) \<Rightarrow> (Some e, h)
           | (None, h) \<Rightarrow> streamed_wait E devices (remaining - slice) h))"
  by pat_completeness auto
termination
  by (relation "measure (\<lambda>(E, ds, r, h). nat r)") (auto simp: engine_slice_def min_def max_def)

declare streamed_wait.simps [simp del]

section \<open>What a log of calls shows\<close>

text \<open>An engine whose calls are written down.\<close>

datatype engine_call = Ticked | Read int | Polled string int | Waited int

definition logged :: "'s poll_env \<Rightarrow> ('s \<times> engine_call list) poll_env" where
  "logged E = \<lparr>pe_poll = (\<lambda>i d (s, l). case pe_poll E i d s of (out, s) \<Rightarrow> (out, s, l @ [Polled i d])),
     pe_live = (\<lambda>(s, l). pe_live E s), pe_now = (\<lambda>(s, l). case pe_now E s of (s, t) \<Rightarrow> ((s, l @ [Read t]), t)),
     pe_wait = (\<lambda>d (s, l). case pe_wait E d s of (s, e) \<Rightarrow> ((s, l @ [Waited d]), e)),
     pe_tick = (\<lambda>(s, l). case pe_tick E s of (r, s) \<Rightarrow> (r, s, l @ [Ticked])), pe_stop = (\<lambda>(s, l). pe_stop E s), pe_slice = pe_slice E,
     pe_event = (\<lambda>i ev r (s, l). case pe_event E i ev r s of (x, s) \<Rightarrow> (x, s, l))\<rparr>"

text \<open>Each poll comes right after a tick and a reading of the clock before the deadline, and is cut after one slice.\<close>

definition polls_paced :: "int \<Rightarrow> int \<Rightarrow> engine_call list \<Rightarrow> bool" where
  "polls_paced slice deadline l \<longleftrightarrow> (\<forall>xs i d ys. l = xs @ Polled i d # ys \<longrightarrow>
     (\<exists>zs t. xs = zs @ [Ticked, Read t] \<and> t < deadline \<and> d = min (t + slice) deadline))"

lemma polls_paced_append:
  assumes "polls_paced slice deadline a" "polls_paced slice deadline b"
  shows "polls_paced slice deadline (a @ b)"
  unfolding polls_paced_def
proof (intro allI impI)
  fix xs i d ys assume eq: "a @ b = xs @ Polled i d # ys"
  then consider us where "a = xs @ Polled i d # us" | us where "xs = a @ us" "b = us @ Polled i d # ys"
    by (fastforce simp: append_eq_append_conv2 Cons_eq_append_conv append_eq_Cons_conv)
  then show "\<exists>zs t. xs = zs @ [Ticked, Read t] \<and> t < deadline \<and> d = min (t + slice) deadline"
  proof cases
    case 1
    then show ?thesis using assms(1) by (auto simp: polls_paced_def)
  next
    case 2
    then obtain zs t where "us = zs @ [Ticked, Read t]" "t < deadline" "d = min (t + slice) deadline"
      using assms(2) [unfolded polls_paced_def, rule_format, OF 2(2)] by blast
    with 2 show ?thesis by (intro exI [of _ "a @ zs"]) auto
  qed
qed

lemma polls_paced_calm: "(\<And>i d. Polled i d \<notin> set l) \<Longrightarrow> polls_paced slice deadline l"
  by (force simp: polls_paced_def)

lemma polls_paced_poll: "t < deadline \<Longrightarrow> polls_paced slice deadline [Ticked, Read t, Polled i (min (t + slice) deadline)]"
  by (auto simp: polls_paced_def Cons_eq_append_conv append_eq_Cons_conv)

lemma logged_simps [simp]:
  "pe_tick (logged E) (s, l) = (case pe_tick E s of (r, s) \<Rightarrow> (r, s, l @ [Ticked]))"
  "pe_now (logged E) (s, l) = (case pe_now E s of (s, t) \<Rightarrow> ((s, l @ [Read t]), t))"
  "pe_poll (logged E) i d (s, l) = (case pe_poll E i d s of (out, s) \<Rightarrow> (out, s, l @ [Polled i d]))"
  "pe_wait (logged E) n (s, l) = (case pe_wait E n s of (s, e) \<Rightarrow> ((s, l @ [Waited n]), e))"
  "pe_event (logged E) i ev r (s, l) = (case pe_event E i ev r s of (x, s) \<Rightarrow> (x, s, l))"
  "pe_stop (logged E) (s, l) = pe_stop E s" "pe_live (logged E) (s, l) = pe_live E s" "engine_slice (logged E) = engine_slice E"
  by (simp_all add: logged_def engine_slice_def)

text \<open>Every call adds calls to the log, and polls are paced.\<close>

definition adds_paced :: "'s poll_env \<Rightarrow> int \<Rightarrow> engine_call list \<Rightarrow> engine_call list \<Rightarrow> bool" where
  "adds_paced E deadline l l' \<longleftrightarrow> (\<exists>new. l' = l @ new \<and> polls_paced (engine_slice E) deadline new)"

lemma adds_paced_refl [simp]: "adds_paced E deadline l l"
  by (simp add: adds_paced_def polls_paced_def)

lemma adds_paced_trans: "adds_paced E deadline l l' \<Longrightarrow> adds_paced E deadline l' l'' \<Longrightarrow> adds_paced E deadline l l''"
  unfolding adds_paced_def using polls_paced_append by (metis append.assoc)

lemma adds_paced_calm: "(\<And>i d. Polled i d \<notin> set new) \<Longrightarrow> adds_paced E deadline l (l @ new)"
  using polls_paced_calm by (auto simp: adds_paced_def)

lemma hand_on_logged: "snd (snd (hand_on (logged E) i out (s, l))) = l"
  by (auto simp: hand_on_def split: option.split prod.split)

lemma poll_each_paced:
  "adds_paced E deadline l (snd (snd (snd (poll_each (logged E) deadline turned is (dead, s, l)))))"
proof (induction "is" arbitrary: turned dead s l)
  case (Cons i "is")
  obtain r s1 where t: "pe_tick E s = (r, s1)" by fastforce
  obtain s2 now where n: "pe_now E s1 = (s2, now)" by fastforce
  let ?d = "min (now + engine_slice E) deadline"
  obtain out s3 where p: "pe_poll E i ?d s2 = (out, s3)" by fastforce
  obtain x s4 where h: "hand_on (logged E) i out (s3, l @ [Ticked, Read now, Polled i ?d]) = (x, s4, l @ [Ticked, Read now, Polled i ?d])"
    using hand_on_logged [of E i out s3 "l @ [Ticked, Read now, Polled i ?d]"] by (metis prod.collapse)
  have one: "adds_paced E deadline l (l @ [Ticked])" "adds_paced E deadline l (l @ [Ticked, Read now])" by (rule adds_paced_calm; simp)+
  have poll: "adds_paced E deadline l (l @ [Ticked, Read now, Polled i ?d])" if "now < deadline"
    using polls_paced_poll [OF that] by (auto simp: adds_paced_def)
  note rest = adds_paced_trans [OF poll Cons.IH]
  show ?case using one poll rest
    by (cases r; cases x) (auto simp: t n p h not_le)
qed simp

lemma poll_round_paced: "adds_paced E deadline l (snd (snd (snd (poll_round (logged E) deadline (dead, s, l)))))"
proof -
  obtain r d1 s1 l1 where e: "poll_each (logged E) deadline [] (pe_live E s) (dead, s, l) = (r, d1, s1, l1)" by (metis prod.exhaust)
  have l1: "adds_paced E deadline l l1" using poll_each_paced [of E deadline l "[]" "pe_live E s" dead s] by (simp add: e)
  obtain x s2 where t: "pe_tick E s1 = (x, s2)" by fastforce
  have "adds_paced E deadline l (l1 @ [Ticked])" by (rule adds_paced_trans [OF l1 adds_paced_calm]) simp
  with l1 show ?thesis by (auto simp: poll_round_def e t split: sum.split bool.split)
qed

text \<open>Nothing but a tick, a reading of the clock and a wait is between two rounds.\<close>

lemma poll_until_log:
  assumes "poll_until V deadline turned dead x = Some y"
  shows "V = logged E \<longrightarrow> adds_paced E deadline (snd x) (snd (snd (snd y)))"
proof (rule poll_until.raw_induct [where P = "\<lambda>V deadline turned dead x y.
    V = logged E \<longrightarrow> adds_paced E deadline (snd x) (snd (snd (snd y)))", OF _ assms], intro impI, goal_cases)
  case (1 f V deadline turned dead x y)
  note IH = 1(1) and body = 1(2) [unfolded 1(3)]
  obtain s l where x: "x = (s, l)" by (cases x)
  obtain r s1 where t: "pe_tick E s = (r, s1)" by fastforce
  obtain s2 now where n: "pe_now E s1 = (s2, now)" by fastforce
  have calm: "adds_paced E deadline l (l @ [Ticked])" "adds_paced E deadline l (l @ [Ticked, Read now])"
    by (rule adds_paced_calm; simp)+
  obtain again dead3 s3 l3 where p: "poll_round (logged E) deadline (False, s2, l @ [Ticked, Read now]) = (again, dead3, s3, l3)"
    by (metis prod.exhaust)
  have l3: "adds_paced E deadline l l3"
    using adds_paced_trans [OF calm(2) poll_round_paced [of E deadline "l @ [Ticked, Read now]" False s2]] by (simp add: p)
  obtain s4 now' where n': "pe_now E s3 = (s4, now')" by fastforce
  let ?d = "min (engine_slice E) (deadline - now')"
  obtain s5 e where w: "pe_wait E ?d s4 = (s5, e)" by fastforce
  have on: "adds_paced E deadline l (l3 @ [Read now'])" "adds_paced E deadline l (l3 @ [Read now', Waited ?d])"
    by (rule adds_paced_trans [OF l3 adds_paced_calm]; simp)+
  consider "snd (snd (snd y)) \<in> {l @ [Ticked], l @ [Ticked, Read now], l3, l3 @ [Read now'], l3 @ [Read now', Waited ?d]}"
    | turned' dead' where "f (logged E) deadline turned' dead' (s5, l3 @ [Read now', Waited ?d]) = Some y"
    using body by (cases r; cases again; cases e) (auto simp: x t n p n' w split: if_splits)
  then show ?case
  proof cases
    case 1
    with calm on l3 show ?thesis by (auto simp: x)
  next
    case 2
    from IH [OF 2] adds_paced_trans [OF on(2)] show ?thesis by (simp add: x)
  qed
qed

text \<open>
  Claim C32. Whatever the devices, the consumer and the monitor do, each poll of a polling comes right after a tick of the
  monitor and a reading of the clock before the deadline of the polling; and the deadline it is given is one slice after that
  reading, cut at the deadline of the polling. So no poll starts without a look at the monitor, and none outlives a slice.
\<close>

theorem polls_are_paced:
  assumes "poll_until (logged E) deadline [] False (s, []) = Some (r, dead, s', calls)"
  shows "polls_paced (engine_slice E) deadline calls"
  using poll_until_log [OF assms, of E] by (simp add: adds_paced_def)

text \<open>A bench of one stream whose state is the time, and that stops at its deadline.\<close>

definition quiet_outcome :: poll_outcome where
  "quiet_outcome = \<lparr>po_event = Some [], po_receipt = None, po_refusal = None, po_failed = False\<rparr>"

definition ticking :: "int poll_env" where
  "ticking = \<lparr>pe_poll = (\<lambda>i d s. (quiet_outcome, s + 3)), pe_live = (\<lambda>s. [''s1'']), pe_now = (\<lambda>s. (s, s)),
     pe_wait = (\<lambda>d s. (s + d, None)), pe_tick = (\<lambda>s. (Inr (), s)), pe_stop = (\<lambda>s. False), pe_slice = 10,
     pe_event = (\<lambda>i ev r s. (Inl (ValueError ''consumer''), s))\<rparr>"

section \<open>A polling ends\<close>

text \<open>A clock over the state: nothing turns it back, and a wait that returns has moved it on by what it was asked to wait.\<close>

definition clock_moves :: "'s poll_env \<Rightarrow> ('s \<Rightarrow> int) \<Rightarrow> bool" where
  "clock_moves E tm \<longleftrightarrow> (\<forall>s. tm s \<le> snd (pe_now E s) \<and> tm s \<le> tm (fst (pe_now E s)) \<and> tm s \<le> tm (snd (pe_tick E s))) \<and>
     (\<forall>i d s. tm s \<le> tm (snd (pe_poll E i d s))) \<and> (\<forall>i ev r s. tm s \<le> tm (snd (pe_event E i ev r s))) \<and>
     (\<forall>d s. snd (pe_wait E d s) = None \<longrightarrow> tm s + d \<le> tm (fst (pe_wait E d s)))"

lemma poll_each_moves: "clock_moves E tm \<Longrightarrow> tm s \<le> tm (snd (snd (poll_each E deadline turned is (dead, s))))"
proof (induction "is" arbitrary: turned dead s)
  case (Cons i "is")
  note m = Cons.prems [unfolded clock_moves_def]
  obtain r s1 where t: "pe_tick E s = (r, s1)" by fastforce
  obtain s2 now where n: "pe_now E s1 = (s2, now)" by fastforce
  let ?d = "min (now + engine_slice E) deadline"
  obtain out s3 where p: "pe_poll E i ?d s2 = (out, s3)" by fastforce
  obtain x s4 where h: "hand_on E i out s3 = (x, s4)" by fastforce
  have "tm s \<le> tm s1" "tm s1 \<le> tm s2" "tm s2 \<le> tm s3" using m t n p by (metis fst_conv snd_conv)+
  moreover have "tm s3 \<le> tm s4" using m h by (auto simp: hand_on_def split: option.splits) (metis snd_conv)+
  ultimately have "tm s \<le> tm s1" "tm s \<le> tm s2" "tm s \<le> tm s3" "tm s \<le> tm s4" by linarith+
  moreover from this(4) have "tm s \<le> tm (snd (snd (poll_each E deadline tu is (False, s4))))" for tu
    by (rule order_trans [OF _ Cons.IH [OF Cons.prems]])
  ultimately show ?case by (cases r; cases x) (auto simp: t n p h )
qed simp

lemma poll_round_moves:
  assumes "clock_moves E tm"
  shows "tm s \<le> tm (snd (snd (poll_round E deadline (dead, s))))"
proof -
  obtain r d1 s1 where e: "poll_each E deadline [] (pe_live E s) (dead, s) = (r, d1, s1)" by (metis prod.exhaust)
  have "tm s \<le> tm s1" using poll_each_moves [OF assms, of s deadline "[]" "pe_live E s" dead] by (simp add: e)
  moreover obtain x s2 where t: "pe_tick E s1 = (x, s2)" by fastforce
  moreover have "tm s1 \<le> tm s2" using assms t by (metis clock_moves_def snd_conv)
  ultimately show ?thesis by (auto simp: poll_round_def e split: sum.split bool.split)
qed

text \<open>
  Claim C33. On a clock that nothing turns back and whose waits last, a polling returns, whatever the devices, the consumer
  and the monitor answer: each round but the last is followed by a wait of at least a nanosecond.
\<close>

theorem polling_ends:
  assumes "clock_moves E tm"
  shows "\<exists>y. poll_until E deadline turned dead s = Some y"
proof (induction "nat (deadline - tm s)" arbitrary: turned dead s rule: less_induct)
  case less
  note m = assms [unfolded clock_moves_def]
  obtain r s1 where t: "pe_tick E s = (r, s1)" by fastforce
  obtain s2 now where n: "pe_now E s1 = (s2, now)" by fastforce
  obtain again dead3 s3 where p: "poll_round E deadline (False, s2) = (again, dead3, s3)" by (metis prod.exhaust)
  obtain s4 now' where n': "pe_now E s3 = (s4, now')" by fastforce
  let ?d = "min (engine_slice E) (deadline - now')"
  obtain s5 e where w: "pe_wait E ?d s4 = (s5, e)" by fastforce
  have le: "tm s \<le> tm s1" "tm s1 \<le> tm s2" "tm s3 \<le> tm s4" "tm s3 \<le> now'" using m t n n' by (metis fst_conv snd_conv)+
  have "tm s2 \<le> tm s3" using poll_round_moves [OF assms, of s2 deadline False] p by simp
  moreover have "e = None \<Longrightarrow> tm s4 + ?d \<le> tm s5" using m w by (metis fst_conv snd_conv)
  moreover have "\<not> deadline - now' \<le> 0 \<Longrightarrow> 1 \<le> ?d" by (simp add: engine_slice_def)
  ultimately have "\<exists>y. poll_until E deadline tu de s5 = Some y" if "e = None" "\<not> deadline - now' \<le> 0" for tu de
    using that le by (intro less) auto
  then show ?case
    by (subst poll_until.simps, cases r; cases again; cases e) (auto simp: t n p n' w)
qed

definition raising_tick :: "int poll_env" where
  "raising_tick = ticking\<lparr>pe_tick := (\<lambda>s. (Inl (ValueError ''monitor''), s))\<rparr>"

definition host_at :: "int \<Rightarrow> int stream_host" where
  "host_at t = \<lparr>sh_dead = (\<lambda>_. False), sh_failures = 0, sh_site = t\<rparr>"

section \<open>A consumer that fails\<close>

lemma hand_on_contained: "fst (hand_on (host_env E) i out x) = Inr ()"
  by (cases x) (auto simp: hand_on_def host_env_def contained_on_event_def split: option.split sum.split prod.split)

lemma host_env_tick: "fst (pe_tick (host_env E) x) = fst (pe_tick E (snd x))"
  by (auto simp: host_env_def split: prod.split)

lemma poll_each_raise:
  "fst (poll_each (host_env E) deadline turned is x) = Inl e \<Longrightarrow> \<exists>s. fst (pe_tick E s) = Inl e"
proof (induction "is" arbitrary: turned x)
  case (Cons i "is")
  obtain dead y where x: "x = (dead, y)" by (cases x)
  obtain r s1 where t: "pe_tick (host_env E) y = (r, s1)" by (cases "pe_tick (host_env E) y")
  obtain s2 now where n: "pe_now (host_env E) s1 = (s2, now)" by (metis prod.exhaust)
  let ?d = "min (now + engine_slice (host_env E)) deadline"
  obtain out s3 where p: "pe_poll (host_env E) i ?d s2 = (out, s3)" by (metis prod.exhaust)
  obtain s4 where h: "hand_on (host_env E) i out s3 = (Inr (), s4)"
    using hand_on_contained by (metis prod.collapse)
  show ?case
  proof (cases r)
    case (Inl e')
    with Cons.prems host_env_tick [of E y] show ?thesis by (auto simp: x t)
  next
    case (Inr u)
    with Cons.prems Cons.IH show ?thesis by (auto simp: x t n p h split: if_splits)
  qed
qed simp

lemma poll_round_raise:
  assumes "fst (poll_round (host_env E) deadline x) = Inl e"
  shows "\<exists>s. fst (pe_tick E s) = Inl e"
proof -
  obtain r d1 s1 where p: "poll_each (host_env E) deadline [] (pe_live (host_env E) (snd x)) x = (r, d1, s1)" by (metis prod.exhaust)
  show ?thesis
  proof (cases r)
    case (Inl e')
    with assms p poll_each_raise [of E deadline "[]" "pe_live (host_env E) (snd x)" x e] show ?thesis by (auto simp: poll_round_def)
  next
    case (Inr y)
    with assms p host_env_tick [of E s1] show ?thesis by (auto simp: poll_round_def split: bool.splits prod.splits sum.splits)
  qed
qed

text \<open>
  Nothing but the monitor ends a poll slice of a run with an error: whatever the devices answer and however the
  consumer of the events fails, an error that leaves the slice is one the tick of some device's polling raised.
\<close>

theorem only_the_monitor_ends_a_slice:
  assumes "fst (poll_slice devices deadline h) = Inl e"
  shows "\<exists>d E s. (d, E) \<in> set devices \<and> fst (pe_tick E s) = Inl e"
  using assms
proof (induction devices deadline h rule: poll_slice.induct)
  case (2 d E devices deadline h)
  obtain s now where n: "pe_now E (sh_site h) = (s, now)" by fastforce
  obtain r dead m s' where p: "poll_round (host_env E) deadline (False, sh_failures h, s) = (r, dead, m, s')" by (metis prod.exhaust)
  show ?case
  proof (cases "sh_dead h d \<or> deadline \<le> now")
    case True
    with 2 n show ?thesis by (fastforce split: if_splits)
  next
    case False
    show ?thesis
    proof (cases r)
      case (Inl e')
      with False 2(4) n p poll_round_raise [of E deadline "(False, sh_failures h, s)" e] show ?thesis by (auto simp: Let_def)
    next
      case (Inr y)
      let ?h = "h\<lparr>sh_dead := (sh_dead h)(d := dead), sh_failures := m, sh_site := s'\<rparr>"
      have "fst (poll_slice devices deadline ?h) = Inl e" using False 2(4) n p Inr by (simp add: Let_def)
      moreover have "\<exists>d E s. (d, E) \<in> set devices \<and> fst (pe_tick E s) = Inl e" if "fst (poll_slice devices deadline ?h) = Inl e"
        using False that by (intro 2(3) [OF _ n [symmetric] _ p [symmetric] refl refl refl]) (simp_all add: Inr)
      ultimately show ?thesis by (metis list.set_intros(2))
    qed
  qed
qed simp

section \<open>Pollings on a bench\<close>

lemmas ticking_simps = ticking_def quiet_outcome_def hand_on_def engine_slice_def poll_round_def logged_def

text \<open>Two rounds, though the consumer would raise: it gets no event here.\<close>

definition quiet_bench :: "int poll_env" where
  "quiet_bench = ticking\<lparr>pe_poll := (\<lambda>i d s. (quiet, s + 3))\<rparr>"

theorem polls_are_paced_witness:
  "\<exists>r dead s' calls. poll_until (logged quiet_bench) 15 [] False (0, []) = Some (r, dead, s', calls) \<and>
     calls = [Ticked, Read 0, Ticked, Read 0, Polled ''s1'' 10, Ticked, Read 3, Waited 10,
       Ticked, Read 13, Ticked, Read 13, Polled ''s1'' 15, Ticked, Read 16] \<and> polls_paced 10 15 calls"
proof -
  have run: "poll_until (logged quiet_bench) 15 [] False (0, []) = Some (Inr [], False, 16, [Ticked, Read 0, Ticked, Read 0,
      Polled ''s1'' 10, Ticked, Read 3, Waited 10, Ticked, Read 13, Ticked, Read 13, Polled ''s1'' 15, Ticked, Read 16])"
    by (subst poll_until.simps, simp add: ticking_simps quiet_bench_def quiet_def, subst poll_until.simps)
      (simp add: ticking_simps quiet_bench_def quiet_def)
  have "engine_slice quiet_bench = 10" by (simp add: ticking_simps quiet_bench_def)
  with polls_are_paced [OF run] have "polls_paced 10 15 [Ticked, Read 0, Ticked, Read 0, Polled ''s1'' 10,
      Ticked, Read 3, Waited 10, Ticked, Read 13, Ticked, Read 13, Polled ''s1'' 15, Ticked, Read 16]"
    by simp
  with run show ?thesis by blast
qed

theorem polling_ends_witness:
  "clock_moves ticking (\<lambda>s. s) \<and> (\<exists>y. poll_until ticking 1000000000 [] False 0 = Some y)"
proof -
  have c: "clock_moves ticking (\<lambda>s. s)" by (simp add: clock_moves_def ticking_def)
  with polling_ends [OF c] show ?thesis by blast
qed

text \<open>The consumer of the bench raises and is not heard; the raise of the monitor is.\<close>

theorem only_the_monitor_ends_a_slice_witness:
  "poll_slice [(''d'', ticking)] 15 (host_at 0) = (Inr (), (host_at 3)\<lparr>sh_failures := 1\<rparr>) \<and>
   (\<exists>e. fst (poll_slice [(''d'', raising_tick)] 15 (host_at 0)) = Inl e \<and>
     (\<exists>d E s. (d, E) \<in> set [(''d'', raising_tick)] \<and> fst (pe_tick E s) = Inl e))"
proof -
  have "poll_slice [(''d'', ticking)] 15 (host_at 0) = (Inr (), (host_at 3)\<lparr>sh_failures := 1\<rparr>)"
    by (simp add: ticking_simps host_at_def host_env_def contained_on_event_def Let_def fun_upd_def)
  moreover have e: "fst (poll_slice [(''d'', raising_tick)] 15 (host_at 0)) = Inl (ValueError ''monitor'')"
    by (simp add: ticking_simps raising_tick_def host_at_def host_env_def contained_on_event_def Let_def)
  moreover note only_the_monitor_ends_a_slice [OF e]
  ultimately show ?thesis by blast
qed

end
