(* ===== verification/Versions.thy ===== *)
theory Versions
  imports Corpus
begin

text \<open>
  Versions of the vendored standards: the dependency policy and the dev heads of the standards manifest
  (\<open>standards/manifest.py\<close>), and the classification of a pin, once for admission (\<open>control/documents.py\<close>) and once
  for the resolver (\<open>standards/dependency.py\<close>). A fault is a \<open>StandardsError\<close> with its machine-matchable prefix and its
  subject, or another exception; the texts of notes are values. Digits are ASCII.
\<close>

section \<open>Version numbers\<close>

type_synonym ver = "int \<times> int \<times> int"

datatype fault = StandardsError string string | Escape exn

definition version_tuple :: "string \<Rightarrow> exn + ver" where
  "version_tuple s = (case split_on (CHR ''.'') s of
      [a, b, c] \<Rightarrow> bind_res (py_int a) (\<lambda>x. bind_res (py_int b) (\<lambda>y. bind_res (py_int c) (\<lambda>z. Inr (x, y, z))))
    | _ \<Rightarrow> Inl (ValueError ''unpack''))"

text \<open>The number of a text that has one; \<open>VERSION_PATTERN\<close> texts do.\<close>

definition vt :: "string \<Rightarrow> ver" where
  "vt s = (case version_tuple s of Inl _ \<Rightarrow> (0, 0, 0) | Inr v \<Rightarrow> v)"

fun ver_less :: "ver \<Rightarrow> ver \<Rightarrow> bool" where
  "ver_less (a, b, c) (a', b', c') \<longleftrightarrow> a < a' \<or> a = a' \<and> (b < b' \<or> b = b' \<and> c < c')"

definition ver_le :: "ver \<Rightarrow> ver \<Rightarrow> bool" where
  "ver_le v w \<longleftrightarrow> v = w \<or> ver_less v w"

text \<open>A numeral without leading zeros, \<open>0|[1-9]\d*\<close>; a version of three of them; a label \<open><target>-dev\<close>.\<close>

definition canonical_num :: "string \<Rightarrow> bool" where
  "canonical_num p \<longleftrightarrow> p \<noteq> [] \<and> digits_val 0 p \<noteq> None \<and> (p = ''0'' \<or> hd p \<noteq> CHR ''0'')"

definition is_canonical :: "string \<Rightarrow> bool" where
  "is_canonical s \<longleftrightarrow> (case split_on (CHR ''.'') s of [a, b, c] \<Rightarrow> list_all canonical_num [a, b, c] | _ \<Rightarrow> False)"

definition ends_with :: "string \<Rightarrow> string \<Rightarrow> bool" where
  "ends_with s e \<longleftrightarrow> length e \<le> length s \<and> drop (length s - length e) s = e"

definition without_end :: "string \<Rightarrow> string \<Rightarrow> string" where
  "without_end s e = (if ends_with s e then take (length s - length e) s else s)"

definition is_dev_label :: "string \<Rightarrow> bool" where
  "is_dev_label s \<longleftrightarrow> ends_with s ''-dev'' \<and> is_canonical (without_end s ''-dev'')"

section \<open>Intervals\<close>

type_synonym interval = "string \<times> string"

definition in_interval :: "interval \<Rightarrow> string \<Rightarrow> bool" where
  "in_interval i v \<longleftrightarrow> ver_le (vt (fst i)) (vt v) \<and> ver_less (vt v) (vt (snd i))"

datatype range_problem = NotText | Unexpanded | NotARange | EmptyRange | ReversedRange

text \<open>\<open>RANGE_PATTERN\<close>: \<open>>=X.Y.Z,<X.Y.Z\<close> in canonical numerals.\<close>

definition split_range :: "string \<Rightarrow> interval option" where
  "split_range s = (case split_on (CHR '','') s of
      [l, u] \<Rightarrow> if prefix ''>='' l \<and> prefix ''<'' u \<and> is_canonical (drop 2 l) \<and> is_canonical (drop 1 u)
        then Some (drop 2 l, drop 1 u) else None
    | _ \<Rightarrow> None)"

definition parse_range :: "pyval \<Rightarrow> range_problem + interval" where
  "parse_range v = (case v of
      JStr s \<Rightarrow> if CHR ''^'' \<in> set s \<or> CHR ''~'' \<in> set s then Inl Unexpanded
        else (case split_range s of
            None \<Rightarrow> Inl NotARange
          | Some (l, u) \<Rightarrow> if vt l = vt u then Inl EmptyRange else if ver_less (vt u) (vt l) then Inl ReversedRange else Inr (l, u))
    | _ \<Rightarrow> Inl NotText)"

definition parse_interval :: "pyval \<Rightarrow> fault + interval" where
  "parse_interval v = (case parse_range v of
      Inr i \<Rightarrow> Inr i
    | Inl Unexpanded \<Rightarrow> Inl (StandardsError ''constraint_syntax_unexpanded'' [])
    | Inl NotText \<Rightarrow> Inl (StandardsError ''constraint_document_invalid'' [])
    | Inl NotARange \<Rightarrow> Inl (StandardsError ''constraint_document_invalid'' [])
    | Inl _ \<Rightarrow> Inl (StandardsError ''constraint_bounds_reversed'' []))"

definition interval_text :: "interval \<Rightarrow> string" where
  "interval_text i = ''>='' @ fst i @ '',<'' @ snd i"

text \<open>\<open>_components\<close> and \<open>expand_caret\<close>, the authoring sugar.\<close>

definition num_part :: "string \<Rightarrow> nat option" where
  "num_part p = (if p = [] \<or> (1 < length p \<and> hd p = CHR ''0'') then None else digits_val 0 p)"

fun components :: "string list \<Rightarrow> nat list option" where
  "components [] = Some []"
| "components (p # ps) = (case num_part p of None \<Rightarrow> None | Some n \<Rightarrow> map_option (Cons n) (components ps))"

definition dotted :: "nat \<Rightarrow> nat \<Rightarrow> nat \<Rightarrow> string" where
  "dotted a b c = py_join ''.'' [show_nat a, show_nat b, show_nat c]"

definition expand_caret :: "string \<Rightarrow> fault + interval" where
  "expand_caret s = (let bad = Inl (StandardsError ''constraint_syntax_unexpanded'' s) in
     case s of
       [] \<Rightarrow> bad
     | c # r \<Rightarrow> if c \<noteq> CHR ''^'' then bad
         else (case components (split_on (CHR ''.'') r) of
             Some [a, b] \<Rightarrow> Inr (dotted a b 0, if a = 0 then dotted 0 (b + 1) 0 else dotted (a + 1) 0 0)
           | Some [a, b, c] \<Rightarrow> Inr (dotted a b c, if a = 0 \<and> b = 0 then dotted 0 0 (c + 1)
               else if a = 0 then dotted 0 (b + 1) 0 else dotted (a + 1) 0 0)
           | _ \<Rightarrow> bad))"

section \<open>The dependency policy\<close>

record yank_record =
  yk_version :: string
  yk_reason :: string
  yk_since :: string

record standard_policy =
  sp_range :: interval
  sp_yanked :: "yank_record list"
  sp_retired :: "string list"
  sp_note :: "string option"
  sp_versions :: "(string \<times> string) list"

type_synonym dependency_policy = "(string \<times> standard_policy) list"

fun map_res :: "('a \<Rightarrow> 'e + 'b) \<Rightarrow> 'a list \<Rightarrow> 'e + 'b list" where
  "map_res f [] = Inr []"
| "map_res f (x # xs) = bind_res (f x) (\<lambda>y. bind_res (map_res f xs) (\<lambda>ys. Inr (y # ys)))"

definition py_one :: "pyval \<Rightarrow> bool" where
  "py_one v \<longleftrightarrow> v = JInt 1 \<or> v = JBool True \<or> v = JFloat (Fin 1)"

definition policy_fault :: "string \<Rightarrow> fault" where
  "policy_fault i = StandardsError ''dependency_policy_invalid'' i"

definition read_yank :: "string \<Rightarrow> string \<times> pyval \<Rightarrow> fault + yank_record" where
  "read_yank i e = (case snd e of
      JObj r \<Rightarrow> (case (obj_get r ''reason'', obj_get r ''since'') of
          (JStr reason, JStr since) \<Rightarrow>
            if is_canonical (fst e) \<and> parse_day since \<noteq> None
            then Inr \<lparr>yk_version = fst e, yk_reason = reason, yk_since = since\<rparr> else Inl (policy_fault i)
        | _ \<Rightarrow> Inl (policy_fault i))
    | _ \<Rightarrow> Inl (policy_fault i))"

fun text_list :: "pyval list \<Rightarrow> string list option" where
  "text_list [] = Some []"
| "text_list (JStr s # vs) = map_option (Cons s) (text_list vs)"
| "text_list _ = None"

definition read_retired :: "string \<Rightarrow> pyval \<Rightarrow> fault + string list" where
  "read_retired i v = (case v of
      JList vs \<Rightarrow> (case text_list vs of
          None \<Rightarrow> Inl (policy_fault i)
        | Some ts \<Rightarrow> if list_all is_canonical ts then Inr ts else Inl (policy_fault i))
    | _ \<Rightarrow> Inl (policy_fault i))"

definition read_note_row :: "string \<Rightarrow> string \<times> pyval \<Rightarrow> fault + string \<times> string" where
  "read_note_row i e = (case snd e of
      JObj r \<Rightarrow> (case obj_get r ''migration_note'' of
          JStr n \<Rightarrow> if is_canonical (fst e) \<and> n \<noteq> [] then Inr (fst e, n) else Inl (policy_fault i)
        | _ \<Rightarrow> Inl (policy_fault i))
    | _ \<Rightarrow> Inl (policy_fault i))"

definition read_policy_row :: "string \<times> pyval \<Rightarrow> fault + string \<times> standard_policy" where
  "read_policy_row e = (case e of
      (i, JObj r) \<Rightarrow> (case parse_range (obj_get r ''range'') of
          Inl Unexpanded \<Rightarrow> Inl (StandardsError ''constraint_syntax_unexpanded'' i)
        | Inl _ \<Rightarrow> Inl (policy_fault i)
        | Inr rg \<Rightarrow> (case obj_get r ''yanked'' of
            JObj ys \<Rightarrow> bind_res (map_res (read_yank i) (sort_key fst ys)) (\<lambda>yanked.
              bind_res (read_retired i (obj_get r ''retired'')) (\<lambda>retired.
              bind_res (case obj_get r ''note'' of JNull \<Rightarrow> Inr None | JStr n \<Rightarrow> Inr (Some n) | _ \<Rightarrow> Inl (policy_fault i)) (\<lambda>note.
              bind_res (case obj_get r ''versions'' of JNull \<Rightarrow> Inr [] | JObj vs \<Rightarrow> map_res (read_note_row i) (sort_key fst vs)
                 | _ \<Rightarrow> Inl (policy_fault i)) (\<lambda>versions.
              Inr (i, \<lparr>sp_range = rg, sp_yanked = yanked, sp_retired = retired, sp_note = note, sp_versions = versions\<rparr>)))))
          | _ \<Rightarrow> Inl (policy_fault i)))
    | (i, _) \<Rightarrow> Inl (policy_fault []))"

definition read_policy :: "pyval \<Rightarrow> fault + dependency_policy" where
  "read_policy doc = (case doc of
      JObj d \<Rightarrow> (case obj_get d ''dependency_policy'' of
          JObj b \<Rightarrow> if \<not> py_one (obj_get b ''policy_version'') then Inl (policy_fault [])
            else (case obj_get b ''standards'' of
                JObj rows \<Rightarrow> if rows = [] then Inl (policy_fault []) else map_res read_policy_row (sort_key fst rows)
              | _ \<Rightarrow> Inl (policy_fault []))
        | _ \<Rightarrow> Inl (policy_fault []))
    | _ \<Rightarrow> Inl (Escape (TypeError ''no attribute get'')))"

section \<open>Retained and served versions\<close>

text \<open>\<open>_retained_from\<close>: the version directories the corpus rows name, in text order.\<close>

definition retained_of :: "string \<Rightarrow> string \<Rightarrow> string list" where
  "retained_of standard path = (let p = standard @ ''/'' in
     if prefix p path then (case split_on (CHR ''/'') (drop (length p) path) of
         v # _ # _ \<Rightarrow> if is_release v then [v] else [] | _ \<Rightarrow> []) else [])"

definition retained_from :: "string \<Rightarrow> string list \<Rightarrow> string list" where
  "retained_from standard paths = sort (remdups (concat (map (retained_of standard) paths)))"

definition served_from :: "standard_policy \<Rightarrow> string list \<Rightarrow> string list" where
  "served_from row retained = filter (\<lambda>v. in_interval (sp_range row) v \<and> v \<notin> yk_version ` set (sp_yanked row)) retained"

text \<open>\<open>max(served, key=version_tuple)\<close>: the first of the greatest.\<close>

fun max_version :: "string \<Rightarrow> string list \<Rightarrow> string" where
  "max_version best [] = best"
| "max_version best (v # vs) = max_version (if ver_less (vt best) (vt v) then v else best) vs"

record move_to =
  mv_version :: string
  mv_downgrade :: bool
  mv_guidance :: bool

definition derive_move_to :: "standard_policy \<Rightarrow> string list \<Rightarrow> string \<Rightarrow> move_to" where
  "derive_move_to row served pin = (case served of
      [] \<Rightarrow> \<lparr>mv_version = fst (sp_range row), mv_downgrade = False, mv_guidance = True\<rparr>
    | v # vs \<Rightarrow> (let m = max_version v vs in
        \<lparr>mv_version = m, mv_downgrade = (case version_tuple pin of Inl _ \<Rightarrow> False | Inr p \<Rightarrow> ver_less (vt m) p), mv_guidance = False\<rparr>))"

text \<open>The five fields every refusal of a version carries.\<close>

record vr37 =
  vr_standard :: string
  vr_pinned :: string
  vr_supported :: interval
  vr_move :: move_to
  vr_migration :: "string option"

definition vr37_of :: "string \<Rightarrow> string \<Rightarrow> standard_policy \<Rightarrow> string list \<Rightarrow> vr37" where
  "vr37_of standard pin row retained = (let move = derive_move_to row (served_from row retained) pin in
     \<lparr>vr_standard = standard, vr_pinned = pin, vr_supported = sp_range row, vr_move = move,
      vr_migration = map_of (sp_versions row) (mv_version move)\<rparr>)"

section \<open>Dev heads\<close>

text \<open>\<open>posixpath.normpath\<close>; the accumulator is the reversed path so far.\<close>

fun norm_parts :: "bool \<Rightarrow> string list \<Rightarrow> string list \<Rightarrow> string list" where
  "norm_parts absolute acc [] = rev acc"
| "norm_parts absolute acc (c # cs) =
     (if c = [] \<or> c = ''.'' then norm_parts absolute acc cs
      else if c \<noteq> ''..'' \<or> (\<not> absolute \<and> acc = []) \<or> (acc \<noteq> [] \<and> hd acc = ''..'') then norm_parts absolute (c # acc) cs
      else norm_parts absolute (tl acc) cs)"

definition normpath :: "string \<Rightarrow> string" where
  "normpath p = (let slashes = (if prefix ''//'' p \<and> \<not> prefix ''///'' p then ''//'' else if prefix ''/'' p then ''/'' else []);
       q = slashes @ py_join ''/'' (norm_parts (slashes \<noteq> []) [] (split_on (CHR ''/'') p))
     in if q = [] then ''.'' else q)"

definition lower_char :: "char \<Rightarrow> char" where
  "lower_char c = (let n = of_char c :: nat in if 65 \<le> n \<and> n \<le> 90 then char_of (n + 32) else c)"

definition row_path_ok :: "string \<Rightarrow> bool" where
  "row_path_ok p \<longleftrightarrow> p \<noteq> [] \<and> \<not> prefix ''/'' p \<and> \<not> (1 < length p \<and> p ! 1 = CHR '':'') \<and> CHR 0x5C \<notin> set p \<and>
     ''..'' \<notin> set (split_on (CHR ''/'') p) \<and> normpath p = p \<and>
     (prefix ''standards/'' (map lower_char p) \<longrightarrow> prefix ''standards/'' p)"

record dev_head =
  dh_version :: string
  dh_opened :: string
  dh_normative :: "string list"
  dh_candidate :: bool

definition dev_fault :: "string \<Rightarrow> string \<Rightarrow> fault + 'a" where
  "dev_fault code i = Inl (StandardsError code i)"

definition load_dev_head :: "pyval \<Rightarrow> string \<Rightarrow> string \<Rightarrow> string list \<Rightarrow> fault + dev_head option" where
  "load_dev_head raw i active retired = (case raw of
      JNull \<Rightarrow> Inr None
    | JObj r \<Rightarrow> (case (obj_get r ''version'', obj_get r ''opened'', obj_get r ''normative'') of
        (JStr version, JStr opened, JList ns) \<Rightarrow> (case text_list ns of
            None \<Rightarrow> dev_fault ''dev_block_invalid'' i
          | Some [] \<Rightarrow> dev_fault ''dev_block_invalid'' i
          | Some paths \<Rightarrow> (case (case map_of r ''candidate'' of None \<Rightarrow> JBool False | Some v \<Rightarrow> v) of
              JBool candidate \<Rightarrow>
                let target = without_end version ''-dev'' in
                if parse_day opened = None then dev_fault ''dev_block_invalid'' i
                else if \<not> (ends_with version ''-dev'' \<and> is_release target) then dev_fault ''dev_version_invalid'' i
                else if vt target = vt active then dev_fault ''dev_target_not_greater'' i
                else if ver_less (vt target) (vt active) then dev_fault ''dev_head_stale'' i
                else if target \<in> set retired then dev_fault ''dev_target_retired'' i
                else bind_res (check_each (\<lambda>p. bind_res
                    (guard_res (prefix (''standards/'' @ i @ ''/'' @ version @ ''/'') (normpath p)) (StandardsError ''dev_path_outside_head'' i))
                    (\<lambda>_. guard_res (row_path_ok p) (StandardsError ''normative_path_escape'' i))) paths)
                  (\<lambda>_. Inr (Some \<lparr>dh_version = version, dh_opened = opened, dh_normative = paths, dh_candidate = candidate\<rparr>))
            | _ \<Rightarrow> dev_fault ''dev_block_invalid'' i))
        | _ \<Rightarrow> dev_fault ''dev_block_invalid'' i)
    | _ \<Rightarrow> dev_fault ''dev_block_invalid'' i)"

text \<open>\<open>_retired_for\<close>: total; a manifest without the block retires nothing.\<close>

fun sub_obj :: "pyval \<Rightarrow> string \<Rightarrow> pyval" where
  "sub_obj (JObj d) k = obj_get d k"
| "sub_obj _ k = JNull"

definition retired_for :: "(pyval \<Rightarrow> string) \<Rightarrow> pyval \<Rightarrow> string \<Rightarrow> string list" where
  "retired_for str doc i = (case sub_obj (sub_obj (sub_obj (sub_obj doc ''dependency_policy'') ''standards'') i) ''retired'' of
      JList vs \<Rightarrow> map str vs | _ \<Rightarrow> [])"

text \<open>The entry of a standard; \<open>str\<close> is Python's, for ids that are not text.\<close>

definition entry_matches :: "(pyval \<Rightarrow> string) \<Rightarrow> string \<Rightarrow> pyval \<Rightarrow> bool" where
  "entry_matches str standard raw \<longleftrightarrow> str (sub_obj raw ''id'') = standard"

fun elements :: "pyval option \<Rightarrow> exn + pyval list" where
  "elements None = Inr []"
| "elements (Some (JList vs)) = Inr vs"
| "elements (Some (JStr s)) = Inr (map (\<lambda>c. JStr [c]) s)"
| "elements (Some (JObj kvs)) = Inr (map (JStr \<circ> fst) kvs)"
| "elements (Some _) = Inl (TypeError ''not iterable'')"

fun items_of :: "pyval \<Rightarrow> pyval list" where
  "items_of (JList vs) = vs"
| "items_of _ = []"

fun is_object :: "pyval \<Rightarrow> bool" where
  "is_object (JObj d) = True"
| "is_object _ = False"

definition pick_entry :: "(pyval \<Rightarrow> string) \<Rightarrow> string \<Rightarrow> pyval list \<Rightarrow> fault + (string \<times> pyval) option" where
  "pick_entry str standard raws =
     (if \<not> list_all is_object raws then Inl (Escape (TypeError ''no attribute get''))
      else (case filter (entry_matches str standard) raws of
          [] \<Rightarrow> Inr None
        | [JObj r] \<Rightarrow> (case map_of r ''version'' of
              None \<Rightarrow> Inl (Escape (KeyError ''version''))
            | Some v \<Rightarrow> if is_release (str v) then Inr (Some (str v, JObj r))
                else Inl (StandardsError ''standards_entry_version_invalid'' standard))
        | _ \<Rightarrow> Inl (StandardsError ''standards_entry_duplicate'' standard)))"

definition find_entry :: "(pyval \<Rightarrow> string) \<Rightarrow> pyval \<Rightarrow> string \<Rightarrow> fault + (string \<times> pyval) option" where
  "find_entry str doc standard = (case doc of
      JObj d \<Rightarrow> if \<not> py_one (obj_get d ''manifest_version'') then Inl (StandardsError ''standards_manifest_version_unsupported'' [])
        else (case elements (map_of d ''standards'') of Inl e \<Rightarrow> Inl (Escape e) | Inr raws \<Rightarrow> pick_entry str standard raws)
    | _ \<Rightarrow> Inl (Escape (TypeError ''no attribute get'')))"

definition declared_dev_head :: "(pyval \<Rightarrow> string) \<Rightarrow> pyval \<Rightarrow> string \<Rightarrow> fault + dev_head option" where
  "declared_dev_head str doc standard = bind_res (find_entry str doc standard) (\<lambda>e. case e of
      None \<Rightarrow> Inr None
    | Some (version, raw) \<Rightarrow> load_dev_head (sub_obj raw ''dev'') standard version (retired_for str doc standard))"

definition active_version :: "(pyval \<Rightarrow> string) \<Rightarrow> pyval \<Rightarrow> string \<Rightarrow> fault + string" where
  "active_version str doc standard = bind_res (find_entry str doc standard) (\<lambda>e. case e of
      None \<Rightarrow> Inl (StandardsError ''standards_entry_absent'' standard)
    | Some (version, _) \<Rightarrow> Inr version)"

section \<open>The two classifiers\<close>

text \<open>What classification reads of a corpus: the standards manifest, and the paths the corpus manifest has rows for.\<close>

record standards_state =
  st_manifest :: pyval
  st_paths :: "string list"
  st_str :: "pyval \<Rightarrow> string"

datatype pin_status = Served | Yanked | Nonconforming | Retired | Unknown | Unclassifiable | DevStage | RcStage

datatype pin_note =
    NotClassifiable
  | NoSuchHead
  | RetiredNext int int vr37
  | NeverCarried vr37
  | OutOfRange vr37
  | Deprecated yank_record move_to

record descriptor_pin =
  dp_version :: string
  dp_status :: pin_status
  dp_conforming :: bool
  dp_deprecated :: bool
  dp_note :: "pin_note option"
  dp_ack :: "(string \<times> string option) option"

definition pin_of :: "string \<Rightarrow> pin_status \<Rightarrow> bool \<Rightarrow> pin_note option \<Rightarrow> descriptor_pin" where
  "pin_of v st ok note = \<lparr>dp_version = v, dp_status = st, dp_conforming = ok, dp_deprecated = (st = Yanked), dp_note = note, dp_ack = None\<rparr>"

definition next_minor :: "string \<Rightarrow> int \<times> int" where
  "next_minor v = (case vt v of (a, b, c) \<Rightarrow> (a, b + 1))"

definition policy_entry :: "standards_state \<Rightarrow> string \<Rightarrow> fault + standard_policy" where
  "policy_entry S standard = bind_res (read_policy (st_manifest S)) (\<lambda>policy. case map_of policy standard of
      None \<Rightarrow> Inl (policy_fault standard) | Some row \<Rightarrow> Inr row)"

definition classify_row :: "string \<Rightarrow> standard_policy \<Rightarrow> string list \<Rightarrow> string \<Rightarrow> descriptor_pin" where
  "classify_row standard row retained pin = (let vr = vr37_of standard pin row retained in
     if pin \<in> set (sp_retired row) then pin_of pin Retired False (Some (RetiredNext (fst (next_minor pin)) (snd (next_minor pin)) vr))
     else if pin \<notin> set retained then pin_of pin Unknown False (Some (NeverCarried vr))
     else if \<not> in_interval (sp_range row) pin then pin_of pin Nonconforming False (Some (OutOfRange vr))
     else (case find (\<lambda>y. yk_version y = pin) (sp_yanked row) of
         Some y \<Rightarrow> pin_of pin Yanked True (Some (Deprecated y (derive_move_to row (served_from row retained) pin)))
       | None \<Rightarrow> pin_of pin Served True None))"

definition classify :: "standards_state \<Rightarrow> string \<Rightarrow> string \<Rightarrow> fault + descriptor_pin" where
  "classify S standard pin = bind_res (policy_entry S standard) (\<lambda>row.
     if is_dev_label pin then bind_res (declared_dev_head (st_str S) (st_manifest S) standard) (\<lambda>head. case head of
         Some h \<Rightarrow> if dh_version h = pin then Inr (pin_of pin (if dh_candidate h then RcStage else DevStage) True None)
           else Inr (pin_of pin Unknown False (Some NoSuchHead))
       | None \<Rightarrow> Inr (pin_of pin Unknown False (Some NoSuchHead)))
     else Inr (classify_row standard row (retained_from standard (st_paths S)) pin))"

text \<open>Total over pins: \<open>shown\<close> is the text of a pin that cannot be classified.\<close>

definition classify_pin_value :: "standards_state \<Rightarrow> string \<Rightarrow> (pyval \<Rightarrow> string) \<Rightarrow> pyval \<Rightarrow> fault + descriptor_pin" where
  "classify_pin_value S standard repr pin = (case pin of
      JStr p \<Rightarrow> if is_release p \<or> is_dev_label p then classify S standard p
        else Inr (pin_of p Unclassifiable False (Some NotClassifiable))
    | _ \<Rightarrow> Inr (pin_of (repr pin) Unclassifiable False (Some NotClassifiable)))"

text \<open>The resolver's classifier raises where admission records.\<close>

definition classify_pin :: "dependency_policy \<Rightarrow> (string \<Rightarrow> string list) \<Rightarrow> string \<Rightarrow> string \<Rightarrow> fault + pin_note option" where
  "classify_pin policy retained standard v = (case map_of policy standard of
      None \<Rightarrow> Inl (StandardsError ''constraint_standard_unknown'' standard)
    | Some row \<Rightarrow>
        if sublist ''-dev'' v then Inl (StandardsError ''dev_pin_unsupported'' v)
        else if \<not> is_release v then Inl (StandardsError ''version_shape_invalid'' v)
        else if v \<in> set (sp_retired row) then Inl (StandardsError ''retired_identifier'' v)
        else if v \<notin> set (retained standard) then Inl (StandardsError ''version_unknown'' v)
        else if \<not> in_interval (sp_range row) v then Inl (StandardsError ''version_not_served'' v)
        else (case find (\<lambda>y. yk_version y = v) (sp_yanked row) of
            Some y \<Rightarrow> Inr (Some (Deprecated y (derive_move_to row (served_from row (retained standard)) v)))
          | None \<Rightarrow> Inr None))"

section \<open>Laws of versions\<close>

lemma digit_val_underscore: "digit_val c = Some d \<Longrightarrow> c \<noteq> CHR ''_''"
  by (auto simp: Let_def split: if_splits)

lemma digits_us_digits: "digits_val acc p = Some n \<Longrightarrow> digits_us acc True p = Some n"
  by (induction acc p rule: digits_val.induct)
    (auto simp del: digit_val.simps dest: digit_val_underscore split: option.splits)

lemma digits_us_plain: "p \<noteq> [] \<Longrightarrow> digits_val 0 p = Some n \<Longrightarrow> digits_us 0 False p = Some n"
  by (cases p) (auto simp del: digit_val.simps dest: digit_val_underscore digits_us_digits split: option.splits)

lemma digits_val_chars: "digits_val acc p = Some n \<Longrightarrow> c \<in> set p \<Longrightarrow> \<exists>d. digit_val c = Some d"
  by (induction acc p rule: digits_val.induct) (auto simp del: digit_val.simps split: option.splits)

lemma digit_val_plain: "digit_val c = Some d \<Longrightarrow> \<not> is_blank c \<and> c \<noteq> CHR ''-'' \<and> c \<noteq> CHR ''+'' \<and> c \<noteq> CHR ''.'' \<and> c \<noteq> CHR '','' \<and> c \<noteq> CHR ''^'' \<and> c \<noteq> CHR ''~''"
  by (auto simp: is_blank_def Let_def split: if_splits)

lemma py_int_digits:
  assumes "p \<noteq> []" "digits_val 0 p = Some n"
  shows "py_int p = Inr (int n)"
proof -
  have plain: "\<forall>c \<in> set p. \<not> is_blank c \<and> c \<noteq> CHR ''-'' \<and> c \<noteq> CHR ''+''"
    using assms(2) digits_val_chars digit_val_plain by blast
  then have "strip p = p" by (simp add: strip_def dropWhile_none)
  moreover have "hd p \<noteq> CHR ''-''" "hd p \<noteq> CHR ''+''" using plain assms(1) by auto
  ultimately show ?thesis using digits_us_plain [OF assms] by (simp add: py_int_def)
qed

lemma release_tuple: "is_release v \<Longrightarrow> version_tuple v = Inr (vt v)"
  by (auto simp: is_release_def vt_def version_tuple_def py_int_digits split: list.splits)

lemma canonical_release: "is_canonical v \<Longrightarrow> is_release v"
  by (auto simp: is_canonical_def is_release_def canonical_num_def split: list.splits)

lemma ver_less_irrefl [simp]: "\<not> ver_less v v"
  by (cases v) auto

lemma ver_less_trans: "ver_less u v \<Longrightarrow> ver_less v w \<Longrightarrow> ver_less u w"
  by (cases u; cases v; cases w) auto

lemma ver_linear: "u = v \<or> ver_less u v \<or> ver_less v u"
  by (cases u; cases v) auto

lemma ver_le_trans: "ver_le u v \<Longrightarrow> ver_le v w \<Longrightarrow> ver_le u w"
  unfolding ver_le_def by (blast intro: ver_less_trans)

lemma ver_not_less: "\<not> ver_less v w \<longleftrightarrow> ver_le w v"
  unfolding ver_le_def using ver_linear ver_less_trans ver_less_irrefl by metis

lemma max_version_greatest:
  "max_version best vs \<in> insert best (set vs) \<and> (\<forall>v \<in> insert best (set vs). ver_le (vt v) (vt (max_version best vs)))"
proof (induction best vs rule: max_version.induct)
  case (2 best v vs)
  let ?b = "if ver_less (vt best) (vt v) then v else best"
  have "ver_le (vt best) (vt ?b)" "ver_le (vt v) (vt ?b)" by (auto simp: ver_not_less) (auto simp: ver_le_def)
  with 2 show ?case by (auto intro: ver_le_trans)
qed (simp add: ver_le_def)

lemma in_served: "v \<in> set (served_from row retained) \<longleftrightarrow>
    v \<in> set retained \<and> in_interval (sp_range row) v \<and> v \<notin> yk_version ` set (sp_yanked row)"
  by (auto simp: served_from_def)

lemma retained_release: "v \<in> set (retained_from standard paths) \<Longrightarrow> is_release v"
  by (auto simp: retained_from_def retained_of_def Let_def split: if_splits list.splits)

lemma split_on_chars: "x \<in> set s \<Longrightarrow> x = c \<or> (\<exists>w \<in> set (split_on c s). x \<in> set w)"
  by (induction s) (auto split: list.splits)

lemma release_no_dash: "is_release v \<Longrightarrow> CHR ''-'' \<notin> set v"
proof
  assume r: "is_release v" and d: "CHR ''-'' \<in> set v"
  from split_on_chars [OF d, of "CHR ''.''"] obtain w where w: "w \<in> set (split_on (CHR ''.'') v)" "CHR ''-'' \<in> set w" by auto
  from r w(1) obtain n where "digits_val 0 w = Some n" by (auto simp: is_release_def split: list.splits)
  with w(2) digits_val_chars digit_val_plain show False by blast
qed

lemma release_not_dev: "is_release v \<Longrightarrow> \<not> is_dev_label v \<and> \<not> sublist ''-dev'' v \<and> \<not> ends_with v ''-dev''"
proof -
  assume r: "is_release v"
  have n: "\<not> sublist ''-dev'' v" using release_no_dash [OF r] by (auto simp: sublist_def)
  moreover have "ends_with v ''-dev'' \<Longrightarrow> sublist ''-dev'' v"
    unfolding ends_with_def sublist_def by (metis append.right_neutral append_take_drop_id)
  ultimately show ?thesis by (auto simp: is_dev_label_def)
qed

lemma pin_of_inject [simp]: "pin_of v a b c = pin_of v a' b' c' \<longleftrightarrow> a = a' \<and> b = b' \<and> c = c'"
  by (auto simp: pin_of_def)

text \<open>
  Claim C36. The two classifiers agree: for a version, the resolver accepts the pin with the warning it carries exactly if admission
  records it as served or yanked with that note, and whatever the resolver refuses of a known standard admission records as
  non-conforming.
\<close>

theorem classifiers_agree:
  assumes "read_policy (st_manifest S) = Inr policy" "is_release v"
  shows "(classify_pin policy (\<lambda>s. retained_from s (st_paths S)) standard v = Inr note \<longleftrightarrow>
      classify S standard v = Inr (pin_of v (if note = None then Served else Yanked) True note)) \<and>
    (\<forall>e. standard \<in> fst ` set policy \<and> classify_pin policy (\<lambda>s. retained_from s (st_paths S)) standard v = Inl e \<longrightarrow>
      (\<exists>p. classify S standard v = Inr p \<and> \<not> dp_conforming p))"
proof (cases "map_of policy standard")
  case None
  then have "standard \<notin> fst ` set policy" by (simp add: map_of_eq_None_iff)
  with None assms(1) show ?thesis by (simp add: classify_def classify_pin_def policy_entry_def)
next
  case (Some row)
  let ?pin = "classify_row standard row (retained_from standard (st_paths S)) v"
  note no_dev = release_not_dev [OF assms(2)]
  have c: "classify S standard v = Inr ?pin" using Some assms(1) no_dev by (simp add: classify_def policy_entry_def)
  show ?thesis
    unfolding c using Some no_dev assms(2)
    by (auto simp: classify_pin_def classify_row_def Let_def pin_of_def split: option.splits)
qed

text \<open>A version is classified as served exactly if it is in the served set and not retired.\<close>

lemma classified_served: "dp_status (classify_row standard row retained v) = Served \<longleftrightarrow>
    v \<in> set (served_from row retained) \<and> v \<notin> set (sp_retired row)"
  by (auto simp: classify_row_def in_served Let_def pin_of_def find_None_iff find_Some_iff split: option.splits)

section \<open>Authoring sugar\<close>

lemma split_dotted: "split_on (CHR ''.'') (dotted a b c) = [show_nat a, show_nat b, show_nat c]"
  by (simp add: dotted_def split_on_append_sep split_on_no_sep show_nat_no_dot)

lemma canonical_show_nat: "canonical_num (show_nat n)"
  using show_nat_no_leading_zero [of n]
  by (cases "n = 0") (auto simp: canonical_num_def digits_val_show_nat show_nat_small digit_char_def dest: show_nat_hd_zero)

lemma dotted_canonical: "is_canonical (dotted a b c)"
  by (simp add: is_canonical_def split_dotted canonical_show_nat)

lemma vt_dotted [simp]: "vt (dotted a b c) = (int a, int b, int c)"
  by (simp add: vt_def version_tuple_def split_dotted py_int_show_nat)

lemma show_nat_plain_chars: "c \<in> set (show_nat n) \<Longrightarrow> c \<noteq> CHR '','' \<and> c \<noteq> CHR ''^'' \<and> c \<noteq> CHR ''~''"
  using digits_val_chars [OF digits_val_show_nat] digit_val_plain by blast

lemma dotted_plain: "c \<in> set (dotted x y z) \<Longrightarrow> c \<noteq> CHR '','' \<and> c \<noteq> CHR ''^'' \<and> c \<noteq> CHR ''~''"
  by (auto simp: dotted_def dest: show_nat_plain_chars)

lemma interval_text_parses:
  assumes "ver_less (vt (dotted a b c)) (vt (dotted x y z))"
  shows "parse_interval (JStr (interval_text (dotted a b c, dotted x y z))) = Inr (dotted a b c, dotted x y z)"
proof -
  let ?l = "dotted a b c" and ?u = "dotted x y z"
  have no: "CHR '','' \<notin> set (''>='' @ ?l)" "CHR '','' \<notin> set (''<'' @ ?u)"
    "CHR ''^'' \<notin> set (interval_text (?l, ?u))" "CHR ''~'' \<notin> set (interval_text (?l, ?u))"
    using dotted_plain by (auto simp: interval_text_def)
  have "split_on (CHR '','') (interval_text (?l, ?u)) = [''>='' @ ?l, ''<'' @ ?u]"
    using split_on_append_sep [OF no(1), of "''<'' @ ?u"] split_on_no_sep [OF no(2)] by (simp add: interval_text_def)
  then have "split_range (interval_text (?l, ?u)) = Some (?l, ?u)" by (simp add: split_range_def dotted_canonical)
  moreover have "vt ?l \<noteq> vt ?u" "\<not> ver_less (vt ?u) (vt ?l)"
    using assms ver_less_trans [of "vt ?u" "vt ?l" "vt ?u"] by auto
  ultimately show ?thesis using no(3,4) by (simp add: parse_interval_def parse_range_def del: vt_dotted)
qed

text \<open>The versions a caret is compatible with: what changes below the first component that is not zero.\<close>

fun same_line :: "nat list \<Rightarrow> ver \<Rightarrow> bool" where
  "same_line [a, b] (x, y, z) \<longleftrightarrow> x = int a \<and> (a = 0 \<longrightarrow> y = int b)"
| "same_line [a, b, c] (x, y, z) \<longleftrightarrow> x = int a \<and> (a = 0 \<longrightarrow> y = int b \<and> (b = 0 \<longrightarrow> z = int c))"
| "same_line _ _ \<longleftrightarrow> False"

lemma release_nonneg: "is_release v \<Longrightarrow> vt v = (x, y, z) \<Longrightarrow> 0 \<le> x \<and> 0 \<le> y \<and> 0 \<le> z"
  by (auto simp: is_release_def vt_def version_tuple_def py_int_digits split: list.splits)

lemma digit_val_char: "digit_val c = Some d \<Longrightarrow> d < 10 \<and> c = digit_char d"
proof -
  assume v: "digit_val c = Some d"
  then have d: "d < 10" by (auto simp: Let_def split: if_splits)
  have "48 \<le> (of_char c :: nat)" "d = of_char c - 48" using v by (auto simp: Let_def split: if_splits)
  moreover have "48 \<le> (of_char (digit_char d) :: nat)" "d = of_char (digit_char d) - 48"
    using digit_char_facts [OF d] by (auto simp: Let_def split: if_splits simp del: of_char_eq_iff)
  ultimately have "of_char (digit_char d) = (of_char c :: nat)" by linarith
  with d show ?thesis by (metis of_char_eq_iff)
qed

lemma join_split_on: "py_join [c] (split_on c s) = s"
proof (induction c s rule: split_on.induct)
  case (2 c x xs)
  obtain w ws where w: "split_on c xs = w # ws" by (cases "split_on c xs") simp_all
  with 2 show ?case by (cases ws) auto
qed simp

text \<open>A numeral without leading zeros is the text of its number, so the components of a caret give its text back.\<close>

lemma num_part_text: "num_part p = Some n \<Longrightarrow> show_nat n = p"
proof (induction p arbitrary: n rule: rev_induct)
  case (snoc c p)
  from snoc.prems obtain m d where m: "digits_val 0 p = Some m" "digit_val c = Some d" "n = 10 * m + d"
    and lead: "p \<noteq> [] \<Longrightarrow> hd p \<noteq> CHR ''0''"
    by (auto simp: num_part_def digits_val_append hd_append split: if_splits option.splits simp del: digit_val.simps)
  from digit_val_char [OF m(2)] have d: "d < 10" "c = digit_char d" by auto
  show ?case
  proof (cases "p = []")
    case True
    with m d show ?thesis by (simp add: show_nat_small)
  next
    case False
    with lead m(1) have "num_part p = Some m" by (auto simp: num_part_def)
    with snoc.IH have p: "show_nat m = p" .
    have "m \<noteq> 0"
    proof
      assume "m = 0"
      with p have "hd p = CHR ''0''" by (simp add: show_nat_small digit_char_def flip: p)
      with lead [OF False] show False by simp
    qed
    with m(3) d p show ?thesis by (simp add: show_nat_large)
  qed
qed (simp add: num_part_def)

lemma components_text: "components ps = Some ns \<Longrightarrow> ps = map show_nat ns"
  by (induction ps arbitrary: ns) (auto dest: num_part_text split: option.splits)

text \<open>
  Claim C37. A caret is expanded to an interval that can be stored: its text parses back to it. The lower end is the written version,
  completed by \<open>.0\<close> when only two numbers are written, and the versions inside are those from it on that keep the first
  written number that is not zero and everything before it.
\<close>

theorem caret_round_trip:
  assumes "expand_caret (CHR ''^'' # r) = Inr i" "is_release v"
  shows "parse_interval (JStr (interval_text i)) = Inr i \<and>
    (\<exists>ns. split_on (CHR ''.'') r = map show_nat ns \<and> fst i = (if length ns = 2 then r @ ''.0'' else r) \<and>
      (in_interval i v \<longleftrightarrow> ver_le (vt (fst i)) (vt v) \<and> same_line ns (vt v)))"
proof -
  obtain x y z where v: "vt v = (x, y, z)" "0 \<le> x" "0 \<le> y" "0 \<le> z" using release_nonneg [OF assms(2)] by (metis prod.exhaust)
  obtain ns where ns: "components (split_on (CHR ''.'') r) = Some ns"
    using assms(1) by (auto simp: expand_caret_def Let_def split: option.splits)
  note parts = components_text [OF ns]
  have r: "r = py_join ''.'' (map show_nat ns)" using join_split_on [of "CHR ''.''" r] parts by simp
  from ns consider a b where "ns = [a, b]" | a b c where "ns = [a, b, c]"
    using assms(1) by (auto simp: expand_caret_def Let_def split: list.splits)
  then show ?thesis
  proof cases
    case 1
    with assms(1) ns have i: "i = (dotted a b 0, if a = 0 then dotted 0 (b + 1) 0 else dotted (a + 1) 0 0)"
      by (simp add: expand_caret_def Let_def split: if_splits)
    have "parse_interval (JStr (interval_text i)) = Inr i" unfolding i by (auto intro: interval_text_parses)
    moreover have "fst i = r @ ''.0''" unfolding i r 1 by (simp add: dotted_def show_nat_small digit_char_def)
    moreover have "in_interval i v \<longleftrightarrow> ver_le (vt (fst i)) (vt v) \<and> same_line ns (vt v)"
      unfolding 1 using i v by (auto simp: in_interval_def ver_le_def)
    ultimately show ?thesis using 1 parts by (intro conjI exI [of _ ns]) simp_all
  next
    case 2
    with assms(1) ns have i: "i = (dotted a b c, if a = 0 \<and> b = 0 then dotted 0 0 (c + 1)
        else if a = 0 then dotted 0 (b + 1) 0 else dotted (a + 1) 0 0)"
      by (simp add: expand_caret_def Let_def split: if_splits)
    have "parse_interval (JStr (interval_text i)) = Inr i" unfolding i by (auto intro: interval_text_parses)
    moreover have "fst i = r" unfolding i r 2 by (simp add: dotted_def)
    moreover have "in_interval i v \<longleftrightarrow> ver_le (vt (fst i)) (vt v) \<and> same_line ns (vt v)"
      unfolding 2 using i v by (auto simp: in_interval_def ver_le_def)
    ultimately show ?thesis using 2 parts by (intro conjI exI [of _ ns]) simp_all
  qed
qed

section \<open>A sample corpus\<close>

definition sample_manifest :: pyval where
  "sample_manifest = JObj [(''manifest_version'', JInt 1), (''standards'', JList [JObj [(''id'', JStr ''otdp''), (''version'', JStr ''0.2.2''),
      (''dev'', JObj [(''version'', JStr ''0.3.0-dev''), (''opened'', JStr ''2026-09-11''),
         (''normative'', JList [JStr ''standards/otdp/0.3.0-dev/a.json''])])]]),
     (''dependency_policy'', JObj [(''policy_version'', JInt 1), (''standards'', JObj [(''otdp'', JObj [(''range'', JStr ''>=0.2.0,<0.3.0''),
        (''yanked'', JObj [(''0.2.1'', JObj [(''reason'', JStr ''bad''), (''since'', JStr ''2026-09-01'')])]),
        (''retired'', JList [JStr ''0.1.2''])])])])]"

definition sample_state :: standards_state where
  "sample_state = \<lparr>st_manifest = sample_manifest, st_paths = [''otdp/0.1.0/a.json'', ''otdp/0.2.1/a.json'', ''otdp/0.2.2/a.json''],
     st_str = (\<lambda>v. case v of JStr s \<Rightarrow> s | _ \<Rightarrow> [])\<rparr>"

definition sample_policy :: standard_policy where
  "sample_policy = \<lparr>sp_range = (''0.2.0'', ''0.3.0''), sp_yanked = [\<lparr>yk_version = ''0.2.1'', yk_reason = ''bad'', yk_since = ''2026-09-01''\<rparr>],
     sp_retired = [''0.1.2''], sp_note = None, sp_versions = []\<rparr>"

lemma sample_policy_read: "read_policy sample_manifest = Inr [(''otdp'', sample_policy)]"
  by code_simp

theorem classifiers_agree_witness:
  "\<exists>note. classify_pin [(''otdp'', sample_policy)] (\<lambda>s. retained_from s (st_paths sample_state)) ''otdp'' ''0.2.1'' = Inr (Some note) \<and>
    classify sample_state ''otdp'' ''0.2.1'' = Inr (pin_of ''0.2.1'' Yanked True (Some note))"
proof -
  have r: "is_release ''0.2.1''" by code_simp
  have "read_policy (st_manifest sample_state) = Inr [(''otdp'', sample_policy)]" by (simp add: sample_state_def sample_policy_read)
  note A = classifiers_agree [OF this r]
  have "(case classify_pin [(''otdp'', sample_policy)] (\<lambda>s. retained_from s (st_paths sample_state)) ''otdp'' ''0.2.1'' of
      Inr (Some _) \<Rightarrow> True | _ \<Rightarrow> False)" by code_simp
  then obtain nt where n: "classify_pin [(''otdp'', sample_policy)] (\<lambda>s. retained_from s (st_paths sample_state)) ''otdp'' ''0.2.1''
      = Inr (Some nt)" by (auto split: sum.splits option.splits)
  with A [of "''otdp''" "Some nt"] show ?thesis by auto
qed

theorem caret_round_trip_witness:
  "parse_interval (JStr ''>=0.2.0,<0.3.0'') = Inr (''0.2.0'', ''0.3.0'') \<and> in_interval (''0.2.0'', ''0.3.0'') ''0.2.7'' \<and>
    \<not> in_interval (''0.2.0'', ''0.3.0'') ''0.3.0''"
proof -
  have e: "expand_caret (CHR ''^'' # ''0.2'') = Inr (''0.2.0'', ''0.3.0'')" by code_simp
  have r: "is_release ''0.2.7''" "is_release ''0.3.0''" by code_simp+
  have "interval_text (''0.2.0'', ''0.3.0'') = ''>=0.2.0,<0.3.0''" by (simp add: interval_text_def)
  moreover have "in_interval (''0.2.0'', ''0.3.0'') ''0.2.7''" "\<not> in_interval (''0.2.0'', ''0.3.0'') ''0.3.0''" by code_simp+
  ultimately show ?thesis using caret_round_trip [OF e r(1)] caret_round_trip [OF e r(2)] by simp
qed

end
