(* ===== verification/Locks.thy ===== *)
theory Locks
  imports Versions "HOL-Library.AList"
begin

text \<open>
  The resolution of a plugin's constraints to a lock (\<open>standards/dependency.py\<close>): the authored constraints, the prior lock, the
  cross-constraint rows, the selection ladder and the lock document. JSON Schema validation, hashing, the files of the corpus
  and the git object store are parameters. A version that a document stores is a release or a dev label.
\<close>

section \<open>Authored constraints\<close>

record constraints =
  co_standards :: "(string \<times> interval) list"
  co_opt_in :: "(string \<times> string) list"

definition hex_lower :: "char \<Rightarrow> bool" where
  "hex_lower c \<longleftrightarrow> (let n = of_char c :: nat in (48 \<le> n \<and> n \<le> 57) \<or> (97 \<le> n \<and> n \<le> 102))"

definition sugared :: "string \<Rightarrow> bool" where
  "sugared s \<longleftrightarrow> CHR ''^'' \<in> set s \<or> CHR ''~'' \<in> set s"

definition split_opt_in :: "string \<Rightarrow> (string \<times> string) option" where
  "split_opt_in s = (case split_on (CHR ''@'') s of
      [label, sha] \<Rightarrow> if is_dev_label label \<and> length sha = 40 \<and> list_all hex_lower sha then Some (label, sha) else None
    | _ \<Rightarrow> None)"

definition parse_opt_in :: "pyval \<Rightarrow> fault + string \<times> string" where
  "parse_opt_in v = (case v of
      JStr s \<Rightarrow> if sugared s then Inl (StandardsError ''constraint_syntax_unexpanded'' s)
        else (case split_opt_in s of None \<Rightarrow> Inl (StandardsError ''constraint_document_invalid'' s) | Some p \<Rightarrow> Inr p)
    | _ \<Rightarrow> Inl (StandardsError ''constraint_document_invalid'' []))"

fun object_items :: "pyval \<Rightarrow> obj" where
  "object_items (JObj d) = d"
| "object_items _ = []"

definition read_interval :: "string \<times> pyval \<Rightarrow> fault + string \<times> interval" where
  "read_interval e = (case snd e of
      JStr s \<Rightarrow> if sublist ''-dev'' s then Inl (StandardsError ''dev_pin_unsupported'' (fst e))
        else bind_res (parse_interval (JStr s)) (\<lambda>i. Inr (fst e, i))
    | v \<Rightarrow> bind_res (parse_interval v) (\<lambda>i. Inr (fst e, i)))"

definition read_opt_in :: "string \<times> pyval \<Rightarrow> fault + string \<times> string" where
  "read_opt_in e = bind_res (parse_opt_in (snd e)) (\<lambda>_. case snd e of JStr s \<Rightarrow> Inr (fst e, s) | _ \<Rightarrow> Inl (Escape (TypeError ''str'')))"

definition load_constraints :: "(pyval \<Rightarrow> bool) \<Rightarrow> pyval \<Rightarrow> fault + constraints" where
  "load_constraints valid doc = (case doc of
      JObj d \<Rightarrow>
        bind_res (map_res read_interval (sort_key fst (object_items (obj_get d ''standards'')))) (\<lambda>standards.
        bind_res (map_res read_opt_in (sort_key fst (object_items (obj_get d ''opt_in'')))) (\<lambda>opted.
        if \<not> valid doc then Inl (StandardsError ''constraint_document_invalid'' [])
        else (case filter (\<lambda>s. s \<notin> fst ` set standards) (map fst opted) of
            s # _ \<Rightarrow> Inl (StandardsError ''constraint_document_invalid'' s)
          | [] \<Rightarrow> Inr \<lparr>co_standards = standards, co_opt_in = opted\<rparr>)))
    | _ \<Rightarrow> Inl (StandardsError ''constraint_document_invalid'' []))"

section \<open>The prior lock\<close>

record prior_lock =
  pl_version :: nat
  pl_repository :: string
  pl_revision :: string
  pl_rows :: "(string \<times> string) list"
  pl_files :: "(string \<times> string) list"
  pl_stages :: "(string \<times> string) list"

definition lock_fault :: "fault + 'a" where
  "lock_fault = Inl (StandardsError ''lock_document_invalid'' [])"

definition stored_version :: "pyval \<Rightarrow> fault + string" where
  "stored_version v = (case v of
      JStr s \<Rightarrow> if sugared s then Inl (StandardsError ''constraint_syntax_unexpanded'' s)
        else if is_release s \<or> is_dev_label s then Inr s else lock_fault
    | _ \<Rightarrow> lock_fault)"

fun text_map :: "obj \<Rightarrow> (string \<times> string) list option" where
  "text_map [] = Some []"
| "text_map ((k, JStr v) # kvs) = map_option (Cons (k, v)) (text_map kvs)"
| "text_map _ = None"

definition read_files :: "pyval \<Rightarrow> fault + (string \<times> string) list" where
  "read_files v = (case v of
      JObj d \<Rightarrow> (case text_map d of None \<Rightarrow> lock_fault | Some m \<Rightarrow> Inr m)
    | _ \<Rightarrow> lock_fault)"

fun read_lock_rows :: "pyval list \<Rightarrow> (string \<times> string) list \<Rightarrow> (string \<times> string) list \<Rightarrow>
    fault + (string \<times> string) list \<times> (string \<times> string) list" where
  "read_lock_rows [] rows stages = Inr (rows, stages)"
| "read_lock_rows (JObj r # vs) rows stages = (case obj_get r ''id'' of
      JStr i \<Rightarrow> (case (case map_of r ''stage'' of None \<Rightarrow> JStr ''released'' | Some v \<Rightarrow> v) of
          JStr stage \<Rightarrow> if stage \<noteq> ''released'' \<and> stage \<noteq> ''dev'' then lock_fault
            else bind_res (stored_version (obj_get r ''version'')) (\<lambda>v.
              if ends_with v ''-dev'' \<noteq> (stage = ''dev'') then lock_fault
              else read_lock_rows vs (AList.update i v rows) (AList.update i stage stages))
        | _ \<Rightarrow> lock_fault)
    | _ \<Rightarrow> lock_fault)"
| "read_lock_rows (_ # vs) rows stages = lock_fault"

definition nonempty_member :: "obj \<Rightarrow> string \<Rightarrow> fault + string" where
  "nonempty_member d k = (case obj_get d k of JStr s \<Rightarrow> if s = [] then lock_fault else Inr s | _ \<Rightarrow> lock_fault)"

definition py_two :: "pyval \<Rightarrow> bool" where
  "py_two v \<longleftrightarrow> v = JInt 2 \<or> v = JFloat (Fin 2)"

definition load_prior_lock :: "pyval \<Rightarrow> fault + prior_lock" where
  "load_prior_lock doc = (case doc of
      JObj d \<Rightarrow>
        bind_res (nonempty_member d ''repository'') (\<lambda>repository.
        bind_res (nonempty_member d ''revision'') (\<lambda>revision.
        (case map_of d ''lock_version'' of
          Some lv \<Rightarrow> if \<not> py_two lv then lock_fault
            else (case obj_get d ''standards'' of
                JList vs \<Rightarrow> bind_res (read_lock_rows vs [] []) (\<lambda>(rows, stages).
                  bind_res (read_files (obj_get d ''sha256'')) (\<lambda>files.
                  Inr \<lparr>pl_version = 2, pl_repository = repository, pl_revision = revision, pl_rows = rows, pl_files = files,
                    pl_stages = stages\<rparr>))
              | _ \<Rightarrow> lock_fault)
        | None \<Rightarrow> bind_res (stored_version (obj_get d ''otdp_version'')) (\<lambda>v.
            if ends_with v ''-dev'' then lock_fault
            else bind_res (read_files (obj_get d ''sha256'')) (\<lambda>files.
              Inr \<lparr>pl_version = 1, pl_repository = repository, pl_revision = revision, pl_rows = [(''otdp'', v)], pl_files = files,
                pl_stages = [(''otdp'', ''released'')]\<rparr>)))))
    | _ \<Rightarrow> lock_fault)"

section \<open>Cross-constraint rows\<close>

record cross_row =
  cr_standard :: string
  cr_version :: string
  cr_requires :: "(string \<times> string) list"
  cr_evidence :: string

definition is_adapter_api :: "string \<Rightarrow> bool" where
  "is_adapter_api s \<longleftrightarrow> (case split_on (CHR ''.'') s of
      [a, b] \<Rightarrow> list_all (\<lambda>p. p \<noteq> [] \<and> digits_val 0 p \<noteq> None) [a, b] | _ \<Rightarrow> False)"

fun sugar_free :: "pyval \<Rightarrow> bool" where
  "sugar_free (JObj r) \<longleftrightarrow> list_all (\<lambda>e. case snd e of JStr s \<Rightarrow> \<not> sugared s | _ \<Rightarrow> True) (object_items (obj_get r ''requires''))"
| "sugar_free _ \<longleftrightarrow> True"

definition read_requirement :: "dependency_policy \<Rightarrow> string \<times> pyval \<Rightarrow> fault + string \<times> string" where
  "read_requirement policy e = (case e of
      (k, JStr s) \<Rightarrow>
        if k = ''adapter_api'' then (if is_adapter_api s then Inr (k, s) else Inl (StandardsError ''cross_constraint_invalid'' k))
        else if k \<notin> fst ` set policy then Inl (StandardsError ''constraint_standard_unknown'' k)
        else if split_range s = None then Inl (StandardsError ''cross_constraint_invalid'' k) else Inr (k, s)
    | (k, _) \<Rightarrow> Inl (StandardsError ''cross_constraint_invalid'' k))"

fun read_cross_rows :: "dependency_policy \<Rightarrow> (string \<Rightarrow> string list) \<Rightarrow> pyval list \<Rightarrow> (string \<times> string) list \<Rightarrow> fault + cross_row list" where
  "read_cross_rows policy retained [] seen = Inr []"
| "read_cross_rows policy retained (raw # raws) seen =
     (case (sub_obj raw ''standard'', sub_obj raw ''version'', sub_obj raw ''requires'', sub_obj raw ''evidence'') of
        (JStr standard, JStr version, JObj req, JStr evidence) \<Rightarrow>
          if standard \<notin> fst ` set policy then Inl (StandardsError ''constraint_standard_unknown'' standard)
          else if version \<notin> set (retained standard) then Inl (StandardsError ''cross_constraint_unresolved'' standard)
          else if (standard, version) \<in> set seen then Inl (StandardsError ''cross_constraint_invalid'' standard)
          else bind_res (map_res (read_requirement policy) (sort_key fst req)) (\<lambda>requires.
            bind_res (read_cross_rows policy retained raws ((standard, version) # seen)) (\<lambda>rows.
            Inr (\<lparr>cr_standard = standard, cr_version = version, cr_requires = requires, cr_evidence = evidence\<rparr> # rows)))
      | _ \<Rightarrow> Inl (Escape (KeyError ''row'')))"

text \<open>\<open>None\<close> is an absent file. After the schema every row has its four members.\<close>

definition load_cross :: "(pyval \<Rightarrow> bool) \<Rightarrow> standards_state \<Rightarrow> pyval option \<Rightarrow> fault + cross_row list" where
  "load_cross valid S file = (case file of
      None \<Rightarrow> Inl (StandardsError ''cross_constraint_invalid'' [])
    | Some doc \<Rightarrow> if \<not> list_all sugar_free (items_of (sub_obj doc ''rows'')) then Inl (StandardsError ''constraint_syntax_unexpanded'' [])
        else if \<not> valid doc then Inl (StandardsError ''cross_constraint_invalid'' [])
        else bind_res (read_policy (st_manifest S)) (\<lambda>policy.
          read_cross_rows policy (\<lambda>s. retained_from s (st_paths S)) (items_of (sub_obj doc ''rows'')) []))"

section \<open>Dev heads from the object store\<close>

text \<open>The object store: the names under a path of a commit, and a blob as its digest with its JSON. \<open>None\<close> is a git failure.\<close>

record object_store =
  gt_names :: "string \<Rightarrow> string \<Rightarrow> string list option"
  gt_blob :: "string \<Rightarrow> string \<Rightarrow> (string \<times> pyval) option"

record dev_resolution =
  dv_version :: string
  dv_sha :: string
  dv_files :: "(string \<times> string) list"
  dv_digest :: string

definition without_start :: "string \<Rightarrow> string \<Rightarrow> string" where
  "without_start s p = (if prefix p s then drop (length p) s else s)"

definition read_blobs :: "object_store \<Rightarrow> string \<Rightarrow> string \<Rightarrow> string list \<Rightarrow> fault + (string \<times> string) list" where
  "read_blobs G sha pre names = map_res (\<lambda>n. case gt_blob G sha n of
      None \<Rightarrow> Inl (StandardsError ''dev_head_unresolvable'' n) | Some (digest, _) \<Rightarrow> Inr (without_start n (pre @ ''/''), digest)) names"

definition resolve_dev_pin :: "standards_state \<Rightarrow> object_store \<Rightarrow> ((string \<times> string) list \<Rightarrow> string) \<Rightarrow> dependency_policy \<Rightarrow>
    string \<Rightarrow> string \<Rightarrow> string \<Rightarrow> fault + dev_resolution" where
  "resolve_dev_pin S G hash policy standard label sha = bind_res (declared_dev_head (st_str S) (st_manifest S) standard) (\<lambda>head.
     let unresolvable = Inl (StandardsError ''dev_head_unresolvable'' standard); pre = ''standards/'' @ standard @ ''/'' @ label in
     case head of
       None \<Rightarrow> unresolvable
     | Some h \<Rightarrow> if dh_version h \<noteq> label then unresolvable
         else if (case map_of policy standard of None \<Rightarrow> False | Some row \<Rightarrow> without_end label ''-dev'' \<in> set (sp_retired row))
         then Inl (StandardsError ''dev_target_retired'' standard)
         else (case gt_names G sha pre of
             None \<Rightarrow> unresolvable
           | Some [] \<Rightarrow> unresolvable
           | Some names \<Rightarrow> bind_res (read_blobs G sha pre names) (\<lambda>files.
               if \<not> list_all (\<lambda>p. without_start p (pre @ ''/'') \<in> fst ` set files) (dh_normative h) then unresolvable
               else Inr \<lparr>dv_version = label, dv_sha = sha, dv_files = files, dv_digest = hash (sort_key fst files)\<rparr>)))"

text \<open>The adapter API a descriptor schema declares.\<close>

definition adapter_const :: "pyval \<Rightarrow> fault + string" where
  "adapter_const schema = (case sub_obj (sub_obj (sub_obj (sub_obj (sub_obj schema ''$defs'') ''adapter'') ''properties'') ''api_version'') ''const'' of
      JStr s \<Rightarrow> Inr s | _ \<Rightarrow> Inl (StandardsError ''adapter_api_unresolved'' []))"

definition schema_name :: string where
  "schema_name = ''otdp-device-descriptor.schema.json''"

definition dev_adapter_api :: "object_store \<Rightarrow> dev_resolution \<Rightarrow> fault + string" where
  "dev_adapter_api G d = (case gt_blob G (dv_sha d) (''standards/otdp/'' @ dv_version d @ ''/'' @ schema_name) of
      None \<Rightarrow> Inl (StandardsError ''adapter_api_unresolved'' (dv_version d)) | Some (_, schema) \<Rightarrow> adapter_const schema)"

section \<open>The files of a version\<close>

text \<open>
  The files of the corpus: whether a version directory of the otdp standard exists, its regular files in name order with their
  digests, and a file as its digest with its JSON; the corpus rows, of which a mapping keeps the last of a path; a hash.
\<close>

record tree =
  tr_dir :: "string \<Rightarrow> bool"
  tr_listing :: "string \<Rightarrow> (string \<times> string) list"
  tr_file :: "string \<Rightarrow> (string \<times> pyval) option"
  tr_rows :: "(string \<times> string) list"
  tr_hash :: "(string \<times> string) list \<Rightarrow> string"

definition version_rows :: "tree \<Rightarrow> string \<Rightarrow> string \<Rightarrow> (string \<times> string) list" where
  "version_rows T standard version = sort_key fst (sort_key snd
     (filter (\<lambda>p. prefix (standard @ ''/'' @ version @ ''/'') (fst p)) (tr_rows T)))"

definition row_digest :: "tree \<Rightarrow> string \<Rightarrow> string \<Rightarrow> fault + string" where
  "row_digest T standard version = (if version_rows T standard version = [] then Inl (StandardsError ''version_unknown'' standard)
     else Inr (tr_hash T (version_rows T standard version)))"

text \<open>A dict built from pairs: a key keeps its place and takes the last value.\<close>

definition py_dict :: "(string \<times> 'a) list \<Rightarrow> (string \<times> 'a) list" where
  "py_dict kvs = fold (\<lambda>(k, v). AList.update k v) kvs []"

definition adapter_api_for :: "tree \<Rightarrow> string \<Rightarrow> fault + string" where
  "adapter_api_for T version = (let rel = ''otdp/'' @ version @ ''/'' @ schema_name in
     case (map_of (py_dict (tr_rows T)) rel, tr_file T rel) of
       (Some pin, Some (digest, schema)) \<Rightarrow>
         if digest \<noteq> pin then Inl (StandardsError ''corpus_pin_mismatch'' rel) else adapter_const schema
     | _ \<Rightarrow> Inl (StandardsError ''adapter_api_unresolved'' version))"

definition low :: "string \<Rightarrow> string" where
  "low = map lower_char"

definition rowed_top :: "tree \<Rightarrow> string \<Rightarrow> string list" where
  "rowed_top T version = (let pre = ''otdp/'' @ version @ ''/'' in
     map (\<lambda>p. low (drop (length pre) p)) (filter (\<lambda>p. prefix pre p \<and> CHR ''/'' \<notin> set (drop (length pre) p)) (map fst (tr_rows T))))"

definition map_file :: "tree \<Rightarrow> string \<Rightarrow> string \<times> string \<Rightarrow> fault + unit" where
  "map_file T version f = (case f of (name, digest) \<Rightarrow>
     let rel = ''otdp/'' @ version @ ''/'' @ name in
     if \<not> ends_with (low name) ''.json'' then Inr ()
     else (case map_of (py_dict (map (map_prod low id) (py_dict (tr_rows T)))) (low rel) of
         None \<Rightarrow> Inl (StandardsError ''corpus_file_unpinned'' rel)
       | Some pin \<Rightarrow> guard_res (digest = pin) (StandardsError ''corpus_pin_mismatch'' rel)))"

definition otdp_file_map :: "tree \<Rightarrow> string \<Rightarrow> (string \<times> string) list \<Rightarrow> fault + (string \<times> string) list" where
  "otdp_file_map T version prior =
     (if \<not> tr_dir T version then Inl (StandardsError ''version_directory_absent'' version)
      else (let known = (\<lambda>f. low (fst f) \<in> set (rowed_top T version) \<or> fst f \<in> fst ` set prior);
                listing = tr_listing T version in
        bind_res (check_each (map_file T version) (filter known listing)) (\<lambda>_.
        if filter (\<lambda>f. \<not> known f) listing \<noteq> [] then Inl (StandardsError ''corpus_file_stray'' version)
        else if filter known listing = [] then Inl (StandardsError ''version_directory_absent'' version)
        else Inr (filter known listing))))"

section \<open>The selection ladder\<close>

datatype rung = DevOptIn | PreciseOverride | PriorRetained | AutoHighest

record selection =
  sl_version :: string
  sl_dev :: "dev_resolution option"
  sl_rung :: rung
  sl_interval :: interval
  sl_prior :: "string option"
  sl_candidates :: "string list"

record ladder =
  ld_policy :: dependency_policy
  ld_retained :: "string \<Rightarrow> string list"
  ld_constraints :: constraints
  ld_prior :: prior_lock
  ld_precise :: "(string \<times> string) list"
  ld_dev :: "string \<Rightarrow> string \<Rightarrow> string \<Rightarrow> fault + dev_resolution"

definition released :: "string \<Rightarrow> rung \<Rightarrow> interval \<Rightarrow> string option \<Rightarrow> string list \<Rightarrow> selection" where
  "released v r iv prior cands = \<lparr>sl_version = v, sl_dev = None, sl_rung = r, sl_interval = iv, sl_prior = prior, sl_candidates = cands\<rparr>"

definition prior_kept :: "ladder \<Rightarrow> string \<Rightarrow> interval \<Rightarrow> (string \<times> pin_note list) option" where
  "prior_kept L i iv = (case map_of (pl_rows (ld_prior L)) i of
      None \<Rightarrow> None
    | Some v \<Rightarrow> if \<not> ends_with v ''-dev'' \<and> in_interval iv v
        then (case classify_pin (ld_policy L) (ld_retained L) i v of
            Inl _ \<Rightarrow> None | Inr w \<Rightarrow> Some (v, case w of None \<Rightarrow> [] | Some n \<Rightarrow> [n]))
        else None)"

definition select_auto :: "ladder \<Rightarrow> standard_policy \<Rightarrow> string \<Rightarrow> interval \<Rightarrow> fault + selection" where
  "select_auto L row i iv = (case filter (in_interval iv) (served_from row (ld_retained L i)) of
      [] \<Rightarrow> Inl (StandardsError ''constraint_unresolvable'' i)
    | v # vs \<Rightarrow> Inr (released (max_version v vs) AutoHighest iv None (v # vs)))"

definition select_one :: "ladder \<Rightarrow> string \<Rightarrow> interval \<Rightarrow> fault + selection \<times> pin_note list" where
  "select_one L i iv = (case map_of (ld_policy L) i of
      None \<Rightarrow> Inl (StandardsError ''constraint_standard_unknown'' i)
    | Some row \<Rightarrow> (case map_of (co_opt_in (ld_constraints L)) i of
        Some pin \<Rightarrow>
          if map_of (ld_precise L) i \<noteq> None then Inl (StandardsError ''constraint_unresolvable'' i)
          else bind_res (parse_opt_in (JStr pin)) (\<lambda>(label, sha). bind_res (ld_dev L i label sha) (\<lambda>d.
            Inr (\<lparr>sl_version = label, sl_dev = Some d, sl_rung = DevOptIn, sl_interval = iv, sl_prior = None, sl_candidates = []\<rparr>, [])))
      | None \<Rightarrow> (case map_of (ld_precise L) i of
          Some t \<Rightarrow> bind_res (classify_pin (ld_policy L) (ld_retained L) i t) (\<lambda>w.
            if \<not> in_interval iv t then Inl (StandardsError ''constraint_unresolvable'' i)
            else Inr (released t PreciseOverride iv None [], case w of None \<Rightarrow> [] | Some n \<Rightarrow> [n]))
        | None \<Rightarrow> (case prior_kept L i iv of
            Some (v, ws) \<Rightarrow> Inr (released v PriorRetained iv (Some v) [], ws)
          | None \<Rightarrow> bind_res (select_auto L row i iv) (\<lambda>s. Inr (s, []))))))"

fun select_all :: "ladder \<Rightarrow> (string \<times> interval) list \<Rightarrow> fault + (string \<times> selection) list \<times> pin_note list" where
  "select_all L [] = Inr ([], [])"
| "select_all L ((i, iv) # cs) = bind_res (select_one L i iv) (\<lambda>(s, ws).
     bind_res (select_all L cs) (\<lambda>(ss, us). Inr ((i, s) # ss, ws @ us)))"

section \<open>The lock\<close>

definition is_dev :: "selection \<Rightarrow> bool" where
  "is_dev s \<longleftrightarrow> sl_dev s \<noteq> None"

definition violated :: "(string \<times> selection) list \<Rightarrow> string \<Rightarrow> string \<times> string \<Rightarrow> fault + bool" where
  "violated sels adapter req = (case req of (k, value) \<Rightarrow>
     if k = ''adapter_api'' then (case map_of sels ''otdp'' of Some s \<Rightarrow> Inr (\<not> is_dev s \<and> adapter \<noteq> value) | None \<Rightarrow> Inr (adapter \<noteq> value))
     else (case map_of sels k of
         None \<Rightarrow> Inr True
       | Some s \<Rightarrow> if is_dev s then Inr False
           else bind_res (parse_interval (JStr value)) (\<lambda>iv. Inr (\<not> in_interval iv (sl_version s)))))"

definition applies :: "(string \<times> selection) list \<Rightarrow> cross_row \<Rightarrow> bool" where
  "applies sels r \<longleftrightarrow> map_option sl_version (map_of sels (cr_standard r)) = Some (cr_version r)"

fun filter_res :: "('a \<Rightarrow> 'e + bool) \<Rightarrow> 'a list \<Rightarrow> 'e + 'a list" where
  "filter_res f [] = Inr []"
| "filter_res f (x # xs) = bind_res (f x) (\<lambda>b. bind_res (filter_res f xs) (\<lambda>ys. Inr (if b then x # ys else ys)))"

fun cross_violations :: "(string \<times> selection) list \<Rightarrow> string \<Rightarrow> cross_row list \<Rightarrow> fault + (cross_row \<times> string \<times> string) list" where
  "cross_violations sels adapter [] = Inr []"
| "cross_violations sels adapter (r # rs) =
     bind_res (if applies sels r then filter_res (violated sels adapter) (cr_requires r) else Inr []) (\<lambda>vs.
     bind_res (cross_violations sels adapter rs) (\<lambda>us. Inr (map (Pair r) vs @ us)))"

record lock_row =
  lr_id :: string
  lr_version :: string
  lr_digest :: string
  lr_dev :: "dev_resolution option"

record lock =
  lk_repository :: string
  lk_revision :: string
  lk_otdp :: string
  lk_adapter :: string
  lk_files :: "(string \<times> string) list"
  lk_rows :: "lock_row list"

definition text_obj :: "(string \<times> string) list \<Rightarrow> pyval" where
  "text_obj m = JObj (map (\<lambda>(k, v). (k, JStr v)) m)"

definition lock_row_json :: "lock_row \<Rightarrow> pyval" where
  "lock_row_json r = JObj ([(''id'', JStr (lr_id r)), (''version'', JStr (lr_version r)),
     (''stage'', JStr (if lr_dev r = None then ''released'' else ''dev'')), (''digest'', JStr (lr_digest r))] @
     (case lr_dev r of None \<Rightarrow> [] | Some d \<Rightarrow> [(''git_sha'', JStr (dv_sha d)), (''files'', text_obj (dv_files d))]))"

definition lock_json :: "lock \<Rightarrow> pyval" where
  "lock_json k = JObj [(''lock_version'', JInt 2), (''repository'', JStr (lk_repository k)), (''revision'', JStr (lk_revision k)),
     (''directory'', JStr (''standards/otdp/'' @ lk_otdp k)), (''otdp_version'', JStr (lk_otdp k)),
     (''adapter_api_version'', JStr (lk_adapter k)), (''sha256'', text_obj (lk_files k)),
     (''standards'', JList (map lock_row_json (lk_rows k)))]"

definition lock_row_of :: "tree \<Rightarrow> string \<times> selection \<Rightarrow> fault + lock_row" where
  "lock_row_of T e = (case e of (i, s) \<Rightarrow> (case sl_dev s of
      Some d \<Rightarrow> Inr \<lparr>lr_id = i, lr_version = dv_version d, lr_digest = dv_digest d, lr_dev = Some d\<rparr>
    | None \<Rightarrow> bind_res (row_digest T i (sl_version s)) (\<lambda>dg.
        Inr \<lparr>lr_id = i, lr_version = sl_version s, lr_digest = dg, lr_dev = None\<rparr>)))"

definition otdp_facts :: "tree \<Rightarrow> object_store \<Rightarrow> prior_lock \<Rightarrow> selection \<Rightarrow> fault + string \<times> (string \<times> string) list" where
  "otdp_facts T G prior s = (case sl_dev s of
      Some d \<Rightarrow> bind_res (dev_adapter_api G d) (\<lambda>a. Inr (a, filter (\<lambda>f. CHR ''/'' \<notin> set (fst f)) (dv_files d)))
    | None \<Rightarrow> if \<not> tr_dir T (sl_version s) then Inl (StandardsError ''version_directory_absent'' (sl_version s))
        else bind_res (adapter_api_for T (sl_version s)) (\<lambda>a.
          bind_res (otdp_file_map T (sl_version s) (pl_files prior)) (\<lambda>m. Inr (a, m))))"

definition unknown_override :: "ladder \<Rightarrow> string option" where
  "unknown_override L = find (\<lambda>i. i \<notin> fst ` set (co_standards (ld_constraints L))) (sort (map fst (ld_precise L)))"

definition resolve_package :: "(pyval \<Rightarrow> bool) \<Rightarrow> tree \<Rightarrow> object_store \<Rightarrow> (fault + cross_row list) \<Rightarrow> string option \<Rightarrow> ladder \<Rightarrow>
    fault + lock \<times> (string \<times> selection) list \<times> pin_note list" where
  "resolve_package valid T G cross revision L = (case unknown_override L of
      Some i \<Rightarrow> Inl (StandardsError ''constraint_standard_unknown'' i)
    | None \<Rightarrow> bind_res (select_all L (co_standards (ld_constraints L))) (\<lambda>(sels, ws).
        (case map_of sels ''otdp'' of
          None \<Rightarrow> Inl (StandardsError ''lock_otdp_absent'' [])
        | Some s \<Rightarrow> bind_res (otdp_facts T G (ld_prior L) s) (\<lambda>(adapter, files).
            bind_res cross (\<lambda>rows. bind_res (cross_violations sels adapter rows) (\<lambda>vs.
            if vs \<noteq> [] then Inl (StandardsError ''cross_constraint_violation'' [])
            else bind_res (map_res (lock_row_of T) sels) (\<lambda>lrows.
              let k = \<lparr>lk_repository = pl_repository (ld_prior L),
                  lk_revision = (case revision of None \<Rightarrow> pl_revision (ld_prior L) | Some r \<Rightarrow> r), lk_otdp = sl_version s,
                  lk_adapter = adapter, lk_files = files, lk_rows = lrows\<rparr> in
              if valid (lock_json k) then Inr (k, sels, ws) else lock_fault)))))))"

section \<open>What a selection is\<close>

text \<open>A version the policy still lets a plugin stay on: released, carried, in range and not retired. It may be yanked.\<close>

definition served_or_yanked :: "ladder \<Rightarrow> string \<Rightarrow> string \<Rightarrow> bool" where
  "served_or_yanked L i v \<longleftrightarrow> (\<exists>row. map_of (ld_policy L) i = Some row \<and> is_release v \<and> v \<notin> set (sp_retired row) \<and>
     v \<in> set (ld_retained L i) \<and> in_interval (sp_range row) v)"

lemma served_or_yanked_classifies:
  "served_or_yanked L i v \<longleftrightarrow> (\<exists>w. classify_pin (ld_policy L) (ld_retained L) i v = Inr w)"
  using release_not_dev [of v] by (auto simp: served_or_yanked_def classify_pin_def split: option.splits)

text \<open>
  Why a version was selected, and that it is a proper one: a version may be taken afresh only if the prior lock has none that could
  stay.
\<close>

definition good_selection :: "ladder \<Rightarrow> string \<Rightarrow> interval \<Rightarrow> selection \<Rightarrow> bool" where
  "good_selection L i iv s \<longleftrightarrow> (case sl_dev s of
      Some d \<Rightarrow> sl_rung s = DevOptIn \<and> is_dev_label (sl_version s) \<and> map_of (ld_precise L) i = None \<and>
        (\<exists>pin sha. map_of (co_opt_in (ld_constraints L)) i = Some pin \<and> parse_opt_in (JStr pin) = Inr (sl_version s, sha) \<and>
           ld_dev L i (sl_version s) sha = Inr d)
    | None \<Rightarrow> map_of (co_opt_in (ld_constraints L)) i = None \<and> in_interval iv (sl_version s) \<and>
        served_or_yanked L i (sl_version s) \<and>
        (\<exists>w. classify_pin (ld_policy L) (ld_retained L) i (sl_version s) = Inr w \<and>
          (sl_rung s = AutoHighest \<longrightarrow> w = None \<and> map_of (ld_precise L) i = None \<and> prior_kept L i iv = None \<and>
            (\<forall>v. map_of (pl_rows (ld_prior L)) i = Some v \<longrightarrow> \<not> (served_or_yanked L i v \<and> in_interval iv v)) \<and>
            (\<forall>row. map_of (ld_policy L) i = Some row \<longrightarrow> sl_version s \<notin> yk_version ` set (sp_yanked row)) \<and>
            (\<forall>row v. map_of (ld_policy L) i = Some row \<and> v \<in> set (served_from row (ld_retained L i)) \<and> in_interval iv v \<longrightarrow>
               ver_le (vt v) (vt (sl_version s)))) \<and>
          (sl_rung s = PriorRetained \<longrightarrow> map_of (ld_precise L) i = None \<and> map_of (pl_rows (ld_prior L)) i = Some (sl_version s)) \<and>
          (sl_rung s = PreciseOverride \<longrightarrow> map_of (ld_precise L) i = Some (sl_version s)) \<and> sl_rung s \<noteq> DevOptIn))"

lemma classified_release: "classify_pin policy retained i v = Inr w \<Longrightarrow> is_release v"
  by (auto simp: classify_pin_def split: option.splits if_splits)

lemma opt_in_label: "parse_opt_in v = Inr (label, sha) \<Longrightarrow> is_dev_label label"
  by (auto simp: parse_opt_in_def split_opt_in_def split: pyval.splits if_splits option.splits list.splits)

lemma served_classifies:
  assumes "map_of policy i = Some row" "\<forall>v \<in> set (retained i). is_release v \<and> v \<notin> set (sp_retired row)"
    "v \<in> set (served_from row (retained i))"
  shows "classify_pin policy retained i v = Inr None"
proof -
  have v: "v \<in> set (retained i)" "in_interval (sp_range row) v" "v \<notin> yk_version ` set (sp_yanked row)"
    using assms(3) by (auto simp: in_served)
  then have "is_release v" "v \<notin> set (sp_retired row)" using assms(2) by auto
  moreover have "find (\<lambda>y. yk_version y = v) (sp_yanked row) = None" using v(3) by (auto simp: find_None_iff)
  ultimately show ?thesis using v assms(1) release_not_dev by (simp add: classify_pin_def)
qed

text \<open>A corpus whose retired identifiers are not retained, which is what the release check of the manifest asks for.\<close>

definition retired_gone :: "ladder \<Rightarrow> bool" where
  "retired_gone L \<longleftrightarrow> (\<forall>i row. map_of (ld_policy L) i = Some row \<longrightarrow>
     (\<forall>v \<in> set (ld_retained L i). is_release v \<and> v \<notin> set (sp_retired row)))"

lemma select_one_good:
  assumes "retired_gone L" "select_one L i iv = Inr (s, ws)"
  shows "good_selection L i iv s"
proof -
  obtain row where row: "map_of (ld_policy L) i = Some row" using assms(2) by (auto simp: select_one_def split: option.splits)
  consider pin where "map_of (co_opt_in (ld_constraints L)) i = Some pin"
    | t where "map_of (co_opt_in (ld_constraints L)) i = None" "map_of (ld_precise L) i = Some t"
    | v w where "map_of (co_opt_in (ld_constraints L)) i = None" "map_of (ld_precise L) i = None" "prior_kept L i iv = Some (v, w)"
    | "map_of (co_opt_in (ld_constraints L)) i = None" "map_of (ld_precise L) i = None" "prior_kept L i iv = None"
    by (metis not_None_eq prod.exhaust)
  then show ?thesis
  proof cases
    case 1
    with assms(2) row show ?thesis
      by (auto simp: select_one_def good_selection_def split: if_splits dest: opt_in_label)
  next
    case 2
    with assms(2) row show ?thesis
      by (auto simp: select_one_def good_selection_def released_def served_or_yanked_classifies split: if_splits)
  next
    case 3
    from 3(3) have "map_of (pl_rows (ld_prior L)) i = Some v" "in_interval iv v"
      "\<exists>w. classify_pin (ld_policy L) (ld_retained L) i v = Inr w"
      by (auto simp: prior_kept_def split: option.splits if_splits sum.splits)
    with 3 assms(2) row show ?thesis by (auto simp: select_one_def good_selection_def released_def served_or_yanked_classifies)
  next
    case 4
    with assms(2) row obtain v vs where f: "filter (in_interval iv) (served_from row (ld_retained L i)) = v # vs"
      and s: "s = released (max_version v vs) AutoHighest iv None (v # vs)"
      by (auto simp: select_one_def select_auto_def split: list.splits)
    have "set (v # vs) = {v \<in> set (served_from row (ld_retained L i)). in_interval iv v}" unfolding f [symmetric] by auto
    with max_version_greatest [of v vs] have m: "max_version v vs \<in> set (served_from row (ld_retained L i))" "in_interval iv (max_version v vs)"
      "\<And>u. u \<in> set (served_from row (ld_retained L i)) \<Longrightarrow> in_interval iv u \<Longrightarrow> ver_le (vt u) (vt (max_version v vs))"
      by auto
    have "classify_pin (ld_policy L) (ld_retained L) i (max_version v vs) = Inr None"
      by (rule served_classifies [where retained = "ld_retained L", OF row _ m(1)]) (use assms(1) row in \<open>auto simp: retired_gone_def\<close>)
    moreover have "\<not> (served_or_yanked L i u \<and> in_interval iv u)" if "map_of (pl_rows (ld_prior L)) i = Some u" for u
      using 4(3) that release_not_dev [of u]
      by (auto simp: prior_kept_def served_or_yanked_classifies dest: classified_release split: option.splits if_splits sum.splits)
    ultimately show ?thesis using 4 m s row in_served [of "max_version v vs" row "ld_retained L i"]
      by (auto simp: good_selection_def released_def served_or_yanked_classifies)
  qed
qed

lemma select_all_good:
  "retired_gone L \<Longrightarrow> select_all L cs = Inr (sels, ws) \<Longrightarrow>
    list_all2 (\<lambda>c e. fst e = fst c \<and> good_selection L (fst c) (snd c) (snd e)) cs sels"
proof (induction cs arbitrary: sels ws)
  case (Cons c cs)
  obtain i iv where c: "c = (i, iv)" by (cases c)
  from Cons.prems(2) obtain s ws1 ss us where s: "select_one L i iv = Inr (s, ws1)" "select_all L cs = Inr (ss, us)" "sels = (i, s) # ss"
    by (auto simp: c)
  with Cons.IH [OF Cons.prems(1) s(2)] select_one_good [OF Cons.prems(1) s(1)] show ?case by (simp add: c)
qed simp

text \<open>
  Claim C34. Every released version that is selected lies in the authored interval and is served or yanked, and none is moved
  without need: unless a precise target was named, a version is taken afresh only if the prior lock has no version for the standard,
  or one outside the interval, retired, not carried or out of range. A prior version that was merely yanked stays. What is taken
  afresh is the greatest served version of the interval, never a yanked one. A dev head is taken only where it was opted into.
\<close>

theorem selection_sound:
  assumes "retired_gone L" "select_all L (co_standards (ld_constraints L)) = Inr (sels, ws)"
  shows "list_all2 (\<lambda>c e. fst e = fst c \<and> good_selection L (fst c) (snd c) (snd e)) (co_standards (ld_constraints L)) sels"
  by (rule select_all_good [OF assms])

section \<open>A lock resolves to itself\<close>

lemma release_chars: "is_release v \<Longrightarrow> c \<in> set v \<Longrightarrow> c = CHR ''.'' \<or> (\<exists>d. digit_val c = Some d)"
proof -
  assume r: "is_release v" and c: "c \<in> set v"
  from split_on_chars [OF c, of "CHR ''.''"] show ?thesis
  proof
    assume "\<exists>w \<in> set (split_on (CHR ''.'') v). c \<in> set w"
    then obtain w where w: "w \<in> set (split_on (CHR ''.'') v)" "c \<in> set w" by auto
    from r w(1) obtain n where "digits_val 0 w = Some n" by (auto simp: is_release_def split: list.splits)
    with w(2) digits_val_chars show ?thesis by blast
  qed simp
qed

lemma release_plain: "is_release v \<Longrightarrow> c \<in> set v \<Longrightarrow> c \<noteq> CHR ''^'' \<and> c \<noteq> CHR ''~''"
proof (drule (1) release_chars, elim disjE exE)
  fix d assume "digit_val c = Some d"
  from digit_val_plain [OF this] show ?thesis by blast
qed simp

lemma release_not_sugared: "is_release v \<Longrightarrow> \<not> sugared v"
  unfolding sugared_def using release_plain by blast

lemma dev_label_text:
  assumes "is_dev_label v"
  shows "ends_with v ''-dev'' \<and> \<not> sugared v"
proof -
  from assms have r: "is_release (without_end v ''-dev'')" and e: "ends_with v ''-dev''"
    by (auto simp: is_dev_label_def canonical_release)
  from e have tail: "drop (length v - length ''-dev'') v = ''-dev''" and "without_end v ''-dev'' = take (length v - length ''-dev'') v"
    unfolding ends_with_def without_end_def by simp_all
  then have "v = take (length v - length ''-dev'') v @ ''-dev''" by (metis append_take_drop_id)
  then obtain w where "v = w @ ''-dev''" "is_release w" using r \<open>without_end v ''-dev'' = _\<close> by metis
  with release_not_sugared [of w] e show ?thesis by (auto simp: sugared_def)
qed

lemma update_new: "k \<notin> fst ` set al \<Longrightarrow> AList.update k v al = al @ [(k, v)]"
  by (induction al) auto

lemma text_map_obj [simp]: "text_map (map (\<lambda>(k, v). (k, JStr v)) m) = Some m"
  by (induction m) auto

definition row_proper :: "lock_row \<Rightarrow> bool" where
  "row_proper r \<longleftrightarrow> (if lr_dev r = None then is_release (lr_version r) else is_dev_label (lr_version r))"

definition row_stage :: "lock_row \<Rightarrow> string" where
  "row_stage r = (if lr_dev r = None then ''released'' else ''dev'')"

lemma read_row_back:
  assumes "row_proper r" "lr_id r \<notin> fst ` set rows" "lr_id r \<notin> fst ` set stages"
  shows "read_lock_rows (lock_row_json r # vs) rows stages =
    read_lock_rows vs (rows @ [(lr_id r, lr_version r)]) (stages @ [(lr_id r, row_stage r)])"
proof -
  have "stored_version (JStr (lr_version r)) = Inr (lr_version r)" "ends_with (lr_version r) ''-dev'' \<longleftrightarrow> lr_dev r \<noteq> None"
    using assms(1) release_not_sugared dev_label_text release_not_dev
    by (auto simp: row_proper_def stored_version_def split: if_splits)
  with assms(2,3) show ?thesis by (auto simp: lock_row_json_def obj_get_def update_new row_stage_def)
qed

lemma read_rows_back:
  "list_all row_proper rs \<Longrightarrow> distinct (map lr_id rs) \<Longrightarrow> fst ` set rows \<inter> lr_id ` set rs = {} \<Longrightarrow> fst ` set stages \<inter> lr_id ` set rs = {} \<Longrightarrow>
    read_lock_rows (map lock_row_json rs) rows stages =
      Inr (rows @ map (\<lambda>r. (lr_id r, lr_version r)) rs, stages @ map (\<lambda>r. (lr_id r, row_stage r)) rs)"
proof (induction rs arbitrary: rows stages)
  case (Cons r rs)
  then have "lr_id r \<notin> fst ` set rows" "lr_id r \<notin> fst ` set stages" "row_proper r" by auto
  moreover have "read_lock_rows (map lock_row_json rs) (rows @ [(lr_id r, lr_version r)]) (stages @ [(lr_id r, row_stage r)]) =
      Inr ((rows @ [(lr_id r, lr_version r)]) @ map (\<lambda>r. (lr_id r, lr_version r)) rs,
        (stages @ [(lr_id r, row_stage r)]) @ map (\<lambda>r. (lr_id r, row_stage r)) rs)"
    using Cons.prems by (intro Cons.IH) auto
  ultimately show ?case by (simp add: read_row_back)
qed simp

lemma lock_row_facts:
  assumes "lock_row_of T (i, s) = Inr r" "good_selection L i iv s" "\<And>l sha d. ld_dev L i l sha = Inr d \<Longrightarrow> dv_version d = l"
  shows "lr_id r = i \<and> lr_version r = sl_version s \<and> row_proper r"
  using assms by (auto simp: lock_row_of_def good_selection_def row_proper_def dest: classified_release split: option.splits)

lemma dev_pin_label: "resolve_dev_pin S G hash policy i label sha = Inr d \<Longrightarrow> dv_version d = label"
  unfolding resolve_dev_pin_def Let_def bind_res_Inr_iff
  by (elim exE conjE) (force simp del: append.simps split: option.splits if_splits list.splits)

lemma select_again:
  assumes "good_selection L i iv s" "map_of (ld_policy L) i = Some row" "map_of (pl_rows p) i = Some (sl_version s)"
  shows "\<exists>s' ws'. select_one (L\<lparr>ld_prior := p, ld_precise := []\<rparr>) i iv = Inr (s', ws') \<and> sl_version s' = sl_version s \<and> sl_dev s' = sl_dev s"
proof (cases "sl_dev s")
  case None
  with assms(1) obtain w where w: "classify_pin (ld_policy L) (ld_retained L) i (sl_version s) = Inr w"
    "map_of (co_opt_in (ld_constraints L)) i = None" "in_interval iv (sl_version s)"
    by (auto simp: good_selection_def)
  with assms(2,3) None release_not_dev [OF classified_release [OF w(1)]] show ?thesis
    by (auto simp: select_one_def prior_kept_def released_def)
next
  case (Some d)
  with assms show ?thesis by (auto simp: good_selection_def select_one_def)
qed

lemma select_all_again:
  assumes "list_all2 (\<lambda>c e. fst e = fst c \<and> good_selection L (fst c) (snd c) (snd e)) cs sels"
    "\<forall>c \<in> set cs. map_of (ld_policy L) (fst c) \<noteq> None" "\<forall>e \<in> set sels. map_of (pl_rows p) (fst e) = Some (sl_version (snd e))"
  shows "\<exists>sels' ws'. select_all (L\<lparr>ld_prior := p, ld_precise := []\<rparr>) cs = Inr (sels', ws') \<and>
    map (\<lambda>(i, s). (i, sl_version s, sl_dev s)) sels' = map (\<lambda>(i, s). (i, sl_version s, sl_dev s)) sels"
  using assms
proof (induction cs sels rule: list_all2_induct)
  case (Cons c cs e sels)
  obtain i iv where c: "c = (i, iv)" by (cases c)
  obtain s where e: "e = (i, s)" using Cons(1) c by (cases e) auto
  obtain row where row: "map_of (ld_policy L) i = Some row" using Cons.prems(1) c by auto
  have "good_selection L i iv s" "map_of (pl_rows p) i = Some (sl_version s)" using Cons(1) Cons.prems(2) c e by auto
  from select_again [OF this(1) row this(2)] obtain s' ws where one: "select_one (L\<lparr>ld_prior := p, ld_precise := []\<rparr>) i iv = Inr (s', ws)"
    "sl_version s' = sl_version s" "sl_dev s' = sl_dev s" by blast
  moreover have "\<exists>sels' ws'. select_all (L\<lparr>ld_prior := p, ld_precise := []\<rparr>) cs = Inr (sels', ws') \<and>
      map (\<lambda>(i, s). (i, sl_version s, sl_dev s)) sels' = map (\<lambda>(i, s). (i, sl_version s, sl_dev s)) sels"
    using Cons.prems by (intro Cons.IH) auto
  ultimately show ?case using c e by auto
qed simp

lemma select_known: "select_all L cs = Inr (sels, ws) \<Longrightarrow> c \<in> set cs \<Longrightarrow> map_of (ld_policy L) (fst c) \<noteq> None"
  by (induction cs arbitrary: sels ws) (auto simp: select_one_def split: option.splits)

lemma lock_rows_facts:
  assumes "map_res (lock_row_of T) sels = Inr rs" "\<forall>e \<in> set sels. \<exists>iv. good_selection L (fst e) iv (snd e)"
    "\<And>i l sha d. ld_dev L i l sha = Inr d \<Longrightarrow> dv_version d = l"
  shows "map (\<lambda>r. (lr_id r, lr_version r)) rs = map (\<lambda>(i, s). (i, sl_version s)) sels \<and> list_all row_proper rs"
  using assms(1,2)
proof (induction sels arbitrary: rs)
  case (Cons e sels)
  obtain i s where e: "e = (i, s)" by (cases e)
  from Cons.prems(1) obtain r rs' where r: "lock_row_of T (i, s) = Inr r" "map_res (lock_row_of T) sels = Inr rs'" "rs = r # rs'" by (auto simp: e)
  obtain iv where "good_selection L i iv s" using Cons.prems(2) e by auto
  from lock_row_facts [OF r(1) this assms(3)] Cons.IH [OF r(2)] Cons.prems(2) r(3) e show ?case by auto
qed simp

text \<open>
  Claim C35. A lock is stable: the document a resolution writes reads back as a prior lock with the same provenance, rows and files, and
  resolving the same constraints over it, with no override, selects the same versions and heads again, so resolution converges in
  one step.
\<close>

theorem lock_resolves_to_itself:
  assumes "retired_gone L" "distinct (map fst (co_standards (ld_constraints L)))" "ld_dev L = resolve_dev_pin S G (tr_hash T) (ld_policy L)"
    "pl_repository (ld_prior L) \<noteq> []" "pl_revision (ld_prior L) \<noteq> []" "revision \<noteq> Some []"
    "resolve_package valid T G cross revision L = Inr (k, sels, ws)"
  shows "\<exists>p sels' ws'. load_prior_lock (lock_json k) = Inr p \<and> pl_repository p = lk_repository k \<and> pl_revision p = lk_revision k \<and>
    pl_files p = lk_files k \<and> pl_rows p = map (\<lambda>(i, s). (i, sl_version s)) sels \<and>
    select_all (L\<lparr>ld_prior := p, ld_precise := []\<rparr>) (co_standards (ld_constraints L)) = Inr (sels', ws') \<and>
    map (\<lambda>(i, s). (i, sl_version s, sl_dev s)) sels' = map (\<lambda>(i, s). (i, sl_version s, sl_dev s)) sels"
proof -
  let ?cs = "co_standards (ld_constraints L)"
  from assms(7) have sel: "select_all L ?cs = Inr (sels, ws)" and rows: "map_res (lock_row_of T) sels = Inr (lk_rows k)"
    and names: "lk_repository k = pl_repository (ld_prior L)"
      "lk_revision k = (case revision of None \<Rightarrow> pl_revision (ld_prior L) | Some r \<Rightarrow> r)"
    by (auto simp: resolve_package_def Let_def lock_fault_def split: option.splits if_splits prod.splits)
  have good: "list_all2 (\<lambda>c e. fst e = fst c \<and> good_selection L (fst c) (snd c) (snd e)) ?cs sels"
    by (rule select_all_good [OF assms(1) sel])
  have ids: "map fst sels = map fst ?cs" using good by (induction rule: list_all2_induct) auto
  have each: "\<forall>e \<in> set sels. \<exists>iv. good_selection L (fst e) iv (snd e)" using good by (induction rule: list_all2_induct) (simp, metis set_ConsD)
  have "map (\<lambda>r. (lr_id r, lr_version r)) (lk_rows k) = map (\<lambda>(i, s). (i, sl_version s)) sels \<and> list_all row_proper (lk_rows k)"
    by (rule lock_rows_facts [OF rows each]) (auto simp: assms(3) dest: dev_pin_label)
  then have lr: "map (\<lambda>r. (lr_id r, lr_version r)) (lk_rows k) = map (\<lambda>(i, s). (i, sl_version s)) sels" "list_all row_proper (lk_rows k)" by auto
  have "map lr_id (lk_rows k) = map fst (map (\<lambda>r. (lr_id r, lr_version r)) (lk_rows k))" by (simp add: comp_def)
  also have "\<dots> = map fst ?cs" unfolding lr(1) ids [symmetric] by (induction sels) auto
  finally have dist: "distinct (map lr_id (lk_rows k))" using assms(2) by simp
  let ?p = "\<lparr>pl_version = 2, pl_repository = lk_repository k, pl_revision = lk_revision k, pl_rows = map (\<lambda>(i, s). (i, sl_version s)) sels,
    pl_files = lk_files k, pl_stages = map (\<lambda>r. (lr_id r, row_stage r)) (lk_rows k)\<rparr>"
  have "lk_repository k \<noteq> []" "lk_revision k \<noteq> []" using names assms(4-6) by (auto split: option.split)
  moreover have "read_lock_rows (map lock_row_json (lk_rows k)) [] [] =
      Inr (map (\<lambda>(i, s). (i, sl_version s)) sels, map (\<lambda>r. (lr_id r, row_stage r)) (lk_rows k))"
    using read_rows_back [OF lr(2) dist, of "[]" "[]"] lr(1) by simp
  ultimately have reads: "load_prior_lock (lock_json k) = Inr ?p"
    by (simp add: load_prior_lock_def lock_json_def nonempty_member_def obj_get_def py_two_def read_files_def text_obj_def)
  have "\<forall>e \<in> set sels. map_of (pl_rows ?p) (fst e) = Some (sl_version (snd e))"
  proof
    fix e assume "e \<in> set sels"
    then have "(fst e, sl_version (snd e)) \<in> set (pl_rows ?p)" by (auto simp: image_iff case_prod_unfold intro!: bexI [of _ e])
    moreover have "distinct (map fst (pl_rows ?p))" using assms(2) unfolding ids [symmetric] by (simp add: comp_def case_prod_unfold)
    ultimately show "map_of (pl_rows ?p) (fst e) = Some (sl_version (snd e))" by simp
  qed
  from select_all_again [OF good _ this] select_known [OF sel] obtain sels' ws' where
    "select_all (L\<lparr>ld_prior := ?p, ld_precise := []\<rparr>) ?cs = Inr (sels', ws')"
    "map (\<lambda>(i, s). (i, sl_version s, sl_dev s)) sels' = map (\<lambda>(i, s). (i, sl_version s, sl_dev s)) sels" by blast
  with reads show ?thesis by (intro exI [of _ ?p] exI [of _ sels'] exI [of _ ws']) simp
qed

section \<open>A sample lock\<close>

text \<open>A prior lock that points below the interval, so that the resolver moves it past the yanked version.\<close>

definition sample_tree :: tree where
  "sample_tree = \<lparr>tr_dir = (\<lambda>v. v = ''0.2.2''), tr_listing = (\<lambda>v. [(''notes.md'', ''aa''), (schema_name, ''bb'')]),
     tr_file = (\<lambda>p. Some (''bb'', JObj [(''$defs'', JObj [(''adapter'', JObj [(''properties'', JObj [(''api_version'',
       JObj [(''const'', JStr ''0.2'')])])])])])),
     tr_rows = [(''otdp/0.2.1/a.json'', ''cc''), (''otdp/0.2.2/'' @ schema_name, ''bb'')], tr_hash = (\<lambda>ps. concat (map snd ps))\<rparr>"

definition no_store :: object_store where
  "no_store = \<lparr>gt_names = (\<lambda>_ _. None), gt_blob = (\<lambda>_ _. None)\<rparr>"

definition sample_prior :: prior_lock where
  "sample_prior = \<lparr>pl_version = 1, pl_repository = ''repo'', pl_revision = ''rev1'', pl_rows = [(''otdp'', ''0.1.0'')],
     pl_files = [(''notes.md'', ''00'')], pl_stages = [(''otdp'', ''released'')]\<rparr>"

definition sample_ladder :: ladder where
  "sample_ladder = \<lparr>ld_policy = [(''otdp'', sample_policy)], ld_retained = (\<lambda>s. retained_from s (st_paths sample_state)),
     ld_constraints = \<lparr>co_standards = [(''otdp'', (''0.2.0'', ''0.3.0''))], co_opt_in = []\<rparr>, ld_prior = sample_prior, ld_precise = [],
     ld_dev = resolve_dev_pin sample_state no_store (tr_hash sample_tree) [(''otdp'', sample_policy)]\<rparr>"

definition sample_cross :: "fault + cross_row list" where
  "sample_cross = Inr [\<lparr>cr_standard = ''otdp'', cr_version = ''0.2.2'', cr_requires = [(''adapter_api'', ''0.2'')], cr_evidence = ''e''\<rparr>]"

lemma sample_retained: "retained_from ''otdp'' (st_paths sample_state) = [''0.1.0'', ''0.2.1'', ''0.2.2'']"
  by code_simp

lemma sample_retired_gone: "retired_gone sample_ladder"
proof -
  have "list_all (\<lambda>v. is_release v \<and> v \<notin> set (sp_retired sample_policy)) [''0.1.0'', ''0.2.1'', ''0.2.2'']" by code_simp
  then show ?thesis by (simp add: retired_gone_def sample_ladder_def sample_retained)
qed

lemma sample_resolves:
  obtains k sels ws where "resolve_package (\<lambda>_. True) sample_tree no_store sample_cross None sample_ladder = Inr (k, sels, ws)"
    "lk_otdp k = ''0.2.2''" "map fst sels = [''otdp'']"
proof -
  have "(case resolve_package (\<lambda>_. True) sample_tree no_store sample_cross None sample_ladder of
      Inr (k, sels, ws) \<Rightarrow> lk_otdp k = ''0.2.2'' \<and> map fst sels = [''otdp''] | Inl _ \<Rightarrow> False)" by code_simp
  then show thesis by (auto split: sum.splits intro: that)
qed

theorem selection_sound_witness:
  "\<exists>s ws. select_all sample_ladder (co_standards (ld_constraints sample_ladder)) = Inr ([(''otdp'', s)], ws) \<and>
    good_selection sample_ladder ''otdp'' (''0.2.0'', ''0.3.0'') s \<and> sl_version s = ''0.2.2''"
proof -
  let ?s = "released ''0.2.2'' AutoHighest (''0.2.0'', ''0.3.0'') None [''0.2.2'']"
  have s: "select_all sample_ladder (co_standards (ld_constraints sample_ladder)) = Inr ([(''otdp'', ?s)], [])" by code_simp
  have "co_standards (ld_constraints sample_ladder) = [(''otdp'', (''0.2.0'', ''0.3.0''))]" by (simp add: sample_ladder_def)
  with selection_sound [OF sample_retired_gone s] have "good_selection sample_ladder ''otdp'' (''0.2.0'', ''0.3.0'') ?s" by simp
  moreover have "sl_version ?s = ''0.2.2''" by (simp add: released_def)
  ultimately show ?thesis using s by blast
qed

theorem lock_resolves_to_itself_witness:
  "\<exists>k sels ws p. resolve_package (\<lambda>_. True) sample_tree no_store sample_cross None sample_ladder = Inr (k, sels, ws) \<and>
    load_prior_lock (lock_json k) = Inr p \<and> pl_rows p = map (\<lambda>(i, s). (i, sl_version s)) sels \<and> lk_otdp k = ''0.2.2''"
proof -
  obtain k sels ws where r: "resolve_package (\<lambda>_. True) sample_tree no_store sample_cross None sample_ladder = Inr (k, sels, ws)"
    and k: "lk_otdp k = ''0.2.2''" using sample_resolves by blast
  have d: "distinct (map fst (co_standards (ld_constraints sample_ladder)))"
    "ld_dev sample_ladder = resolve_dev_pin sample_state no_store (tr_hash sample_tree) (ld_policy sample_ladder)"
    "pl_repository (ld_prior sample_ladder) \<noteq> []" "pl_revision (ld_prior sample_ladder) \<noteq> []" "None \<noteq> Some ([] :: string)"
    by (simp_all add: sample_ladder_def sample_prior_def)
  from lock_resolves_to_itself [OF sample_retired_gone d r] r k show ?thesis by blast
qed

end
