(* ===== verification/Grants.thy ===== *)
theory Grants
  imports Versions Derivation
begin

text \<open>
  What a run must have been granted: the commissioned transport providers and their endpoints (\<open>control/provider_settings.py\<close>),
  the admission of a descriptor that declares one, and the two window gates of a start (\<open>control/documents.py\<close>). Documents
  are decoded ones; schema validation and the reading of a file are parameters. A refusal is the machine-matchable prefix with its
  subject.
\<close>

datatype refusal = Rejected string string | SettingsRejected string string | Faulted fault

definition rejected :: "string \<Rightarrow> string \<Rightarrow> refusal + 'a" where
  "rejected code who = Inl (Rejected code who)"

definition settings_rejected :: "string \<Rightarrow> refusal + 'a" where
  "settings_rejected who = Inl (SettingsRejected ''settings_schema'' who)"

definition connections_rejected :: "string \<Rightarrow> refusal + 'a" where
  "connections_rejected who = Inl (SettingsRejected ''connections_schema'' who)"

definition raised :: "exn \<Rightarrow> refusal + 'a" where
  "raised e = Inl (Faulted (Escape e))"

section \<open>Package-relative paths\<close>

definition path_parts :: "string \<Rightarrow> string list" where
  "path_parts p = split_on (CHR ''/'') p"

definition package_path_ok :: "string \<Rightarrow> bool" where
  "package_path_ok p \<longleftrightarrow> p \<noteq> [] \<and> CHR 0x5C \<notin> set p \<and> CHR '':'' \<notin> set p \<and> \<not> prefix ''/'' p \<and>
     list_all (\<lambda>c. c \<noteq> ''.'' \<and> c \<noteq> ''..'' \<and> c \<noteq> []) (path_parts p)"

text \<open>The files below a directory, by their parts; the left summand is the number of an \<open>OSError\<close>.\<close>

record files =
  fl_link :: "string list \<Rightarrow> int + bool"
  fl_regular :: "string list \<Rightarrow> int + bool"
  fl_size :: "string list \<Rightarrow> int + nat"
  fl_read :: "string list \<Rightarrow> int + string"

text \<open>Is one of the paths on the way to a target a symbolic link?\<close>

fun crosses_link :: "files \<Rightarrow> string list \<Rightarrow> string list \<Rightarrow> int + bool" where
  "crosses_link F target [] = Inr False"
| "crosses_link F target (c # cs) = bind_res (fl_link F (target @ [c])) (\<lambda>b. if b then Inr True else crosses_link F (target @ [c]) cs)"

section \<open>Commissioned providers\<close>

record provider =
  pv_id :: string
  pv_version :: string
  pv_sha :: string
  pv_feature :: string
  pv_document :: pyval

record registry =
  rg_admitted :: "provider list"
  rg_connections :: "(string \<times> string) list"

definition feature_ids :: "registry \<Rightarrow> string list" where
  "feature_ids R = map pv_feature (rg_admitted R)"

definition find_provider :: "registry \<Rightarrow> pyval \<Rightarrow> string option \<Rightarrow> pyval \<Rightarrow> provider option" where
  "find_provider R i version sha = find (\<lambda>p. JStr (pv_id p) = i \<and> Some (pv_version p) = version \<and> JStr (pv_sha p) = sha) (rg_admitted R)"

definition resolve_connection :: "registry \<Rightarrow> pyval \<Rightarrow> provider option" where
  "resolve_connection R key = (case key of
      JStr k \<Rightarrow> (case map_of (rg_connections R) k of
          None \<Rightarrow> None | Some i \<Rightarrow> find (\<lambda>p. pv_id p = i) (rg_admitted R))
    | _ \<Rightarrow> None)"

definition bound_keys :: "registry \<Rightarrow> string list" where
  "bound_keys R = map fst (rg_connections R)"

definition member_text :: "pyval \<Rightarrow> string \<Rightarrow> refusal + string" where
  "member_text v k = (case sub_obj v k of JStr s \<Rightarrow> Inr s | _ \<Rightarrow> raised (KeyError k))"

text \<open>
  \<open>load_transport_settings\<close> after the schema: an admitted document is read from its relative path (\<open>load\<close>: its content if its bytes
  have the expected digest, \<open>True\<close> for a digest mismatch otherwise) and must satisfy the provider-contract schema.
\<close>

record settings_env =
  se_valid :: "pyval \<Rightarrow> bool"
  se_files :: files
  se_load :: "string \<Rightarrow> string \<Rightarrow> bool + pyval"
  se_contract :: "pyval \<Rightarrow> bool"

definition read_admitted :: "settings_env \<Rightarrow> string \<Rightarrow> string \<Rightarrow> refusal + pyval" where
  "read_admitted E path sha =
     (if \<not> package_path_ok path then settings_rejected path
      else (case crosses_link (se_files E) [] (path_parts path) of
          Inl _ \<Rightarrow> raised (RuntimeError ''OSError'')
        | Inr True \<Rightarrow> settings_rejected path
        | Inr False \<Rightarrow> (case fl_read (se_files E) (path_parts path) of
              Inl _ \<Rightarrow> settings_rejected path
            | Inr raw \<Rightarrow> (case se_load E raw sha of
                  Inl mismatch \<Rightarrow> Inl (SettingsRejected (if mismatch then ''settings_digest_mismatch'' else ''settings_schema'') path)
                | Inr content \<Rightarrow> if se_contract E content then Inr content else settings_rejected path))))"

fun read_providers :: "settings_env \<Rightarrow> pyval list \<Rightarrow> (string \<times> string \<times> string) list \<Rightarrow> refusal + provider list" where
  "read_providers E [] seen = Inr []"
| "read_providers E (v # vs) seen =
     bind_res (member_text v ''id'') (\<lambda>i. bind_res (member_text v ''version'') (\<lambda>version. bind_res (member_text v ''sha256'') (\<lambda>sha.
     if (i, version, sha) \<in> set seen \<or> (i, version) \<in> (\<lambda>(i, v, h). (i, v)) ` set seen then settings_rejected i
     else bind_res (member_text v ''document'') (\<lambda>path. bind_res (read_admitted E path sha) (\<lambda>content.
       bind_res (member_text v ''feature_id'') (\<lambda>feature.
       bind_res (read_providers E vs ((i, version, sha) # seen)) (\<lambda>ps.
       Inr (\<lparr>pv_id = i, pv_version = version, pv_sha = sha, pv_feature = feature, pv_document = content\<rparr> # ps))))))))"

fun read_bindings :: "string list \<Rightarrow> pyval list \<Rightarrow> string list \<Rightarrow> refusal + (string \<times> string) list" where
  "read_bindings known [] seen = Inr []"
| "read_bindings known (v # vs) seen =
     bind_res (member_text v ''connection_key'') (\<lambda>key. bind_res (member_text v ''provider_id'') (\<lambda>i.
     if key \<in> set seen then settings_rejected key
     else if i \<notin> set known then settings_rejected key
     else bind_res (read_bindings known vs (key # seen)) (\<lambda>bs. Inr ((key, i) # bs))))"

definition load_transport_settings :: "settings_env \<Rightarrow> pyval \<Rightarrow> refusal + registry" where
  "load_transport_settings E doc =
     (if \<not> se_valid E doc then settings_rejected []
      else bind_res (read_providers E (items_of (sub_obj doc ''admitted'')) []) (\<lambda>ps.
        bind_res (read_bindings (map pv_id ps) (items_of (sub_obj doc ''connections'')) []) (\<lambda>bs.
        Inr \<lparr>rg_admitted = ps, rg_connections = bs\<rparr>)))"

section \<open>Commissioned endpoints\<close>

record usb_identity =
  us_vendor :: int
  us_product :: int
  us_serial :: string
  us_interface :: int

type_synonym connections = "(string \<times> usb_identity) list"

definition resolve_endpoint :: "connections \<Rightarrow> pyval \<Rightarrow> usb_identity option" where
  "resolve_endpoint C key = (case key of JStr k \<Rightarrow> map_of C k | _ \<Rightarrow> None)"

definition keys_on :: "connections \<Rightarrow> usb_identity \<Rightarrow> string list" where
  "keys_on C u = map fst (filter (\<lambda>b. snd b = u) C)"

fun as_int :: "pyval \<Rightarrow> int option" where
  "as_int (JInt i) = Some i"
| "as_int (JBool b) = Some (if b then 1 else 0)"
| "as_int (JFloat (Fin r)) = Some (if 0 \<le> r then \<lfloor>r\<rfloor> else \<lceil>r\<rceil>)"
| "as_int _ = None"

definition read_usb :: "pyval \<Rightarrow> refusal + usb_identity" where
  "read_usb v = (case (as_int (sub_obj v ''vendor_id''), as_int (sub_obj v ''product_id''), sub_obj v ''serial'', as_int (sub_obj v ''interface'')) of
      (Some a, Some b, JStr s, Some i) \<Rightarrow> Inr \<lparr>us_vendor = a, us_product = b, us_serial = s, us_interface = i\<rparr>
    | _ \<Rightarrow> raised (KeyError ''usb''))"

fun read_endpoints :: "string list \<Rightarrow> pyval list \<Rightarrow> string list \<Rightarrow> (usb_identity \<times> string) list \<Rightarrow> refusal + connections" where
  "read_endpoints bound [] keys seen = Inr []"
| "read_endpoints bound (v # vs) keys seen = bind_res (member_text v ''connection_key'') (\<lambda>key.
     if key \<in> set keys then connections_rejected key
     else if key \<notin> set bound then connections_rejected key
     else bind_res (read_usb (sub_obj v ''usb'')) (\<lambda>u.
       if map_of seen u \<noteq> None then connections_rejected key
       else bind_res (read_endpoints bound vs (key # keys) ((u, key) # seen)) (\<lambda>cs. Inr ((key, u) # cs))))"

text \<open>The backend probe comes first; \<open>file\<close> is the decoded document, or that it could not be read or decoded.\<close>

definition load_provider_connections :: "(refusal + unit) \<Rightarrow> (pyval \<Rightarrow> bool) \<Rightarrow> pyval option \<Rightarrow> registry \<Rightarrow> refusal + connections" where
  "load_provider_connections probe valid file R = bind_res probe (\<lambda>_. case file of
      None \<Rightarrow> connections_rejected []
    | Some doc \<Rightarrow> if \<not> valid doc then connections_rejected []
        else read_endpoints (bound_keys R) (items_of (sub_obj doc ''connections'')) [] [])"

section \<open>Instants\<close>

text \<open>\<open>a <= b\<close> of datetimes: \<open>TypeError\<close> between a naive and an aware one.\<close>

definition moment_le :: "moment \<Rightarrow> moment \<Rightarrow> bool option" where
  "moment_le a b = (if (utc_offset a = None) = (utc_offset b = None) then Some (instant a \<le> instant b) else None)"

fun int_like :: "pyval \<Rightarrow> int option" where
  "int_like (JInt i) = Some i"
| "int_like (JBool b) = Some (if b then 1 else 0)"
| "int_like _ = None"

text \<open>\<open>now + timedelta(milliseconds=ms) > expires\<close>; \<open>None\<close> where that raises.\<close>

definition window_exceeded :: "moment \<Rightarrow> int \<Rightarrow> moment \<Rightarrow> bool option" where
  "window_exceeded now ms expires = (case plus_us now (ms * 1000) of
      Inl _ \<Rightarrow> None | Inr t \<Rightarrow> map_option Not (moment_le t expires))"

section \<open>The run gates\<close>

definition grant_modes :: "(pyval \<Rightarrow> string) \<Rightarrow> obj \<Rightarrow> string list" where
  "grant_modes txt commissioning = (case obj_get commissioning ''modes'' of JList vs \<Rightarrow> map (py_str txt) vs | _ \<Rightarrow> [])"

definition unattended_rows :: "obj \<Rightarrow> obj list" where
  "unattended_rows commissioning = concat (map (\<lambda>v. case v of
      JObj r \<Rightarrow> if obj_get r ''category'' = JStr ''unattended'' then [r] else [] | _ \<Rightarrow> []) (items_of (obj_get commissioning ''evidence'')))"

definition check_expiry :: "(pyval \<Rightarrow> string) \<Rightarrow> string \<Rightarrow> pyval \<Rightarrow> refusal + moment \<times> moment" where
  "check_expiry txt now_wall expires = (case (fromisoformat (py_str txt expires), fromisoformat now_wall) of
      (Some e, Some n) \<Rightarrow> (case moment_le e n of
          Some False \<Rightarrow> Inr (n, e) | _ \<Rightarrow> rejected ''qualification_expired'' [])
    | _ \<Rightarrow> rejected ''qualification_expired'' [])"

definition check_window :: "obj \<Rightarrow> moment \<times> moment \<Rightarrow> refusal + unit" where
  "check_window procedure nx = (case (int_like (obj_get procedure ''max_body_ms''), int_like (obj_get procedure ''max_protection_ms'')) of
      (Some b, Some p) \<Rightarrow> (case window_exceeded (fst nx) (b + p) (snd nx) of
          Some False \<Rightarrow> Inr () | _ \<Rightarrow> rejected ''qualification_window_exceeded'' [])
    | _ \<Rightarrow> rejected ''qualification_window_exceeded'' [])"

definition check_unattended_grant :: "(pyval \<Rightarrow> string) \<Rightarrow> obj \<Rightarrow> obj \<Rightarrow> string \<Rightarrow> bool \<Rightarrow> refusal + unit" where
  "check_unattended_grant txt procedure commissioning now_wall lease_present =
     (let mode = obj_get procedure ''mode''; modes = grant_modes txt commissioning in
      if mode = JStr ''gateway_owned'' \<and> ''unattended'' \<notin> set modes then rejected ''unattended_grant_absent'' []
      else if ''unattended'' \<in> set modes \<and> \<not> list_ex (\<lambda>r. obj_get r ''result'' = JStr ''passed'') (unattended_rows commissioning)
      then rejected ''unattended_evidence_failed'' []
      else bind_res (check_expiry txt now_wall (obj_get commissioning ''expires_at'')) (\<lambda>nx.
        bind_res (check_window procedure nx) (\<lambda>_.
        if mode = JStr ''manual'' \<and> \<not> lease_present then rejected ''manual_lease_required'' [] else Inr ())))"

text \<open>The window gate of the provider approvals.\<close>

definition check_approval :: "(pyval \<Rightarrow> string) \<Rightarrow> string \<Rightarrow> pyval \<Rightarrow> pyval \<Rightarrow> string \<times> string \<times> pyval \<Rightarrow> refusal + unit" where
  "check_approval txt now_wall body protection a = (case a of (logical, i, expires) \<Rightarrow>
     (let refuse = rejected ''provider_grant_window_exceeded'' logical in
     case (fromisoformat (py_str txt expires), fromisoformat now_wall) of
       (Some e, Some n) \<Rightarrow> (case (int_like body, int_like protection) of
           (Some b, Some p) \<Rightarrow> (case window_exceeded n (b + p) e of Some False \<Rightarrow> Inr () | _ \<Rightarrow> refuse)
         | _ \<Rightarrow> refuse)
     | _ \<Rightarrow> refuse))"

definition check_provider_grant_window :: "(pyval \<Rightarrow> string) \<Rightarrow> (string \<times> string \<times> pyval) list \<Rightarrow> string \<Rightarrow> pyval \<Rightarrow> pyval \<Rightarrow> refusal + unit" where
  "check_provider_grant_window txt approvals now_wall body protection = check_each (check_approval txt now_wall body protection) approvals"

section \<open>Provider admission\<close>

text \<open>The version a declaration names is the fifth part of its URN.\<close>

definition declared_version :: "pyval \<Rightarrow> string option" where
  "declared_version i = (case i of
      JStr s \<Rightarrow> (case split_on (CHR '':'') s of [_, _, _, _, v] \<Rightarrow> Some v | _ \<Rightarrow> None)
    | _ \<Rightarrow> None)"

definition declared_provider :: "obj \<Rightarrow> (obj \<times> obj) option" where
  "declared_provider descriptor = (case obj_get descriptor ''transport'' of
      JObj t \<Rightarrow> (case obj_get t ''provider'' of JObj p \<Rightarrow> Some (t, p) | _ \<Rightarrow> None)
    | _ \<Rightarrow> None)"

definition approval_expiry :: "pyval \<Rightarrow> pyval" where
  "approval_expiry document = sub_obj (sub_obj document ''approval'') ''expires_at''"

definition check_provider_admission :: "(pyval \<Rightarrow> string) \<Rightarrow> string \<Rightarrow> obj \<Rightarrow> registry option \<Rightarrow> string option \<Rightarrow> refusal + unit" where
  "check_provider_admission txt logical descriptor state now_wall = (case declared_provider descriptor of
      None \<Rightarrow> Inr ()
    | Some (t, p) \<Rightarrow>
        let refuse = rejected ''provider_not_admitted'' logical; i = obj_get p ''id''; sha = obj_get p ''sha256'' in
        (case state of
          None \<Rightarrow> refuse
        | Some R \<Rightarrow> (case find_provider R i (declared_version i) sha of
            None \<Rightarrow> refuse
          | Some entry \<Rightarrow> (case now_wall of
              None \<Rightarrow> refuse
            | Some wall \<Rightarrow> (case (fromisoformat (py_str txt (approval_expiry (pv_document entry))), fromisoformat wall) of
                (Some e, Some n) \<Rightarrow> (case moment_le e n of
                    Some False \<Rightarrow> (case resolve_connection R (obj_get t ''connection_key'') of
                        None \<Rightarrow> refuse
                      | Some b \<Rightarrow> if JStr (pv_id b) = i \<and> Some (pv_version b) = declared_version i \<and> JStr (pv_sha b) = sha
                          then Inr () else refuse)
                  | _ \<Rightarrow> refuse)
              | _ \<Rightarrow> refuse)))))"

record grant_facts =
  gf_feature :: string
  gf_id :: string
  gf_version :: string
  gf_sha :: string
  gf_key :: pyval
  gf_usb :: usb_identity

definition provider_grant_facts :: "obj \<Rightarrow> registry option \<Rightarrow> connections option \<Rightarrow> grant_facts option" where
  "provider_grant_facts descriptor state endpoints = (case declared_provider descriptor of
      None \<Rightarrow> None
    | Some (t, p) \<Rightarrow> (case (case state of None \<Rightarrow> None
          | Some R \<Rightarrow> find_provider R (obj_get p ''id'') (declared_version (obj_get p ''id'')) (obj_get p ''sha256'')) of
        None \<Rightarrow> None
      | Some entry \<Rightarrow> (case (case endpoints of None \<Rightarrow> None | Some C \<Rightarrow> resolve_endpoint C (obj_get t ''connection_key'')) of
          None \<Rightarrow> None
        | Some u \<Rightarrow> Some \<lparr>gf_feature = pv_feature entry, gf_id = pv_id entry, gf_version = pv_version entry, gf_sha = pv_sha entry,
            gf_key = obj_get t ''connection_key'', gf_usb = u\<rparr>)))"

section \<open>What the documents grant\<close>

lemma read_endpoints_sound:
  "read_endpoints bound vs keys seen = Inr C \<Longrightarrow>
    distinct (map fst C) \<and> distinct (map snd C) \<and> set (map fst C) \<subseteq> set bound \<and> set (map fst C) \<inter> set keys = {} \<and>
    set (map snd C) \<inter> fst ` set seen = {}"
proof (induction bound vs keys seen arbitrary: C rule: read_endpoints.induct)
  case (2 bound v vs keys seen)
  from 2(2) obtain key u cs where u: "member_text v ''connection_key'' = Inr key" "key \<notin> set keys" "key \<in> set bound"
    "read_usb (sub_obj v ''usb'') = Inr u" "map_of seen u = None" "read_endpoints bound vs (key # keys) ((u, key) # seen) = Inr cs" "C = (key, u) # cs"
    by (auto simp: connections_rejected_def split: if_splits)
  moreover have "u \<notin> fst ` set seen" using u(5) by (simp add: map_of_eq_None_iff)
  ultimately show ?case using 2(1) [of key u cs] by auto
qed simp

lemma one_key: "distinct (map snd C) \<Longrightarrow> (k, u) \<in> set C \<Longrightarrow> filter (\<lambda>b. snd b = u) C = [(k, u)]"
proof (induction C)
  case (Cons b C)
  show ?case
  proof (cases "snd b = u")
    case True
    with Cons.prems have "u \<notin> snd ` set C" by auto
    then have "filter (\<lambda>b. snd b = u) C = []" by (auto simp: filter_empty_conv)
    moreover have "b = (k, u)" using Cons.prems(2) \<open>u \<notin> snd ` set C\<close> by (auto simp: image_iff)
    ultimately show ?thesis by simp
  qed (use Cons in auto)
qed simp

text \<open>
  Claim C39. An endpoint belongs to one connection: in the endpoints that are loaded each key is one the settings bind, each key has one
  USB identity and each identity one key, so the conflict check of a grant finds exactly the key it asks for.
\<close>

theorem endpoints_exclusive:
  assumes "load_provider_connections probe valid file R = Inr C" "(k, u) \<in> set C"
  shows "k \<in> set (bound_keys R) \<and> resolve_endpoint C (JStr k) = Some u \<and> keys_on C u = [k]"
proof -
  from assms(1) obtain doc where "read_endpoints (bound_keys R) (items_of (sub_obj doc ''connections'')) [] [] = Inr C"
    by (auto simp: load_provider_connections_def connections_rejected_def split: option.splits if_splits)
  from read_endpoints_sound [OF this] have "distinct (map fst C)" "distinct (map snd C)" "set (map fst C) \<subseteq> set (bound_keys R)" by auto
  with assms(2) one_key [of C k u] show ?thesis by (force simp: resolve_endpoint_def keys_on_def)
qed

lemma read_providers_sound:
  "read_providers E vs seen = Inr ps \<Longrightarrow> distinct (map (\<lambda>p. (pv_id p, pv_version p)) ps) \<and>
    set (map (\<lambda>p. (pv_id p, pv_version p)) ps) \<inter> (\<lambda>(i, v, h). (i, v)) ` set seen = {}"
proof (induction E vs seen arbitrary: ps rule: read_providers.induct)
  case (2 E v vs seen)
  from 2(2) obtain i version sha path content feature rest where u: "member_text v ''id'' = Inr i" "member_text v ''version'' = Inr version"
    "member_text v ''sha256'' = Inr sha" "(i, version) \<notin> (\<lambda>(i, v, h). (i, v)) ` set seen" "(i, version, sha) \<notin> set seen"
    "member_text v ''document'' = Inr path" "read_admitted E path sha = Inr content" "member_text v ''feature_id'' = Inr feature"
    "read_providers E vs ((i, version, sha) # seen) = Inr rest"
    "ps = \<lparr>pv_id = i, pv_version = version, pv_sha = sha, pv_feature = feature, pv_document = content\<rparr> # rest"
    by (auto simp: settings_rejected_def split: if_splits)
  from 2(1) [of i version sha rest] u(4,5,9) have "distinct (map (\<lambda>p. (pv_id p, pv_version p)) rest)"
    "set (map (\<lambda>p. (pv_id p, pv_version p)) rest) \<inter> insert (i, version) ((\<lambda>(i, v, h). (i, v)) ` set seen) = {}" by auto
  with u(4,10) show ?case by auto
qed simp

lemma read_bindings_sound:
  "read_bindings known vs seen = Inr bs \<Longrightarrow> distinct (map fst bs) \<and> snd ` set bs \<subseteq> set known \<and> fst ` set bs \<inter> set seen = {}"
proof (induction known vs seen arbitrary: bs rule: read_bindings.induct)
  case (2 known v vs seen)
  from 2(2) obtain key i rest where u: "member_text v ''connection_key'' = Inr key" "member_text v ''provider_id'' = Inr i"
    "key \<notin> set seen" "i \<in> set known" "read_bindings known vs (key # seen) = Inr rest" "bs = (key, i) # rest"
    by (auto simp: settings_rejected_def split: if_splits)
  from 2(1) [where x = key and bs = rest] u show ?case by auto
qed simp

lemma settings_sound:
  assumes "load_transport_settings E doc = Inr R"
  shows "distinct (map (\<lambda>p. (pv_id p, pv_version p)) (rg_admitted R))" "distinct (bound_keys R)"
    "\<And>k i. (k, i) \<in> set (rg_connections R) \<Longrightarrow> i \<in> pv_id ` set (rg_admitted R)"
proof -
  from assms obtain ps bs where u: "read_providers E (items_of (sub_obj doc ''admitted'')) [] = Inr ps"
    "read_bindings (map pv_id ps) (items_of (sub_obj doc ''connections'')) [] = Inr bs" "R = \<lparr>rg_admitted = ps, rg_connections = bs\<rparr>"
    by (auto simp: load_transport_settings_def settings_rejected_def split: if_splits)
  from read_providers_sound [OF u(1)] read_bindings_sound [OF u(2)] u(3)
  show "distinct (map (\<lambda>p. (pv_id p, pv_version p)) (rg_admitted R))" "distinct (bound_keys R)"
    "\<And>k i. (k, i) \<in> set (rg_connections R) \<Longrightarrow> i \<in> pv_id ` set (rg_admitted R)"
    by (auto simp: bound_keys_def)
qed

text \<open>
  Claim C40. A descriptor with a transport provider is admitted only under loaded settings, and then its declaration names one admitted
  contract by id, version and digest; its connection is bound to that same contract, and the approval of the contract
  expires after the admission instant.
\<close>

theorem provider_admission_sound:
  assumes "load_transport_settings E doc = Inr R" "declared_provider descriptor = Some (t, p)"
    "check_provider_admission txt logical descriptor state wall = Inr ()" "state = None \<or> state = Some R"
  shows "\<exists>entry \<in> set (rg_admitted R). state = Some R \<and> obj_get p ''id'' = JStr (pv_id entry) \<and>
    declared_version (obj_get p ''id'') = Some (pv_version entry) \<and> obj_get p ''sha256'' = JStr (pv_sha entry) \<and>
    resolve_connection R (obj_get t ''connection_key'') = Some entry \<and>
    (\<exists>w n e. wall = Some w \<and> fromisoformat w = Some n \<and> fromisoformat (py_str txt (approval_expiry (pv_document entry))) = Some e \<and>
      instant n < instant e)"
proof -
  from assms(2,3,4) obtain entry b w n e where st: "state = Some R" and f: "find_provider R (obj_get p ''id'') (declared_version (obj_get p ''id'')) (obj_get p ''sha256'') = Some entry"
    and w: "wall = Some w" "fromisoformat w = Some n" "fromisoformat (py_str txt (approval_expiry (pv_document entry))) = Some e" "moment_le e n = Some False"
    and b: "resolve_connection R (obj_get t ''connection_key'') = Some b" "JStr (pv_id b) = obj_get p ''id''"
      "Some (pv_version b) = declared_version (obj_get p ''id'')" "JStr (pv_sha b) = obj_get p ''sha256''"
    by (auto simp: check_provider_admission_def rejected_def Let_def split: option.splits bool.splits if_splits)
  have e: "entry \<in> set (rg_admitted R)" "JStr (pv_id entry) = obj_get p ''id''" "Some (pv_version entry) = declared_version (obj_get p ''id'')"
    "JStr (pv_sha entry) = obj_get p ''sha256''" using f by (auto simp: find_provider_def find_Some_iff)
  have "b \<in> set (rg_admitted R)" using b(1) by (auto simp: resolve_connection_def find_Some_iff split: pyval.splits option.splits)
  moreover have "(pv_id b, pv_version b) = (pv_id entry, pv_version entry)" using b e by (metis option.inject pyval.inject(4))
  ultimately have "b = entry" using settings_sound(1) [OF assms(1)] e(1) by (metis (mono_tags, lifting) distinct_map inj_onD)
  moreover have "instant n < instant e" using w(4) by (auto simp: moment_le_def split: if_splits)
  ultimately show ?thesis using st b w e by (intro bexI [of _ entry]) auto
qed

section \<open>What the gates demand\<close>

lemma expiry_Inr: "check_expiry txt now_wall v = Inr (n, e) \<longleftrightarrow>
    fromisoformat (py_str txt v) = Some e \<and> fromisoformat now_wall = Some n \<and> moment_le e n = Some False"
  by (auto simp: check_expiry_def rejected_def split: option.splits bool.splits)

lemma window_Inr: "check_window procedure (n, e) = Inr () \<longleftrightarrow> (\<exists>b p. int_like (obj_get procedure ''max_body_ms'') = Some b \<and>
    int_like (obj_get procedure ''max_protection_ms'') = Some p \<and> window_exceeded n (b + p) e = Some False)"
  by (auto simp: check_window_def rejected_def split: option.splits bool.splits)

lemma window_fits: "window_exceeded n ms e = Some False \<Longrightarrow> instant n + ms * 1000 \<le> instant e"
  using instant_plus_us [of n "ms * 1000"] by (auto simp: window_exceeded_def moment_le_def split: sum.splits if_splits)

lemma grant_Inr: "check_unattended_grant txt procedure commissioning now_wall lease = Inr () \<longleftrightarrow>
    (obj_get procedure ''mode'' = JStr ''gateway_owned'' \<longrightarrow> ''unattended'' \<in> set (grant_modes txt commissioning)) \<and>
    (''unattended'' \<in> set (grant_modes txt commissioning) \<longrightarrow>
       (\<exists>r \<in> set (unattended_rows commissioning). obj_get r ''result'' = JStr ''passed'')) \<and>
    (\<exists>n e. check_expiry txt now_wall (obj_get commissioning ''expires_at'') = Inr (n, e) \<and> check_window procedure (n, e) = Inr ()) \<and>
    (obj_get procedure ''mode'' = JStr ''manual'' \<longrightarrow> lease)"
  by (auto simp: check_unattended_grant_def rejected_def Let_def list_ex_iff)

text \<open>
  Claim C38. A start that passes the grant gate is covered: a gateway-owned procedure has the commissioned unattended mode, that mode has a
  passed evidence row, a manual one has a lease, and the whole body and protection budget from the acceptance instant
  ends before the qualification expires.
\<close>

theorem granted_run_covered:
  assumes "check_unattended_grant txt procedure commissioning now_wall lease = Inr ()"
  shows "(obj_get procedure ''mode'' = JStr ''gateway_owned'' \<longrightarrow> ''unattended'' \<in> set (grant_modes txt commissioning) \<and>
      (\<exists>r. JObj r \<in> set (items_of (obj_get commissioning ''evidence'')) \<and> obj_get r ''category'' = JStr ''unattended'' \<and>
         obj_get r ''result'' = JStr ''passed'')) \<and>
    (obj_get procedure ''mode'' = JStr ''manual'' \<longrightarrow> lease) \<and>
    (\<exists>n e b p. fromisoformat now_wall = Some n \<and> fromisoformat (py_str txt (obj_get commissioning ''expires_at'')) = Some e \<and>
      int_like (obj_get procedure ''max_body_ms'') = Some b \<and> int_like (obj_get procedure ''max_protection_ms'') = Some p \<and>
      instant n < instant e \<and> instant n + (b + p) * 1000 \<le> instant e)"
proof -
  from assms [unfolded grant_Inr] obtain n e where ne: "check_expiry txt now_wall (obj_get commissioning ''expires_at'') = Inr (n, e)"
    "check_window procedure (n, e) = Inr ()" by blast
  then have "instant n < instant e" by (auto simp: expiry_Inr moment_le_def split: if_splits)
  moreover obtain b p where bp: "int_like (obj_get procedure ''max_body_ms'') = Some b" "int_like (obj_get procedure ''max_protection_ms'') = Some p"
    "window_exceeded n (b + p) e = Some False" using ne(2) by (auto simp: window_Inr)
  moreover note window_fits [OF bp(3)]
  moreover have "fromisoformat now_wall = Some n" "fromisoformat (py_str txt (obj_get commissioning ''expires_at'')) = Some e"
    using ne(1) by (auto simp: expiry_Inr)
  moreover have "\<exists>r. JObj r \<in> set (items_of (obj_get commissioning ''evidence'')) \<and> obj_get r ''category'' = JStr ''unattended'' \<and>
      obj_get r ''result'' = JStr ''passed''" if "''unattended'' \<in> set (grant_modes txt commissioning)"
    using assms that by (auto simp: grant_Inr unattended_rows_def split: pyval.splits if_splits)
  ultimately show ?thesis using assms unfolding grant_Inr by blast
qed

text \<open>Every approval covers the window of the run.\<close>

theorem approvals_cover_run:
  "check_provider_grant_window txt approvals now_wall body protection = Inr () \<longleftrightarrow>
    (\<forall>a \<in> set approvals. \<exists>n e b p. fromisoformat now_wall = Some n \<and> fromisoformat (py_str txt (snd (snd a))) = Some e \<and>
      int_like body = Some b \<and> int_like protection = Some p \<and> window_exceeded n (b + p) e = Some False)"
  unfolding check_provider_grant_window_def check_each_Inr_iff
  by (rule ball_cong [OF refl]) (auto simp: check_approval_def rejected_def Let_def split: option.splits bool.splits)

section \<open>A sample bench with a provider\<close>

definition sample_registry_doc :: pyval where
  "sample_registry_doc = JObj [(''admitted'', JList [JObj [(''id'', JStr ''urn:otdp:transport-provider:usb:1.0.0''), (''version'', JStr ''1.0.0''),
      (''sha256'', JStr ''h''), (''feature_id'', JStr ''otdp.transport.usb/1.0.0''), (''document'', JStr ''providers/usb.json'')]]),
    (''connections'', JList [JObj [(''connection_key'', JStr ''k''), (''provider_id'', JStr ''urn:otdp:transport-provider:usb:1.0.0'')]])]"

definition sample_settings :: settings_env where
  "sample_settings = \<lparr>se_valid = (\<lambda>_. True),
     se_files = \<lparr>fl_link = (\<lambda>_. Inr False), fl_regular = (\<lambda>_. Inr True), fl_size = (\<lambda>_. Inr 2), fl_read = (\<lambda>_. Inr ''{}'')\<rparr>,
     se_load = (\<lambda>_ _. Inr (JObj [(''approval'', JObj [(''expires_at'', JStr ''2027-01-01T00:00:00+00:00'')])])), se_contract = (\<lambda>_. True)\<rparr>"

definition sample_registry :: registry where
  "sample_registry = \<lparr>rg_admitted = [\<lparr>pv_id = ''urn:otdp:transport-provider:usb:1.0.0'', pv_version = ''1.0.0'', pv_sha = ''h'',
      pv_feature = ''otdp.transport.usb/1.0.0'', pv_document = JObj [(''approval'', JObj [(''expires_at'', JStr ''2027-01-01T00:00:00+00:00'')])]\<rparr>],
     rg_connections = [(''k'', ''urn:otdp:transport-provider:usb:1.0.0'')]\<rparr>"

definition sample_transport :: obj where
  "sample_transport = [(''type'', JStr ''custom''), (''connection_key'', JStr ''k''), (''provider'', JObj [(''id'',
     JStr ''urn:otdp:transport-provider:usb:1.0.0''), (''sha256'', JStr ''h''), (''feature_id'', JStr ''otdp.transport.usb/1.0.0'')])]"

definition sample_endpoint :: pyval where
  "sample_endpoint = JObj [(''connections'', JList [JObj [(''connection_key'', JStr ''k''), (''usb'', JObj [(''vendor_id'', JInt 1),
     (''product_id'', JInt 2), (''serial'', JStr ''s''), (''interface'', JInt 1)])]])]"

lemma sample_settings_load: "load_transport_settings sample_settings sample_registry_doc = Inr sample_registry"
  by code_simp

theorem endpoints_exclusive_witness:
  "keys_on [(''k'', \<lparr>us_vendor = 1, us_product = 2, us_serial = ''s'', us_interface = 1\<rparr>)]
     \<lparr>us_vendor = 1, us_product = 2, us_serial = ''s'', us_interface = 1\<rparr> = [''k''] \<and> ''k'' \<in> set (bound_keys sample_registry)"
proof -
  have l: "load_provider_connections (Inr ()) (\<lambda>_. True) (Some sample_endpoint) sample_registry =
      Inr [(''k'', \<lparr>us_vendor = 1, us_product = 2, us_serial = ''s'', us_interface = 1\<rparr>)]" by code_simp
  from endpoints_exclusive [OF l, of "''k''" "\<lparr>us_vendor = 1, us_product = 2, us_serial = ''s'', us_interface = 1\<rparr>"] show ?thesis by simp
qed

theorem provider_admission_sound_witness:
  "\<exists>entry. resolve_connection sample_registry (JStr ''k'') = Some entry \<and> pv_sha entry = ''h''"
proof -
  have d: "declared_provider [(''transport'', JObj sample_transport)] = Some (sample_transport,
      [(''id'', JStr ''urn:otdp:transport-provider:usb:1.0.0''), (''sha256'', JStr ''h''), (''feature_id'', JStr ''otdp.transport.usb/1.0.0'')])"
    by code_simp
  have a: "check_provider_admission (\<lambda>_. []) ''descriptor[d]'' [(''transport'', JObj sample_transport)] (Some sample_registry)
      (Some ''2026-09-11T00:00:00+00:00'') = Inr ()" by code_simp
  have k: "obj_get sample_transport ''connection_key'' = JStr ''k''" by code_simp
  from provider_admission_sound [OF sample_settings_load d a] have "\<exists>entry. resolve_connection sample_registry (obj_get sample_transport ''connection_key'') = Some entry \<and>
      obj_get [(''id'', JStr ''urn:otdp:transport-provider:usb:1.0.0''), (''sha256'', JStr ''h''),
        (''feature_id'', JStr ''otdp.transport.usb/1.0.0'')] ''sha256'' = JStr (pv_sha entry)" by blast
  then show ?thesis by (simp add: k) (auto simp: obj_get_def)
qed

theorem granted_run_covered_witness:
  "instant \<lparr>local_us = 1789084800000000, utc_offset = Some 0\<rparr> + (1000 + 500) * 1000 \<le> instant \<lparr>local_us = 1789084802000000, utc_offset = Some 0\<rparr>"
proof -
  let ?p = "[(''mode'', JStr ''gateway_owned''), (''max_body_ms'', JInt 1000), (''max_protection_ms'', JInt 500)]"
  let ?c = "[(''modes'', JList [JStr ''unattended'']), (''evidence'', JList [JObj [(''category'', JStr ''unattended''), (''result'', JStr ''passed'')]]),
    (''expires_at'', JStr ''2026-09-11T00:00:02+00:00'')]"
  have g: "check_unattended_grant (\<lambda>_. []) ?p ?c ''2026-09-11T00:00:00+00:00'' False = Inr ()" by code_simp
  have t: "fromisoformat ''2026-09-11T00:00:00+00:00'' = Some \<lparr>local_us = 1789084800000000, utc_offset = Some 0\<rparr>"
    "fromisoformat ''2026-09-11T00:00:02+00:00'' = Some \<lparr>local_us = 1789084802000000, utc_offset = Some 0\<rparr>" by code_simp+
  have o: "obj_get ?p ''max_body_ms'' = JInt 1000" "obj_get ?p ''max_protection_ms'' = JInt 500"
    "obj_get ?c ''expires_at'' = JStr ''2026-09-11T00:00:02+00:00''" by code_simp+
  from granted_run_covered [OF g] show ?thesis unfolding o by (auto simp: t)
qed

end
