(* ===== verification/Spec2Isabelle.thy ===== *)
theory Spec2Isabelle
  imports Py_Float Bench_Prelude Py_Text Corpus Host Policy Store Documents Semantics Binding Resolve Evidence
    Executor Interpreter Execution Protection Evolve Monitor Records Coordinator Sample_Run Lifecycle
    Recovery Stop Derivation Content Captures Dispositions Streams Polling Versions Locks Grants
begin

text \<open>
  A verification development for the Benchweave control core (\<open>src/src/benchweave\<close>): the part of
  the gateway that decides what may be done to a bench of instruments, does it, and writes down what
  happened. Definitions are translated from the Python source, one definition per operation or handler,
  with every raise as a value.

  \<^bold>\<open>The program.\<close> A run request names a procedure, a policy, a bench, a binding and a
  commissioning record. Admission (\<open>control/semantics.py\<close>) checks what the schemas cannot; binding
  (\<open>control/binding.py\<close>) maps roles to devices, checks the resource graph and takes the lease of the
  bench in the durable store (\<open>state/store.py\<close>). The executor (\<open>control/executor.py\<close>) interprets
  the steps of the procedure: it resolves references to earlier results, asks the allow rules
  (\<open>control/policy.py\<close>) before anything leaves the host, dispatches to device plugins under a deadline,
  selects samples, decides predicates and keeps an occurrence ledger so that a re-entry repeats no work.
  Datasets a device returns gain derived variables (\<open>measurement/derivation.py\<close>); captures and artifacts are kept in
  content tables beside the run tables (\<open>content\<close>) until a disposition deletes them (\<open>state/dispositions.py\<close>).
  The coordinator (\<open>control/coordinator.py\<close>) runs the executor under a monitor that watches the bench, then the
  protective transition (\<open>control/protection.py\<close>), and writes one terminal record for every run. While it waits it polls the
  event streams the devices of the run were subscribed to (\<open>control/stream_polling.py\<close>, \<open>content/stream_services.py\<close>).

  \<^bold>\<open>Theories.\<close>
  \<^item> \<open>Py_Float\<close>: binary64 values as Python floats. \<open>Bench_Prelude\<close>: exceptions and results, JSON
    values, small printers, sequence numbers and the interface \<open>seq_authority\<close>. \<open>Py_Text\<close>: the
    text and \<open>datetime\<close> operations the code uses.
  \<^item> \<open>Host\<close>: enumerations, readings, requests and results of \<open>host/types.py\<close>, the world the engine acts
    on (clocks and plugins, code outside the gateway) with the interface \<open>timed_world\<close>, and \<open>TestClock\<close>.
  \<^item> \<open>Policy\<close>: the allow rules and the continuous safety conditions. The lemmas characterise exactly when
    an action is allowed and what a clear condition guarantees about the physical value.
  \<^item> \<open>Store\<close>: tables, transactions, crashes, and every operation that writes. \<open>store_steps\<close> are all histories
    of calls and crashes; the invariants (numbering of leases and events, idempotency keys, tombstones,
    generations) hold in all of them. \<open>seq_authority\<close> is interpreted on the lease and the event tables.
  \<^item> \<open>Documents\<close>: the admitted documents. \<open>Semantics\<close>: admission and the static time budget, which is proved to
    be the exact maximum over the relation \<open>body_time\<close> of all executions. \<open>Binding\<close>: roles, the depth-first
    graph check against the reference notion of closed and acyclic, the closure, and the lease.
  \<^item> \<open>Resolve\<close>, \<open>Evidence\<close>, \<open>Executor\<close>: the executor. Events live in a heap because the body, the ledger and the
    crash guard share them; the ledger and the issued-id registry are maps from occurrences.
  \<^item> \<open>Interpreter\<close>: frame and effect laws of single steps, a world that logs its dispatches, and the locale
    \<open>body_relation\<close>, which lifts a relation respected by the step heads to whole bodies.
    \<open>Execution\<close>: its interpretations (dispatch discipline, honest completion) and the simulation of a
    run by its replay.
  \<^item> \<open>Protection\<close>: the signal snapshot, the safe actions, verification and \<open>ProtectionEngine\<close>. The polling loop is a
    \<open>partial_function (option)\<close>; on a \<open>timed_world\<close> it is proved to return.
  \<^item> \<open>Evolve\<close>: the relation \<open>evolves\<close> between worlds before and after any sequence of calls, which bodies and
    protective transitions respect. \<open>Monitor\<close>: the run monitor, its wrapped plugins and clock, over a site (the
    world together with the store); \<open>monitor_kept\<close> is its invariant along \<open>evolves\<close>.
  \<^item> \<open>Records\<close>: step events as JSON and read back, the truth table, the terminal record. \<open>Coordinator\<close>:
    \<open>RunCoordinator\<close> from acceptance to release. \<open>Corpus\<close>: the vendored contract files and the validator of
    run records. \<open>Sample_Run\<close>: one site and one whole run on it, evaluated in the kernel, which the witnesses of the
    theories after it use. \<open>Lifecycle\<close>: what holds of whole runs, over the interfaces \<open>timed_site\<close> and \<open>quiet_site\<close>
    (the latter: clocks and devices leave the store alone).
  \<^item> \<open>Recovery\<close>: \<open>recover_interrupted\<close>, over the interface \<open>quiet_coordinator\<close>; \<open>swept\<close> is the relation
    between the store before and after a sweep. \<open>Stop\<close>: \<open>interrupt_queued_at_stop\<close> and its relation \<open>stopped\<close>.
  \<^item> \<open>Derivation\<close>: derived variables (\<open>measurement/derivation.py\<close>), from the tokenizer to the executor's call of them. The
    parser is proved to accept exactly the documented grammar, stated as four inductive relations; evaluation is typed and its
    recorded markers replay.
  \<^item> \<open>Content\<close>, \<open>Captures\<close>: the content tables and the staged capture writer (\<open>content/store.py\<close>,
    \<open>content/capture_store.py\<close>); \<open>capture_inv\<close> holds after every list of calls, crashes and sweeps.
    \<open>Dispositions\<close>: the audited deletion of governed rows (\<open>state/dispositions.py\<close>) with the collection of artifacts.
  \<^item> \<open>Streams\<close>: the subscriptions of a bridge session and the poll of one event, over all lists of calls; the automaton
    \<open>scan\<close> reads the evidence rows of a subscription and rejects a jump that no row announces. \<open>Polling\<close>: the poll engine, the
    poll slices of the host and the waits of the run clock with them; \<open>logged\<close> writes the calls of an engine down.
  \<^item> \<open>Versions\<close>, \<open>Locks\<close>: the versions of the vendored standards, the policy that says which are served, and the two
    classifiers of a pin, which are proved to agree; the resolution of a plugin's constraints to a lock, which is sound and
    stable under a second resolution. \<open>Grants\<close>: the transport providers the operator admitted, their endpoints, and
    the gates a start passes.

  \<^bold>\<open>Bounds.\<close> Nothing here needs fuel: the step recursion descends into the procedure, loops end with
  their count, the graph searches of \<open>Binding\<close> come with termination proofs (the unvisited resources, then the stack),
  a sliced wait with the time left. A polling is a \<open>partial_function\<close>, which ends on a clock that moves.
  The verification loop ends when the clock reaches the protective deadline.

  \<^bold>\<open>Not modelled.\<close> JSON Schema validation (a third-party package) is the parameter \<open>cf_validate\<close>, and for
  the run-record schemas the field \<open>cp_compile\<close> of a \<open>corpus\<close>, whose other fields are what its files hold; device plugins are the parameter \<open>world\<close>.
  The executor calls derivation through the field \<open>cf_derive\<close>, whose value in the program is \<open>derive_for\<close>. SHA-256 digests are named by their canonical input or
  computed by a parameter. Reasons of a record are values, not their texts. Process-control exceptions
  (\<open>KeyboardInterrupt\<close>), snapshot retention, the arming and the teardown of a stream host
  are left out, and so are the dispatch gates of the plugin bridge. Log output, file and SQLite
  plumbing, the decoding of documents, the HTTP, CLI and UI layers and the plugin processes are I/O around this core.
  So are the retention settings and report, the plugin registry, the presentation tooling, and of
  the standards tooling promotion, vendoring and the release checks.
  In the content tables contention for the write lock, and the stamps that mark its exceptions, are left out.
\<close>

end
